(* ===== verification/Prelude.thy ===== *)
theory Prelude
  imports Main "HOL-Library.Word" "HOL-Library.Monad_Syntax"
begin

unbundle bit_operations_syntax

text \<open>
  Shared vocabulary of the development: the machine types of the C sources, the view of a caller's
  buffer that a \<^verbatim>\<open>const char *\<close> gives, little-endian access to bytes, and the generic facts on words
  and lists that the component theories use. Nothing in this theory models a component.
\<close>

section \<open>Machine types\<close>

type_synonym u8 = "8 word"
type_synonym u16 = "16 word"
type_synonym u32 = "32 word"
type_synonym u64 = "64 word"

text \<open>A C pointer is a 64-bit word; the null pointer is \<open>0\<close>.\<close>

type_synonym ptr = u64

abbreviation NULL :: ptr where
  "NULL \<equiv> 0"

named_theorems le_simps "normal forms of little-endian reads"
named_theorems heap_simps "reads of a heap after a write"
named_theorems frame "fields an operation leaves alone"

section \<open>Buffers\<close>

text \<open>
  What a pointer into the caller's memory gives a function: the address, the bytes from there on
  (\<open>bmem b i\<close> is the byte at \<open>baddr b + i\<close>), and how many of them belong to the object. A copy that
  leaves the object is a fault; an aligned word read that only shares its word with the object is
  not, and returns whatever the memory holds.
\<close>

record cbuf =
  baddr :: u64
  bmem :: "nat \<Rightarrow> u8"
  blen :: nat

definition buf_bytes :: "cbuf \<Rightarrow> nat \<Rightarrow> u8 list" where
  "buf_bytes b n = map (bmem b) [0..<n]"

lemma length_buf_bytes [simp]: "length (buf_bytes b n) = n"
  by (simp add: buf_bytes_def)

lemma nth_buf_bytes [simp]: "i < n \<Longrightarrow> buf_bytes b n ! i = bmem b i"
  by (simp add: buf_bytes_def)

lemma take_buf_bytes [simp]: "m \<le> n \<Longrightarrow> take m (buf_bytes b n) = buf_bytes b m"
  by (simp add: buf_bytes_def take_map take_upt)

lemma buf_bytes_eq_iff: "buf_bytes b n = buf_bytes b' n \<longleftrightarrow> (\<forall>i<n. bmem b i = bmem b' i)"
  by (auto simp: buf_bytes_def)

text \<open>A buffer that holds exactly a given byte list, at a given address, with zeros after it.\<close>

definition mk_buf :: "u64 \<Rightarrow> u8 list \<Rightarrow> cbuf" where
  "mk_buf p xs = \<lparr>baddr = p, bmem = (\<lambda>i. if i < length xs then xs ! i else 0), blen = length xs\<rparr>"

lemma mk_buf_sel [simp]:
  "baddr (mk_buf p xs) = p" "blen (mk_buf p xs) = length xs"
  by (simp_all add: mk_buf_def)

lemma buf_bytes_mk_buf: "n \<le> length xs \<Longrightarrow> buf_bytes (mk_buf p xs) n = take n xs"
  by (auto simp: buf_bytes_def mk_buf_def intro!: nth_equalityI)

section \<open>Little-endian words\<close>

definition le16 :: "u8 \<Rightarrow> u8 \<Rightarrow> u16" where
  "le16 b0 b1 = ucast b0 OR push_bit 8 (ucast b1)"

definition le32 :: "u8 \<Rightarrow> u8 \<Rightarrow> u8 \<Rightarrow> u8 \<Rightarrow> u32" where
  "le32 b0 b1 b2 b3 =
     ucast b0 OR push_bit 8 (ucast b1) OR push_bit 16 (ucast b2) OR push_bit 24 (ucast b3)"

lemma bit_le16:
  "bit (le16 b0 b1) n \<longleftrightarrow> n < 16 \<and> (if n < 8 then bit b0 n else bit b1 (n - 8))"
  by (auto simp: le16_def bit_simps dest: bit_imp_le_length)

lemma bit_le32:
  "bit (le32 b0 b1 b2 b3) n \<longleftrightarrow> n < 32 \<and>
     (if n < 8 then bit b0 n else if n < 16 then bit b1 (n - 8)
      else if n < 24 then bit b2 (n - 16) else bit b3 (n - 24))"
  by (auto simp: le32_def bit_simps dest: bit_imp_le_length)

lemma le32_or_is_add:
  "le32 b0 b1 b2 b3 =
     ucast b0 + push_bit 8 (ucast b1) + push_bit 16 (ucast b2) + push_bit 24 (ucast b3)"
proof -
  have 1: "(ucast b0 :: u32) + push_bit 8 (ucast b1) = ucast b0 OR push_bit 8 (ucast b1)"
    by (rule disjunctive_add_eq_or, rule bit_eqI) (auto simp: bit_simps dest: bit_imp_le_length)
  have 2: "((ucast b0 :: u32) OR push_bit 8 (ucast b1)) + push_bit 16 (ucast b2)
      = (ucast b0 OR push_bit 8 (ucast b1)) OR push_bit 16 (ucast b2)"
    by (rule disjunctive_add_eq_or, rule bit_eqI) (auto simp: bit_simps dest: bit_imp_le_length)
  have 3: "((ucast b0 :: u32) OR push_bit 8 (ucast b1) OR push_bit 16 (ucast b2)) + push_bit 24 (ucast b3)
      = (ucast b0 OR push_bit 8 (ucast b1) OR push_bit 16 (ucast b2)) OR push_bit 24 (ucast b3)"
    by (rule disjunctive_add_eq_or, rule bit_eqI) (auto simp: bit_simps dest: bit_imp_le_length)
  show ?thesis
    by (simp add: le32_def 1 2 3 or.assoc)
qed

text \<open>Masking the low bytes of a word is reading it with the high bytes zero.\<close>

lemma le32_mask24: "le32 b0 b1 b2 b3 AND 0xffffff = le32 b0 b1 b2 0"
proof -
  have m: "(0xffffff :: u32) = mask 24" by (simp add: mask_eq_exp_minus_1)
  show ?thesis unfolding m by (rule bit_eqI) (auto simp: bit_simps bit_le32)
qed

lemma le32_mask16: "le32 b0 b1 b2 b3 AND 0xffff = le32 b0 b1 0 0"
proof -
  have m: "(0xffff :: u32) = mask 16" by (simp add: mask_eq_exp_minus_1)
  show ?thesis unfolding m by (rule bit_eqI) (auto simp: bit_simps bit_le32)
qed

lemma le32_mask8: "le32 b0 b1 b2 b3 AND 0xff = le32 b0 0 0 0"
proof -
  have m: "(0xff :: u32) = mask 8" by (simp add: mask_eq_exp_minus_1)
  show ?thesis unfolding m by (rule bit_eqI) (auto simp: bit_simps bit_le32)
qed

lemmas le32_masks [le_simps] = le32_mask24 le32_mask16 le32_mask8

lemma ucast_le16: "(ucast (le16 b0 b1) :: u32) = le32 b0 b1 0 0"
  by (rule bit_eqI) (auto simp: bit_simps bit_le32 bit_le16)

lemma push_le16: "push_bit 16 (ucast (le16 b2 b3) :: u32) = le32 0 0 b2 b3"
  by (rule bit_eqI) (auto simp: bit_simps bit_le32 bit_le16)

lemma le16_pair_is_le32:
  "ucast (le16 b0 b1) + push_bit 16 (ucast (le16 b2 b3)) = le32 b0 b1 b2 b3"
  by (simp only: push_le16) (simp add: ucast_le16 le32_or_is_add)

section \<open>Lists\<close>

lemma filter_neq_id [simp]: "p \<notin> set xs \<Longrightarrow> filter (\<lambda>x. x \<noteq> p) xs = xs"
  by (induction xs) auto

lemma takeWhile_until [simp]: "x \<notin> set xs \<Longrightarrow> takeWhile (\<lambda>c. c \<noteq> x) (xs @ x # ys) = xs"
  by (induction xs) auto

lemma dropWhile_until [simp]: "x \<notin> set xs \<Longrightarrow> dropWhile (\<lambda>c. c \<noteq> x) (xs @ x # ys) = x # ys"
  by (induction xs) auto

section \<open>Words and naturals\<close>

lemma unat_of_nat_less: "n < 2 ^ LENGTH('a) \<Longrightarrow> unat (of_nat n :: 'a :: len word) = n"
  by (simp add: unat_of_nat)

lemma unat_inc: "unat w < 2 ^ LENGTH('a) - 1 \<Longrightarrow> unat (w + 1 :: 'a :: len word) = unat w + 1"
  by (simp add: unat_word_ariths)

lemma unat_drop_bit: "unat (drop_bit n (w :: 'a :: len word)) = unat w div 2 ^ n"
  by (simp add: unsigned_drop_bit_eq take_bit_nat_eq_self [OF unsigned_less] drop_bit_nat_def)

lemma unat_ucast_u64 [simp]: "unat (ucast (a :: u32) :: u64) = unat a"
  by transfer (simp add: take_bit_take_bit)

lemma ucast_of_nat_u64: "n < 2 ^ 32 \<Longrightarrow> (ucast (of_nat n :: u32) :: u64) = of_nat n"
  by (simp add: word_unat_eq_iff unat_of_nat_less)

lemma ucast_u32_less_iff: "(ucast (a :: u32) :: u64) < b \<longleftrightarrow> unat a < unat b"
  by (simp add: word_less_nat_alt)

text \<open>A non-negative C \<^verbatim>\<open>int\<close> keeps its value when it is converted to \<^verbatim>\<open>size_t\<close>.\<close>

lemma sint_small: "unat (n :: u32) < 2 ^ 31 \<Longrightarrow> sint n = int (unat n)"
proof -
  assume "unat n < 2 ^ 31"
  then have "int (unat n) < int (2 ^ 31)" by (simp only: of_nat_less_iff)
  then have hi: "uint n < 2 ^ 31" by simp
  have lo: "- (2 ^ 31) \<le> uint n" by (rule order_trans [OF _ uint_ge_0]) simp
  have "sint n = uint n"
    using signed_take_bit_int_eq_self [OF lo hi] by (simp add: sint_uint)
  then show ?thesis by simp
qed

lemma scast_u64_small: "unat (n :: u32) < 2 ^ 31 \<Longrightarrow> (scast n :: u64) = of_nat (unat n)"
  by (simp add: scast_eq sint_small del: of_nat_unat)

lemma unat_scast_u64: "unat (n :: u32) < 2 ^ 31 \<Longrightarrow> unat (scast n :: u64) = unat n"
  by (simp add: scast_u64_small unat_of_nat_less del: of_nat_unat)

lemma xor_cancel_right [simp]: "(x XOR y) XOR y = (x :: 'a :: len word)"
  by (simp add: xor.assoc)

end
