(* ===== verification/Jenkins_Hash.thy ===== *)
theory Jenkins_Hash
  imports Prelude
begin

unbundle bit_operations_syntax

text \<open>
  The hash function of the key-value store, \<^verbatim>\<open>src/src/jenkins_hash.c\<close>: the macros \<open>rot\<close>, \<open>mix\<close> and
  \<open>final\<close>, the three little-endian variants that \<open>jenkins_hash\<close> chooses by the alignment of the key
  (32-bit, 16-bit and byte reads), and the two big-endian ones. The main results: \<open>mix\<close> and \<open>final\<close>
  are reversible, and the three little-endian variants compute the same function of the key's bytes,
  which the interface \<open>content_hash\<close> states for the clients of the hash.
\<close>

section \<open>Mixing\<close>

definition rot :: "u32 \<Rightarrow> nat \<Rightarrow> u32" where
  "rot x k = push_bit k x XOR drop_bit (32 - k) x"

text \<open>
  \<open>mix\<close> has six lines of one shape: a variable loses the second, is XORed with a rotation of it, and
  the second gains the third. \<open>final\<close> has seven steps of one shape.
\<close>

definition mix_line :: "nat \<Rightarrow> u32 \<Rightarrow> u32 \<Rightarrow> u32 \<Rightarrow> u32 \<times> u32" where
  "mix_line k x y z = (let x = x - z; x = x XOR rot z k; z = z + y in (x, z))"

definition mix :: "u32 \<times> u32 \<times> u32 \<Rightarrow> u32 \<times> u32 \<times> u32" where
  "mix = (\<lambda>(a, b, c).
     let (a, c) = mix_line 4 a b c;
         (b, a) = mix_line 6 b c a;
         (c, b) = mix_line 8 c a b;
         (a, c) = mix_line 16 a b c;
         (b, a) = mix_line 19 b c a;
         (c, b) = mix_line 4 c a b
     in (a, b, c))"

definition final_step :: "nat \<Rightarrow> u32 \<Rightarrow> u32 \<Rightarrow> u32" where
  "final_step k x y = (let x = x XOR y in x - rot y k)"

definition final :: "u32 \<times> u32 \<times> u32 \<Rightarrow> u32 \<times> u32 \<times> u32" where
  "final = (\<lambda>(a, b, c).
     let c = final_step 14 c b;
         a = final_step 11 a c;
         b = final_step 25 b a;
         c = final_step 16 c b;
         a = final_step 4 a c;
         b = final_step 14 b a;
         c = final_step 24 c b
     in (a, b, c))"

section \<open>Reading the key\<close>

text \<open>
  The key is the memory \<open>k\<close> from the key's address on. A word read takes the bytes in little-endian
  order; on an aligned address it may read up to three bytes past the key.
\<close>

definition k32 :: "(nat \<Rightarrow> u8) \<Rightarrow> nat \<Rightarrow> nat \<Rightarrow> u32" where
  "k32 k i j = le32 (k (i + 4 * j)) (k (i + (4 * j + 1))) (k (i + (4 * j + 2))) (k (i + (4 * j + 3)))"

definition k16 :: "(nat \<Rightarrow> u8) \<Rightarrow> nat \<Rightarrow> nat \<Rightarrow> u32" where
  "k16 k i j = ucast (le16 (k (i + 2 * j)) (k (i + (2 * j + 1))))"

definition k8 :: "(nat \<Rightarrow> u8) \<Rightarrow> nat \<Rightarrow> nat \<Rightarrow> u32" where
  "k8 k i j = ucast (k (i + j))"

section \<open>The little-endian variants\<close>

text \<open>
  Each loop returns the offset it stopped at, the length that is left and the state. The \<open>switch\<close> on
  the rest returns the state and whether \<open>final\<close> is still to be applied (the empty key returns at
  once).
\<close>

fun blocks32 :: "(nat \<Rightarrow> u8) \<Rightarrow> nat \<Rightarrow> nat \<Rightarrow> u32 \<times> u32 \<times> u32 \<Rightarrow> nat \<times> nat \<times> u32 \<times> u32 \<times> u32" where
  "blocks32 k i len (a, b, c) =
     (if len > 12
      then blocks32 k (i + 12) (len - 12) (mix (a + k32 k i 0, b + k32 k i 1, c + k32 k i 2))
      else (i, len, a, b, c))"

definition last32 :: "(nat \<Rightarrow> u8) \<Rightarrow> nat \<times> nat \<times> u32 \<times> u32 \<times> u32 \<Rightarrow> u32 \<times> u32 \<times> u32" where
  "last32 k = (\<lambda>(i, len, a, b, c).
     if len = 12 then (a + k32 k i 0, b + k32 k i 1, c + k32 k i 2)
     else if len = 11 then (a + k32 k i 0, b + k32 k i 1, c + (k32 k i 2 AND 0xffffff))
     else if len = 10 then (a + k32 k i 0, b + k32 k i 1, c + (k32 k i 2 AND 0xffff))
     else if len = 9 then (a + k32 k i 0, b + k32 k i 1, c + (k32 k i 2 AND 0xff))
     else if len = 8 then (a + k32 k i 0, b + k32 k i 1, c)
     else if len = 7 then (a + k32 k i 0, b + (k32 k i 1 AND 0xffffff), c)
     else if len = 6 then (a + k32 k i 0, b + (k32 k i 1 AND 0xffff), c)
     else if len = 5 then (a + k32 k i 0, b + (k32 k i 1 AND 0xff), c)
     else if len = 4 then (a + k32 k i 0, b, c)
     else if len = 3 then (a + (k32 k i 0 AND 0xffffff), b, c)
     else if len = 2 then (a + (k32 k i 0 AND 0xffff), b, c)
     else if len = 1 then (a + (k32 k i 0 AND 0xff), b, c)
     else (a, b, c))"

fun blocks16 :: "(nat \<Rightarrow> u8) \<Rightarrow> nat \<Rightarrow> nat \<Rightarrow> u32 \<times> u32 \<times> u32 \<Rightarrow> nat \<times> nat \<times> u32 \<times> u32 \<times> u32" where
  "blocks16 k i len (a, b, c) =
     (if len > 12
      then blocks16 k (i + 12) (len - 12)
             (mix (a + (k16 k i 0 + push_bit 16 (k16 k i 1)),
                   b + (k16 k i 2 + push_bit 16 (k16 k i 3)),
                   c + (k16 k i 4 + push_bit 16 (k16 k i 5))))
      else (i, len, a, b, c))"

definition last16 :: "(nat \<Rightarrow> u8) \<Rightarrow> nat \<times> nat \<times> u32 \<times> u32 \<times> u32 \<Rightarrow> u32 \<times> u32 \<times> u32" where
  "last16 k = (\<lambda>(i, len, a, b, c).
     let w0 = k16 k i 0 + push_bit 16 (k16 k i 1);
         w1 = k16 k i 2 + push_bit 16 (k16 k i 3);
         w2 = k16 k i 4 + push_bit 16 (k16 k i 5)
     in if len = 12 then (a + w0, b + w1, c + w2)
     else if len = 11 then (a + w0, b + w1, c + push_bit 16 (k8 k i 10) + k16 k i 4)
     else if len = 10 then (a + w0, b + w1, c + k16 k i 4)
     else if len = 9 then (a + w0, b + w1, c + k8 k i 8)
     else if len = 8 then (a + w0, b + w1, c)
     else if len = 7 then (a + w0, b + push_bit 16 (k8 k i 6) + k16 k i 2, c)
     else if len = 6 then (a + w0, b + k16 k i 2, c)
     else if len = 5 then (a + w0, b + k8 k i 4, c)
     else if len = 4 then (a + w0, b, c)
     else if len = 3 then (a + push_bit 16 (k8 k i 2) + k16 k i 0, b, c)
     else if len = 2 then (a + k16 k i 0, b, c)
     else if len = 1 then (a + k8 k i 0, b, c)
     else (a, b, c))"

fun blocks8 :: "(nat \<Rightarrow> u8) \<Rightarrow> nat \<Rightarrow> nat \<Rightarrow> u32 \<times> u32 \<times> u32 \<Rightarrow> nat \<times> nat \<times> u32 \<times> u32 \<times> u32" where
  "blocks8 k i len (a, b, c) =
     (if len > 12
      then blocks8 k (i + 12) (len - 12)
             (mix (a + k8 k i 0 + push_bit 8 (k8 k i 1) + push_bit 16 (k8 k i 2) + push_bit 24 (k8 k i 3),
                   b + k8 k i 4 + push_bit 8 (k8 k i 5) + push_bit 16 (k8 k i 6) + push_bit 24 (k8 k i 7),
                   c + k8 k i 8 + push_bit 8 (k8 k i 9) + push_bit 16 (k8 k i 10) + push_bit 24 (k8 k i 11)))
      else (i, len, a, b, c))"

text \<open>
  The byte \<open>switch\<close> falls through every case: entering at \<open>len\<close> adds the bytes \<open>len - 1\<close> down to \<open>0\<close>.
\<close>

definition last8 :: "(nat \<Rightarrow> u8) \<Rightarrow> nat \<times> nat \<times> u32 \<times> u32 \<times> u32 \<Rightarrow> u32 \<times> u32 \<times> u32" where
  "last8 k = (\<lambda>(i, len, a, b, c).
     let c = (if len \<ge> 12 then c + push_bit 24 (k8 k i 11) else c);
         c = (if len \<ge> 11 then c + push_bit 16 (k8 k i 10) else c);
         c = (if len \<ge> 10 then c + push_bit 8 (k8 k i 9) else c);
         c = (if len \<ge> 9 then c + k8 k i 8 else c);
         b = (if len \<ge> 8 then b + push_bit 24 (k8 k i 7) else b);
         b = (if len \<ge> 7 then b + push_bit 16 (k8 k i 6) else b);
         b = (if len \<ge> 6 then b + push_bit 8 (k8 k i 5) else b);
         b = (if len \<ge> 5 then b + k8 k i 4 else b);
         a = (if len \<ge> 4 then a + push_bit 24 (k8 k i 3) else a);
         a = (if len \<ge> 3 then a + push_bit 16 (k8 k i 2) else a);
         a = (if len \<ge> 2 then a + push_bit 8 (k8 k i 1) else a);
         a = (if len \<ge> 1 then a + k8 k i 0 else a)
     in (a, b, c))"

text \<open>
  The end of every variant: \<^verbatim>\<open>case 0\<close> of the \<open>switch\<close> returns \<open>c\<close> as it is, every other case leaves
  the \<open>switch\<close> and applies \<open>final\<close>.
\<close>

definition finish :: "((nat \<times> nat \<times> u32 \<times> u32 \<times> u32) \<Rightarrow> u32 \<times> u32 \<times> u32)
    \<Rightarrow> nat \<times> nat \<times> u32 \<times> u32 \<times> u32 \<Rightarrow> u32" where
  "finish tail s = (case s of (i, len, a, b, c) \<Rightarrow>
     if len = 0 then c else snd (snd (final (tail s))))"

definition hash_init :: "u64 \<Rightarrow> u32 \<times> u32 \<times> u32" where
  "hash_init len = (let a = 0xdeadbeef + ucast len + 0 in (a, a, a))"

definition jenkins_hash :: "u64 \<Rightarrow> (nat \<Rightarrow> u8) \<Rightarrow> u64 \<Rightarrow> u32" where
  "jenkins_hash addr k len =
     (if addr AND 0x3 = 0 then finish (last32 k) (blocks32 k 0 (unat len) (hash_init len))
      else if addr AND 0x1 = 0 then finish (last16 k) (blocks16 k 0 (unat len) (hash_init len))
      else finish (last8 k) (blocks8 k 0 (unat len) (hash_init len)))"


text \<open>Under \<^verbatim>\<open>VALGRIND\<close> the aligned variant reads the rest of the key byte by byte instead of masking.\<close>

definition last32_valgrind :: "(nat \<Rightarrow> u8) \<Rightarrow> nat \<times> nat \<times> u32 \<times> u32 \<times> u32 \<Rightarrow> u32 \<times> u32 \<times> u32" where
  "last32_valgrind k = (\<lambda>(i, len, a, b, c).
     if len = 12 then (a + k32 k i 0, b + k32 k i 1, c + k32 k i 2)
     else if 8 \<le> len \<and> len \<le> 11 then
       (let c = (if len \<ge> 11 then c + push_bit 16 (k8 k i 10) else c);
            c = (if len \<ge> 10 then c + push_bit 8 (k8 k i 9) else c);
            c = (if len \<ge> 9 then c + k8 k i 8 else c)
        in (a + k32 k i 0, b + k32 k i 1, c))
     else if 4 \<le> len \<and> len \<le> 7 then
       (let b = (if len \<ge> 7 then b + push_bit 16 (k8 k i 6) else b);
            b = (if len \<ge> 6 then b + push_bit 8 (k8 k i 5) else b);
            b = (if len \<ge> 5 then b + k8 k i 4 else b)
        in (a + k32 k i 0, b, c))
     else if 1 \<le> len \<and> len \<le> 3 then
       (let a = (if len \<ge> 3 then a + push_bit 16 (k8 k i 2) else a);
            a = (if len \<ge> 2 then a + push_bit 8 (k8 k i 1) else a);
            a = a + k8 k i 0
        in (a, b, c))
     else (a, b, c))"

section \<open>Reversibility of the mixing steps\<close>

text \<open>The lines of \<open>mix\<close> and the steps of \<open>final\<close> undone in reverse order.\<close>

definition unmix_line :: "nat \<Rightarrow> u32 \<Rightarrow> u32 \<Rightarrow> u32 \<Rightarrow> u32 \<times> u32" where
  "unmix_line k x y z = (let z = z - y; x = x XOR rot z k; x = x + z in (x, z))"

definition unmix :: "u32 \<times> u32 \<times> u32 \<Rightarrow> u32 \<times> u32 \<times> u32" where
  "unmix = (\<lambda>(a, b, c).
     let (c, b) = unmix_line 4 c a b;
         (b, a) = unmix_line 19 b c a;
         (a, c) = unmix_line 16 a b c;
         (c, b) = unmix_line 8 c a b;
         (b, a) = unmix_line 6 b c a;
         (a, c) = unmix_line 4 a b c
     in (a, b, c))"

definition unfinal_step :: "nat \<Rightarrow> u32 \<Rightarrow> u32 \<Rightarrow> u32" where
  "unfinal_step k x y = (x + rot y k) XOR y"

definition unfinal :: "u32 \<times> u32 \<times> u32 \<Rightarrow> u32 \<times> u32 \<times> u32" where
  "unfinal = (\<lambda>(a, b, c).
     let c = unfinal_step 24 c b;
         b = unfinal_step 14 b a;
         a = unfinal_step 4 a c;
         c = unfinal_step 16 c b;
         b = unfinal_step 25 b a;
         a = unfinal_step 11 a c;
         c = unfinal_step 14 c b
     in (a, b, c))"

lemma unmix_mix_line: "mix_line k x y z = (x', z') \<Longrightarrow> unmix_line k x' y z' = (x, z)"
  by (auto simp: mix_line_def unmix_line_def Let_def)

lemma mix_unmix_line: "unmix_line k x y z = (x', z') \<Longrightarrow> mix_line k x' y z' = (x, z)"
  by (auto simp: mix_line_def unmix_line_def Let_def)

lemma unfinal_final_step [simp]: "unfinal_step k (final_step k x y) y = x"
  by (simp add: final_step_def unfinal_step_def Let_def)

lemma final_unfinal_step [simp]: "final_step k (unfinal_step k x y) y = x"
  by (simp add: final_step_def unfinal_step_def Let_def)

lemma unmix_mix: "unmix (mix s) = s"
  by (cases s) (auto simp: mix_def unmix_def dest!: unmix_mix_line split: prod.splits)

lemma mix_unmix: "mix (unmix s) = s"
  by (cases s) (auto simp: mix_def unmix_def dest!: mix_unmix_line split: prod.splits)

lemma unfinal_final: "unfinal (final s) = s"
  by (cases s) (simp add: final_def unfinal_def Let_def)

lemma final_unfinal: "final (unfinal s) = s"
  by (cases s) (simp add: final_def unfinal_def Let_def)


section \<open>A reference definition on byte lists\<close>

text \<open>
  The function that all little-endian variants compute: the key's bytes in blocks of twelve, the last
  block padded with zeros.
\<close>

definition byte_at :: "u8 list \<Rightarrow> nat \<Rightarrow> u8" where
  "byte_at xs i = (if i < length xs then xs ! i else 0)"

definition word_at :: "u8 list \<Rightarrow> nat \<Rightarrow> u32" where
  "word_at xs j =
     le32 (byte_at xs (4 * j)) (byte_at xs (4 * j + 1)) (byte_at xs (4 * j + 2)) (byte_at xs (4 * j + 3))"

definition add_block :: "u8 list \<Rightarrow> u32 \<times> u32 \<times> u32 \<Rightarrow> u32 \<times> u32 \<times> u32" where
  "add_block xs = (\<lambda>(a, b, c). (a + word_at xs 0, b + word_at xs 1, c + word_at xs 2))"

fun ref_hash :: "u8 list \<Rightarrow> u32 \<times> u32 \<times> u32 \<Rightarrow> u32" where
  "ref_hash xs s =
     (if length xs > 12 then ref_hash (drop 12 xs) (mix (add_block xs s))
      else if xs = [] then snd (snd s)
      else snd (snd (final (add_block xs s))))"

declare ref_hash.simps [simp del]
declare blocks32.simps [simp del] blocks16.simps [simp del] blocks8.simps [simp del]

definition jenkins_ref :: "u8 list \<Rightarrow> u32" where
  "jenkins_ref xs = ref_hash xs (hash_init (of_nat (length xs)))"

abbreviation key_bytes :: "(nat \<Rightarrow> u8) \<Rightarrow> nat \<Rightarrow> nat \<Rightarrow> u8 list" where
  "key_bytes k i len \<equiv> map k [i..<i + len]"

lemma byte_at_key_bytes: "byte_at (key_bytes k i len) j = (if j < len then k (i + j) else 0)"
  by (simp add: byte_at_def)

lemma drop_key_bytes: "drop 12 (key_bytes k i len) = key_bytes k (i + 12) (len - 12)"
  by (cases "12 \<le> len") (simp_all add: drop_map drop_upt algebra_simps)

lemma le32_zero [simp]: "le32 0 0 0 0 = 0"
  by (simp add: le32_def)

lemma upto_12_cases:
  assumes "(n :: nat) \<le> 12"
  obtains "n = 0" | "n = 1" | "n = 2" | "n = 3" | "n = 4" | "n = 5" | "n = 6" | "n = 7" | "n = 8"
    | "n = 9" | "n = 10" | "n = 11" | "n = 12"
  using assms by (auto simp: numeral_eq_Suc le_Suc_eq)

text \<open>On the last block every variant adds the padded words.\<close>

lemma add_block_key_bytes:
  "add_block (key_bytes k i len) (a, b, c) =
     (let p = (\<lambda>j. if j < len then k (i + j) else 0) in
      (a + le32 (p 0) (p 1) (p 2) (p 3), b + le32 (p 4) (p 5) (p 6) (p 7), c + le32 (p 8) (p 9) (p 10) (p 11)))"
  by (simp add: byte_at_key_bytes add_block_def word_at_def numeral_2_eq_2 [symmetric] del: One_nat_def)

lemma last32_add_block:
  "len \<le> 12 \<Longrightarrow> last32 k (i, len, a, b, c) = add_block (key_bytes k i len) (a, b, c)"
  unfolding add_block_key_bytes
  by (erule upto_12_cases) (simp_all add: Let_def last32_def k32_def le_simps)

lemma last32_valgrind_add_block:
  "len \<le> 12 \<Longrightarrow> last32_valgrind k (i, len, a, b, c) = add_block (key_bytes k i len) (a, b, c)"
  unfolding add_block_key_bytes
  by (erule upto_12_cases)
    (simp_all add: Let_def last32_valgrind_def k32_def k8_def le32_or_is_add algebra_simps)

lemma k32_halves:
  "k16 k i 0 + push_bit 16 (k16 k i 1) = k32 k i 0"
  "k16 k i 2 + push_bit 16 (k16 k i 3) = k32 k i 1"
  "k16 k i 4 + push_bit 16 (k16 k i 5) = k32 k i 2"
  by (simp_all add: k16_def k32_def le16_pair_is_le32)

lemma last16_add_block:
  "len \<le> 12 \<Longrightarrow> last16 k (i, len, a, b, c) = add_block (key_bytes k i len) (a, b, c)"
  unfolding add_block_key_bytes last16_def Let_def prod.case k32_halves
  by (erule upto_12_cases)
    (simp_all add: k32_def k16_def k8_def ucast_le16 le32_or_is_add algebra_simps)

lemma last8_add_block:
  "len \<le> 12 \<Longrightarrow> last8 k (i, len, a, b, c) = add_block (key_bytes k i len) (a, b, c)"
  unfolding add_block_key_bytes
  by (erule upto_12_cases) (simp_all add: Let_def last8_def k8_def le32_or_is_add algebra_simps)

lemma blocks_full_block:
  "len > 12 \<Longrightarrow>
     (a + k32 k i 0, b + k32 k i 1, c + k32 k i 2) = add_block (key_bytes k i len) (a, b, c)"
  unfolding add_block_key_bytes by (simp add: Let_def k32_def)

lemma k32_bytes:
  "x + k8 k i 0 + push_bit 8 (k8 k i 1) + push_bit 16 (k8 k i 2) + push_bit 24 (k8 k i 3) = x + k32 k i 0"
  "x + k8 k i 4 + push_bit 8 (k8 k i 5) + push_bit 16 (k8 k i 6) + push_bit 24 (k8 k i 7) = x + k32 k i 1"
  "x + k8 k i 8 + push_bit 8 (k8 k i 9) + push_bit 16 (k8 k i 10) + push_bit 24 (k8 k i 11) = x + k32 k i 2"
  by (simp_all add: k8_def k32_def le32_or_is_add)

text \<open>So the three block loops are one loop.\<close>

lemma blocks16_eq: "blocks16 k i len s = blocks32 k i len s"
proof (induction k i len s rule: blocks32.induct)
  case (1 k i len a b c)
  show ?case
  proof (cases "len > 12")
    case True
    with "1.IH" show ?thesis
      by (subst blocks16.simps, subst blocks32.simps) (simp only: k32_halves if_True)
  next
    case False
    then show ?thesis by (subst blocks16.simps, subst blocks32.simps) simp
  qed
qed

lemma blocks8_eq: "blocks8 k i len s = blocks32 k i len s"
proof (induction k i len s rule: blocks32.induct)
  case (1 k i len a b c)
  show ?case
  proof (cases "len > 12")
    case True
    with "1.IH" show ?thesis
      by (subst blocks8.simps, subst blocks32.simps) (simp only: k32_bytes if_True)
  next
    case False
    then show ?thesis by (subst blocks8.simps, subst blocks32.simps) simp
  qed
qed

lemma finish_blocks32:
  assumes tail: "\<And>i len a b c. len \<le> 12 \<Longrightarrow> tail (i, len, a, b, c) = add_block (key_bytes k i len) (a, b, c)"
  shows "finish tail (blocks32 k i len s) = ref_hash (key_bytes k i len) s"
  using tail
proof (induction k i len s rule: blocks32.induct)
  case (1 k i len a b c)
  show ?case
  proof (cases "len > 12")
    case True
    with "1.IH" [OF True "1.prems"] show ?thesis
      by (subst blocks32.simps, subst ref_hash.simps)
        (simp only: drop_key_bytes blocks_full_block [OF True] if_True length_map length_upt diff_add_inverse)
  next
    case False
    with "1.prems" show ?thesis
      by (subst blocks32.simps, subst ref_hash.simps) (simp add: finish_def)
  qed
qed

lemma jenkins_hash_ref: "jenkins_hash addr k len = jenkins_ref (map k [0..<unat len])"
  using finish_blocks32 [of "last32 k" k 0 "unat len" "hash_init len", OF last32_add_block]
    finish_blocks32 [of "last16 k" k 0 "unat len" "hash_init len", OF last16_add_block]
    finish_blocks32 [of "last8 k" k 0 "unat len" "hash_init len", OF last8_add_block]
  by (simp add: jenkins_hash_def jenkins_ref_def blocks16_eq blocks8_eq)

section \<open>The interface of the hash\<close>

text \<open>
  What the key-value store relies on: the hash is a function of the key's bytes. It does not depend on
  the address of the buffer the key is read from, nor on the bytes after the key.
\<close>

locale content_hash =
  fixes hash :: "u64 \<Rightarrow> (nat \<Rightarrow> u8) \<Rightarrow> u64 \<Rightarrow> u32"
  assumes hash_cong: "(\<And>i. i < unat len \<Longrightarrow> k i = k' i) \<Longrightarrow> hash p k len = hash p' k' len"
begin

lemma hash_address: "hash p k len = hash p' k len"
  by (rule hash_cong) simp

lemma hash_buf:
  assumes "buf_bytes b n = buf_bytes b' n" and "unat len \<le> n"
  shows "hash (baddr b) (bmem b) len = hash (baddr b') (bmem b') len"
  by (rule hash_cong) (use assms in \<open>auto simp: buf_bytes_eq_iff\<close>)

text \<open>Keys of different buckets are different keys.\<close>

lemma bucket_disjoint:
  assumes "hash (baddr b) (bmem b) len \<noteq> hash (baddr b') (bmem b') len"
  shows "buf_bytes b (unat len) \<noteq> buf_bytes b' (unat len)"
  using assms hash_buf by blast

end

interpretation jh: content_hash jenkins_hash
proof
  fix len :: u64 and k k' :: "nat \<Rightarrow> u8" and p p' :: u64
  assume "\<And>i. i < unat len \<Longrightarrow> k i = k' i"
  then have "map k [0..<unat len] = map k' [0..<unat len]" by simp
  then show "jenkins_hash p k len = jenkins_hash p' k' len"
    by (simp only: jenkins_hash_ref)
qed

section \<open>The big-endian variants\<close>

text \<open>
  Compiled when \<^verbatim>\<open>HASH_BIG_ENDIAN\<close> is set. A word read takes the bytes in big-endian order, so the
  bytes that are read past the key are the low ones.
\<close>

definition be32 :: "u8 \<Rightarrow> u8 \<Rightarrow> u8 \<Rightarrow> u8 \<Rightarrow> u32" where
  "be32 b0 b1 b2 b3 = le32 b3 b2 b1 b0"

definition kbe32 :: "(nat \<Rightarrow> u8) \<Rightarrow> nat \<Rightarrow> nat \<Rightarrow> u32" where
  "kbe32 k i j = be32 (k (i + 4 * j)) (k (i + (4 * j + 1))) (k (i + (4 * j + 2))) (k (i + (4 * j + 3)))"

fun blocks_be32 :: "(nat \<Rightarrow> u8) \<Rightarrow> nat \<Rightarrow> nat \<Rightarrow> u32 \<times> u32 \<times> u32 \<Rightarrow> nat \<times> nat \<times> u32 \<times> u32 \<times> u32" where
  "blocks_be32 k i len (a, b, c) =
     (if len > 12
      then blocks_be32 k (i + 12) (len - 12) (mix (a + kbe32 k i 0, b + kbe32 k i 1, c + kbe32 k i 2))
      else (i, len, a, b, c))"

definition last_be32 :: "(nat \<Rightarrow> u8) \<Rightarrow> nat \<times> nat \<times> u32 \<times> u32 \<times> u32 \<Rightarrow> u32 \<times> u32 \<times> u32" where
  "last_be32 k = (\<lambda>(i, len, a, b, c).
     if len = 12 then (a + kbe32 k i 0, b + kbe32 k i 1, c + kbe32 k i 2)
     else if len = 11 then (a + kbe32 k i 0, b + kbe32 k i 1, c + (kbe32 k i 2 AND 0xffffff00))
     else if len = 10 then (a + kbe32 k i 0, b + kbe32 k i 1, c + (kbe32 k i 2 AND 0xffff0000))
     else if len = 9 then (a + kbe32 k i 0, b + kbe32 k i 1, c + (kbe32 k i 2 AND 0xff000000))
     else if len = 8 then (a + kbe32 k i 0, b + kbe32 k i 1, c)
     else if len = 7 then (a + kbe32 k i 0, b + (kbe32 k i 1 AND 0xffffff00), c)
     else if len = 6 then (a + kbe32 k i 0, b + (kbe32 k i 1 AND 0xffff0000), c)
     else if len = 5 then (a + kbe32 k i 0, b + (kbe32 k i 1 AND 0xff000000), c)
     else if len = 4 then (a + kbe32 k i 0, b, c)
     else if len = 3 then (a + (kbe32 k i 0 AND 0xffffff00), b, c)
     else if len = 2 then (a + (kbe32 k i 0 AND 0xffff0000), b, c)
     else if len = 1 then (a + (kbe32 k i 0 AND 0xff000000), b, c)
     else (a, b, c))"

fun blocks_be8 :: "(nat \<Rightarrow> u8) \<Rightarrow> nat \<Rightarrow> nat \<Rightarrow> u32 \<times> u32 \<times> u32 \<Rightarrow> nat \<times> nat \<times> u32 \<times> u32 \<times> u32" where
  "blocks_be8 k i len (a, b, c) =
     (if len > 12
      then blocks_be8 k (i + 12) (len - 12)
             (mix (a + push_bit 24 (k8 k i 0) + push_bit 16 (k8 k i 1) + push_bit 8 (k8 k i 2) + k8 k i 3,
                   b + push_bit 24 (k8 k i 4) + push_bit 16 (k8 k i 5) + push_bit 8 (k8 k i 6) + k8 k i 7,
                   c + push_bit 24 (k8 k i 8) + push_bit 16 (k8 k i 9) + push_bit 8 (k8 k i 10) + k8 k i 11))
      else (i, len, a, b, c))"

definition last_be8 :: "(nat \<Rightarrow> u8) \<Rightarrow> nat \<times> nat \<times> u32 \<times> u32 \<times> u32 \<Rightarrow> u32 \<times> u32 \<times> u32" where
  "last_be8 k = (\<lambda>(i, len, a, b, c).
     let c = (if len \<ge> 12 then c + k8 k i 11 else c);
         c = (if len \<ge> 11 then c + push_bit 8 (k8 k i 10) else c);
         c = (if len \<ge> 10 then c + push_bit 16 (k8 k i 9) else c);
         c = (if len \<ge> 9 then c + push_bit 24 (k8 k i 8) else c);
         b = (if len \<ge> 8 then b + k8 k i 7 else b);
         b = (if len \<ge> 7 then b + push_bit 8 (k8 k i 6) else b);
         b = (if len \<ge> 6 then b + push_bit 16 (k8 k i 5) else b);
         b = (if len \<ge> 5 then b + push_bit 24 (k8 k i 4) else b);
         a = (if len \<ge> 4 then a + k8 k i 3 else a);
         a = (if len \<ge> 3 then a + push_bit 8 (k8 k i 2) else a);
         a = (if len \<ge> 2 then a + push_bit 16 (k8 k i 1) else a);
         a = (if len \<ge> 1 then a + push_bit 24 (k8 k i 0) else a)
     in (a, b, c))"

definition jenkins_hash_be :: "u64 \<Rightarrow> (nat \<Rightarrow> u8) \<Rightarrow> u64 \<Rightarrow> u32" where
  "jenkins_hash_be addr k len =
     (if addr AND 0x3 = 0 then finish (last_be32 k) (blocks_be32 k 0 (unat len) (hash_init len))
      else finish (last_be8 k) (blocks_be8 k 0 (unat len) (hash_init len)))"

declare blocks_be32.simps [simp del] blocks_be8.simps [simp del]

lemma kbe32_bytes:
  "x + push_bit 24 (k8 k i 0) + push_bit 16 (k8 k i 1) + push_bit 8 (k8 k i 2) + k8 k i 3 = x + kbe32 k i 0"
  "x + push_bit 24 (k8 k i 4) + push_bit 16 (k8 k i 5) + push_bit 8 (k8 k i 6) + k8 k i 7 = x + kbe32 k i 1"
  "x + push_bit 24 (k8 k i 8) + push_bit 16 (k8 k i 9) + push_bit 8 (k8 k i 10) + k8 k i 11 = x + kbe32 k i 2"
  by (simp_all add: k8_def kbe32_def be32_def le32_or_is_add)

lemma blocks_be8_eq: "blocks_be8 k i len s = blocks_be32 k i len s"
proof (induction k i len s rule: blocks_be32.induct)
  case (1 k i len a b c)
  show ?case
  proof (cases "len > 12")
    case True
    with "1.IH" show ?thesis
      by (subst blocks_be8.simps, subst blocks_be32.simps) (simp only: kbe32_bytes if_True)
  next
    case False
    then show ?thesis by (subst blocks_be8.simps, subst blocks_be32.simps) simp
  qed
qed

lemma blocks_be32_rest: "blocks_be32 k i len s = (i', len', s') \<Longrightarrow> len' \<le> 12"
proof (induction k i len s rule: blocks_be32.induct)
  case (1 k i len a b c)
  then show ?case
    using blocks_be32.simps [of k i len a b c] by (auto split: if_splits)
qed

lemma be32_masks [le_simps]:
  "be32 b0 b1 b2 b3 AND 0xffffff00 = be32 b0 b1 b2 0"
  "be32 b0 b1 b2 b3 AND 0xffff0000 = be32 b0 b1 0 0"
  "be32 b0 b1 b2 b3 AND 0xff000000 = be32 b0 0 0 0"
proof -
  have m: "(0xffffff00 :: u32) = NOT (mask 8)" "(0xffff0000 :: u32) = NOT (mask 16)"
    "(0xff000000 :: u32) = NOT (mask 24)"
    by (simp_all add: mask_eq_exp_minus_1)
  show "be32 b0 b1 b2 b3 AND 0xffffff00 = be32 b0 b1 b2 0"
    unfolding be32_def m by (rule bit_eqI) (auto simp: bit_simps bit_le32)
  show "be32 b0 b1 b2 b3 AND 0xffff0000 = be32 b0 b1 0 0"
    unfolding be32_def m by (rule bit_eqI) (auto simp: bit_simps bit_le32)
  show "be32 b0 b1 b2 b3 AND 0xff000000 = be32 b0 0 0 0"
    unfolding be32_def m by (rule bit_eqI) (auto simp: bit_simps bit_le32)
qed

lemma last_be8_eq: "len \<le> 12 \<Longrightarrow> last_be8 k (i, len, a, b, c) = last_be32 k (i, len, a, b, c)"
  by (erule upto_12_cases)
    (simp_all add: Let_def last_be8_def last_be32_def kbe32_def k8_def le_simps,
     simp_all add: be32_def le32_or_is_add algebra_simps)

lemma finish_be: "finish (last_be8 k) (blocks_be8 k i len s) = finish (last_be32 k) (blocks_be32 k i len s)"
proof -
  obtain i' len' a b c where e: "blocks_be32 k i len s = (i', len', a, b, c)"
    by (cases "blocks_be32 k i len s") auto
  then have "len' \<le> 12" by (rule blocks_be32_rest)
  then show ?thesis by (simp add: blocks_be8_eq e finish_def last_be8_eq)
qed

section \<open>Properties\<close>

text \<open>C23: the hash, read by words, half words or bytes depending on the alignment of the key, is one
  function of the key's bytes: it adds the zero-padded blocks of 12 bytes and mixes between them.\<close>
theorem jenkins_hash_reference: "jenkins_hash addr k len = jenkins_ref (map k [0..<unat len])"
  by (rule jenkins_hash_ref)

text \<open>The two mixing macros are permutations of the 96-bit state, as their comments claim.\<close>
theorem mixing_reversible: "bij mix \<and> bij final"
proof
  show "bij mix" by (rule bij_betw_byWitness [where f' = unmix]) (auto simp: unmix_mix mix_unmix)
  show "bij final" by (rule bij_betw_byWitness [where f' = unfinal]) (auto simp: unfinal_final final_unfinal)
qed

text \<open>The variant of the aligned case for memory checkers, which never reads past the key, computes the
  same hash as the variant that reads whole words and masks them.\<close>
theorem valgrind_variant_equal:
  "finish (last32_valgrind k) (blocks32 k 0 (unat len) (hash_init len)) =
   finish (last32 k) (blocks32 k 0 (unat len) (hash_init len))"
  by (simp add: finish_blocks32 last32_add_block last32_valgrind_add_block)

text \<open>The big-endian version of the hash does not depend on the address of the key either.\<close>
theorem hash_be_address: "jenkins_hash_be addr k len = jenkins_hash_be addr' k len"
  by (simp add: jenkins_hash_be_def finish_be)

end
