(* ===== verification/Slabs.thy ===== *)
theory Slabs
  imports Prelude
begin

unbundle bit_operations_syntax

text \<open>
  The slab allocator, \<^verbatim>\<open>src/src/slabs.c\<close> and \<^verbatim>\<open>slabs.h\<close>: size classes, free lists threaded through the
  free chunks, and the operations \<open>slab_init\<close>, \<open>slabs_alloc\<close>, \<open>slabs_free\<close> and \<open>slabs_memory_used\<close>.

  The heap is a map from the address of a chunk to the \<^verbatim>\<open>item\<close> there: the fields of the C struct and
  the bytes of the chunk that follow the struct. Dereferencing an address that holds no chunk and
  indexing outside \<^verbatim>\<open>slabclass\<close> or outside a chunk is undefined in C; a model function returns \<open>None\<close>
  there. The system calls \<^verbatim>\<open>mmap\<close> and \<^verbatim>\<open>realloc\<close> are arguments.
\<close>

section \<open>State\<close>

text \<open>\<^verbatim>\<open>struct _stritem\<close>; \<open>it_data\<close> is what the chunk holds after the struct (key, value, terminators).\<close>

record item =
  it_next :: ptr
  it_prev :: ptr
  it_nbytes :: u32
  it_nkey :: u32
  it_clsid :: u8
  it_data :: "u8 list"

type_synonym heap = "ptr \<Rightarrow> item option"

definition sizeof_item :: nat where
  "sizeof_item = 32"

record slabclass_t =
  sc_size :: u32
  sc_perslab :: u32
  sc_slots :: ptr
  sl_curr :: u32
  slab_list :: "ptr list"
  list_size :: u32
  slabs :: u32

record slabs_state =
  slabclass :: "slabclass_t list"
  heap :: heap

definition MAX_NUMBER_OF_SLAB_CLASSES :: nat where
  "MAX_NUMBER_OF_SLAB_CLASSES = 64"

definition slab_page_size :: u32 where
  "slab_page_size = 32 * 1024 * 1024"

text \<open>
  What the operating system and the C library return: the address from \<^verbatim>\<open>mmap\<close>, which is
  \<^verbatim>\<open>MAP_FAILED\<close> when the call fails, the contents of the block from \<^verbatim>\<open>realloc\<close>, given the old
  contents and the new number of pointers, and the contents of the block from \<^verbatim>\<open>calloc\<close>, given the number
  of pointers (\<open>None\<close> for a null result).
\<close>

record os =
  os_mmap :: ptr
  os_realloc :: "ptr list \<Rightarrow> nat \<Rightarrow> ptr list option"
  os_calloc :: "nat \<Rightarrow> ptr list option"

definition MAP_FAILED :: ptr where
  "MAP_FAILED = - 1"

section \<open>Memory access\<close>

definition upd_item :: "ptr \<Rightarrow> (item \<Rightarrow> item) \<Rightarrow> 'a slabs_state_scheme \<Rightarrow> 'a slabs_state_scheme option" where
  "upd_item p f s = (case heap s p of None \<Rightarrow> None | Some it \<Rightarrow> Some (s\<lparr>heap := (heap s)(p \<mapsto> f it)\<rparr>))"

definition get_class :: "nat \<Rightarrow> 'a slabs_state_scheme \<Rightarrow> slabclass_t option" where
  "get_class cid s = (if cid < length (slabclass s) then Some (slabclass s ! cid) else None)"

definition upd_class ::
    "nat \<Rightarrow> (slabclass_t \<Rightarrow> slabclass_t) \<Rightarrow> 'a slabs_state_scheme \<Rightarrow> 'a slabs_state_scheme option" where
  "upd_class cid f s =
     (if cid < length (slabclass s) then Some (s\<lparr>slabclass := (slabclass s)[cid := f (slabclass s ! cid)]\<rparr>)
      else None)"

section \<open>Operations\<close>

definition do_slabs_free :: "ptr \<Rightarrow> nat \<Rightarrow> 'a slabs_state_scheme \<Rightarrow> 'a slabs_state_scheme option" where
  "do_slabs_free ptr cid s = do {
     p \<leftarrow> get_class cid s;
     s \<leftarrow> upd_item ptr (\<lambda>it. it\<lparr>it_prev := NULL\<rparr>) s;
     s \<leftarrow> upd_item ptr (\<lambda>it. it\<lparr>it_next := sc_slots p\<rparr>) s;
     s \<leftarrow> (if sc_slots p \<noteq> NULL then upd_item (sc_slots p) (\<lambda>n. n\<lparr>it_prev := ptr\<rparr>) s else Some s);
     s \<leftarrow> upd_class cid (\<lambda>p. p\<lparr>sc_slots := ptr\<rparr>) s;
     upd_class cid (\<lambda>p. p\<lparr>sl_curr := sl_curr p + 1\<rparr>) s
   }"

text \<open>The loop of \<open>split_slab_page_into_freelist\<close>, with the number of iterations that are left.\<close>

fun split_slab_loop :: "nat \<Rightarrow> ptr \<Rightarrow> nat \<Rightarrow> 'a slabs_state_scheme \<Rightarrow> 'a slabs_state_scheme option" where
  "split_slab_loop 0 ptr cid s = Some s"
| "split_slab_loop (Suc n) ptr cid s = do {
     s \<leftarrow> do_slabs_free ptr cid s;
     p \<leftarrow> get_class cid s;
     split_slab_loop n (ptr + ucast (sc_size p)) cid s
   }"

definition split_slab_page_into_freelist ::
    "ptr \<Rightarrow> nat \<Rightarrow> 'a slabs_state_scheme \<Rightarrow> 'a slabs_state_scheme option" where
  "split_slab_page_into_freelist ptr cid s = do {
     p \<leftarrow> get_class cid s;
     split_slab_loop (unat (sc_perslab p)) ptr cid s
   }"

definition grow_slab_list :: "os \<Rightarrow> nat \<Rightarrow> 'a slabs_state_scheme \<Rightarrow> (int \<times> 'a slabs_state_scheme) option" where
  "grow_slab_list os cid s = do {
     p \<leftarrow> get_class cid s;
     if slabs p = list_size p
     then (let new_size = (if list_size p \<noteq> 0 then list_size p * 2 else 16) in
           case os_realloc os (slab_list p) (unat new_size) of
             None \<Rightarrow> Some (- 1, s)
           | Some new_list \<Rightarrow> do {
               s \<leftarrow> upd_class cid (\<lambda>p. p\<lparr>list_size := new_size, slab_list := new_list\<rparr>) s;
               Some (1, s)
             })
     else Some (1, s)
   }"

text \<open>
  \<^verbatim>\<open>memset\<close> on a fresh page, seen through the chunks of the class that the page is for: every chunk
  start holds a zeroed item.
\<close>

definition zero_item :: "u32 \<Rightarrow> item" where
  "zero_item sz = \<lparr>it_next = NULL, it_prev = NULL, it_nbytes = 0, it_nkey = 0, it_clsid = 0,
     it_data = replicate (unat sz - sizeof_item) 0\<rparr>"

definition in_page :: "ptr \<Rightarrow> u32 \<Rightarrow> ptr \<Rightarrow> bool" where
  "in_page base sz q \<longleftrightarrow>
     unat (q - base) < unat slab_page_size \<and> unat (q - base) mod unat sz = 0"

definition memset_page :: "ptr \<Rightarrow> u32 \<Rightarrow> 'a slabs_state_scheme \<Rightarrow> 'a slabs_state_scheme option" where
  "memset_page base sz s =
     (if base = MAP_FAILED then None
      else Some (s\<lparr>heap := (\<lambda>q. if in_page base sz q then Some (zero_item sz) else heap s q)\<rparr>))"

definition munmap_page :: "ptr \<Rightarrow> u32 \<Rightarrow> 'a slabs_state_scheme \<Rightarrow> 'a slabs_state_scheme" where
  "munmap_page base sz s = s\<lparr>heap := (\<lambda>q. if in_page base sz q then None else heap s q)\<rparr>"

text \<open>
  \<open>slab_preallocate\<close> returns \<open>-1\<close> on its two error paths and runs off its end without a value
  otherwise (first component \<open>None\<close>); the caller does not use the value.
\<close>

definition slab_preallocate ::
    "os \<Rightarrow> nat \<Rightarrow> 'a slabs_state_scheme \<Rightarrow> (int option \<times> 'a slabs_state_scheme) option" where
  "slab_preallocate os cid s = do {
     slab \<leftarrow> get_class cid s;
     let slabarea = os_mmap os;
     if slabarea = NULL then Some (Some (- 1), s)
     else do {
       s \<leftarrow> memset_page slabarea (sc_size slab) s;
       (r, s) \<leftarrow> grow_slab_list os cid s;
       if r < 0 then Some (Some (- 1), munmap_page slabarea (sc_size slab) s)
       else do {
         s \<leftarrow> split_slab_page_into_freelist slabarea cid s;
         p \<leftarrow> get_class cid s;
         if unat (slabs p) < length (slab_list p)
         then do {
           s \<leftarrow> upd_class cid (\<lambda>p. p\<lparr>slab_list := (slab_list p)[unat (slabs p) := slabarea],
                                   slabs := slabs p + 1\<rparr>) s;
           Some (None, s)
         }
         else None
       }
     }
   }"

text \<open>
  The search loop of \<open>slabs_clsid\<close>. The result is an \<^verbatim>\<open>unsigned int\<close>, so \<open>-1\<close> is \<open>2^32 - 1\<close>; reading
  past the end of \<^verbatim>\<open>slabclass\<close> is undefined.
\<close>

function clsid_loop :: "slabclass_t list \<Rightarrow> u64 \<Rightarrow> nat \<Rightarrow> u32 option" where
  "clsid_loop cs sz res =
     (if res < length cs
      then if sz > ucast (sc_size (cs ! res))
           then if res > MAX_NUMBER_OF_SLAB_CLASSES then Some (- 1)
                else if Suc res < length cs
                     then if sc_size (cs ! Suc res) = 0 then Some (- 1) else clsid_loop cs sz (Suc res)
                     else None
           else Some (of_nat res)
      else None)"
  by pat_completeness auto
termination
  by (relation "measure (\<lambda>(cs, sz, res). length cs - res)") auto

declare clsid_loop.simps [simp del]

definition slabs_clsid :: "u64 \<Rightarrow> 'a slabs_state_scheme \<Rightarrow> u32 option" where
  "slabs_clsid sz s = (if sz = 0 then Some (- 1) else clsid_loop (slabclass s) sz 0)"

text \<open>\<open>size *= factor\<close> with the double factor 2: exact, as the sizes stay below \<open>2^32\<close>.\<close>

definition min_size :: u32 where
  "min_size = 32"

definition max_size :: u32 where
  "max_size = 16 * 1024"

definition empty_class :: slabclass_t where
  "empty_class = \<lparr>sc_size = 0, sc_perslab = 0, sc_slots = NULL, sl_curr = 0, slab_list = [],
     list_size = 0, slabs = 0\<rparr>"

fun init_classes :: "nat \<Rightarrow> nat \<Rightarrow> u32 \<Rightarrow> slabclass_t list \<Rightarrow> slabclass_t list" where
  "init_classes 0 i sz cs = cs"
| "init_classes (Suc n) i sz cs =
     (if sz > max_size then cs
      else init_classes n (Suc i) (sz * 2)
             (cs[i := (cs ! i)\<lparr>sc_size := sz, sc_perslab := slab_page_size div sz\<rparr>]))"

definition slab_init :: "os \<Rightarrow> 'a slabs_state_scheme \<Rightarrow> 'a slabs_state_scheme option" where
  "slab_init os s = do {
     let s = s\<lparr>slabclass := init_classes MAX_NUMBER_OF_SLAB_CLASSES 0 min_size
                              (replicate MAX_NUMBER_OF_SLAB_CLASSES empty_class)\<rparr>;
     cid \<leftarrow> slabs_clsid 64 s;
     (r, s) \<leftarrow> slab_preallocate os (unat cid) s;
     Some s
   }"

text \<open>
  \<^verbatim>\<open>id\<close> is unsigned, so the test \<^verbatim>\<open>(id = slabs_clsid(size)) < 0\<close> is the comparison of a word with 0.
\<close>

definition slabs_alloc :: "u32 \<Rightarrow> 'a slabs_state_scheme \<Rightarrow> (ptr \<times> 'a slabs_state_scheme) option" where
  "slabs_alloc sz s = do {
     cid \<leftarrow> slabs_clsid (scast sz) s;
     if cid < 0 then Some (NULL, s)
     else do {
       p \<leftarrow> get_class (unat cid) s;
       if sl_curr p = 0 then Some (NULL, s)
       else do {
         let it = sc_slots p;
         i \<leftarrow> heap s it;
         s \<leftarrow> upd_class (unat cid) (\<lambda>p. p\<lparr>sc_slots := it_next i\<rparr>) s;
         s \<leftarrow> (if it_next i \<noteq> NULL then upd_item (it_next i) (\<lambda>n. n\<lparr>it_prev := NULL\<rparr>) s else Some s);
         s \<leftarrow> upd_class (unat cid) (\<lambda>p. p\<lparr>sl_curr := sl_curr p - 1\<rparr>) s;
         s \<leftarrow> upd_item it (\<lambda>i. i\<lparr>it_clsid := ucast cid\<rparr>) s;
         Some (it, s)
       }
     }
   }"

definition slabs_free :: "ptr \<Rightarrow> 'a slabs_state_scheme \<Rightarrow> 'a slabs_state_scheme option" where
  "slabs_free it s = do {
     i \<leftarrow> heap s it;
     let cid = unat (it_clsid i);
     p \<leftarrow> get_class cid s;
     s \<leftarrow> upd_item it (\<lambda>i. i\<lparr>it_next := sc_slots p\<rparr>) s;
     s \<leftarrow> (if sc_slots p \<noteq> NULL then upd_item (sc_slots p) (\<lambda>n. n\<lparr>it_prev := it\<rparr>) s else Some s);
     s \<leftarrow> upd_class cid (\<lambda>p. p\<lparr>sc_slots := it\<rparr>) s;
     upd_class cid (\<lambda>p. p\<lparr>sl_curr := sl_curr p + 1\<rparr>) s
   }"

definition class_used :: "slabclass_t \<Rightarrow> u64" where
  "class_used slab = ucast (slabs slab) * ucast slab_page_size - ucast (sl_curr slab) * ucast (sc_size slab)"

definition slabs_memory_used :: "'a slabs_state_scheme \<Rightarrow> u64" where
  "slabs_memory_used s =
     fold (\<lambda>slab storage. if sc_size slab = 0 then storage else storage + class_used slab) (slabclass s) 0"

section \<open>Chains of chunks\<close>

text \<open>The chunks that following \<open>it_next\<close> from a pointer to the null pointer visits.\<close>

fun chain :: "heap \<Rightarrow> ptr \<Rightarrow> ptr list \<Rightarrow> bool" where
  "chain h p [] \<longleftrightarrow> p = NULL"
| "chain h p (q # qs) \<longleftrightarrow>
     p = q \<and> q \<noteq> NULL \<and> (case h q of None \<Rightarrow> False | Some it \<Rightarrow> chain h (it_next it) qs)"

lemma chain_NULL [simp]: "chain h NULL ps \<longleftrightarrow> ps = []"
  by (cases ps) auto

lemma chain_nonnull:
  "p \<noteq> NULL \<Longrightarrow> chain h p ps \<longleftrightarrow> (\<exists>it qs. ps = p # qs \<and> h p = Some it \<and> chain h (it_next it) qs)"
  by (cases ps) (auto split: option.splits)

lemma chain_unique: "chain h p ps \<Longrightarrow> chain h p qs \<Longrightarrow> ps = qs"
proof (induction ps arbitrary: p qs)
  case Nil
  then show ?case by simp
next
  case (Cons a ps)
  then show ?case by (cases qs) (auto split: option.splits)
qed

lemma chain_append:
  "chain h p (xs @ q # ys) \<Longrightarrow> chain h q (q # ys)"
proof (induction xs arbitrary: p)
  case Nil
  then show ?case by simp
next
  case (Cons x xs)
  from Cons.prems obtain it :: item where "chain h (it_next it) (xs @ q # ys)"
    by (auto split: option.splits)
  then show ?case by (rule Cons.IH)
qed

lemma chain_in_heap: "chain h p ps \<Longrightarrow> q \<in> set ps \<Longrightarrow> \<exists>it. h q = Some it"
  by (induction ps arbitrary: p) (auto split: option.splits)

lemma chain_NULL_notin: "chain h p ps \<Longrightarrow> NULL \<notin> set ps"
  by (induction ps arbitrary: p) (auto split: option.splits)

lemma chain_distinct: "chain h p ps \<Longrightarrow> distinct ps"
proof (induction ps arbitrary: p)
  case Nil
  then show ?case by simp
next
  case (Cons q qs)
  then obtain it where it: "h q = Some it" "chain h (it_next it) qs"
    by (auto split: option.splits)
  have "q \<notin> set qs"
  proof
    assume "q \<in> set qs"
    then obtain xs ys where qs: "qs = xs @ q # ys" by (meson split_list)
    with it have "chain h q (q # ys)" by (metis chain_append)
    moreover from Cons.prems have "chain h q (q # qs)" by simp
    ultimately have "q # ys = q # qs" by (rule chain_unique)
    with qs show False by simp
  qed
  with it Cons.IH show ?case by auto
qed

text \<open>A chain depends only on the \<open>it_next\<close> fields of its chunks.\<close>

lemma chain_cong:
  "(\<And>q. q \<in> set ps \<Longrightarrow> map_option it_next (h q) = map_option it_next (h' q)) \<Longrightarrow> chain h p ps = chain h' p ps"
proof (induction ps arbitrary: p)
  case Nil
  then show ?case by simp
next
  case (Cons q qs)
  from Cons.prems have eq: "map_option it_next (h q) = map_option it_next (h' q)" by simp
  have "chain h r qs = chain h' r qs" for r
    by (rule Cons.IH) (use Cons.prems in simp)
  with eq show ?case by (cases "h q"; cases "h' q") auto
qed

lemma chain_upd_notin: "r \<notin> set ps \<Longrightarrow> chain (h(r := x)) p ps = chain h p ps"
  by (rule chain_cong) auto

lemma chain_slots_cases:
  assumes "chain h p ps"
  obtains "p = NULL" "ps = []" | it qs where "p \<noteq> NULL" "ps = p # qs" "h p = Some it" "chain h (it_next it) qs"
  using assms by (cases "p = NULL") (auto simp: chain_nonnull)

text \<open>The conditional write \<^verbatim>\<open>if (q) q->prev = v\<close>, as a function of the heap.\<close>

definition set_prev :: "ptr \<Rightarrow> ptr \<Rightarrow> heap \<Rightarrow> heap" where
  "set_prev q v h = (case h q of None \<Rightarrow> h | Some n \<Rightarrow> if q = NULL then h else h(q \<mapsto> n\<lparr>it_prev := v\<rparr>))"

lemma set_prev_next [simp]: "map_option it_next (set_prev q v h r) = map_option it_next (h r)"
  by (auto simp: set_prev_def split: option.splits)

lemma set_prev_data [simp]: "map_option it_data (set_prev q v h r) = map_option it_data (h r)"
  by (auto simp: set_prev_def split: option.splits)

lemma set_prev_other: "r \<noteq> q \<Longrightarrow> set_prev q v h r = h r"
  by (auto simp: set_prev_def split: option.splits)

lemma dom_set_prev [simp]: "dom (set_prev q v h) = dom h"
  by (auto simp: set_prev_def split: option.splits)

lemma set_prev_NULL [simp]: "set_prev NULL v h = h"
  by (auto simp: set_prev_def split: option.splits)

lemma chain_set_prev [simp]: "chain (set_prev q v h) p ps = chain h p ps"
  by (rule chain_cong) simp

section \<open>Stepping the operations\<close>

lemma upd_item_Some [simp]:
  "heap s p = Some it \<Longrightarrow> upd_item p f s = Some (s\<lparr>heap := (heap s)(p \<mapsto> f it)\<rparr>)"
  by (simp add: upd_item_def)

lemma get_class_Some [simp]: "cid < length (slabclass s) \<Longrightarrow> get_class cid s = Some (slabclass s ! cid)"
  by (simp add: get_class_def)

lemma upd_class_Some [simp]:
  "cid < length (slabclass s) \<Longrightarrow>
     upd_class cid f s = Some (s\<lparr>slabclass := (slabclass s)[cid := f (slabclass s ! cid)]\<rparr>)"
  by (simp add: upd_class_def)

lemma upd_prev_eq:
  "q = NULL \<or> heap s q \<noteq> None \<Longrightarrow>
     (if q \<noteq> NULL then upd_item q (\<lambda>n. n\<lparr>it_prev := v\<rparr>) s else Some s) = Some (s\<lparr>heap := set_prev q v (heap s)\<rparr>)"
  by (auto simp: set_prev_def split: option.splits)

text \<open>Pushing a chunk on the free list of a class, the common effect of the two free functions.\<close>

definition push_class :: "ptr \<Rightarrow> slabclass_t \<Rightarrow> slabclass_t" where
  "push_class p c = c\<lparr>sc_slots := p, sl_curr := sl_curr c + 1\<rparr>"

definition pop_class :: "ptr \<Rightarrow> slabclass_t \<Rightarrow> slabclass_t" where
  "pop_class p c = c\<lparr>sc_slots := p, sl_curr := sl_curr c - 1\<rparr>"

lemma do_slabs_free_eval:
  assumes "cid < length (slabclass s)" and "heap s p = Some it"
    and "slots = sc_slots (slabclass s ! cid)" and "slots = NULL \<or> slots \<noteq> p \<and> heap s slots \<noteq> None"
  shows "do_slabs_free p cid s = Some (s\<lparr>
      slabclass := (slabclass s)[cid := push_class p (slabclass s ! cid)],
      heap := set_prev slots p ((heap s)(p \<mapsto> it\<lparr>it_prev := NULL, it_next := slots\<rparr>))\<rparr>)"
proof -
  let ?h = "(heap s)(p \<mapsto> it\<lparr>it_prev := NULL, it_next := slots\<rparr>)"
  have "slots = NULL \<or> (\<exists>n. slots \<noteq> NULL \<and> ?h slots = Some n)" using assms(4) by auto
  then show ?thesis
  proof (elim disjE exE)
    assume "slots = NULL"
    with assms show ?thesis by (simp add: do_slabs_free_def Let_def push_class_def)
  next
    fix n assume "slots \<noteq> NULL \<and> ?h slots = Some n"
    with assms show ?thesis by (simp add: do_slabs_free_def Let_def push_class_def set_prev_def)
  qed
qed

lemma slabs_free_eval:
  assumes "heap s p = Some it" and "cid = unat (it_clsid it)" and "cid < length (slabclass s)"
    and "slots = sc_slots (slabclass s ! cid)" and "slots = NULL \<or> slots \<noteq> p \<and> heap s slots \<noteq> None"
  shows "slabs_free p s = Some (s\<lparr>
      slabclass := (slabclass s)[cid := push_class p (slabclass s ! cid)],
      heap := set_prev slots p ((heap s)(p \<mapsto> it\<lparr>it_next := slots\<rparr>))\<rparr>)"
proof -
  let ?h = "(heap s)(p \<mapsto> it\<lparr>it_next := slots\<rparr>)"
  have "slots = NULL \<or> (\<exists>n. slots \<noteq> NULL \<and> ?h slots = Some n)" using assms(5) by auto
  then show ?thesis
  proof (elim disjE exE)
    assume "slots = NULL"
    with assms show ?thesis by (simp add: slabs_free_def Let_def push_class_def)
  next
    fix n assume "slots \<noteq> NULL \<and> ?h slots = Some n"
    with assms show ?thesis by (simp add: slabs_free_def Let_def push_class_def set_prev_def)
  qed
qed

lemma slabs_alloc_eval:
  assumes "slabs_clsid (scast n) s = Some cid" and "unat cid < length (slabclass s)"
    and "c = slabclass s ! unat cid" and "sl_curr c \<noteq> 0" and "heap s (sc_slots c) = Some it"
    and "it_next it = NULL \<or> it_next it \<noteq> sc_slots c \<and> heap s (it_next it) \<noteq> None"
  shows "slabs_alloc n s = Some (sc_slots c, s\<lparr>
      slabclass := (slabclass s)[unat cid := pop_class (it_next it) c],
      heap := (set_prev (it_next it) NULL (heap s))(sc_slots c \<mapsto> it\<lparr>it_clsid := ucast cid\<rparr>)\<rparr>)"
proof -
  have "it_next it = NULL \<or> (\<exists>n. it_next it \<noteq> NULL \<and> heap s (it_next it) = Some n)"
    using assms(6) by auto
  then show ?thesis
  proof (elim disjE exE)
    assume "it_next it = NULL"
    with assms show ?thesis by (simp add: slabs_alloc_def Let_def pop_class_def)
  next
    fix n assume "it_next it \<noteq> NULL \<and> heap s (it_next it) = Some n"
    with assms show ?thesis by (simp add: slabs_alloc_def Let_def pop_class_def set_prev_def)
  qed
qed

section \<open>Well-formedness\<close>

text \<open>
  The table of classes: ten classes of sizes 32, 64, up to 16384, the others unused. A free list
  \<open>ps\<close> of a class is a chain from \<open>slots\<close>, counted by \<open>sl_curr\<close>, of chunks of the size of the class.
\<close>

definition num_classes :: nat where
  "num_classes = 10"

definition table_ok :: "slabclass_t list \<Rightarrow> bool" where
  "table_ok cs \<longleftrightarrow> length cs = MAX_NUMBER_OF_SLAB_CLASSES \<and>
     (\<forall>i<MAX_NUMBER_OF_SLAB_CLASSES. unat (sc_size (cs ! i)) = (if i < num_classes then 32 * 2 ^ i else 0))"

definition chunk_ok :: "heap \<Rightarrow> nat \<Rightarrow> ptr \<Rightarrow> bool" where
  "chunk_ok h cid p \<longleftrightarrow> (\<exists>it. h p = Some it \<and> length (it_data it) = 32 * 2 ^ cid - sizeof_item)"

definition free_ok :: "heap \<Rightarrow> nat \<Rightarrow> slabclass_t \<Rightarrow> ptr list \<Rightarrow> bool" where
  "free_ok h cid c ps \<longleftrightarrow>
     chain h (sc_slots c) ps \<and> sl_curr c = of_nat (length ps) \<and> (\<forall>p\<in>set ps. chunk_ok h cid p)"

definition slabs_wf :: "'a slabs_state_scheme \<Rightarrow> (nat \<Rightarrow> ptr list) \<Rightarrow> bool" where
  "slabs_wf s F \<longleftrightarrow>
     table_ok (slabclass s) \<and> heap s NULL = None \<and> finite (dom (heap s)) \<and> card (dom (heap s)) < 2 ^ 32 \<and>
     (\<forall>i<MAX_NUMBER_OF_SLAB_CLASSES. free_ok (heap s) i (slabclass s ! i) (F i)) \<and>
     (\<forall>i. num_classes \<le> i \<longrightarrow> F i = []) \<and>
     (\<forall>i j. i \<noteq> j \<longrightarrow> set (F i) \<inter> set (F j) = {})"

text \<open>An allocated chunk: it is not on a free list and its class number says how long it is.\<close>

definition allocated :: "'a slabs_state_scheme \<Rightarrow> (nat \<Rightarrow> ptr list) \<Rightarrow> ptr \<Rightarrow> bool" where
  "allocated s F p \<longleftrightarrow> (\<exists>it. heap s p = Some it \<and> unat (it_clsid it) < num_classes \<and>
     chunk_ok (heap s) (unat (it_clsid it)) p) \<and> (\<forall>i. p \<notin> set (F i))"

lemmas const_defs = MAX_NUMBER_OF_SLAB_CLASSES_def num_classes_def sizeof_item_def

lemma slabs_wfD:
  assumes "slabs_wf s F"
  shows "length (slabclass s) = MAX_NUMBER_OF_SLAB_CLASSES" "table_ok (slabclass s)"
    "heap s NULL = None" "finite (dom (heap s))" "card (dom (heap s)) < 2 ^ 32"
    "i < MAX_NUMBER_OF_SLAB_CLASSES \<Longrightarrow> free_ok (heap s) i (slabclass s ! i) (F i)"
    "i \<noteq> j \<Longrightarrow> set (F i) \<inter> set (F j) = {}"
    "num_classes \<le> i \<Longrightarrow> F i = []"
  using assms by (auto simp: slabs_wf_def table_ok_def)

lemma free_chunk_in_heap:
  assumes "slabs_wf s F" and "p \<in> set (F j)"
  shows "\<exists>it. heap s p = Some it" and "j < num_classes"
proof -
  show j: "j < num_classes" using slabs_wfD(8) [OF assms(1), of j] assms(2) by (cases "num_classes \<le> j") auto
  then have "free_ok (heap s) j (slabclass s ! j) (F j)"
    by (intro slabs_wfD(6) [OF assms(1)]) (simp add: const_defs)
  with assms(2) show "\<exists>it. heap s p = Some it" by (auto simp: free_ok_def dest: chain_in_heap)
qed

text \<open>A free list is never longer than the heap, so the counter of a class does not wrap.\<close>

lemma chain_length_le:
  assumes "chain h p ps" and "finite (dom h)"
  shows "length ps \<le> card (dom h)"
proof -
  have "set ps \<subseteq> dom h" using assms(1) by (auto dest: chain_in_heap)
  then have "card (set ps) \<le> card (dom h)" using assms(2) by (simp add: card_mono)
  then show ?thesis using assms(1) by (simp add: chain_distinct distinct_card)
qed

lemma free_ok_length:
  assumes "free_ok h i c ps" and "finite (dom h)" and "card (dom h) < 2 ^ 32"
  shows "length ps < 2 ^ 32" and "unat (sl_curr c) = length ps"
proof -
  show *: "length ps < 2 ^ 32"
    using assms chain_length_le by (fastforce simp: free_ok_def)
  then show "unat (sl_curr c) = length ps"
    using assms(1) by (simp add: free_ok_def unat_of_nat_less)
qed

lemma free_ok_cong:
  assumes "\<And>q. q \<in> set ps \<Longrightarrow> map_option it_next (h q) = map_option it_next (h' q)"
    and "\<And>q. q \<in> set ps \<Longrightarrow> map_option it_data (h q) = map_option it_data (h' q)"
    and "sc_slots c = sc_slots c'" and "sl_curr c = sl_curr c'"
  shows "free_ok h i c ps = free_ok h' i c' ps"
proof -
  have "chunk_ok h i q = chunk_ok h' i q" if "q \<in> set ps" for q
    using assms(2) [OF that] by (cases "h q"; cases "h' q") (auto simp: chunk_ok_def)
  then show ?thesis
    using chain_cong [of ps h h', OF assms(1)] assms(3,4) by (auto simp: free_ok_def)
qed

lemma slabs_wf_slots:
  assumes "slabs_wf s F" and "i < MAX_NUMBER_OF_SLAB_CLASSES"
  shows "sc_slots (slabclass s ! i) = NULL \<or>
    sc_slots (slabclass s ! i) \<in> set (F i) \<and> heap s (sc_slots (slabclass s ! i)) \<noteq> None"
  using slabs_wfD(6) [OF assms]
  by (cases "F i") (auto simp: free_ok_def split: option.splits)

lemma table_ok_update:
  assumes "table_ok cs" and "sc_size c = sc_size (cs ! i)"
  shows "table_ok (cs[i := c])"
  using assms by (cases "i < length cs") (auto simp: table_ok_def nth_list_update list_update_beyond)

lemma push_wf:
  assumes wf: "slabs_wf s F" and i: "i < num_classes" and p: "\<And>j. p \<notin> set (F j)"
    and it: "heap s p = Some it" and slots: "slots = sc_slots (slabclass s ! i)"
    and it': "it_next it' = slots" "length (it_data it') = 32 * 2 ^ i - sizeof_item"
  shows "slabs_wf (s\<lparr>slabclass := (slabclass s)[i := push_class p (slabclass s ! i)],
      heap := set_prev slots p ((heap s)(p \<mapsto> it'))\<rparr>) (F(i := p # F i))" (is "slabs_wf ?s' ?F'")
proof -
  let ?h = "set_prev slots p ((heap s)(p \<mapsto> it'))"
  note wfD = slabs_wfD [OF wf]
  have iM: "i < MAX_NUMBER_OF_SLAB_CLASSES" using i by (simp add: const_defs)
  have p0: "p \<noteq> NULL" using it wfD(3) by auto
  have dom: "dom ?h = dom (heap s)" using it by auto
  have keep: "map_option it_next (?h q) = map_option it_next (heap s q)"
    "map_option it_data (?h q) = map_option it_data (heap s q)" if "q \<noteq> p" for q
    using that by auto
  have "slots \<noteq> p" using slabs_wf_slots [OF wf iM] p p0 slots by auto
  then have x: "?h p = Some it'" by (simp add: set_prev_other)
  have free: "free_ok ?h j (slabclass s ! j) (F j)" if "j < MAX_NUMBER_OF_SLAB_CLASSES" for j
    using wfD(6) [OF that] p by (subst free_ok_cong [of "F j" ?h "heap s"]) (use keep p in auto)
  have "free_ok ?h i (push_class p (slabclass s ! i)) (p # F i)"
    using free [OF iM] x p0 slots it'
    by (simp add: free_ok_def push_class_def chunk_ok_def add.commute)
  then have "free_ok ?h j ((slabclass s)[i := push_class p (slabclass s ! i)] ! j) (?F' j)"
    if "j < MAX_NUMBER_OF_SLAB_CLASSES" for j
    using free [OF that] that wfD(1) by (cases "j = i") auto
  moreover have "set (?F' j) \<inter> set (?F' k) = {}" if "j \<noteq> k" for j k
    using wfD(7) [OF that] p that by auto
  moreover have "?h NULL = None"
    using wfD(3) p0 by (auto simp: set_prev_def split: option.splits)
  moreover have "table_ok ((slabclass s)[i := push_class p (slabclass s ! i)])"
    using wfD(2) by (rule table_ok_update) (simp add: push_class_def)
  ultimately show ?thesis
    using wfD(4,5,8) dom i by (auto simp: slabs_wf_def)
qed

lemma pop_wf:
  assumes wf: "slabs_wf s F" and i: "i < num_classes" and F: "F i = p # ps"
    and it: "heap s p = Some it" and it': "it_next it' = it_next it" "it_data it' = it_data it"
  shows "slabs_wf (s\<lparr>slabclass := (slabclass s)[i := pop_class (it_next it) (slabclass s ! i)],
      heap := (set_prev (it_next it) NULL (heap s))(p \<mapsto> it')\<rparr>) (F(i := ps))" (is "slabs_wf ?s' ?F'")
proof -
  let ?h = "(set_prev (it_next it) NULL (heap s))(p \<mapsto> it')"
  note wfD = slabs_wfD [OF wf]
  have iM: "i < MAX_NUMBER_OF_SLAB_CLASSES" using i by (simp add: const_defs)
  have p0: "p \<noteq> NULL" using it wfD(3) by auto
  have dom: "dom ?h = dom (heap s)" using it by auto
  have keep: "map_option it_next (?h q) = map_option it_next (heap s q)"
    "map_option it_data (?h q) = map_option it_data (heap s q)" for q
    using it it' by auto
  have free: "free_ok ?h j (slabclass s ! j) (F j)" if "j < MAX_NUMBER_OF_SLAB_CLASSES" for j
    using wfD(6) [OF that] by (subst free_ok_cong [of "F j" ?h "heap s"]) (use keep in auto)
  have "free_ok ?h i (pop_class (it_next it) (slabclass s ! i)) ps"
    using free [OF iM] F it' p0 by (simp add: free_ok_def pop_class_def)
  then have "free_ok ?h j ((slabclass s)[i := pop_class (it_next it) (slabclass s ! i)] ! j) (?F' j)"
    if "j < MAX_NUMBER_OF_SLAB_CLASSES" for j
    using free [OF that] that wfD(1) by (cases "j = i") auto
  moreover have "set (?F' j) \<inter> set (?F' k) = {}" if "j \<noteq> k" for j k
    using wfD(7) [OF that] F that by auto
  moreover have "?h NULL = None"
    using wfD(3) p0 by (auto simp: set_prev_def split: option.splits)
  moreover have "table_ok ((slabclass s)[i := pop_class (it_next it) (slabclass s ! i)])"
    using wfD(2) by (rule table_ok_update) (simp add: pop_class_def)
  ultimately show ?thesis
    using wfD(4,5,8) dom i by (auto simp: slabs_wf_def)
qed

section \<open>The size class of a request\<close>

lemma clsid_loop_small:
  assumes cs: "table_ok cs" and "r < num_classes" and "unat z \<le> 16384"
  shows "\<exists>i. clsid_loop cs z r = Some (of_nat i) \<and> r \<le> i \<and> i < num_classes \<and> unat z \<le> 32 * 2 ^ i \<and>
    (\<forall>j. r \<le> j \<longrightarrow> j < i \<longrightarrow> 32 * 2 ^ j < unat z)"
  using assms(2)
proof (induction "num_classes - r" arbitrary: r)
  case 0
  then show ?case by simp
next
  case (Suc n)
  have len: "length cs = 64" and sz: "\<And>i. i < 64 \<Longrightarrow> unat (sc_size (cs ! i)) = (if i < 10 then 32 * 2 ^ i else 0)"
    using cs by (auto simp: table_ok_def const_defs)
  have r: "r < 10" using Suc.prems by (simp add: const_defs)
  show ?case
  proof (cases "32 * 2 ^ r < unat z")
    case False
    then have "clsid_loop cs z r = Some (of_nat r)"
      using r len sz [of r] by (subst clsid_loop.simps) (simp add: ucast_u32_less_iff)
    then show ?thesis using False Suc.prems by (intro exI [of _ r]) auto
  next
    case True
    have r9: "r < 9"
    proof (rule ccontr)
      assume "\<not> r < 9"
      then have "r = 9" using r by simp
      with True assms(3) show False by simp
    qed
    have "sc_size (cs ! Suc r) \<noteq> 0"
      using sz [of "Suc r"] r9 by auto
    then have *: "clsid_loop cs z r = clsid_loop cs z (Suc r)"
      using True r9 len sz [of r] by (subst clsid_loop.simps) (simp add: ucast_u32_less_iff const_defs)
    have "n = num_classes - Suc r" "Suc r < num_classes"
      using Suc.hyps(2) r9 by (auto simp: const_defs)
    then obtain i where i: "clsid_loop cs z (Suc r) = Some (of_nat i)" "Suc r \<le> i" "i < num_classes"
      "unat z \<le> 32 * 2 ^ i" "\<And>j. Suc r \<le> j \<Longrightarrow> j < i \<Longrightarrow> 32 * 2 ^ j < unat z"
      using Suc.hyps(1) [of "Suc r"] by blast
    have "32 * 2 ^ j < unat z" if "r \<le> j" "j < i" for j
      using that True i(5) [of j] by (cases "j = r") auto
    then show ?thesis using * i by (intro exI [of _ i]) auto
  qed
qed

lemma clsid_loop_large:
  assumes cs: "table_ok cs" and "r < num_classes" and "16384 < unat z"
  shows "clsid_loop cs z r = Some (- 1)"
  using assms(2)
proof (induction "num_classes - r" arbitrary: r)
  case 0
  then show ?case by simp
next
  case (Suc n)
  have len: "length cs = 64" and sz: "\<And>i. i < 64 \<Longrightarrow> unat (sc_size (cs ! i)) = (if i < 10 then 32 * 2 ^ i else 0)"
    using cs by (auto simp: table_ok_def const_defs)
  have r: "r < 10" using Suc.prems by (simp add: const_defs)
  have "(32 :: nat) * 2 ^ r \<le> 32 * 2 ^ 9" using r by (intro mult_left_mono power_increasing) auto
  then have gt: "32 * 2 ^ r < unat z" using assms(3) by simp
  show ?case
  proof (cases "r = 9")
    case True
    then have "sc_size (cs ! Suc r) = 0" using sz [of "Suc r"] by (simp add: unat_eq_zero)
    then show ?thesis
      using gt True len sz [of r] by (subst clsid_loop.simps) (simp add: ucast_u32_less_iff const_defs)
  next
    case False
    then have "sc_size (cs ! Suc r) \<noteq> 0" using r sz [of "Suc r"] by auto
    then have "clsid_loop cs z r = clsid_loop cs z (Suc r)"
      using gt r len sz [of r] by (subst clsid_loop.simps) (simp add: ucast_u32_less_iff const_defs)
    then show ?thesis
      using Suc.hyps(1) [of "Suc r"] Suc.hyps(2) r False by (simp add: const_defs)
  qed
qed

text \<open>The class a request of \<open>n\<close> bytes is served from: the smallest whose chunks hold it.\<close>

definition class_of :: "nat \<Rightarrow> nat" where
  "class_of n = (LEAST i. n \<le> 32 * 2 ^ i)"

lemma class_of_eqI:
  assumes "n \<le> 32 * 2 ^ i" and "\<And>j. j < i \<Longrightarrow> 32 * 2 ^ j < n"
  shows "class_of n = i"
  unfolding class_of_def by (rule Least_equality) (use assms in \<open>auto simp: not_less [symmetric]\<close>)

lemma slabs_clsid_small:
  assumes "table_ok (slabclass s)" and "0 < unat z" and "unat z \<le> 16384"
  shows "slabs_clsid z s = Some (of_nat (class_of (unat z)))" and "class_of (unat z) < num_classes"
    and "unat z \<le> 32 * 2 ^ class_of (unat z)"
proof -
  obtain i where i: "clsid_loop (slabclass s) z 0 = Some (of_nat i)" "i < num_classes" "unat z \<le> 32 * 2 ^ i"
    "\<And>j. j < i \<Longrightarrow> 32 * 2 ^ j < unat z"
    using clsid_loop_small [OF assms(1), of 0] assms(3) by (auto simp: const_defs)
  have "class_of (unat z) = i" using i(3,4) by (rule class_of_eqI)
  then show "slabs_clsid z s = Some (of_nat (class_of (unat z)))" "class_of (unat z) < num_classes"
    "unat z \<le> 32 * 2 ^ class_of (unat z)"
    using i assms(2) by (auto simp: slabs_clsid_def)
qed

lemma slabs_clsid_large:
  assumes "table_ok (slabclass s)" and "16384 < unat z"
  shows "slabs_clsid z s = Some (- 1)"
  using clsid_loop_large [OF assms(1) _ assms(2), of 0] assms(2)
  by (auto simp: slabs_clsid_def const_defs)

section \<open>What the operations do on a well-formed allocator\<close>

text \<open>
  A request with an empty free list returns the null pointer and changes nothing; otherwise the first
  chunk of the free list is returned, stamped with its class, and no chunk outside that list is
  touched.
\<close>

lemma slabs_alloc_empty:
  assumes "slabs_wf s F" and "slabs_clsid (scast n) s = Some cid" and "unat cid = i" and "i < num_classes"
    and "F i = []"
  shows "slabs_alloc n s = Some (NULL, s)"
proof -
  have "i < MAX_NUMBER_OF_SLAB_CLASSES" using assms(4) by (simp add: const_defs)
  with slabs_wfD [OF assms(1)] have "sl_curr (slabclass s ! i) = 0" "i < length (slabclass s)"
    using assms(5) by (auto simp: free_ok_def)
  with assms(2,3) show ?thesis by (simp add: slabs_alloc_def)
qed

lemma slabs_alloc_pop:
  assumes wf: "slabs_wf s F" and cid: "slabs_clsid (scast n) s = Some cid" "unat cid = i" "i < num_classes"
    and F: "F i = p # ps"
  obtains it cs h where "heap s p = Some it" "p \<noteq> NULL"
    "slabs_alloc n s = Some (p, s\<lparr>slabclass := cs, heap := h\<rparr>)"
    "slabs_wf (s\<lparr>slabclass := cs, heap := h\<rparr>) (F(i := ps))"
    "h p = Some (it\<lparr>it_clsid := of_nat i\<rparr>)" "length (it_data it) = 32 * 2 ^ i - sizeof_item"
    "\<And>q. q \<notin> set (F i) \<Longrightarrow> h q = heap s q" "dom h = dom (heap s)"
proof -
  note wfD = slabs_wfD [OF wf]
  have iM: "i < MAX_NUMBER_OF_SLAB_CLASSES" using cid(3) by (simp add: const_defs)
  let ?c = "slabclass s ! i"
  have fo: "free_ok (heap s) i ?c (p # ps)" using wfD(6) [OF iM] F by simp
  then obtain it where it: "heap s p = Some it" "sc_slots ?c = p" "p \<noteq> NULL" "chain (heap s) (it_next it) ps"
    by (auto simp: free_ok_def split: option.splits)
  have d: "distinct (p # ps)" using fo unfolding free_ok_def by (blast dest: chain_distinct)
  have curr: "sl_curr ?c \<noteq> 0"
    using free_ok_length(2) [OF fo wfD(4,5)] by auto
  have nx: "it_next it = NULL \<or> it_next it \<noteq> p \<and> heap s (it_next it) \<noteq> None"
    using it(4) d by (cases ps) (auto split: option.splits)
  let ?cs = "(slabclass s)[i := pop_class (it_next it) ?c]"
  let ?it = "it\<lparr>it_clsid := of_nat i\<rparr>"
  let ?h = "(set_prev (it_next it) NULL (heap s))(p \<mapsto> ?it)"
  have u: "ucast cid = (of_nat i :: u8)"
    using cid(2) by (metis of_nat_unat ucast_eq)
  have e: "slabs_alloc n s = Some (p, s\<lparr>slabclass := ?cs, heap := ?h\<rparr>)"
    using slabs_alloc_eval [OF cid(1), of ?c it] it nx curr cid(2) iM wfD(1) u by simp
  moreover have "slabs_wf (s\<lparr>slabclass := ?cs, heap := ?h\<rparr>) (F(i := ps))"
    using pop_wf [OF wf cid(3) F it(1), of ?it] by simp
  moreover have "?h q = heap s q" if "q \<notin> set (F i)" for q
  proof -
    have "q \<noteq> p" using that F by auto
    moreover have "q = it_next it \<Longrightarrow> q = NULL"
      using it(4) that F by (cases ps) (auto split: option.splits)
    ultimately show ?thesis by (cases "q = it_next it") (auto simp: set_prev_other)
  qed
  moreover have "dom ?h = dom (heap s)" using it(1) by auto
  moreover have "length (it_data it) = 32 * 2 ^ i - sizeof_item"
    using fo it(1) by (auto simp: free_ok_def chunk_ok_def)
  ultimately show ?thesis using it(1,3) that by simp
qed

lemma slabs_free_push:
  assumes wf: "slabs_wf s F" and al: "allocated s F p"
  obtains it i cs h where "heap s p = Some it" "i = unat (it_clsid it)" "i < num_classes"
    "slabs_free p s = Some (s\<lparr>slabclass := cs, heap := h\<rparr>)"
    "slabs_wf (s\<lparr>slabclass := cs, heap := h\<rparr>) (F(i := p # F i))"
    "\<And>q. q \<noteq> p \<Longrightarrow> q \<notin> set (F i) \<Longrightarrow> h q = heap s q" "dom h = dom (heap s)"
proof -
  obtain it i where it: "heap s p = Some it" "i = unat (it_clsid it)" "i < num_classes"
    "length (it_data it) = 32 * 2 ^ i - sizeof_item" "\<And>j. p \<notin> set (F j)"
    using al by (auto simp: allocated_def chunk_ok_def)
  have iM: "i < MAX_NUMBER_OF_SLAB_CLASSES" using it(3) by (simp add: const_defs)
  let ?slots = "sc_slots (slabclass s ! i)"
  let ?cs = "(slabclass s)[i := push_class p (slabclass s ! i)]"
  let ?h = "set_prev ?slots p ((heap s)(p \<mapsto> it\<lparr>it_next := ?slots\<rparr>))"
  have sl: "?slots = NULL \<or> ?slots \<in> set (F i) \<and> heap s ?slots \<noteq> None"
    by (rule slabs_wf_slots [OF wf iM])
  have e: "slabs_free p s = Some (s\<lparr>slabclass := ?cs, heap := ?h\<rparr>)"
    by (rule slabs_free_eval [OF it(1,2)]) (use iM slabs_wfD(1) [OF wf] sl it(5) in auto)
  have w: "slabs_wf (s\<lparr>slabclass := ?cs, heap := ?h\<rparr>) (F(i := p # F i))"
    by (rule push_wf [OF wf it(3,5,1) refl]) (use it(4) in auto)
  have fr: "?h q = heap s q" if "q \<noteq> p" "q \<notin> set (F i)" for q
    using that sl by (cases "q = ?slots") (auto simp: set_prev_other)
  have "dom ?h = dom (heap s)" using it(1) by auto
  with e w fr it that show ?thesis by metis
qed

section \<open>Initialisation\<close>

lemma do_slabs_free_push:
  assumes wf: "slabs_wf s F" and i: "i < num_classes" and p: "\<And>j. p \<notin> set (F j)"
    and it: "heap s p = Some it" "length (it_data it) = 32 * 2 ^ i - sizeof_item"
  obtains h where
    "do_slabs_free p i s = Some (s\<lparr>slabclass := (slabclass s)[i := push_class p (slabclass s ! i)], heap := h\<rparr>)"
    "slabs_wf (s\<lparr>slabclass := (slabclass s)[i := push_class p (slabclass s ! i)], heap := h\<rparr>) (F(i := p # F i))"
    "\<And>q. map_option it_data (h q) = map_option it_data (heap s q)"
proof -
  have iM: "i < MAX_NUMBER_OF_SLAB_CLASSES" using i by (simp add: const_defs)
  let ?slots = "sc_slots (slabclass s ! i)"
  let ?h = "set_prev ?slots p ((heap s)(p \<mapsto> it\<lparr>it_prev := NULL, it_next := ?slots\<rparr>))"
  have sl: "?slots = NULL \<or> ?slots \<in> set (F i) \<and> heap s ?slots \<noteq> None"
    by (rule slabs_wf_slots [OF wf iM])
  have "do_slabs_free p i s =
      Some (s\<lparr>slabclass := (slabclass s)[i := push_class p (slabclass s ! i)], heap := ?h\<rparr>)"
    by (rule do_slabs_free_eval) (use iM slabs_wfD(1) [OF wf] sl p it in auto)
  moreover have "slabs_wf (s\<lparr>slabclass := (slabclass s)[i := push_class p (slabclass s ! i)], heap := ?h\<rparr>)
      (F(i := p # F i))"
    by (rule push_wf [OF wf i p it(1) refl]) (use it(2) in auto)
  moreover have "map_option it_data (?h q) = map_option it_data (heap s q)" for q
    using it(1) by auto
  ultimately show ?thesis by (rule that)
qed

text \<open>The fields of a class that pushing chunks does not change.\<close>

definition class_frame :: "slabclass_t \<Rightarrow> slabclass_t \<Rightarrow> bool" where
  "class_frame c c' \<longleftrightarrow> sc_size c' = sc_size c \<and> sc_perslab c' = sc_perslab c \<and>
     slab_list c' = slab_list c \<and> list_size c' = list_size c \<and> slabs c' = slabs c"

lemma class_frame_push [simp]: "class_frame c (push_class p c)"
  by (simp add: class_frame_def push_class_def)

lemma class_frame_trans: "class_frame a b \<Longrightarrow> class_frame b c \<Longrightarrow> class_frame a c"
  by (simp add: class_frame_def)

definition chunk_at :: "ptr \<Rightarrow> nat \<Rightarrow> nat \<Rightarrow> ptr" where
  "chunk_at base i k = base + of_nat (k * (32 * 2 ^ i))"

lemma chunk_at_0 [simp]: "chunk_at base i 0 = base"
  by (simp add: chunk_at_def)

text \<open>
  Splitting a page pushes its chunks one by one, so the free list of the class ends up with the last
  chunk of the page first.
\<close>

lemma split_slab_loop_push:
  assumes "slabs_wf s F" and "i < num_classes"
    and "\<And>k. k < n \<Longrightarrow> map_option (length \<circ> it_data) (heap s (chunk_at p i k)) = Some (32 * 2 ^ i - sizeof_item)"
    and "\<And>k j. k < n \<Longrightarrow> chunk_at p i k \<notin> set (F j)"
    and "\<And>k l. k < n \<Longrightarrow> l < n \<Longrightarrow> chunk_at p i k = chunk_at p i l \<Longrightarrow> k = l"
  shows "\<exists>c h. split_slab_loop n p i s = Some (s\<lparr>slabclass := (slabclass s)[i := c], heap := h\<rparr>) \<and>
    slabs_wf (s\<lparr>slabclass := (slabclass s)[i := c], heap := h\<rparr>)
      (F(i := rev (map (chunk_at p i) [0..<n]) @ F i)) \<and> class_frame (slabclass s ! i) c"
  using assms
proof (induction n arbitrary: p s F)
  case 0
  have "s = s\<lparr>slabclass := (slabclass s)[i := slabclass s ! i], heap := heap s\<rparr>" by simp
  with "0.prems"(1) show ?case
    by (intro exI [of _ "slabclass s ! i"] exI [of _ "heap s"]) (simp add: class_frame_def)
next
  case (Suc n)
  note wf = Suc.prems(1) and i = Suc.prems(2)
  have iM: "i < MAX_NUMBER_OF_SLAB_CLASSES" using i by (simp add: const_defs)
  have len: "i < length (slabclass s)" using iM slabs_wfD(1) [OF wf] by simp
  define p' where "p' = p + (of_nat (32 * 2 ^ i) :: u64)"
  have shift: "chunk_at p' i k = chunk_at p i (Suc k)" for k
    by (simp add: chunk_at_def p'_def algebra_simps)
  obtain it where it: "heap s p = Some it" "length (it_data it) = 32 * 2 ^ i - sizeof_item"
    using Suc.prems(3) [of 0] by auto
  obtain h where h:
    "do_slabs_free p i s = Some (s\<lparr>slabclass := (slabclass s)[i := push_class p (slabclass s ! i)], heap := h\<rparr>)"
    "slabs_wf (s\<lparr>slabclass := (slabclass s)[i := push_class p (slabclass s ! i)], heap := h\<rparr>) (F(i := p # F i))"
    "\<And>q. map_option it_data (h q) = map_option it_data (heap s q)"
    using do_slabs_free_push [OF wf i _ it] Suc.prems(4) [of 0] by auto
  let ?s = "s\<lparr>slabclass := (slabclass s)[i := push_class p (slabclass s ! i)], heap := h\<rparr>"
  have "unat (sc_size (slabclass s ! i)) = 32 * 2 ^ i"
    using slabs_wfD(2) [OF wf] iM i by (auto simp: table_ok_def)
  then have sz: "ucast (sc_size (slabclass s ! i)) = (of_nat (32 * 2 ^ i) :: u64)"
    by (metis of_nat_unat)
  have step: "split_slab_loop (Suc n) p i s = split_slab_loop n p' i ?s"
    using h(1) len sz by (simp add: push_class_def p'_def)
  have "\<exists>c h'. split_slab_loop n p' i ?s = Some (?s\<lparr>slabclass := (slabclass ?s)[i := c], heap := h'\<rparr>) \<and>
      slabs_wf (?s\<lparr>slabclass := (slabclass ?s)[i := c], heap := h'\<rparr>)
        ((F(i := p # F i))(i := rev (map (chunk_at p' i) [0..<n]) @ (F(i := p # F i)) i)) \<and>
      class_frame (slabclass ?s ! i) c"
  proof (rule Suc.IH [OF h(2) i])
    fix k assume "k < n"
    then show "map_option (length \<circ> it_data) (heap ?s (chunk_at p' i k)) = Some (32 * 2 ^ i - sizeof_item)"
      using Suc.prems(3) [of "Suc k"] h(3) [of "chunk_at p i (Suc k)"]
      by (metis (no_types, lifting) Suc_less_eq option.map_comp shift slabs_state.select_convs(2) slabs_state.surjective slabs_state.update_convs(2))
    fix j show "chunk_at p' i k \<notin> set ((F(i := p # F i)) j)"
      using Suc.prems(4) [of "Suc k" j] Suc.prems(4) [of "Suc k" i] Suc.prems(5) [of "Suc k" 0] \<open>k < n\<close>
      by (auto simp: shift split: if_splits)
  next
    fix k l assume "k < n" "l < n" "chunk_at p' i k = chunk_at p' i l"
    then show "k = l" using Suc.prems(5) [of "Suc k" "Suc l"] by (simp only: shift) simp
  qed
  moreover have "rev (map (chunk_at p' i) [0..<n]) @ p # F i = rev (map (chunk_at p i) [0..<Suc n]) @ F i"
    unfolding shift by (simp add: upt_conv_Cons map_Suc_upt [symmetric] comp_def del: upt_Suc map_Suc_upt)
  ultimately obtain c h' where
    "split_slab_loop n p' i ?s = Some (s\<lparr>slabclass := (slabclass s)[i := c], heap := h'\<rparr>)"
    "slabs_wf (s\<lparr>slabclass := (slabclass s)[i := c], heap := h'\<rparr>)
       (F(i := rev (map (chunk_at p i) [0..<Suc n]) @ F i))"
    "class_frame (push_class p (slabclass s ! i)) c"
    using len by auto
  then show ?case
    unfolding step by (blast intro: class_frame_trans [OF class_frame_push])
qed

text \<open>What \<open>slab_init\<close> relies on: the page is mapped inside the address space, the list is grown.\<close>

definition mmap_ok :: "os \<Rightarrow> bool" where
  "mmap_ok os \<longleftrightarrow> os_mmap os \<noteq> NULL \<and> os_mmap os \<noteq> MAP_FAILED \<and>
     unat (os_mmap os) + unat slab_page_size \<le> 2 ^ 64"

definition realloc_ok :: "os \<Rightarrow> bool" where
  "realloc_ok os \<longleftrightarrow>
     (\<forall>xs n ys. os_realloc os xs n = Some ys \<longrightarrow> length ys = n \<and> take (length xs) ys = take n xs) \<and>
     os_realloc os [] 16 \<noteq> None"

definition calloc_ok :: "os \<Rightarrow> bool" where
  "calloc_ok os \<longleftrightarrow> (\<forall>n. os_calloc os n = Some (replicate n NULL))"

definition table0 :: "slabclass_t list" where
  "table0 = init_classes MAX_NUMBER_OF_SLAB_CLASSES 0 min_size
     (replicate MAX_NUMBER_OF_SLAB_CLASSES empty_class)"

lemma table0_eq:
  "table0 = map (\<lambda>i. if i < 10 then empty_class\<lparr>sc_size := 32 * 2 ^ i, sc_perslab := 33554432 div (32 * 2 ^ i)\<rparr>
                     else empty_class) [0..<64]"
  by code_simp

lemma length_table0 [simp]: "length table0 = MAX_NUMBER_OF_SLAB_CLASSES"
  by (simp add: table0_eq const_defs)

lemma table0_nth:
  "i < 64 \<Longrightarrow> table0 ! i =
     (if i < 10 then empty_class\<lparr>sc_size := 32 * 2 ^ i, sc_perslab := 33554432 div (32 * 2 ^ i)\<rparr> else empty_class)"
  by (simp add: table0_eq)

lemma pow2_size: "i < 10 \<Longrightarrow> unat (32 * 2 ^ i :: u32) = 32 * 2 ^ i"
proof -
  assume "i < 10"
  then have "i \<in> {0, 1, 2, 3, 4, 5, 6, 7, 8, 9}" by auto
  then show ?thesis by (elim insertE emptyE) simp_all
qed

lemma table_ok_table0: "table_ok table0"
  by (auto simp: table_ok_def table0_nth const_defs pow2_size empty_class_def)

lemma table0_class_1:
  "sc_size (table0 ! 1) = 64" "sc_perslab (table0 ! 1) = 524288" "slabs (table0 ! 1) = 0"
  "list_size (table0 ! 1) = 0" "slab_list (table0 ! 1) = []"
  by (simp_all add: table0_nth empty_class_def)

lemma class_of_64: "class_of 64 = 1"
  by (rule class_of_eqI) auto

lemma in_page_card:
  "card {q. in_page base sz q} < 2 ^ 32"
proof -
  have "card {q. in_page base sz q} \<le> card {..<unat slab_page_size}"
  proof (rule card_inj_on_le)
    show "inj_on (\<lambda>q. unat (q - base)) {q. in_page base sz q}"
      by (rule inj_onI) (metis add_diff_cancel_right' diff_add_cancel word_unat_eq_iff)
    show "(\<lambda>q. unat (q - base)) ` {q. in_page base sz q} \<subseteq> {..<unat slab_page_size}"
      by (auto simp: in_page_def)
  qed simp
  then show ?thesis by (simp add: slab_page_size_def)
qed

lemma in_page_NULL:
  assumes "mmap_ok os"
  shows "\<not> in_page (os_mmap os) sz NULL"
proof -
  have "unat (os_mmap os) \<noteq> 0" using assms by (simp add: mmap_ok_def unat_eq_zero)
  then have "unat (0 - os_mmap os) = 2 ^ 64 - unat (os_mmap os)"
    using unat_sub_if' [of 0 "os_mmap os"] by simp
  then show ?thesis
    using assms by (auto simp: mmap_ok_def in_page_def)
qed

lemma chunk_offset:
  assumes "k < 524288"
  shows "unat (chunk_at base 1 k - base) = k * 64"
proof -
  have "k * 64 < 2 ^ LENGTH(64)" using assms by simp
  then show ?thesis
    unfolding chunk_at_def by (simp add: unat_of_nat_less del: of_nat_mult of_nat_numeral)
qed

lemma in_page_chunk: "k < 524288 \<Longrightarrow> in_page base 64 (chunk_at base 1 k)"
  using chunk_offset [of k base] by (simp add: in_page_def slab_page_size_def)

lemma chunk_at_inj: "k < 524288 \<Longrightarrow> l < 524288 \<Longrightarrow> chunk_at base 1 k = chunk_at base 1 l \<Longrightarrow> k = l"
  using chunk_offset [of k base] chunk_offset [of l base] by simp

lemma heap_then_class: "s\<lparr>heap := h, slabclass := cs\<rparr> = s\<lparr>slabclass := cs, heap := h\<rparr>"
  by simp

lemma slabs_wf_class_upd:
  assumes wf: "slabs_wf s F" and i: "i < MAX_NUMBER_OF_SLAB_CLASSES"
    and c: "sc_size c = sc_size (slabclass s ! i)" "sc_slots c = sc_slots (slabclass s ! i)"
      "sl_curr c = sl_curr (slabclass s ! i)"
  shows "slabs_wf (s\<lparr>slabclass := (slabclass s)[i := c]\<rparr>) F"
proof -
  have "free_ok (heap s) j ((slabclass s)[i := c] ! j) (F j)" if "j < MAX_NUMBER_OF_SLAB_CLASSES" for j
    using slabs_wfD(6) [OF wf that] slabs_wfD(1) [OF wf] i c
    by (cases "j = i") (auto simp: free_ok_def)
  with wf table_ok_update [OF slabs_wfD(2) [OF wf] c(1)] show ?thesis
    by (simp add: slabs_wf_def)
qed

text \<open>The free lists after initialisation: one page of 64-byte chunks, nothing else.\<close>

definition init_free :: "ptr \<Rightarrow> nat \<Rightarrow> ptr list" where
  "init_free base i = (if i = 1 then rev (map (chunk_at base 1) [0..<524288]) else [])"

lemma slab_init_wf:
  assumes "heap s = Map.empty" and os: "mmap_ok os" "realloc_ok os"
  obtains c h where "slab_init os s = Some (s\<lparr>slabclass := table0[1 := c], heap := h\<rparr>)"
    "slabs_wf (s\<lparr>slabclass := table0[1 := c], heap := h\<rparr>) (init_free (os_mmap os))"
    "slabs c = 1" "list_size c = 16" "\<exists>ys. slab_list c = os_mmap os # ys" "sc_size c = 64"
proof -
  let ?base = "os_mmap os"
  obtain ys where ys: "os_realloc os [] 16 = Some ys" "length ys = 16"
    using os(2) by (auto simp: realloc_ok_def)
  then obtain y ys' where yy: "ys = y # ys'" by (cases ys) auto
  let ?c1 = "(table0 ! 1)\<lparr>list_size := 16, slab_list := ys\<rparr>"
  let ?h1 = "\<lambda>q. if in_page ?base 64 q then Some (zero_item 64) else None"
  let ?s1 = "s\<lparr>slabclass := table0[1 := ?c1], heap := ?h1\<rparr>"
  have c1: "sc_size ?c1 = 64" "sc_slots ?c1 = NULL" "sl_curr ?c1 = 0" "slabs ?c1 = 0" "sc_perslab ?c1 = 524288"
    by (simp_all add: table0_nth empty_class_def)
  have cl: "sc_slots (table0[1 := ?c1] ! i) = NULL \<and> sl_curr (table0[1 := ?c1] ! i) = 0" if "i < 64" for i
    using that c1 by (cases "i = 1") (auto simp: table0_nth empty_class_def const_defs)
  have dom: "dom ?h1 = {q. in_page ?base 64 q}" by (auto split: if_splits)
  have wf1: "slabs_wf ?s1 (\<lambda>_. [])"
    using table_ok_update [OF table_ok_table0, of ?c1 1] in_page_NULL [OF os(1), of 64] in_page_card [of ?base 64] cl
    by (simp add: slabs_wf_def free_ok_def dom MAX_NUMBER_OF_SLAB_CLASSES_def)
  have "\<exists>c h. split_slab_loop 524288 ?base 1 ?s1 = Some (?s1\<lparr>slabclass := (slabclass ?s1)[1 := c], heap := h\<rparr>) \<and>
      slabs_wf (?s1\<lparr>slabclass := (slabclass ?s1)[1 := c], heap := h\<rparr>)
        ((\<lambda>_. [])(1 := rev (map (chunk_at ?base 1) [0..<524288]) @ [])) \<and> class_frame (slabclass ?s1 ! 1) c"
    by (rule split_slab_loop_push [OF wf1])
      (use in_page_chunk chunk_at_inj in \<open>auto simp: num_classes_def zero_item_def\<close>)
  moreover have "(\<lambda>_. [])(1 := rev (map (chunk_at ?base 1) [0..<524288]) @ []) = init_free ?base"
    by (rule ext) (simp add: init_free_def)
  ultimately obtain c h where ch:
    "split_slab_loop 524288 ?base 1 ?s1 = Some (s\<lparr>slabclass := table0[1 := c], heap := h\<rparr>)"
    "slabs_wf (s\<lparr>slabclass := table0[1 := c], heap := h\<rparr>) (init_free ?base)" "class_frame ?c1 c"
    by (auto simp: const_defs)
  let ?c = "c\<lparr>slab_list := (slab_list c)[0 := ?base], slabs := 1\<rparr>"
  have fc: "slab_list c = ys" "slabs c = 0" "list_size c = 16" "sc_size c = 64"
    using ch(3) by (simp_all add: class_frame_def table0_class_1 [simplified])
  have l1: "Suc 0 < length table0" by (simp add: const_defs)
  have clsid: "slabs_clsid 64 (s\<lparr>slabclass := table0\<rparr>) = Some 1"
    using slabs_clsid_small(1) [of "s\<lparr>slabclass := table0\<rparr>" 64] table_ok_table0 class_of_64 by simp
  have "slab_init os s = Some (s\<lparr>slabclass := table0[1 := ?c], heap := h\<rparr>)"
    using clsid os(1) ys ch(1) fc assms(1) l1 c1
    unfolding slab_init_def slab_preallocate_def table0_def [symmetric] mmap_ok_def memset_page_def
      grow_slab_list_def split_slab_page_into_freelist_def Let_def
    by (simp add: table0_class_1 [simplified] heap_then_class del: length_table0 cong: if_cong)
  moreover have "slabs_wf (s\<lparr>slabclass := table0[1 := ?c], heap := h\<rparr>) (init_free ?base)"
    using slabs_wf_class_upd [OF ch(2), of 1 ?c] by (simp add: const_defs heap_then_class)
  moreover have "slabs ?c = 1" "list_size ?c = 16" "\<exists>ys. slab_list ?c = ?base # ys" "sc_size ?c = 64"
    using fc yy by simp_all
  ultimately show ?thesis using that by blast
qed

section \<open>The interface of the allocator\<close>

text \<open>
  What a client of the allocator may rely on. The free chunks are kept in lists, one per class; a
  request that fits a class takes the first chunk of its list; a chunk outside the free lists is never
  touched by another chunk's allocation or release.
\<close>

definition owned :: "heap \<Rightarrow> (nat \<Rightarrow> ptr list) \<Rightarrow> nat \<Rightarrow> ptr \<Rightarrow> bool" where
  "owned h F i p \<longleftrightarrow> (\<exists>it. h p = Some it \<and> it_clsid it = of_nat i \<and> i < num_classes \<and>
     length (it_data it) = 32 * 2 ^ i - sizeof_item) \<and> (\<forall>j. p \<notin> set (F j))"

locale allocator =
  fixes alloc :: "u32 \<Rightarrow> 's \<Rightarrow> (ptr \<times> 's) option"
    and release :: "ptr \<Rightarrow> 's \<Rightarrow> 's option"
    and wf :: "'s \<Rightarrow> (nat \<Rightarrow> ptr list) \<Rightarrow> bool"
    and mem :: "'s \<Rightarrow> heap"
    and cls :: "u32 \<Rightarrow> nat"
    and fits :: "u32 \<Rightarrow> bool"
  assumes alloc_empty: "wf s F \<Longrightarrow> fits n \<Longrightarrow> F (cls n) = [] \<Longrightarrow> alloc n s = Some (NULL, s)"
    and alloc_pop: "wf s F \<Longrightarrow> fits n \<Longrightarrow> F (cls n) = p # ps \<Longrightarrow>
      \<exists>s'. alloc n s = Some (p, s') \<and> p \<noteq> NULL \<and> wf s' (F(cls n := ps)) \<and> owned (mem s') (F(cls n := ps)) (cls n) p \<and>
        (\<forall>q. q \<notin> set (F (cls n)) \<longrightarrow> mem s' q = mem s q)"
    and release_push: "wf s F \<Longrightarrow> owned (mem s) F i p \<Longrightarrow>
      \<exists>s'. release p s = Some s' \<and> wf s' (F(i := p # F i)) \<and>
        (\<forall>q. q \<noteq> p \<longrightarrow> q \<notin> set (F i) \<longrightarrow> mem s' q = mem s q)"
begin

text \<open>A request that fits never faults.\<close>

lemma alloc_total:
  assumes "wf s F" and "fits n"
  shows "\<exists>p s'. alloc n s = Some (p, s')"
  using assms alloc_empty alloc_pop by (cases "F (cls n)") blast+

text \<open>A chunk that a client owns keeps its contents when another chunk is requested or released.\<close>

lemma alloc_keeps_owned:
  assumes "wf s F" and "fits n" and "alloc n s = Some (p, s')" and "owned (mem s) F i q"
  shows "mem s' q = mem s q"
proof (cases "F (cls n)")
  case Nil
  with assms show ?thesis using alloc_empty by auto
next
  case (Cons r ps)
  have "q \<notin> set (F (cls n))" using assms(4) by (simp add: owned_def)
  with alloc_pop [OF assms(1,2) Cons] assms(3) show ?thesis by auto
qed

lemma release_keeps_owned:
  assumes "wf s F" and "owned (mem s) F i p" and "release p s = Some s'" and "owned (mem s) F j q" and "q \<noteq> p"
  shows "mem s' q = mem s q"
  using release_push [OF assms(1,2)] assms(3-5) by (auto simp: owned_def)

text \<open>A new chunk is not one that a client owns.\<close>

lemma alloc_fresh:
  assumes "wf s F" and "fits n" and "alloc n s = Some (p, s')" and "owned (mem s) F i q" and "p \<noteq> NULL"
  shows "p \<noteq> q"
proof (cases "F (cls n)")
  case Nil
  with assms show ?thesis using alloc_empty by auto
next
  case (Cons r ps)
  then have "p \<in> set (F (cls n))" using alloc_pop [OF assms(1,2) Cons] assms(3) by auto
  with assms(4) show ?thesis by (auto simp: owned_def)
qed

text \<open>After a release, a request of the same class succeeds, and is given the released chunk.\<close>

lemma release_then_alloc:
  assumes "wf s F" and "owned (mem s) F (cls n) p" and "fits n"
  shows "\<exists>s1 s2. release p s = Some s1 \<and> alloc n s1 = Some (p, s2) \<and> wf s2 F"
proof -
  obtain s1 where s1: "release p s = Some s1" "wf s1 (F(cls n := p # F (cls n)))"
    using release_push [OF assms(1,2)] by blast
  obtain s2 where "alloc n s1 = Some (p, s2)" "wf s2 ((F(cls n := p # F (cls n)))(cls n := F (cls n)))"
    using alloc_pop [OF s1(2) assms(3)] by fastforce
  with s1(1) show ?thesis by auto
qed

end

definition fits_class :: "u32 \<Rightarrow> bool" where
  "fits_class n \<longleftrightarrow> 0 < unat n \<and> unat n \<le> 16384"

lemma request_class:
  assumes "slabs_wf s F" and "fits_class n"
  shows "slabs_clsid (scast n) s = Some (of_nat (class_of (unat n)))"
    and "unat (of_nat (class_of (unat n)) :: u32) = class_of (unat n)" and "class_of (unat n) < num_classes"
    and "unat n \<le> 32 * 2 ^ class_of (unat n)"
proof -
  have u: "unat (scast n :: u64) = unat n"
    using assms(2) by (intro unat_scast_u64) (simp add: fits_class_def)
  show *: "slabs_clsid (scast n) s = Some (of_nat (class_of (unat n)))" "class_of (unat n) < num_classes"
    "unat n \<le> 32 * 2 ^ class_of (unat n)"
    using slabs_clsid_small [OF slabs_wfD(2) [OF assms(1)], of "scast n"] assms(2)
    by (simp_all add: u fits_class_def)
  show "unat (of_nat (class_of (unat n)) :: u32) = class_of (unat n)"
    using *(2) by (intro unat_of_nat_less) (simp add: const_defs)
qed

lemma owned_allocated: "owned (heap s) F i p \<Longrightarrow> allocated s F p"
  by (auto simp: owned_def allocated_def chunk_ok_def const_defs unat_of_nat)

interpretation sl: allocator slabs_alloc slabs_free slabs_wf heap "\<lambda>n. class_of (unat n)" fits_class
proof
  fix s :: "'a slabs_state_scheme" and F n
  assume wf: "slabs_wf s F" and n: "fits_class n"
  note rc = request_class [OF wf n]
  show "slabs_alloc n s = Some (NULL, s)" if "F (class_of (unat n)) = []"
    by (rule slabs_alloc_empty [OF wf rc(1,2,3) that])
  fix p ps assume F: "F (class_of (unat n)) = p # ps"
  obtain it cs h where "heap s p = Some it" and a: "p \<noteq> NULL"
    "slabs_alloc n s = Some (p, s\<lparr>slabclass := cs, heap := h\<rparr>)"
    "slabs_wf (s\<lparr>slabclass := cs, heap := h\<rparr>) (F(class_of (unat n) := ps))"
    "h p = Some (it\<lparr>it_clsid := of_nat (class_of (unat n))\<rparr>)"
    "length (it_data it) = 32 * 2 ^ class_of (unat n) - sizeof_item"
    "\<And>q. q \<notin> set (F (class_of (unat n))) \<Longrightarrow> h q = heap s q" "dom h = dom (heap s)"
    by (rule slabs_alloc_pop [OF wf rc(1,2,3) F]) (rule that)
  have "p \<notin> set (F j)" if "j \<noteq> class_of (unat n)" for j
    using slabs_wfD(7) [OF wf that] F by auto
  moreover have "p \<notin> set ps"
  proof -
    have "class_of (unat n) < MAX_NUMBER_OF_SLAB_CLASSES" using rc(3) by (simp add: const_defs)
    from slabs_wfD(6) [OF wf this] have "chain (heap s) (sc_slots (slabclass s ! class_of (unat n))) (p # ps)"
      unfolding free_ok_def F by blast
    from chain_distinct [OF this] show ?thesis by simp
  qed
  ultimately have ow: "owned h (F(class_of (unat n) := ps)) (class_of (unat n)) p"
    using a(4,5) rc(3) by (simp add: owned_def)
  show "\<exists>s'. slabs_alloc n s = Some (p, s') \<and> p \<noteq> NULL \<and> slabs_wf s' (F(class_of (unat n) := ps)) \<and>
      owned (heap s') (F(class_of (unat n) := ps)) (class_of (unat n)) p \<and>
      (\<forall>q. q \<notin> set (F (class_of (unat n))) \<longrightarrow> heap s' q = heap s q)"
  proof (intro exI conjI allI impI)
    show "slabs_alloc n s = Some (p, s\<lparr>slabclass := cs, heap := h\<rparr>)" by (rule a(2))
    show "heap (s\<lparr>slabclass := cs, heap := h\<rparr>) q = heap s q" if "q \<notin> set (F (class_of (unat n)))" for q
      using a(6) [OF that] by simp
  qed (use a(1,3) ow in simp_all)
next
  fix s :: "'a slabs_state_scheme" and F i p
  assume wf: "slabs_wf s F" and ow: "owned (heap s) F i p"
  have i: "unat (of_nat i :: u8) = i" if "i < num_classes" using that by (simp add: const_defs unat_of_nat)
  from slabs_free_push [OF wf owned_allocated [OF ow]]
  obtain it i' cs h where f: "heap s p = Some it" "i' = unat (it_clsid it)"
    "slabs_free p s = Some (s\<lparr>slabclass := cs, heap := h\<rparr>)"
    "slabs_wf (s\<lparr>slabclass := cs, heap := h\<rparr>) (F(i' := p # F i'))"
    "\<And>q. q \<noteq> p \<Longrightarrow> q \<notin> set (F i') \<Longrightarrow> h q = heap s q"
    by metis
  have "i' = i" using f(1,2) ow i by (auto simp: owned_def)
  with f show "\<exists>s'. slabs_free p s = Some s' \<and> slabs_wf s' (F(i := p # F i)) \<and>
      (\<forall>q. q \<noteq> p \<longrightarrow> q \<notin> set (F i) \<longrightarrow> heap s' q = heap s q)"
    by (intro exI conjI) auto
qed

section \<open>Properties\<close>

text \<open>A system that maps the pool at a fixed address and always finds memory for the page lists.\<close>

definition demo_os :: os where
  "demo_os = \<lparr>os_mmap = 0x10000, os_realloc = (\<lambda>xs n. Some (take n xs @ replicate (n - length xs) 0)),
     os_calloc = (\<lambda>n. Some (replicate n NULL))\<rparr>"

definition blank_slabs :: slabs_state where
  "blank_slabs = \<lparr>slabclass = [], heap = Map.empty\<rparr>"

lemma demo_os_ok: "mmap_ok demo_os" "realloc_ok demo_os" "calloc_ok demo_os"
proof -
  show "calloc_ok demo_os" by (simp add: calloc_ok_def demo_os_def)
  show "mmap_ok demo_os" by (simp add: mmap_ok_def demo_os_def MAP_FAILED_def slab_page_size_def)
  show "realloc_ok demo_os"
    unfolding realloc_ok_def
  proof (intro conjI allI impI)
    fix xs n ys assume "os_realloc demo_os xs n = Some ys"
    then have ys: "ys = take n xs @ replicate (n - length xs) 0" by (simp add: demo_os_def)
    show "length ys = n" by (simp add: ys min_def)
    show "take (length xs) ys = take n xs" by (cases "n \<le> length xs") (simp_all add: ys)
  qed (simp add: demo_os_def)
qed

text \<open>Initialisation, when the mapping and the page list can be had, cuts the 32 MiB page into 524288 free
  chunks of 64 bytes for size class 1, establishes the invariant of the allocator, and leaves the nine
  other classes empty.\<close>
theorem slab_init_pool:
  assumes "heap s = Map.empty" and "mmap_ok os" and "realloc_ok os"
  shows "\<exists>s'. slab_init os s = Some s' \<and> slabs_wf s' (init_free (os_mmap os)) \<and>
    length (init_free (os_mmap os) 1) = 524288 \<and> (\<forall>i. i \<noteq> 1 \<longrightarrow> init_free (os_mmap os) i = [])"
proof -
  obtain c h where "slab_init os s = Some (s\<lparr>slabclass := table0[1 := c], heap := h\<rparr>)"
    "slabs_wf (s\<lparr>slabclass := table0[1 := c], heap := h\<rparr>) (init_free (os_mmap os))"
    using slab_init_wf [OF assms] by blast
  then show ?thesis by (auto simp: init_free_def)
qed

theorem slab_init_pool_witness:
  "\<exists>s'. slab_init demo_os blank_slabs = Some s' \<and> slabs_wf s' (init_free (os_mmap demo_os)) \<and>
    length (init_free (os_mmap demo_os) 1) = 524288 \<and> (\<forall>i. i \<noteq> 1 \<longrightarrow> init_free (os_mmap demo_os) i = [])"
  by (rule slab_init_pool) (simp_all add: demo_os_ok blank_slabs_def)

lemma demo_pool: "\<exists>s :: slabs_state. slabs_wf s (init_free 0x10000)"
proof -
  have "heap blank_slabs = Map.empty" by (simp add: blank_slabs_def)
  from slab_init_wf [OF this demo_os_ok(1,2)] show ?thesis by (auto simp: demo_os_def)
qed

lemma demo_owned: "\<exists>(s :: slabs_state) F p. slabs_wf s F \<and> owned (heap s) F (class_of (unat (64 :: u32))) p"
proof -
  obtain s :: slabs_state where s: "slabs_wf s (init_free 0x10000)" using demo_pool by blast
  have f: "fits_class 64" by (simp add: fits_class_def)
  obtain p ps where F: "init_free 0x10000 (class_of (unat (64 :: u32))) = p # ps"
    by (cases "init_free 0x10000 (class_of (unat (64 :: u32)))") (auto simp: init_free_def class_of_64)
  show ?thesis using sl.alloc_pop [OF s f F] by metis
qed

section \<open>Histories of the allocator\<close>

text \<open>
  A client's view: the state of the allocator with the set of chunks that were handed out and not yet given
  back. A client may write anything but the class number into a chunk that it holds.
\<close>

inductive slab_run :: "os \<Rightarrow> 'a slabs_state_scheme \<Rightarrow> ptr set \<Rightarrow> bool" for os where
  run_init: "heap s0 = Map.empty \<Longrightarrow> slab_init os s0 = Some s \<Longrightarrow> slab_run os s {}"
| run_alloc: "slab_run os s U \<Longrightarrow> fits_class n \<Longrightarrow> slabs_alloc n s = Some (p, s') \<Longrightarrow>
    slab_run os s' (if p = NULL then U else insert p U)"
| run_free: "slab_run os s U \<Longrightarrow> p \<in> U \<Longrightarrow> slabs_free p s = Some s' \<Longrightarrow> slab_run os s' (U - {p})"
| run_write: "slab_run os s U \<Longrightarrow> p \<in> U \<Longrightarrow> heap s p = Some it \<Longrightarrow> it_clsid it' = it_clsid it \<Longrightarrow>
    length (it_data it') = length (it_data it) \<Longrightarrow> slab_run os (s\<lparr>heap := (heap s)(p \<mapsto> it')\<rparr>) U"

text \<open>What holds of a history: the chunks in use and the free chunks are apart and make up the pool.\<close>

definition in_use :: "'a slabs_state_scheme \<Rightarrow> (nat \<Rightarrow> ptr list) \<Rightarrow> ptr set \<Rightarrow> bool" where
  "in_use s F U \<longleftrightarrow> slabs_wf s F \<and> finite U \<and> (\<forall>q\<in>U. owned (heap s) F 1 q) \<and>
     card U + length (F 1) = 524288 \<and> (\<forall>i. i \<noteq> 1 \<longrightarrow> F i = [])"

lemma in_use_null: "in_use s F U \<Longrightarrow> NULL \<notin> U"
  by (auto simp: in_use_def owned_def slabs_wf_def)

lemma in_use_count: "in_use s F U \<Longrightarrow> card U + unat (sl_curr (slabclass s ! 1)) = 524288"
  using free_ok_length(2) [of "heap s" 1 "slabclass s ! 1" "F 1"] slabs_wfD(4,5) [of s F] slabs_wfD(6) [of s F 1]
  by (auto simp: in_use_def const_defs)

lemma class_of_1:
  assumes "fits_class n"
  shows "class_of (unat n) = 1 \<longleftrightarrow> 32 < unat n \<and> unat n \<le> 64"
proof
  have ex: "unat n \<le> 32 * 2 ^ 9" using assms by (simp add: fits_class_def)
  assume 1: "class_of (unat n) = 1"
  have "unat n \<le> 32 * 2 ^ class_of (unat n)"
    unfolding class_of_def by (rule LeastI [where P = "\<lambda>i. unat n \<le> 32 * 2 ^ i", OF ex])
  moreover have "\<not> unat n \<le> 32 * 2 ^ 0"
    using not_less_Least [of 0 "\<lambda>i. unat n \<le> 32 * 2 ^ i"] 1 by (simp add: class_of_def)
  ultimately show "32 < unat n \<and> unat n \<le> 64" using 1 by simp
next
  assume "32 < unat n \<and> unat n \<le> 64"
  then show "class_of (unat n) = 1" by (intro class_of_eqI) auto
qed

lemma owned_other:
  assumes "owned h F i q" and "h' q = h q" and "\<And>j. q \<in> set (F' j) \<Longrightarrow> q \<in> set (F j)"
  shows "owned h' F' i q"
  using assms by (auto simp: owned_def)

lemma in_use_alloc:
  assumes u: "in_use s F U" and n: "fits_class n"
  shows "\<exists>p s' F'. slabs_alloc n s = Some (p, s') \<and> p \<notin> U \<and>
    (p \<noteq> NULL \<longleftrightarrow> 32 < unat n \<and> unat n \<le> 64 \<and> card U < 524288) \<and> (\<forall>q\<in>U. heap s' q = heap s q) \<and>
    in_use s' F' (if p = NULL then U else insert p U)"
proof (cases "F (class_of (unat n))")
  case Nil
  have "\<not> (32 < unat n \<and> unat n \<le> 64 \<and> card U < 524288)"
    using u Nil class_of_1 [OF n] by (auto simp: in_use_def)
  moreover have "slabs_alloc n s = Some (NULL, s)"
    using sl.alloc_empty [of s F n] n Nil u by (simp add: in_use_def)
  ultimately show ?thesis using u in_use_null [OF u] by auto
next
  case (Cons p ps)
  have wf: "slabs_wf s F" and own: "\<And>q. q \<in> U \<Longrightarrow> owned (heap s) F 1 q" and fin: "finite U"
    and sum: "card U + length (F 1) = 524288" and other: "\<And>i. i \<noteq> 1 \<Longrightarrow> F i = []"
    using u by (auto simp: in_use_def)
  have c: "class_of (unat n) = 1" using other Cons by (metis list.distinct(1))
  obtain s' where a: "slabs_alloc n s = Some (p, s')" "p \<noteq> NULL" "slabs_wf s' (F(1 := ps))"
    "owned (heap s') (F(1 := ps)) 1 p" "\<And>q. q \<notin> set (F 1) \<Longrightarrow> heap s' q = heap s q"
    using sl.alloc_pop [OF wf n Cons] unfolding c by blast
  have F1: "F 1 = p # ps" using Cons c by simp
  then have p: "p \<notin> U" using own [of p] unfolding owned_def by (metis list.set_intros(1))
  have keep: "heap s' q = heap s q" if "q \<in> U" for q using own [OF that] by (intro a(5)) (simp add: owned_def)
  have "owned (heap s') (F(1 := ps)) 1 q" if "q \<in> U" for q
    using own [OF that] keep [OF that] by (rule owned_other) (use F1 in \<open>auto split: if_splits\<close>)
  then have "in_use s' (F(1 := ps)) (insert p U)"
    using a(3,4) fin sum p other F1 by (simp add: in_use_def)
  moreover have "card U < 524288" using sum F1 by simp
  ultimately show ?thesis using a(1,2) p keep class_of_1 [OF n] c by auto
qed

lemma in_use_free:
  assumes u: "in_use s F U" and p: "p \<in> U"
  shows "\<exists>s' F'. slabs_free p s = Some s' \<and> (\<forall>q\<in>U - {p}. heap s' q = heap s q) \<and> in_use s' F' (U - {p})"
proof -
  have wf: "slabs_wf s F" and own: "\<And>q. q \<in> U \<Longrightarrow> owned (heap s) F 1 q" and fin: "finite U"
    and sum: "card U + length (F 1) = 524288" and other: "\<And>i. i \<noteq> 1 \<Longrightarrow> F i = []"
    using u by (auto simp: in_use_def)
  obtain s' where f: "slabs_free p s = Some s'" "slabs_wf s' (F(1 := p # F 1))"
    "\<And>q. q \<noteq> p \<Longrightarrow> q \<notin> set (F 1) \<Longrightarrow> heap s' q = heap s q"
    using sl.release_push [OF wf own [OF p]] by blast
  have keep: "heap s' q = heap s q" if "q \<in> U - {p}" for q
    using own [of q] that by (intro f(3)) (auto simp: owned_def)
  have "owned (heap s') (F(1 := p # F 1)) 1 q" if "q \<in> U - {p}" for q
    using own [of q] keep [of q] that by (intro owned_other [of "heap s" F 1 q "heap s'"]) (auto split: if_splits)
  moreover have "card (U - {p}) + length (p # F 1) = 524288" using sum card_Suc_Diff1 [OF fin p] by simp
  ultimately have "in_use s' (F(1 := p # F 1)) (U - {p})" using f(2) fin other by (simp add: in_use_def)
  then show ?thesis using f(1) keep by blast
qed

lemma in_use_write:
  assumes u: "in_use s F U" and p: "p \<in> U" and it: "heap s p = Some it" "it_clsid it' = it_clsid it" "length (it_data it') = length (it_data it)"
  shows "in_use (s\<lparr>heap := (heap s)(p \<mapsto> it')\<rparr>) F U"
proof -
  let ?h = "(heap s)(p \<mapsto> it')"
  have wf: "slabs_wf s F" and own: "\<And>q. q \<in> U \<Longrightarrow> owned (heap s) F 1 q" using u by (auto simp: in_use_def)
  have np: "p \<notin> set (F i)" for i using own [OF p] by (simp add: owned_def)
  have free: "free_ok ?h i c (F i) = free_ok (heap s) i c (F i)" for i c
    by (rule free_ok_cong) (use np [of i] in auto)
  have "dom ?h = dom (heap s)" "p \<noteq> NULL" using it(1) in_use_null [OF u] p by auto
  then have "slabs_wf (s\<lparr>heap := ?h\<rparr>) F" using wf by (simp add: slabs_wf_def free del: dom_fun_upd)
  moreover have "owned ?h F 1 q" if "q \<in> U" for q
    using own [OF that] it by (auto simp: owned_def)
  ultimately show ?thesis using u by (simp add: in_use_def)
qed

lemma slab_run_in_use:
  assumes "slab_run os s U" and os: "mmap_ok os" "realloc_ok os"
  shows "\<exists>F. in_use s F U"
  using assms(1)
proof induction
  case (run_init s0 s)
  obtain c h where "slab_init os s0 = Some (s0\<lparr>slabclass := table0[1 := c], heap := h\<rparr>)"
    "slabs_wf (s0\<lparr>slabclass := table0[1 := c], heap := h\<rparr>) (init_free (os_mmap os))"
    using slab_init_wf [OF run_init(1) os] by blast
  then have "in_use s (init_free (os_mmap os)) {}" using run_init(2) by (auto simp: in_use_def init_free_def)
  then show ?case by blast
next
  case (run_alloc s U n p s')
  then show ?case using in_use_alloc [of s _ U n] by fastforce
next
  case (run_free s U p s')
  then show ?case using in_use_free [of s _ U p] by fastforce
next
  case (run_write s U p it it')
  then show ?case using in_use_write by blast
qed

lemma demo_history: "\<exists>s :: slabs_state. slab_run demo_os s {}"
proof -
  have "heap blank_slabs = Map.empty" by (simp add: blank_slabs_def)
  moreover obtain s where "slab_init demo_os blank_slabs = Some s"
    using slab_init_wf [OF calculation demo_os_ok(1,2)] by blast
  ultimately show ?thesis using run_init by blast
qed

text \<open>C25: the class of a request of 1 to 16384 bytes is the smallest of the ten classes, of 32, 64, ..., 16384
  bytes, whose chunks hold it.\<close>
theorem slabs_clsid_smallest:
  assumes "slabs_wf s F" and "0 < unat z" and "unat z \<le> 16384"
  shows "\<exists>i<num_classes. slabs_clsid z s = Some (of_nat i) \<and> unat z \<le> 32 * 2 ^ i \<and> (\<forall>j<i. 32 * 2 ^ j < unat z)"
proof -
  note c = slabs_clsid_small [OF slabs_wfD(2) [OF assms(1)] assms(2,3)]
  have "32 * 2 ^ j < unat z" if "j < class_of (unat z)" for j
    using not_less_Least [of j "\<lambda>i. unat z \<le> 32 * 2 ^ i"] that by (auto simp: class_of_def)
  with c show ?thesis by blast
qed

theorem slabs_clsid_smallest_witness:
  "\<exists>s :: slabs_state. slabs_wf s (init_free 0x10000) \<and>
     (\<exists>i<num_classes. slabs_clsid 100 s = Some (of_nat i) \<and> unat (100 :: u64) \<le> 32 * 2 ^ i \<and> (\<forall>j<i. 32 * 2 ^ j < unat (100 :: u64)))"
proof -
  obtain s :: slabs_state where s: "slabs_wf s (init_free 0x10000)" using demo_pool by blast
  from slabs_clsid_smallest [OF s, of 100] s show ?thesis by auto
qed

text \<open>An allocation that has a class either takes the first free chunk of that class, which is then owned
  by the caller, leaves every chunk outside the free list unchanged and keeps the invariant, or, when
  the class has no free chunk, returns the null pointer and changes nothing.\<close>
theorem slabs_alloc_spec:
  assumes "slabs_wf s F" and "fits_class n"
  shows "(case F (class_of (unat n)) of
      [] \<Rightarrow> slabs_alloc n s = Some (NULL, s)
    | p # ps \<Rightarrow> \<exists>s'. slabs_alloc n s = Some (p, s') \<and> p \<noteq> NULL \<and> slabs_wf s' (F(class_of (unat n) := ps)) \<and>
        owned (heap s') (F(class_of (unat n) := ps)) (class_of (unat n)) p \<and>
        (\<forall>q. q \<notin> set (F (class_of (unat n))) \<longrightarrow> heap s' q = heap s q))"
  using sl.alloc_empty [OF assms] sl.alloc_pop [OF assms] by (auto split: list.split)

theorem slabs_alloc_spec_witness:
  "\<exists>s :: slabs_state. slabs_wf s (init_free 0x10000) \<and> (case init_free 0x10000 (class_of (unat (64 :: u32))) of
      [] \<Rightarrow> slabs_alloc 64 s = Some (NULL, s)
    | p # ps \<Rightarrow> \<exists>s'. slabs_alloc 64 s = Some (p, s') \<and> p \<noteq> NULL \<and>
        slabs_wf s' ((init_free 0x10000)(class_of (unat (64 :: u32)) := ps)) \<and>
        owned (heap s') ((init_free 0x10000)(class_of (unat (64 :: u32)) := ps)) (class_of (unat (64 :: u32))) p \<and>
        (\<forall>q. q \<notin> set (init_free 0x10000 (class_of (unat (64 :: u32)))) \<longrightarrow> heap s' q = heap s q))"
proof -
  obtain s :: slabs_state where s: "slabs_wf s (init_free 0x10000)" using demo_pool by blast
  have "fits_class 64" by (simp add: fits_class_def)
  from slabs_alloc_spec [OF s this] s show ?thesis by blast
qed

text \<open>A chunk that is freed is the next one its class hands out, and the allocator is back in the same
  abstract state.\<close>
theorem free_then_alloc:
  assumes "slabs_wf s F" and "owned (heap s) F (class_of (unat n)) p" and "fits_class n"
  shows "\<exists>s1 s2. slabs_free p s = Some s1 \<and> slabs_alloc n s1 = Some (p, s2) \<and> slabs_wf s2 F"
  by (rule sl.release_then_alloc [OF assms])

theorem free_then_alloc_witness:
  "\<exists>(s :: slabs_state) F p. slabs_wf s F \<and> owned (heap s) F (class_of (unat (64 :: u32))) p \<and>
     (\<exists>s1 s2. slabs_free p s = Some s1 \<and> slabs_alloc 64 s1 = Some (p, s2) \<and> slabs_wf s2 F)"
proof -
  obtain s :: slabs_state and F p where "slabs_wf s F" "owned (heap s) F (class_of (unat (64 :: u32))) p"
    using demo_owned by blast
  moreover have "fits_class 64" by (simp add: fits_class_def)
  ultimately show ?thesis using free_then_alloc [of s F 64 p] by blast
qed

text \<open>C24: chunks in use are kept apart, over every sequence of allocations, releases and writes of a client that
  starts with an initialisation that gets its memory: in each state so reached, with \<open>U\<close> the chunks handed out and not yet
  given back, every request of 1 to 16384 bytes returns; it is given a chunk outside \<open>U\<close> exactly when it falls
  into the class of 64-byte chunks and fewer than 524288 chunks are in use, and a null pointer otherwise; every
  chunk of \<open>U\<close> can be released; and neither call changes any other chunk in use.\<close>
theorem owned_chunks_kept:
  assumes "slab_run os s U" and "mmap_ok os" and "realloc_ok os"
  shows "NULL \<notin> U \<and> card U + unat (sl_curr (slabclass s ! 1)) = 524288 \<and>
    (\<forall>n. fits_class n \<longrightarrow> (\<exists>p s'. slabs_alloc n s = Some (p, s') \<and> p \<notin> U \<and>
       (p \<noteq> NULL \<longleftrightarrow> 32 < unat n \<and> unat n \<le> 64 \<and> card U < 524288) \<and> (\<forall>q\<in>U. heap s' q = heap s q))) \<and>
    (\<forall>p\<in>U. \<exists>s'. slabs_free p s = Some s' \<and> (\<forall>q\<in>U - {p}. heap s' q = heap s q))"
proof -
  obtain F where F: "in_use s F U" using slab_run_in_use [OF assms] by blast
  show ?thesis
    using in_use_null [OF F] in_use_count [OF F] in_use_alloc [OF F] in_use_free [OF F] by meson
qed

theorem owned_chunks_kept_witness:
  "\<exists>(s :: slabs_state) p q s'. slab_run demo_os s {p} \<and> slabs_alloc 64 s = Some (q, s') \<and> q \<noteq> NULL \<and> q \<noteq> p \<and> heap s' p = heap s p"
proof -
  obtain s0 :: slabs_state where s0: "slab_run demo_os s0 {}" using demo_history by blast
  have n: "fits_class 64" by (simp add: fits_class_def)
  obtain p s1 where s1: "slabs_alloc 64 s0 = Some (p, s1)" "p \<noteq> NULL"
    using owned_chunks_kept [OF s0 demo_os_ok(1,2)] n by fastforce
  have r1: "slab_run demo_os s1 {p}" using run_alloc [OF s0 n s1(1)] s1(2) by simp
  then show ?thesis using owned_chunks_kept [OF r1 demo_os_ok(1,2)] n by fastforce
qed

text \<open>C40: a request that no class can hold, of 0 bytes or of more than 16384, is not refused with a null
  pointer: the class number is unsigned, the test for a negative one never succeeds, and the code
  indexes the table of classes far outside its bounds.\<close>
theorem classless_request_faults:
  assumes "slabs_wf s F" and "n = 0 \<or> 16384 < unat (scast n :: u64)"
  shows "slabs_alloc n s = None"
proof -
  have "slabs_clsid (scast n) s = Some (- 1)"
    using assms(2) slabs_clsid_large [OF slabs_wfD(2) [OF assms(1)], of "scast n"] by (auto simp: slabs_clsid_def)
  moreover have "get_class (unat (- 1 :: u32)) s = None"
    using slabs_wfD(1) [OF assms(1)] by (simp add: get_class_def MAX_NUMBER_OF_SLAB_CLASSES_def unsigned_minus_1_eq_mask mask_eq_exp_minus_1)
  ultimately show ?thesis by (simp add: slabs_alloc_def)
qed

theorem classless_request_faults_witness: "\<exists>s :: slabs_state. slabs_wf s (init_free 0x10000) \<and> slabs_alloc 0 s = None"
proof -
  obtain s :: slabs_state where s: "slabs_wf s (init_free 0x10000)" using demo_pool by blast
  from classless_request_faults [OF s, of 0] s show ?thesis by auto
qed

text \<open>When the pool cannot be mapped, initialisation does not report it: \<^verbatim>\<open>mmap\<close> then returns
  \<^verbatim>\<open>MAP_FAILED\<close>, the code compares with the null pointer only, and clears memory at that address.\<close>
theorem mmap_failure_faults:
  assumes "os_mmap os = MAP_FAILED"
  shows "slab_init os s = None"
proof -
  have t: "init_classes MAX_NUMBER_OF_SLAB_CLASSES 0 min_size (replicate MAX_NUMBER_OF_SLAB_CLASSES empty_class) = table0"
    by (simp add: table0_def)
  have "slabs_clsid 64 (s\<lparr>slabclass := table0\<rparr>) = Some 1"
    using slabs_clsid_small(1) [of "s\<lparr>slabclass := table0\<rparr>" 64] table_ok_table0 by (simp add: class_of_64)
  then show ?thesis
    using assms by (simp add: slab_init_def t slab_preallocate_def memset_page_def MAP_FAILED_def MAX_NUMBER_OF_SLAB_CLASSES_def)
qed

theorem mmap_failure_faults_witness: "slab_init (demo_os\<lparr>os_mmap := MAP_FAILED\<rparr>) blank_slabs = None"
  by (rule mmap_failure_faults) simp

end
