(* ===== verification/Cache.thy ===== *)
theory Cache
  imports Jenkins_Hash Slabs
begin

unbundle bit_operations_syntax

text \<open>
  The key-value store, \<^verbatim>\<open>src/src/cache.c\<close> and \<^verbatim>\<open>cache.h\<close>: a table of \<open>2^16\<close> buckets, each a doubly
  linked list of items that live in chunks of the slab allocator.

  The model keeps every pointer write of the code. \<open>None\<close> is undefined behaviour (a bad dereference, a
  copy out of its object, signed overflow) or a loop that does not end; error returns such as \<open>-1\<close> are
  ordinary values. C \<^verbatim>\<open>int\<close> values are 32-bit words that are read with \<open>sint\<close>, or extended with
  \<open>scast\<close> where the code converts them to \<^verbatim>\<open>size_t\<close>.
\<close>

section \<open>State\<close>

record cache_state = slabs_state +
  hashtable :: "ptr list"

definition hashpower :: nat where
  "hashpower = 16"

definition hashsize :: "nat \<Rightarrow> u32" where
  "hashsize n = push_bit n 1"

definition hashmask :: "nat \<Rightarrow> u32" where
  "hashmask n = hashsize n - 1"

text \<open>The index \<^verbatim>\<open>hv & hashmask(hashpower)\<close>.\<close>

definition bucket_index :: "u32 \<Rightarrow> nat" where
  "bucket_index hv = unat (hv AND hashmask hashpower)"

text \<open>\<^verbatim>\<open>hash(key, nkey)\<close>, with \<^verbatim>\<open>nkey\<close> converted to \<^verbatim>\<open>size_t\<close>; the key's bytes must belong to the buffer.\<close>

definition hash :: "cbuf \<Rightarrow> u32 \<Rightarrow> u32 option" where
  "hash key nkey =
     (if unat (scast nkey :: u64) \<le> blen key then Some (jenkins_hash (baddr key) (bmem key) (scast nkey))
      else None)"

section \<open>Items\<close>

definition ITEM_ntotal :: "u32 \<Rightarrow> u32 \<Rightarrow> u64" where
  "ITEM_ntotal nkey nval = of_nat sizeof_item + scast nkey + 1 + scast nval + 1"

text \<open>Offsets from the end of the struct: \<^verbatim>\<open>ITEM_key\<close> is at 0, \<^verbatim>\<open>ITEM_val\<close> after the key and its terminator.\<close>

definition ITEM_val_off :: "item \<Rightarrow> int" where
  "ITEM_val_off it = sint (it_nkey it) + 1"

definition int_inc :: "u32 \<Rightarrow> u32 option" where
  "int_inc n = (if n = 0x7fffffff then None else Some (n + 1))"

definition int_dec :: "u32 \<Rightarrow> u32 option" where
  "int_dec n = (if n = 0x80000000 then None else Some (n - 1))"

text \<open>\<^verbatim>\<open>memcpy\<close> into the bytes of a chunk, out of them, and \<^verbatim>\<open>memcmp\<close> with the start of them.\<close>

definition copy_in :: "int \<Rightarrow> cbuf \<Rightarrow> u64 \<Rightarrow> item \<Rightarrow> item option" where
  "copy_in off buf n it =
     (if 0 \<le> off \<and> nat off + unat n \<le> length (it_data it) \<and> unat n \<le> blen buf
      then Some (it\<lparr>it_data := take (nat off) (it_data it) @ buf_bytes buf (unat n) @
                               drop (nat off + unat n) (it_data it)\<rparr>)
      else None)"

definition copy_out :: "int \<Rightarrow> u64 \<Rightarrow> item \<Rightarrow> u8 list \<Rightarrow> u8 list option" where
  "copy_out off n it out =
     (if 0 \<le> off \<and> nat off + unat n \<le> length (it_data it) \<and> unat n \<le> length out
      then Some (take (unat n) (drop (nat off) (it_data it)) @ drop (unat n) out)
      else None)"

definition key_matches :: "cbuf \<Rightarrow> u32 \<Rightarrow> item \<Rightarrow> bool option" where
  "key_matches key nkey it =
     (if nkey = it_nkey it
      then let n = unat (scast nkey :: u64) in
           if n \<le> blen key \<and> n \<le> length (it_data it)
           then Some (buf_bytes key n = take n (it_data it))
           else None
      else Some False)"

section \<open>Operations\<close>

definition get_bucket :: "nat \<Rightarrow> 'a cache_state_scheme \<Rightarrow> ptr option" where
  "get_bucket b s = (if b < length (hashtable s) then Some (hashtable s ! b) else None)"

definition set_bucket :: "nat \<Rightarrow> ptr \<Rightarrow> 'a cache_state_scheme \<Rightarrow> 'a cache_state_scheme option" where
  "set_bucket b p s =
     (if b < length (hashtable s) then Some (s\<lparr>hashtable := (hashtable s)[b := p]\<rparr>) else None)"

text \<open>The result of \<^verbatim>\<open>calloc\<close> is not tested: after a failure the table is a null pointer, without cells.\<close>

definition calloc_table :: "os \<Rightarrow> nat \<Rightarrow> ptr list" where
  "calloc_table os n = (case os_calloc os n of None \<Rightarrow> [] | Some t \<Rightarrow> t)"

definition cache_init :: "os \<Rightarrow> 'a cache_state_scheme \<Rightarrow> 'a cache_state_scheme option" where
  "cache_init os s = slab_init os (s\<lparr>hashtable := calloc_table os (unat (hashsize hashpower))\<rparr>)"

partial_function (option) item_get_loop :: "cbuf \<Rightarrow> u32 \<Rightarrow> heap \<Rightarrow> ptr \<Rightarrow> ptr option" where
  "item_get_loop key nkey h it =
     (if it = NULL then Some NULL
      else do {
        i \<leftarrow> h it;
        m \<leftarrow> key_matches key nkey i;
        if m then Some it else item_get_loop key nkey h (it_next i)
      })"

definition item_get :: "cbuf \<Rightarrow> u32 \<Rightarrow> u32 \<Rightarrow> 'a cache_state_scheme \<Rightarrow> ptr option" where
  "item_get key nkey hv s = do {
     it \<leftarrow> get_bucket (bucket_index hv) s;
     item_get_loop key nkey (heap s) it
   }"

definition item_alloc ::
    "cbuf \<Rightarrow> u32 \<Rightarrow> cbuf \<Rightarrow> u32 \<Rightarrow> 'a cache_state_scheme \<Rightarrow> (ptr \<times> 'a cache_state_scheme) option" where
  "item_alloc key nkey value nval s = do {
     (it, s) \<leftarrow> slabs_alloc (ucast (ITEM_ntotal nkey nval)) s;
     if it = NULL then Some (it, s)
     else do {
       s \<leftarrow> upd_item it (\<lambda>i. i\<lparr>it_next := NULL, it_prev := NULL\<rparr>) s;
       s \<leftarrow> upd_item it (\<lambda>i. i\<lparr>it_nbytes := nval\<rparr>) s;
       s \<leftarrow> upd_item it (\<lambda>i. i\<lparr>it_nkey := nkey\<rparr>) s;
       n1 \<leftarrow> int_inc nkey;
       i \<leftarrow> heap s it;
       i \<leftarrow> copy_in 0 key (scast n1) i;
       n2 \<leftarrow> int_inc nval;
       i \<leftarrow> copy_in (ITEM_val_off i) value (scast n2) i;
       s \<leftarrow> upd_item it (\<lambda>_. i) s;
       Some (it, s)
     }
   }"

text \<open>
  The removal of \<open>it\<close> from the bucket that starts at \<open>head\<close>, and the loop around it. The result is the
  item that was removed, or the null pointer.
\<close>

definition unlink_here :: "nat \<Rightarrow> ptr \<Rightarrow> item \<Rightarrow> 'a cache_state_scheme \<Rightarrow> 'a cache_state_scheme option" where
  "unlink_here b it i s = do {
     head \<leftarrow> get_bucket b s;
     if it = head
     then do {
       s \<leftarrow> set_bucket b (it_next i) s;
       if it_next i \<noteq> NULL then upd_item (it_next i) (\<lambda>n. n\<lparr>it_prev := NULL\<rparr>) s else Some s
     }
     else do {
       s \<leftarrow> upd_item (it_prev i) (\<lambda>p. p\<lparr>it_next := it_next i\<rparr>) s;
       if it_next i \<noteq> NULL then upd_item (it_next i) (\<lambda>n. n\<lparr>it_prev := it_prev i\<rparr>) s else Some s
     }
   }"

partial_function (option) item_unlink_loop ::
    "cbuf \<Rightarrow> u32 \<Rightarrow> nat \<Rightarrow> ptr \<Rightarrow> 'a cache_state_scheme \<Rightarrow> (ptr \<times> 'a cache_state_scheme) option" where
  "item_unlink_loop key nkey b it s =
     (if it = NULL then Some (NULL, s)
      else do {
        i \<leftarrow> heap s it;
        m \<leftarrow> key_matches key nkey i;
        if m then do { s \<leftarrow> unlink_here b it i s; Some (it, s) }
        else item_unlink_loop key nkey b (it_next i) s
      })"

definition item_unlink ::
    "cbuf \<Rightarrow> u32 \<Rightarrow> u32 \<Rightarrow> 'a cache_state_scheme \<Rightarrow> (ptr \<times> 'a cache_state_scheme) option" where
  "item_unlink key nkey hv s = do {
     it \<leftarrow> get_bucket (bucket_index hv) s;
     item_unlink_loop key nkey (bucket_index hv) it s
   }"

text \<open>
  \<open>cache_get\<close> copies into the caller's object \<open>out\<close> and returns it with the result; \<^verbatim>\<open>MIN\<close> compares
  as signed integers.
\<close>

definition cache_get :: "cbuf \<Rightarrow> u32 \<Rightarrow> u8 list \<Rightarrow> u32 \<Rightarrow> 'a cache_state_scheme \<Rightarrow> (u32 \<times> u8 list) option" where
  "cache_get key nkey out maxnval s = do {
     hv \<leftarrow> hash key nkey;
     it \<leftarrow> item_get key nkey hv s;
     if it = NULL then Some (- 1, out)
     else do {
       i \<leftarrow> heap s it;
       m \<leftarrow> int_dec maxnval;
       let nval = (if it_nbytes i <s m then it_nbytes i else m);
       out \<leftarrow> copy_out (ITEM_val_off i) (scast nval) i out;
       if 0 \<le> sint nval \<and> nat (sint nval) < length out
       then Some (nval, out[nat (sint nval) := 0])
       else None
     }
   }"

definition cache_set ::
    "cbuf \<Rightarrow> u32 \<Rightarrow> cbuf \<Rightarrow> u32 \<Rightarrow> 'a cache_state_scheme \<Rightarrow> (u32 \<times> 'a cache_state_scheme) option" where
  "cache_set key nkey value nval s = do {
     hv \<leftarrow> hash key nkey;
     (it, s) \<leftarrow> item_unlink key nkey hv s;
     s \<leftarrow> (if it \<noteq> NULL then slabs_free it s else Some s);
     (it, s) \<leftarrow> item_alloc key nkey value nval s;
     if it = NULL then Some (- 1, s)
     else do {
       head \<leftarrow> get_bucket (bucket_index hv) s;
       s \<leftarrow> upd_item it (\<lambda>i. i\<lparr>it_next := head\<rparr>) s;
       s \<leftarrow> (if head \<noteq> NULL then upd_item head (\<lambda>n. n\<lparr>it_prev := it\<rparr>) s else Some s);
       s \<leftarrow> set_bucket (bucket_index hv) it s;
       Some (0, s)
     }
   }"

section \<open>Doubly linked chains\<close>

text \<open>A bucket: a chain whose \<open>it_prev\<close> fields point back, the first one to \<open>pv\<close>.\<close>

fun dchain :: "heap \<Rightarrow> ptr \<Rightarrow> ptr \<Rightarrow> ptr list \<Rightarrow> bool" where
  "dchain h pv p [] \<longleftrightarrow> p = NULL"
| "dchain h pv p (q # qs) \<longleftrightarrow>
     p = q \<and> q \<noteq> NULL \<and> (case h q of None \<Rightarrow> False | Some it \<Rightarrow> it_prev it = pv \<and> dchain h q (it_next it) qs)"

lemma dchain_chain: "dchain h pv p ps \<Longrightarrow> chain h p ps"
  by (induction ps arbitrary: pv p) (auto split: option.splits)

lemma dchain_distinct: "dchain h pv p ps \<Longrightarrow> distinct ps"
  by (rule chain_distinct, rule dchain_chain)

lemma dchain_NULL_notin: "dchain h pv p ps \<Longrightarrow> NULL \<notin> set ps"
  by (rule chain_NULL_notin, rule dchain_chain)

lemma dchain_in_heap: "dchain h pv p ps \<Longrightarrow> q \<in> set ps \<Longrightarrow> \<exists>it. h q = Some it"
  by (rule chain_in_heap, rule dchain_chain)

lemma dchain_cong: "(\<And>q. q \<in> set ps \<Longrightarrow> h q = h' q) \<Longrightarrow> dchain h pv p ps = dchain h' pv p ps"
proof (induction ps arbitrary: pv p)
  case Nil
  then show ?case by simp
next
  case (Cons q qs)
  have "dchain h u r qs = dchain h' u r qs" for u r
    by (rule Cons.IH) (use Cons.prems in simp)
  then show ?case using Cons.prems [of q] by (simp split: option.splits)
qed

lemma dchain_head: "dchain h pv p ps \<Longrightarrow> p = (case ps of [] \<Rightarrow> NULL | q # _ \<Rightarrow> q)"
  by (cases ps) auto

text \<open>Changing where the first item points back to.\<close>

lemma dchain_set_prev:
  assumes "dchain h pv p ps"
  shows "dchain (set_prev p v h) v p ps"
proof (cases ps)
  case Nil
  then show ?thesis using assms by simp
next
  case (Cons q qs)
  then obtain it where it: "p = q" "q \<noteq> NULL" "h q = Some it" "dchain h q (it_next it) qs"
    using assms by (auto split: option.splits)
  have "q \<notin> set qs" using dchain_distinct [OF assms] Cons by simp
  then have "dchain (set_prev p v h) q (it_next it) qs"
    using it by (subst dchain_cong [of qs _ h]) (auto intro!: set_prev_other)
  then show ?thesis using it Cons by (auto simp: set_prev_def)
qed

text \<open>Linking a new first item.\<close>

lemma dchain_push:
  assumes "dchain h NULL p ps" and "q \<notin> set ps" and "q \<noteq> NULL" and "it_next it = p" and "it_prev it = NULL"
  shows "dchain (set_prev p q (h(q \<mapsto> it))) NULL q (q # ps)"
proof -
  have "dchain (h(q \<mapsto> it)) NULL p ps"
    using assms(1,2) by (subst dchain_cong [of ps _ h]) auto
  then have "dchain (set_prev p q (h(q \<mapsto> it))) q p ps" by (rule dchain_set_prev)
  moreover have "q \<noteq> p" using assms(2,3) dchain_head [OF assms(1)] by (cases ps) auto
  ultimately show ?thesis using assms(3-5) by (simp add: set_prev_other)
qed

text \<open>Unlinking an item in the middle: its neighbours point to each other.\<close>

definition set_next :: "ptr \<Rightarrow> ptr \<Rightarrow> heap \<Rightarrow> heap" where
  "set_next q v h = (case h q of None \<Rightarrow> h | Some n \<Rightarrow> h(q \<mapsto> n\<lparr>it_next := v\<rparr>))"

lemma set_next_other: "r \<noteq> q \<Longrightarrow> set_next q v h r = h r"
  by (auto simp: set_next_def split: option.splits)

lemma dom_set_next [simp]: "dom (set_next q v h) = dom h"
  by (auto simp: set_next_def split: option.splits)

lemma dchain_split:
  assumes "dchain h pv p (xs @ q # ys)"
  obtains it where "h q = Some it" "q \<noteq> NULL" "it_prev it = (if xs = [] then pv else last xs)"
    "dchain h q (it_next it) ys"
  using assms
proof (induction xs arbitrary: pv p thesis)
  case Nil
  then show ?case by (auto split: option.splits)
next
  case (Cons x xs)
  from Cons.prems(2) obtain i where i: "dchain h x (it_next (i :: item)) (xs @ q # ys)"
    by (auto split: option.splits)
  from Cons.IH [OF _ i] obtain it where "h q = Some it" "q \<noteq> NULL"
    "it_prev it = (if xs = [] then x else last xs)" "dchain h q (it_next it) ys" by blast
  then show ?case using Cons.prems(1) by (cases "xs = []") auto
qed

lemma dchain_unlink:
  assumes "dchain h pv p (xs @ q # ys)" and "h q = Some it" and "xs \<noteq> []" and "pv \<notin> set (xs @ q # ys)"
  shows "dchain (set_prev (it_next it) (last xs) (set_next (last xs) (it_next it) h)) pv p (xs @ ys)"
  using assms
proof (induction xs arbitrary: pv p)
  case Nil
  then show ?case by simp
next
  case (Cons x xs)
  let ?nx = "it_next it"
  from Cons.prems(1) obtain i where i: "p = x" "x \<noteq> NULL" "h x = Some i" "it_prev i = pv"
    "dchain h x (it_next i) (xs @ q # ys)"
    by (auto split: option.splits)
  have d: "distinct (x # xs @ q # ys)" using dchain_distinct [OF Cons.prems(1)] by simp
  obtain it' where "h q = Some it'" "dchain h q (it_next it') ys"
    using dchain_split [OF i(5)] by metis
  then have tail: "dchain h q ?nx ys" using Cons.prems(2) by simp
  have nx: "?nx = (case ys of [] \<Rightarrow> NULL | y # _ \<Rightarrow> y)" by (rule dchain_head [OF tail])
  show ?case
  proof (cases "xs = []")
    case True
    have "x \<noteq> ?nx" using nx d i(2) by (cases ys) auto
    have "dchain (set_next x ?nx h) q ?nx ys"
      using tail d by (subst dchain_cong [of ys _ h]) (auto intro!: set_next_other)
    from dchain_set_prev [OF this, of x] show ?thesis
      using True i \<open>x \<noteq> ?nx\<close> by (simp add: set_prev_other) (simp add: set_next_def)
  next
    case False
    let ?h = "set_prev ?nx (last xs) (set_next (last xs) ?nx h)"
    have IH: "dchain ?h x (it_next i) (xs @ ys)"
      by (rule Cons.IH [OF i(5) Cons.prems(2) False]) (use d in auto)
    have "x \<noteq> ?nx" using nx d i(2) by (cases ys) auto
    moreover have "x \<noteq> last xs" using d False by auto
    ultimately have "?h x = Some i" using i(3) by (simp add: set_prev_other set_next_other)
    with IH i False show ?thesis by simp
  qed
qed

end
