(* ===== verification/Cache_Store.thy ===== *)
theory Cache_Store
  imports Cache
begin

unbundle bit_operations_syntax

text \<open>
  Correctness of the key-value store of theory \<open>Cache\<close>. The invariant \<open>store_wf\<close> says that the slab
  allocator is well formed, that every bucket is a doubly linked chain of chunks the store owns, that
  every stored key hashes to its bucket and occurs once. The abstraction \<open>cache_abs\<close> reads the map and
  the free counters out of the state, and \<open>cache_set\<close>, \<open>cache_get\<close> refine operations on it.
\<close>

section \<open>What an item holds\<close>

type_synonym bytes = "u8 list"

definition item_key :: "item \<Rightarrow> bytes" where
  "item_key it = take (unat (it_nkey it)) (it_data it)"

definition item_value :: "item \<Rightarrow> bytes" where
  "item_value it = take (unat (it_nbytes it)) (drop (Suc (unat (it_nkey it))) (it_data it))"

definition bucket_of :: "bytes \<Rightarrow> nat" where
  "bucket_of k = bucket_index (jenkins_ref k)"

text \<open>The class of a key-value pair: struct, key, value and two terminators.\<close>

definition pair_size :: "bytes \<Rightarrow> bytes \<Rightarrow> nat" where
  "pair_size k v = sizeof_item + length k + 1 + length v + 1"

definition pair_class :: "bytes \<Rightarrow> bytes \<Rightarrow> nat" where
  "pair_class k v = class_of (pair_size k v)"

definition item_fits :: "item \<Rightarrow> bool" where
  "item_fits it \<longleftrightarrow> unat (it_nkey it) + 1 + unat (it_nbytes it) + 1 \<le> length (it_data it)"

lemma bucket_of_less: "bucket_of k < 65536"
proof -
  have "hashmask hashpower = mask 16"
    by (simp add: hashmask_def hashsize_def hashpower_def mask_eq_exp_minus_1)
  then have "bucket_of k = unat (take_bit 16 (jenkins_ref k))"
    by (simp add: bucket_of_def bucket_index_def take_bit_eq_mask)
  also have "\<dots> = take_bit 16 (unat (jenkins_ref k))" by (simp add: unsigned_take_bit_eq)
  also have "\<dots> < 2 ^ 16" by (rule take_bit_nat_less_exp)
  finally show ?thesis by simp
qed

text \<open>Two items with the same payload differ at most in their links.\<close>

definition payload :: "item \<Rightarrow> u32 \<times> u32 \<times> u8 \<times> u8 list" where
  "payload it = (it_nbytes it, it_nkey it, it_clsid it, it_data it)"

lemma payload_links [simp]:
  "payload (it\<lparr>it_next := p\<rparr>) = payload it" "payload (it\<lparr>it_prev := p\<rparr>) = payload it"
  by (simp_all add: payload_def)

lemma payload_set_prev [simp]: "map_option payload (set_prev q v h r) = map_option payload (h r)"
  by (auto simp: set_prev_def split: option.splits)

lemma payload_set_next [simp]: "map_option payload (set_next q v h r) = map_option payload (h r)"
  by (auto simp: set_next_def split: option.splits)

lemma payload_eqD:
  assumes "payload a = payload b"
  shows "item_key a = item_key b" "item_value a = item_value b" "item_fits a = item_fits b"
    "it_clsid a = it_clsid b" "it_data a = it_data b"
  using assms by (simp_all add: payload_def item_key_def item_value_def item_fits_def)

text \<open>A chunk in use: the store owns it, its class is the class of its pair, its key belongs to bucket \<open>b\<close>.\<close>

definition stored :: "heap \<Rightarrow> (nat \<Rightarrow> ptr list) \<Rightarrow> nat \<Rightarrow> ptr \<Rightarrow> bool" where
  "stored h F b p \<longleftrightarrow> (\<exists>it. h p = Some it \<and> item_fits it \<and> bucket_of (item_key it) = b \<and>
     owned h F (pair_class (item_key it) (item_value it)) p)"

definition key_at :: "heap \<Rightarrow> ptr \<Rightarrow> bytes" where
  "key_at h p = (case h p of None \<Rightarrow> [] | Some it \<Rightarrow> item_key it)"

definition value_at :: "heap \<Rightarrow> ptr \<Rightarrow> bytes" where
  "value_at h p = (case h p of None \<Rightarrow> [] | Some it \<Rightarrow> item_value it)"

lemma payload_at:
  assumes "map_option payload (h p) = map_option payload (h' p)"
  shows "key_at h p = key_at h' p" "value_at h p = value_at h' p"
  using assms by (auto simp: key_at_def value_at_def dest: payload_eqD split: option.splits)

lemma owned_payload:
  assumes "map_option payload (h p) = map_option payload (h' p)" and "owned h F i p"
    and "\<And>j. p \<notin> set (F' j)"
  shows "owned h' F' i p"
proof -
  from assms(2) obtain it where it: "h p = Some it" "it_clsid it = of_nat i" "i < num_classes"
    "length (it_data it) = 32 * 2 ^ i - sizeof_item"
    by (auto simp: owned_def)
  with assms(1) obtain it' where "h' p = Some it'" "payload it' = payload it" by (cases "h' p") auto
  with it show ?thesis using assms(3) payload_eqD(4,5) [of it' it] by (auto simp: owned_def)
qed

lemma stored_payload:
  assumes "map_option payload (h p) = map_option payload (h' p)" and "stored h F b p"
    and "\<And>j. p \<notin> set (F' j)"
  shows "stored h' F' b p"
proof -
  from assms(2) obtain it where it: "h p = Some it" "item_fits it" "bucket_of (item_key it) = b"
    "owned h F (pair_class (item_key it) (item_value it)) p"
    by (auto simp: stored_def)
  with assms(1) obtain it' where it': "h' p = Some it'" "payload it' = payload it" by (cases "h' p") auto
  have "owned h' F' (pair_class (item_key it) (item_value it)) p"
    by (rule owned_payload [where h = h and F = F]) (use assms it(4) in auto)
  with it it' payload_eqD [OF it'(2)] show ?thesis by (auto simp: stored_def)
qed

section \<open>The invariant\<close>

definition store_wf :: "'a cache_state_scheme \<Rightarrow> (nat \<Rightarrow> ptr list) \<Rightarrow> (nat \<Rightarrow> ptr list) \<Rightarrow> bool" where
  "store_wf s F B \<longleftrightarrow> slabs_wf s F \<and> length (hashtable s) = 65536 \<and>
     (\<forall>b<65536. dchain (heap s) NULL (hashtable s ! b) (B b)) \<and>
     (\<forall>b. \<forall>p\<in>set (B b). stored (heap s) F b p) \<and>
     (\<forall>b. distinct (map (key_at (heap s)) (B b)))"

lemma store_wfD:
  assumes "store_wf s F B"
  shows "slabs_wf s F" "length (hashtable s) = 65536"
    "b < 65536 \<Longrightarrow> dchain (heap s) NULL (hashtable s ! b) (B b)"
    "p \<in> set (B b) \<Longrightarrow> stored (heap s) F b p"
    "distinct (map (key_at (heap s)) (B b))"
  using assms by (auto simp: store_wf_def)

lemma storedD:
  assumes "stored h F b p"
  shows "p \<notin> set (F j)" "bucket_of (key_at h p) = b" "b < 65536"
    "owned h F (pair_class (key_at h p) (value_at h p)) p"
  using assms bucket_of_less by (auto simp: stored_def owned_def key_at_def value_at_def)

lemma store_disjoint:
  assumes "store_wf s F B" and "p \<in> set (B b)"
  shows "p \<notin> set (F j)" and "p \<in> set (B c) \<longleftrightarrow> c = b"
  using storedD(1) [OF store_wfD(4) [OF assms]] storedD(2) [OF store_wfD(4) [OF assms(1)]] assms(2) by blast+

text \<open>The allocator's invariant looks only at free chunks.\<close>

lemma slabs_wf_cong:
  assumes wf: "slabs_wf s F" and cls: "slabclass s' = slabclass s" and dom: "dom (heap s') = dom (heap s)"
    and eq: "\<And>j q. q \<in> set (F j) \<Longrightarrow> heap s' q = heap s q"
  shows "slabs_wf s' F"
proof -
  note wfD = slabs_wfD [OF wf]
  have "free_ok (heap s') i (slabclass s ! i) (F i)" if "i < MAX_NUMBER_OF_SLAB_CLASSES" for i
    using wfD(6) [OF that] eq by (subst free_ok_cong [of "F i" _ "heap s"]) auto
  moreover have "heap s' NULL = None" using dom wfD(3) by (metis domIff)
  ultimately show ?thesis
    using wfD(2,4,5,7,8) by (simp add: slabs_wf_def cls dom)
qed

text \<open>
  Rebuilding the invariant after a step: the chains are given anew, the chunks that stay in a bucket
  keep their payload and stay away from the free lists.
\<close>

lemma store_wfI:
  assumes wf: "store_wf s F B" and sl: "slabs_wf s' F'" and len: "length (hashtable s') = 65536"
    and ch: "\<And>b. b < 65536 \<Longrightarrow> dchain (heap s') NULL (hashtable s' ! b) (B' b)"
    and sub: "\<And>b. B' b = [x \<leftarrow> B b. x \<noteq> q]"
    and pay: "\<And>b p. p \<in> set (B' b) \<Longrightarrow> map_option payload (heap s' p) = map_option payload (heap s p)"
    and fr: "\<And>b p j. p \<in> set (B' b) \<Longrightarrow> p \<notin> set (F' j)"
  shows "store_wf s' F' B'"
proof -
  have "stored (heap s') F' b p" if p: "p \<in> set (B' b)" for b p
    using stored_payload [of "heap s" p "heap s'" F b F'] pay [OF p] fr [OF p] store_wfD(4) [OF wf, of p b] p sub [of b]
    by auto
  moreover have "distinct (map (key_at (heap s')) (B' b))" for b
  proof -
    have "map (key_at (heap s')) (B' b) = map (key_at (heap s)) (B' b)"
      using pay by (auto intro!: payload_at)
    moreover have "distinct (map (key_at (heap s)) (B' b))"
      unfolding sub by (rule distinct_map_filter [OF store_wfD(5) [OF wf]])
    ultimately show ?thesis by (simp only:)
  qed
  ultimately show ?thesis using sl len ch by (auto simp: store_wf_def)
qed

section \<open>Searching a bucket\<close>

text \<open>The caller's key: a buffer of at least \<open>nkey\<close> bytes that are the key \<open>k\<close>.\<close>

definition is_key :: "cbuf \<Rightarrow> u32 \<Rightarrow> bytes \<Rightarrow> bool" where
  "is_key key nkey k \<longleftrightarrow> unat nkey < 2 ^ 31 \<and> unat nkey \<le> blen key \<and> k = buf_bytes key (unat nkey)"

lemma hash_key: "is_key key nkey k \<Longrightarrow> hash key nkey = Some (jenkins_ref k)"
  by (auto simp: is_key_def hash_def unat_scast_u64 jenkins_hash_ref buf_bytes_def)

lemma key_matches_key:
  assumes "is_key key nkey k" and "item_fits i"
  shows "key_matches key nkey i = Some (item_key i = k)"
proof (cases "nkey = it_nkey i")
  case True
  with assms show ?thesis
    by (auto simp: key_matches_def is_key_def item_fits_def item_key_def unat_scast_u64 Let_def)
next
  case False
  then have "unat (it_nkey i) \<noteq> unat nkey" by (simp add: word_unat_eq_iff)
  then have "item_key i \<noteq> k"
    using assms by (auto simp: item_fits_def item_key_def is_key_def dest: arg_cong [of _ _ length])
  with False show ?thesis by (simp add: key_matches_def)
qed

text \<open>
  The two loops visit the chunks of a bucket in order and stop at the first one whose key matches;
  on a chain they end.
\<close>

lemma item_get_loop_find:
  assumes "is_key key nkey k" and "chain h p ps" and "\<And>q i. q \<in> set ps \<Longrightarrow> h q = Some i \<Longrightarrow> item_fits i"
  shows "item_get_loop key nkey h p =
    Some (case find (\<lambda>q. key_at h q = k) ps of None \<Rightarrow> NULL | Some q \<Rightarrow> q)"
  using assms(2,3)
proof (induction ps arbitrary: p)
  case Nil
  then show ?case by (simp add: item_get_loop.simps)
next
  case (Cons q qs)
  then obtain i where i: "p = q" "q \<noteq> NULL" "h q = Some i" "chain h (it_next i) qs"
    by (auto split: option.splits)
  have "key_matches key nkey i = Some (item_key i = k)"
    by (rule key_matches_key [OF assms(1) Cons.prems(2) [OF _ i(3)]]) simp
  moreover have "item_get_loop key nkey h (it_next i) =
      Some (case find (\<lambda>q. key_at h q = k) qs of None \<Rightarrow> NULL | Some q \<Rightarrow> q)"
    by (rule Cons.IH [OF i(4)]) (use Cons.prems(2) in auto)
  ultimately show ?case
    using i by (subst item_get_loop.simps) (simp add: key_at_def)
qed

lemma item_unlink_loop_find:
  assumes "is_key key nkey k" and "chain (heap s) p ps"
    and "\<And>q i. q \<in> set ps \<Longrightarrow> heap s q = Some i \<Longrightarrow> item_fits i"
  shows "item_unlink_loop key nkey b p s =
    (case find (\<lambda>q. key_at (heap s) q = k) ps of
       None \<Rightarrow> Some (NULL, s)
     | Some q \<Rightarrow> do { i \<leftarrow> heap s q; s' \<leftarrow> unlink_here b q i s; Some (q, s') })"
  using assms(2,3)
proof (induction ps arbitrary: p)
  case Nil
  then show ?case by (simp add: item_unlink_loop.simps)
next
  case (Cons q qs)
  then obtain i where i: "p = q" "q \<noteq> NULL" "heap s q = Some i" "chain (heap s) (it_next i) qs"
    by (auto split: option.splits)
  have "key_matches key nkey i = Some (item_key i = k)"
    by (rule key_matches_key [OF assms(1) Cons.prems(2) [OF _ i(3)]]) simp
  moreover have "item_unlink_loop key nkey b (it_next i) s =
      (case find (\<lambda>q. key_at (heap s) q = k) qs of
         None \<Rightarrow> Some (NULL, s)
       | Some q \<Rightarrow> do { i \<leftarrow> heap s q; s' \<leftarrow> unlink_here b q i s; Some (q, s') })"
    by (rule Cons.IH [OF i(4)]) (use Cons.prems(2) in auto)
  moreover have "key_at (heap s) q = item_key i" using i by (simp add: key_at_def)
  ultimately show ?case
    using i by (subst item_unlink_loop.simps) simp
qed

lemma stored_fits: "store_wf s F B \<Longrightarrow> q \<in> set (B b) \<Longrightarrow> heap s q = Some i \<Longrightarrow> item_fits i"
  by (auto dest!: store_wfD(4) simp: stored_def)

lemma store_chain: "store_wf s F B \<Longrightarrow> chain (heap s) (hashtable s ! bucket_of k) (B (bucket_of k))"
  by (rule dchain_chain [OF store_wfD(3)]) (simp_all add: bucket_of_less)

lemma get_bucket_store: "store_wf s F B \<Longrightarrow> get_bucket (bucket_of k) s = Some (hashtable s ! bucket_of k)"
  by (simp add: get_bucket_def store_wfD(2) bucket_of_less)

lemma item_get_store:
  assumes "store_wf s F B" and "is_key key nkey k"
  shows "item_get key nkey (jenkins_ref k) s =
    Some (case find (\<lambda>q. key_at (heap s) q = k) (B (bucket_of k)) of None \<Rightarrow> NULL | Some q \<Rightarrow> q)"
  using item_get_loop_find [OF assms(2) store_chain [OF assms(1)]] stored_fits [OF assms(1)]
    get_bucket_store [OF assms(1)]
  by (simp add: item_get_def bucket_of_def)

section \<open>Unlinking\<close>

lemma dchain_set_prev_other: "q \<notin> set ps \<Longrightarrow> dchain (set_prev q v h) pv p ps = dchain h pv p ps"
  by (rule dchain_cong) (auto intro!: set_prev_other)

lemma dchain_set_next_other: "q \<notin> set ps \<Longrightarrow> dchain (set_next q v h) pv p ps = dchain h pv p ps"
  by (rule dchain_cong) (auto intro!: set_next_other)

text \<open>What the write of the links leaves: the new table and the new heap.\<close>

definition unlinked_table :: "nat \<Rightarrow> ptr list \<Rightarrow> item \<Rightarrow> ptr list \<Rightarrow> ptr list" where
  "unlinked_table b xs i ht = (if xs = [] then ht[b := it_next i] else ht)"

definition unlinked_heap :: "ptr list \<Rightarrow> item \<Rightarrow> heap \<Rightarrow> heap" where
  "unlinked_heap xs i h =
     (if xs = [] then set_prev (it_next i) NULL h
      else set_prev (it_next i) (last xs) (set_next (last xs) (it_next i) h))"

lemma unlinked_heap_frame:
  "map_option payload (unlinked_heap xs i h p) = map_option payload (h p)" "dom (unlinked_heap xs i h) = dom h"
  "p \<notin> set xs \<Longrightarrow> p \<noteq> it_next i \<Longrightarrow> unlinked_heap xs i h p = h p"
  by (auto simp: unlinked_heap_def set_prev_other intro!: set_next_other)

lemma dchain_unlinked:
  assumes "dchain h NULL p (xs @ q # ys)" and "h q = Some i"
  shows "dchain (unlinked_heap xs i h) NULL (if xs = [] then it_next i else p) (xs @ ys)"
proof (cases "xs = []")
  case True
  with assms have "dchain h q (it_next i) ys" by auto
  from dchain_set_prev [OF this] True show ?thesis by (simp add: unlinked_heap_def)
next
  case False
  have "NULL \<notin> set (xs @ q # ys)" by (rule dchain_NULL_notin [OF assms(1)])
  from dchain_unlink [OF assms False this] False show ?thesis by (simp add: unlinked_heap_def)
qed

lemma unlink_here_eval:
  assumes d: "dchain (heap s) NULL (hashtable s ! b) (xs @ q # ys)" and "heap s q = Some i"
    and b: "b < length (hashtable s)"
  shows "unlink_here b q i s =
    Some (s\<lparr>hashtable := unlinked_table b xs i (hashtable s), heap := unlinked_heap xs i (heap s)\<rparr>)"
proof -
  obtain i' where "heap s q = Some i'" "it_prev i' = (if xs = [] then NULL else last xs)"
    "dchain (heap s) q (it_next i') ys"
    using dchain_split [OF d] by metis
  with assms(2) have pv: "it_prev i = (if xs = [] then NULL else last xs)" and tl: "dchain (heap s) q (it_next i) ys"
    by auto
  have nx: "it_next i = NULL \<or> (\<exists>n. heap s (it_next i) = Some n)"
    using tl by (cases ys) (auto split: option.splits)
  have hd: "hashtable s ! b = (if xs = [] then q else hd xs)"
    using dchain_head [OF d] by (cases xs) auto
  show ?thesis
  proof (cases "xs = []")
    case True
    let ?s = "s\<lparr>hashtable := (hashtable s)[b := it_next i]\<rparr>"
    have "(if it_next i \<noteq> NULL then upd_item (it_next i) (\<lambda>n. n\<lparr>it_prev := NULL\<rparr>) ?s else Some ?s) =
        Some (?s\<lparr>heap := set_prev (it_next i) NULL (heap ?s)\<rparr>)"
      using nx by (intro upd_prev_eq) auto
    with True hd b show ?thesis
      by (simp add: unlink_here_def get_bucket_def set_bucket_def unlinked_table_def unlinked_heap_def)
  next
    case False
    have "distinct (xs @ q # ys)" by (rule dchain_distinct [OF d])
    then have ne: "q \<noteq> hd xs" using False by auto
    obtain n where n: "heap s (last xs) = Some n"
      using dchain_in_heap [OF d, of "last xs"] False by auto
    let ?s = "s\<lparr>heap := set_next (last xs) (it_next i) (heap s)\<rparr>"
    have "it_next i = NULL \<or> (\<exists>m. heap ?s (it_next i) = Some m)"
      using nx dom_set_next [of "last xs" "it_next i" "heap s"] by (auto simp del: dom_set_next)
    then have "(if it_next i \<noteq> NULL then upd_item (it_next i) (\<lambda>n. n\<lparr>it_prev := it_prev i\<rparr>) ?s else Some ?s) =
        Some (?s\<lparr>heap := set_prev (it_next i) (it_prev i) (heap ?s)\<rparr>)"
      by (intro upd_prev_eq) auto
    moreover have "upd_item (it_prev i) (\<lambda>p. p\<lparr>it_next := it_next i\<rparr>) s = Some ?s"
      using n pv False by (simp add: set_next_def)
    ultimately show ?thesis
      using False hd b ne pv
      by (simp add: unlink_here_def get_bucket_def unlinked_table_def unlinked_heap_def)
  qed
qed

lemma unlink_store:
  assumes wf: "store_wf s F B" and b: "b < 65536" and B: "B b = xs @ q # ys" and i: "heap s q = Some i"
  shows "store_wf (s\<lparr>hashtable := unlinked_table b xs i (hashtable s), heap := unlinked_heap xs i (heap s)\<rparr>)
    F (B(b := xs @ ys))"
proof -
  let ?h = "unlinked_heap xs i (heap s)"
  let ?s = "s\<lparr>hashtable := unlinked_table b xs i (hashtable s), heap := ?h\<rparr>"
  note len = store_wfD(2) [OF wf]
  have d: "dchain (heap s) NULL (hashtable s ! b) (xs @ q # ys)" using store_wfD(3) [OF wf b] B by simp
  have dist: "distinct (xs @ q # ys)" by (rule dchain_distinct [OF d])
  obtain i' where "heap s q = Some i'" "dchain (heap s) q (it_next i') ys"
    using dchain_split [OF d] by metis
  with i have "dchain (heap s) q (it_next i) ys" by simp
  then have nx: "it_next i = NULL \<or> it_next i \<in> set (B b)"
    using B by (cases ys) auto
  have out: "?h p = heap s p" if "p \<notin> set (B b)" "heap s p \<noteq> None" for p
    using that nx B slabs_wfD(3) [OF store_wfD(1) [OF wf]] by (intro unlinked_heap_frame(3)) auto
  have fr: "p \<notin> set (F j)" if "p \<in> set (B c)" for p c j by (rule store_disjoint(1) [OF wf that])
  have sl: "slabs_wf ?s F"
  proof (rule slabs_wf_cong [OF store_wfD(1) [OF wf]])
    fix j p assume p: "p \<in> set (F j)"
    then have "p \<notin> set (B b)" using fr by blast
    moreover have "heap s p \<noteq> None" using free_chunk_in_heap(1) [OF store_wfD(1) [OF wf] p] by auto
    ultimately show "heap ?s p = heap s p" using out by simp
  qed (simp_all add: unlinked_heap_frame)
  show ?thesis
  proof (rule store_wfI [OF wf sl])
    fix c :: nat assume c: "c < 65536"
    show "dchain (heap ?s) NULL (hashtable ?s ! c) ((B(b := xs @ ys)) c)"
    proof (cases "c = b")
      case True
      then show ?thesis using dchain_unlinked [OF d i] b len by (auto simp: unlinked_table_def)
    next
      case False
      have dc: "dchain (heap s) NULL (hashtable s ! c) (B c)" by (rule store_wfD(3) [OF wf c])
      have "dchain ?h NULL (hashtable s ! c) (B c)"
      proof (subst dchain_cong)
        show "?h p = heap s p" if "p \<in> set (B c)" for p
          using out [of p] store_disjoint(2) [OF wf that, of b] False dchain_in_heap [OF dc that] by auto
      qed (rule dc)
      then show ?thesis using False by (auto simp: unlinked_table_def)
    qed
  next
    fix c :: nat show "(B(b := xs @ ys)) c = [x \<leftarrow> B c. x \<noteq> q]"
      using dist B store_disjoint(2) [OF wf, of q b c]
      by (cases "c = b") auto
  next
    fix c :: nat and p j assume "p \<in> set ((B(b := xs @ ys)) c)"
    then have "p \<in> set (B c)" using B by (auto split: if_splits)
    then show "p \<notin> set (F j)" by (rule fr)
  qed (use len in \<open>simp_all add: unlinked_heap_frame unlinked_table_def\<close>)
qed

text \<open>The result of \<open>item_unlink\<close>, for an absent and for a present key.\<close>

lemma item_unlink_absent:
  assumes wf: "store_wf s F B" and k: "is_key key nkey k" and none: "\<And>p. p \<in> set (B (bucket_of k)) \<Longrightarrow> key_at (heap s) p \<noteq> k"
  shows "item_unlink key nkey (jenkins_ref k) s = Some (NULL, s)"
proof -
  have "find (\<lambda>q. key_at (heap s) q = k) (B (bucket_of k)) = None"
    using none by (auto simp: find_None_iff)
  then show ?thesis
    using item_unlink_loop_find [OF k store_chain [OF wf]] stored_fits [OF wf] get_bucket_store [OF wf, of k]
    by (simp add: item_unlink_def bucket_of_def)
qed

lemma find_unique_key:
  assumes "distinct (map f xs)" and "p \<in> set xs"
  shows "find (\<lambda>q. f q = f p) xs = Some p"
  using assms by (induction xs) (auto simp: image_iff)

lemma item_unlink_present:
  assumes wf: "store_wf s F B" and k: "is_key key nkey k"
    and p: "p \<in> set (B (bucket_of k))" "key_at (heap s) p = k"
  obtains h t where "item_unlink key nkey (jenkins_ref k) s = Some (p, s\<lparr>hashtable := t, heap := h\<rparr>)"
    "store_wf (s\<lparr>hashtable := t, heap := h\<rparr>) F (\<lambda>b. [x \<leftarrow> B b. x \<noteq> p])"
    "\<And>q. map_option payload (h q) = map_option payload (heap s q)" "p \<noteq> NULL"
proof -
  let ?b = "bucket_of k"
  obtain xs ys where B: "B ?b = xs @ p # ys" using p(1) by (meson split_list)
  have d: "dchain (heap s) NULL (hashtable s ! ?b) (xs @ p # ys)"
    using store_wfD(3) [OF wf, of ?b] B bucket_of_less by simp
  obtain i where i: "heap s p = Some i" "p \<noteq> NULL" using dchain_split [OF d] by metis
  let ?t = "unlinked_table ?b xs i (hashtable s)" and ?h = "unlinked_heap xs i (heap s)"
  have "find (\<lambda>q. key_at (heap s) q = k) (B ?b) = Some p"
    using find_unique_key [OF store_wfD(5) [OF wf] p(1)] p(2) by simp
  moreover have "unlink_here ?b p i s = Some (s\<lparr>hashtable := ?t, heap := ?h\<rparr>)"
    by (rule unlink_here_eval [OF d i(1)]) (simp add: store_wfD(2) [OF wf] bucket_of_less)
  ultimately have 1: "item_unlink key nkey (jenkins_ref k) s = Some (p, s\<lparr>hashtable := ?t, heap := ?h\<rparr>)"
    using item_unlink_loop_find [OF k store_chain [OF wf]] stored_fits [OF wf] get_bucket_store [OF wf, of k] i
    by (simp add: item_unlink_def bucket_of_def)
  have "distinct (xs @ p # ys)" by (rule dchain_distinct [OF d])
  then have "B(?b := xs @ ys) = (\<lambda>b. [x \<leftarrow> B b. x \<noteq> p])"
    using B store_disjoint(2) [OF wf p(1)]
    by (intro ext) auto
  then have 2: "store_wf (s\<lparr>hashtable := ?t, heap := ?h\<rparr>) F (\<lambda>b. [x \<leftarrow> B b. x \<noteq> p])"
    using unlink_store [OF wf bucket_of_less B i(1)] by simp
  show ?thesis by (rule that [OF 1 2 unlinked_heap_frame(1) i(2)])
qed

section \<open>Calls of the allocator\<close>

lemma upd_item_hashtable [frame]: "upd_item p f s = Some s' \<Longrightarrow> hashtable s' = hashtable s"
  by (auto simp: upd_item_def split: option.splits)

lemma upd_class_hashtable [frame]: "upd_class c f s = Some s' \<Longrightarrow> hashtable s' = hashtable s"
  by (auto simp: upd_class_def split: if_splits)

lemma slabs_alloc_hashtable: "slabs_alloc n s = Some (p, s') \<Longrightarrow> hashtable s' = hashtable s"
  by (auto simp: slabs_alloc_def Let_def bind_eq_Some_conv split: if_splits dest!: frame)

lemma slabs_free_hashtable: "slabs_free p s = Some s' \<Longrightarrow> hashtable s' = hashtable s"
  by (auto simp: slabs_free_def Let_def bind_eq_Some_conv split: if_splits dest!: frame)

text \<open>An allocator step that leaves the stored chunks alone keeps the store.\<close>

lemma store_wf_alloc_step:
  assumes wf: "store_wf s F B" and sl: "slabs_wf s' F'" and ht: "hashtable s' = hashtable s"
    and eq: "\<And>b p. p \<in> set (B b) \<Longrightarrow> heap s' p = heap s p"
    and fr: "\<And>b p j. p \<in> set (B b) \<Longrightarrow> p \<notin> set (F' j)"
  shows "store_wf s' F' B"
proof (rule store_wfI [OF wf sl, where q = NULL])
  fix b :: nat assume b: "b < 65536"
  show "dchain (heap s') NULL (hashtable s' ! b) (B b)"
    using store_wfD(3) [OF wf b] eq by (subst dchain_cong [of _ _ "heap s"]) (auto simp: ht)
next
  fix b :: nat
  have "NULL \<notin> set (B b)"
    using store_wfD(4) [OF wf, of NULL b] slabs_wfD(3) [OF store_wfD(1) [OF wf]] by (auto simp: stored_def)
  then show "B b = [x \<leftarrow> B b. x \<noteq> NULL]" by (metis (mono_tags, lifting) filter_True)
qed (use eq fr ht store_wfD(2) [OF wf] in auto)

lemma release_store:
  assumes wf: "store_wf s F B" and ow: "owned (heap s) F i p" and p: "\<And>b. p \<notin> set (B b)"
  obtains s' where "slabs_free p s = Some s'" "store_wf s' (F(i := p # F i)) B" "hashtable s' = hashtable s"
    "\<And>b q. q \<in> set (B b) \<Longrightarrow> heap s' q = heap s q"
proof -
  obtain s' where s': "slabs_free p s = Some s'" "slabs_wf s' (F(i := p # F i))"
    "\<And>q. q \<noteq> p \<Longrightarrow> q \<notin> set (F i) \<Longrightarrow> heap s' q = heap s q"
    using sl.release_push [OF store_wfD(1) [OF wf] ow] by blast
  have ht: "hashtable s' = hashtable s" by (rule slabs_free_hashtable [OF s'(1)])
  have eq: "heap s' q = heap s q" if "q \<in> set (B b)" for q b
    using that p store_disjoint(1) [OF wf that] by (intro s'(3)) auto
  have "store_wf s' (F(i := p # F i)) B"
    by (rule store_wf_alloc_step [OF wf s'(2) ht eq]) (use p store_disjoint(1) [OF wf] in auto)
  with s'(1) ht eq show ?thesis using that by blast
qed

lemma alloc_store:
  assumes wf: "store_wf s F B" and n: "fits_class n" and F: "F (class_of (unat n)) = p # ps"
  obtains s' where "slabs_alloc n s = Some (p, s')" "store_wf s' (F(class_of (unat n) := ps)) B"
    "hashtable s' = hashtable s" "p \<noteq> NULL" "owned (heap s') (F(class_of (unat n) := ps)) (class_of (unat n)) p"
    "\<And>b. p \<notin> set (B b)" "\<And>b q. q \<in> set (B b) \<Longrightarrow> heap s' q = heap s q"
proof -
  let ?F = "F(class_of (unat n) := ps)"
  obtain s' where s': "slabs_alloc n s = Some (p, s')" "p \<noteq> NULL" "slabs_wf s' ?F"
    "owned (heap s') ?F (class_of (unat n)) p"
    "\<And>q. q \<notin> set (F (class_of (unat n))) \<Longrightarrow> heap s' q = heap s q"
    using sl.alloc_pop [OF store_wfD(1) [OF wf] n F] by blast
  have ht: "hashtable s' = hashtable s" by (rule slabs_alloc_hashtable [OF s'(1)])
  have eq: "heap s' q = heap s q" if "q \<in> set (B b)" for q b
    using store_disjoint(1) [OF wf that] by (intro s'(5)) auto
  have p: "p \<notin> set (B b)" for b
    using store_disjoint(1) [OF wf, of p b "class_of (unat n)"] F by auto
  have fr: "q \<notin> set (?F j)" if "q \<in> set (B b)" for q b j
    using store_disjoint(1) [OF wf that, of j] store_disjoint(1) [OF wf that, of "class_of (unat n)"] F by auto
  have "store_wf s' ?F B" by (rule store_wf_alloc_step [OF wf s'(3) ht eq fr])
  with s' ht p eq show ?thesis using that by blast
qed

section \<open>Filling and linking an item\<close>

definition filled_item :: "cbuf \<Rightarrow> u32 \<Rightarrow> cbuf \<Rightarrow> u32 \<Rightarrow> item \<Rightarrow> item" where
  "filled_item key nkey value nval i = i\<lparr>it_next := NULL, it_prev := NULL, it_nbytes := nval, it_nkey := nkey,
     it_data := buf_bytes key (Suc (unat nkey)) @ buf_bytes value (Suc (unat nval)) @
                drop (unat nkey + unat nval + 2) (it_data i)\<rparr>"

lemma int_inc_small: "unat n < 2 ^ 31 - 1 \<Longrightarrow> int_inc n = Some (n + 1)"
  by (auto simp: int_inc_def)

lemma unat_scast_inc:
  assumes "unat (n :: u32) < 2 ^ 31 - 1"
  shows "unat (scast (n + 1) :: u64) = Suc (unat n)"
proof -
  have "unat (n + 1) = Suc (unat n)" using assms by (subst unat_inc) auto
  then show ?thesis using assms by (subst unat_scast_u64) auto
qed

lemma item_alloc_eval:
  assumes al: "slabs_alloc (ucast (ITEM_ntotal nkey nval)) s = Some (p, s1)" and "p \<noteq> NULL"
    and i: "heap s1 p = Some i" and len: "unat nkey + unat nval + 2 \<le> length (it_data i)"
    and small: "unat nkey < 2 ^ 31 - 1" "unat nval < 2 ^ 31 - 1"
    and buf: "unat nkey < blen key" "unat nval < blen value"
  shows "item_alloc key nkey value nval s =
    Some (p, s1\<lparr>heap := (heap s1)(p \<mapsto> filled_item key nkey value nval i)\<rparr>)"
proof -
  let ?i1 = "i\<lparr>it_next := NULL, it_prev := NULL, it_nbytes := nval, it_nkey := nkey\<rparr>"
  let ?i2 = "?i1\<lparr>it_data := buf_bytes key (Suc (unat nkey)) @ drop (Suc (unat nkey)) (it_data i)\<rparr>"
  have 1: "copy_in 0 key (scast (nkey + 1)) ?i1 = Some ?i2"
    using len buf by (simp add: copy_in_def unat_scast_inc [OF small(1)])
  have "ITEM_val_off ?i2 = int (Suc (unat nkey))"
    using small(1) by (simp add: ITEM_val_off_def sint_small)
  then have 2: "copy_in (ITEM_val_off ?i2) value (scast (nval + 1)) ?i2 = Some (filled_item key nkey value nval i)"
    using len buf by (simp add: copy_in_def unat_scast_inc [OF small(2)] filled_item_def nat_add_distrib add.commute [of "unat nval"] le_diff_conv)
  show ?thesis
    using al \<open>p \<noteq> NULL\<close> i 1 2 int_inc_small [OF small(1)] int_inc_small [OF small(2)]
    by (simp add: item_alloc_def)
qed

lemma filled_item_holds:
  assumes "unat nkey + unat nval + 2 \<le> length (it_data i)"
  shows "item_key (filled_item key nkey value nval i) = buf_bytes key (unat nkey)"
    "item_value (filled_item key nkey value nval i) = buf_bytes value (unat nval)"
    "item_fits (filled_item key nkey value nval i)"
    "length (it_data (filled_item key nkey value nval i)) = length (it_data i)"
    "it_clsid (filled_item key nkey value nval i) = it_clsid i"
  using assms by (simp_all add: filled_item_def item_key_def item_value_def item_fits_def)

lemma ITEM_ntotal_small:
  assumes "sizeof_item + unat nkey + 1 + unat nval + 1 \<le> 16384"
  shows "unat (ucast (ITEM_ntotal nkey nval) :: u32) = sizeof_item + unat nkey + 1 + unat nval + 1"
    (is "_ = ?n")
proof -
  have "(scast nkey :: u64) = of_nat (unat nkey)" "(scast nval :: u64) = of_nat (unat nval)"
    using assms by (auto intro!: scast_u64_small simp del: of_nat_unat)
  then have "ITEM_ntotal nkey nval = of_nat ?n"
    by (simp only: ITEM_ntotal_def of_nat_add of_nat_1)
  then have "unat (ITEM_ntotal nkey nval) = ?n"
    using assms by (simp only:) (rule unat_of_nat_less, simp)
  then show ?thesis using assms by (simp add: unsigned_ucast_eq take_bit_nat_eq_self)
qed

lemma link_store:
  assumes wf: "store_wf s F B" and b: "b < 65536" and p: "\<And>c. p \<notin> set (B c)" "\<And>j. p \<notin> set (F j)" "heap s p \<noteq> None"
    and hd: "head = hashtable s ! b" and it: "it_next it = head" "it_prev it = NULL"
    and st: "stored ((heap s)(p \<mapsto> it)) F b p" and new: "\<And>q. q \<in> set (B b) \<Longrightarrow> key_at (heap s) q \<noteq> item_key it"
  shows "store_wf (s\<lparr>heap := set_prev head p ((heap s)(p \<mapsto> it)), hashtable := (hashtable s)[b := p]\<rparr>) F
    (B(b := p # B b))" (is "store_wf ?s F ?B")
proof -
  let ?h1 = "(heap s)(p \<mapsto> it)" and ?h = "set_prev head p ((heap s)(p \<mapsto> it))"
  note sl = store_wfD(1) [OF wf] and len = store_wfD(2) [OF wf]
  have p0: "p \<noteq> NULL" using p(3) slabs_wfD(3) [OF sl] by auto
  have d: "dchain (heap s) NULL head (B b)" using store_wfD(3) [OF wf b] hd by simp
  have head: "head = NULL \<or> head \<in> set (B b)" using d by (cases "B b") auto
  have pay: "map_option payload (?h q) = map_option payload (heap s q)" if "q \<noteq> p" for q
    using that by simp
  have fr: "?h q = heap s q" if "q \<in> set (F j)" for q j
  proof -
    have "q \<noteq> p" using p(2) that by auto
    moreover have "q \<noteq> head"
      using head that store_disjoint(1) [OF wf, of head b j] free_chunk_in_heap(1) [OF sl that] slabs_wfD(3) [OF sl]
      by auto
    ultimately show ?thesis by (simp add: set_prev_other)
  qed
  have "slabs_wf ?s F"
    by (rule slabs_wf_cong [OF sl]) (use p(3) fr in auto)
  moreover have "dchain ?h NULL ((hashtable s)[b := p] ! c) (?B c)" if c: "c < 65536" for c
  proof (cases "c = b")
    case True
    then show ?thesis using dchain_push [OF d p(1) p0 it] b len by simp
  next
    case False
    have "?h q = heap s q" if q: "q \<in> set (B c)" for q
    proof -
      have "q \<noteq> p" "q \<noteq> head"
        using head store_disjoint(2) [OF wf q, of b] False p(1) q dchain_NULL_notin [OF store_wfD(3) [OF wf c]]
        by auto
      then show ?thesis by (simp add: set_prev_other)
    qed
    then show ?thesis
      using store_wfD(3) [OF wf c] False by (subst dchain_cong [of _ _ "heap s"]) auto
  qed
  moreover have "stored ?h F c q" if "q \<in> set (?B c)" for c q
  proof (cases "q = p")
    case True
    with that p(1) have "c = b" by (auto split: if_splits)
    then show ?thesis using stored_payload [OF _ st, of ?h] p(2) True by simp
  next
    case False
    with that have q: "q \<in> set (B c)" by (auto split: if_splits)
    show ?thesis
      by (rule stored_payload [OF _ store_wfD(4) [OF wf q]]) (use False store_disjoint(1) [OF wf q] in auto)
  qed
  moreover have "distinct (map (key_at ?h) (?B c))" for c
  proof -
    have "map (key_at ?h) (B c) = map (key_at (heap s)) (B c)"
      using p(1) pay by (auto intro!: payload_at)
    then have "distinct (map (key_at ?h) (B c))" using store_wfD(5) [OF wf, of c] by metis
    moreover have "key_at ?h p \<notin> set (map (key_at ?h) (B b))"
    proof -
      have "key_at ?h p = item_key it" using payload_at(1) [of ?h p ?h1] by (simp add: key_at_def)
      moreover have "set (map (key_at ?h) (B b)) = set (map (key_at (heap s)) (B b))"
        using p(1) pay by (auto intro!: image_cong payload_at)
      ultimately show ?thesis using new by fastforce
    qed
    ultimately show ?thesis by (cases "c = b") simp_all
  qed
  ultimately show ?thesis using len by (simp add: store_wf_def)
qed

end
