(* ===== verification/Cache_Refine.thy ===== *)
theory Cache_Refine
  imports Cache_Store
begin

unbundle bit_operations_syntax

text \<open>
  The abstract key-value store and the refinement. The abstract state is a map from keys to values and
  the number of free chunks of every size class; \<open>cache_abs\<close> reads it out of the concrete state by
  walking the buckets, with no ghost data. \<open>kv_set\<close> and \<open>kv_get\<close> are the specifications of \<open>cache_set\<close>
  and \<open>cache_get\<close>.
\<close>

section \<open>The abstract store\<close>

record kv =
  kv_map :: "bytes \<rightharpoonup> bytes"
  kv_free :: "nat \<Rightarrow> nat"

text \<open>Setting a key first gives back the chunk of its old value; the key is lost when no chunk is left.\<close>

definition kv_drop :: "bytes \<Rightarrow> kv \<Rightarrow> kv" where
  "kv_drop k a =
     (case kv_map a k of
        None \<Rightarrow> a
      | Some v \<Rightarrow> \<lparr>kv_map = (kv_map a)(k := None),
                  kv_free = (kv_free a)(pair_class k v := kv_free a (pair_class k v) + 1)\<rparr>)"

definition kv_insert :: "bytes \<Rightarrow> bytes \<Rightarrow> kv \<Rightarrow> bool \<times> kv" where
  "kv_insert k v a =
     (if kv_free a (pair_class k v) = 0 then (False, a)
      else (True, \<lparr>kv_map = (kv_map a)(k \<mapsto> v),
                   kv_free = (kv_free a)(pair_class k v := kv_free a (pair_class k v) - 1)\<rparr>))"

definition kv_set :: "bytes \<Rightarrow> bytes \<Rightarrow> kv \<Rightarrow> bool \<times> kv" where
  "kv_set k v a = kv_insert k v (kv_drop k a)"

section \<open>Reading the abstract state\<close>

partial_function (option) chain_ptrs :: "heap \<Rightarrow> ptr \<Rightarrow> ptr list option" where
  "chain_ptrs h p =
     (if p = NULL then Some []
      else do { i \<leftarrow> h p; ps \<leftarrow> chain_ptrs h (it_next i); Some (p # ps) })"

lemma chain_ptrs_chain: "chain h p ps \<Longrightarrow> chain_ptrs h p = Some ps"
proof (induction ps arbitrary: p)
  case Nil
  then show ?case by (simp add: chain_ptrs.simps)
next
  case (Cons q qs)
  then obtain i where "p = q" "q \<noteq> NULL" "h q = Some i" "chain h (it_next i) qs"
    by (auto split: option.splits)
  with Cons.IH show ?case by (subst chain_ptrs.simps) simp
qed

definition entries :: "heap \<Rightarrow> ptr list \<Rightarrow> bytes \<rightharpoonup> bytes" where
  "entries h ps = map_of (map (\<lambda>p. (key_at h p, value_at h p)) ps)"

definition cache_map :: "'a cache_state_scheme \<Rightarrow> bytes \<rightharpoonup> bytes" where
  "cache_map s k = (case chain_ptrs (heap s) (hashtable s ! bucket_of k) of
     None \<Rightarrow> None | Some ps \<Rightarrow> entries (heap s) ps k)"

definition cache_abs :: "'a cache_state_scheme \<Rightarrow> kv" where
  "cache_abs s = \<lparr>kv_map = cache_map s,
     kv_free = (\<lambda>i. if i < num_classes then unat (sl_curr (slabclass s ! i)) else 0)\<rparr>"

definition cache_inv :: "'a cache_state_scheme \<Rightarrow> bool" where
  "cache_inv s \<longleftrightarrow> (\<exists>F B. store_wf s F B)"

section \<open>The abstraction in terms of the buckets\<close>

definition bucket_map :: "heap \<Rightarrow> (nat \<Rightarrow> ptr list) \<Rightarrow> bytes \<rightharpoonup> bytes" where
  "bucket_map h B k = entries h (B (bucket_of k)) k"

lemma entries_None: "entries h ps k = None \<longleftrightarrow> (\<forall>p\<in>set ps. key_at h p \<noteq> k)"
  by (auto simp: entries_def map_of_eq_None_iff image_iff)

lemma entries_Some:
  assumes "distinct (map (key_at h) ps)"
  shows "entries h ps k = Some v \<longleftrightarrow> (\<exists>p\<in>set ps. key_at h p = k \<and> value_at h p = v)"
proof -
  have "distinct (map fst (map (\<lambda>p. (key_at h p, value_at h p)) ps))" using assms by (simp add: comp_def)
  then show ?thesis by (auto simp: entries_def)
qed

lemma entries_cong:
  "(\<And>p. p \<in> set ps \<Longrightarrow> map_option payload (h p) = map_option payload (h' p)) \<Longrightarrow> entries h ps = entries h' ps"
  unfolding entries_def by (rule arg_cong [of _ _ map_of]) (auto intro!: payload_at)

lemma bucket_map_cong:
  "(\<And>b p. p \<in> set (B b) \<Longrightarrow> map_option payload (h p) = map_option payload (h' p)) \<Longrightarrow>
     bucket_map h B = bucket_map h' B"
  unfolding bucket_map_def by (intro ext) (metis entries_cong)

lemma cache_map_store:
  assumes "store_wf s F B"
  shows "cache_map s = bucket_map (heap s) B"
  using chain_ptrs_chain [OF store_chain [OF assms]]
  by (intro ext) (simp add: cache_map_def bucket_map_def)

text \<open>Removing the chunk of a key, and adding one for a new key.\<close>

lemma bucket_map_remove:
  assumes wf: "store_wf s F B" and p: "p \<in> set (B (bucket_of k))" "key_at (heap s) p = k"
  shows "bucket_map (heap s) (\<lambda>b. [x \<leftarrow> B b. x \<noteq> p]) = (bucket_map (heap s) B)(k := None)"
proof (rule ext)
  fix k'
  let ?ps = "B (bucket_of k')"
  note dk = store_wfD(5) [OF wf]
  have uniq: "q = p" if "q \<in> set (B (bucket_of k))" "key_at (heap s) q = k" for q
    using that p dk [of "bucket_of k"] by (auto simp: distinct_map inj_on_def)
  show "bucket_map (heap s) (\<lambda>b. [x \<leftarrow> B b. x \<noteq> p]) k' = ((bucket_map (heap s) B)(k := None)) k'"
  proof (cases "k' = k")
    case True
    then show ?thesis using uniq by (auto simp: bucket_map_def entries_None)
  next
    case False
    have "entries (heap s) [x \<leftarrow> ?ps. x \<noteq> p] k' = entries (heap s) ?ps k'"
    proof (rule option.expand)
      show "(entries (heap s) [x \<leftarrow> ?ps. x \<noteq> p] k' = None) = (entries (heap s) ?ps k' = None)"
        using False p by (auto simp: entries_None)
      show "the (entries (heap s) [x \<leftarrow> ?ps. x \<noteq> p] k') = the (entries (heap s) ?ps k')"
        if ne: "entries (heap s) [x \<leftarrow> ?ps. x \<noteq> p] k' \<noteq> None"
      proof -
        have d: "distinct (map (key_at (heap s)) [x \<leftarrow> ?ps. x \<noteq> p])"
          by (rule distinct_map_filter [OF dk])
        from ne obtain v where v: "entries (heap s) [x \<leftarrow> ?ps. x \<noteq> p] k' = Some v" by auto
        then have "entries (heap s) ?ps k' = Some v"
          unfolding entries_Some [OF d] entries_Some [OF dk] by auto
        with v show ?thesis by simp
      qed
    qed
    then show ?thesis using False by (simp add: bucket_map_def)
  qed
qed

lemma bucket_map_add:
  assumes "bucket_of (key_at h p) = b"
  shows "bucket_map h (B(b := p # B b)) = (bucket_map h B)(key_at h p \<mapsto> value_at h p)"
  using assms by (intro ext) (auto simp: bucket_map_def entries_def)

lemma free_counter:
  assumes "slabs_wf s F"
  shows "(if i < num_classes then unat (sl_curr (slabclass s ! i)) else 0) = length (F i)"
proof (cases "i < num_classes")
  case True
  then have "i < MAX_NUMBER_OF_SLAB_CLASSES" by (simp add: const_defs)
  from free_ok_length(2) [OF slabs_wfD(6) [OF assms this] slabs_wfD(4,5) [OF assms]] True
  show ?thesis by simp
next
  case False
  then show ?thesis using slabs_wfD(8) [OF assms, of i] by simp
qed

lemma cache_abs_store:
  assumes "store_wf s F B"
  shows "cache_abs s = \<lparr>kv_map = bucket_map (heap s) B, kv_free = (\<lambda>i. length (F i))\<rparr>"
  unfolding cache_abs_def cache_map_store [OF assms] free_counter [OF store_wfD(1) [OF assms]] by (rule refl)

lemma cache_abs_sel:
  assumes "store_wf s F B"
  shows "kv_map (cache_abs s) = bucket_map (heap s) B" "kv_free (cache_abs s) = (\<lambda>i. length (F i))"
  using cache_abs_store [OF assms] by simp_all

section \<open>The refinement\<close>

lemma drop_step:
  assumes wf: "store_wf s F B" and k: "is_key key nkey k"
  shows "\<exists>it s1 s2 F' B'. item_unlink key nkey (jenkins_ref k) s = Some (it, s1) \<and>
    (if it \<noteq> NULL then slabs_free it s1 else Some s1) = Some s2 \<and> store_wf s2 F' B' \<and>
    cache_abs s2 = kv_drop k (cache_abs s)"
proof (cases "cache_map s k")
  case None
  then have "item_unlink key nkey (jenkins_ref k) s = Some (NULL, s)"
    using item_unlink_absent [OF wf k] cache_map_store [OF wf] by (auto simp: bucket_map_def entries_None)
  moreover have "kv_drop k (cache_abs s) = cache_abs s" using None by (simp add: kv_drop_def cache_abs_def)
  ultimately show ?thesis using wf by auto
next
  case (Some v)
  then obtain p where p: "p \<in> set (B (bucket_of k))" "key_at (heap s) p = k" "value_at (heap s) p = v"
    using cache_map_store [OF wf] entries_Some [OF store_wfD(5) [OF wf]] by (auto simp: bucket_map_def)
  let ?B = "\<lambda>b. [x \<leftarrow> B b. x \<noteq> p]" and ?c = "pair_class k v"
  obtain h t where u: "item_unlink key nkey (jenkins_ref k) s = Some (p, s\<lparr>hashtable := t, heap := h\<rparr>)"
    "store_wf (s\<lparr>hashtable := t, heap := h\<rparr>) F ?B"
    "\<And>q. map_option payload (h q) = map_option payload (heap s q)" "p \<noteq> NULL"
    by (rule item_unlink_present [OF wf k p(1,2)]) (rule that)
  have "owned (heap s) F ?c p" using storedD(4) [OF store_wfD(4) [OF wf p(1)]] p by simp
  then have ow: "owned h F ?c p"
    by (rule owned_payload [where h = "heap s", rotated]) (use u(3) store_disjoint(1) [OF wf p(1)] in auto)
  obtain s2 where f: "slabs_free p (s\<lparr>hashtable := t, heap := h\<rparr>) = Some s2" "store_wf s2 (F(?c := p # F ?c)) ?B"
    "\<And>b q. q \<in> set (?B b) \<Longrightarrow> heap s2 q = h q"
    using release_store [OF u(2), of ?c p] ow by auto
  have "bucket_map (heap s2) ?B = bucket_map (heap s) ?B"
    by (rule bucket_map_cong) (use u(3) f(3) in auto)
  also have "\<dots> = (bucket_map (heap s) B)(k := None)" by (rule bucket_map_remove [OF wf p(1,2)])
  finally have "kv_map (cache_abs s2) = (kv_map (cache_abs s))(k := None)"
    by (simp add: cache_abs_sel(1) [OF wf] cache_abs_sel(1) [OF f(2)])
  moreover have "kv_free (cache_abs s2) = (kv_free (cache_abs s))(?c := kv_free (cache_abs s) ?c + 1)"
    by (auto simp: cache_abs_sel(2) [OF wf] cache_abs_sel(2) [OF f(2)] fun_eq_iff)
  ultimately have "cache_abs s2 = kv_drop k (cache_abs s)"
    using Some by (intro kv.equality) (simp_all add: kv_drop_def cache_abs_def)
  with u(1,4) f(1,2) show ?thesis by auto
qed

text \<open>What the caller of \<open>cache_set\<close> provides: terminated buffers whose pair fits the largest class.\<close>

definition set_args :: "cbuf \<Rightarrow> u32 \<Rightarrow> cbuf \<Rightarrow> u32 \<Rightarrow> bytes \<Rightarrow> bytes \<Rightarrow> bool" where
  "set_args key nkey value nval k v \<longleftrightarrow>
     unat nkey < blen key \<and> unat nval < blen value \<and> sizeof_item + unat nkey + 1 + unat nval + 1 \<le> 16384 \<and>
     k = buf_bytes key (unat nkey) \<and> v = buf_bytes value (unat nval)"

lemma set_args_key: "set_args key nkey value nval k v \<Longrightarrow> is_key key nkey k"
  by (simp add: set_args_def is_key_def)

lemma set_args_class:
  assumes "set_args key nkey value nval k v" and n: "n = (ucast (ITEM_ntotal nkey nval) :: u32)"
  shows "fits_class n" "class_of (unat n) = pair_class k v"
  using assms ITEM_ntotal_small [of nkey nval]
  by (simp_all add: set_args_def fits_class_def pair_class_def pair_size_def)

text \<open>Linking a filled chunk at the head of its bucket.\<close>

definition link_item :: "nat \<Rightarrow> ptr \<Rightarrow> 'a cache_state_scheme \<Rightarrow> (u32 \<times> 'a cache_state_scheme) option" where
  "link_item b it s = do {
     head \<leftarrow> get_bucket b s;
     s \<leftarrow> upd_item it (\<lambda>i. i\<lparr>it_next := head\<rparr>) s;
     s \<leftarrow> (if head \<noteq> NULL then upd_item head (\<lambda>n. n\<lparr>it_prev := it\<rparr>) s else Some s);
     s \<leftarrow> set_bucket b it s;
     Some (0, s)
   }"

lemma cache_set_link:
  "cache_set key nkey value nval s = do {
     hv \<leftarrow> hash key nkey;
     (it, s) \<leftarrow> item_unlink key nkey hv s;
     s \<leftarrow> (if it \<noteq> NULL then slabs_free it s else Some s);
     (it, s) \<leftarrow> item_alloc key nkey value nval s;
     if it = NULL then Some (- 1, s) else link_item (bucket_index hv) it s
   }"
  unfolding cache_set_def link_item_def by (rule refl)

lemma link_eval:
  assumes wf: "store_wf s F B" and i: "heap s p = Some i" and b: "b < 65536" and head: "head = hashtable s ! b"
  shows "link_item b p s = Some (0, s\<lparr>heap := set_prev head p ((heap s)(p \<mapsto> i\<lparr>it_next := head\<rparr>)),
    hashtable := (hashtable s)[b := p]\<rparr>)"
proof -
  let ?s = "s\<lparr>heap := (heap s)(p \<mapsto> i\<lparr>it_next := head\<rparr>)\<rparr>"
  have "dchain (heap s) NULL head (B b)" using store_wfD(3) [OF wf b] head by simp
  then have "head = NULL \<or> heap ?s head \<noteq> None" by (cases "B b") (auto split: option.splits)
  then have "(if head \<noteq> NULL then upd_item head (\<lambda>n. n\<lparr>it_prev := p\<rparr>) ?s else Some ?s) =
      Some (?s\<lparr>heap := set_prev head p (heap ?s)\<rparr>)"
    by (rule upd_prev_eq)
  then show ?thesis
    using i b store_wfD(2) [OF wf]
    by (simp add: link_item_def get_bucket_def set_bucket_def head [symmetric])
qed

lemma link_step:
  assumes wf: "store_wf s F B" and ow: "owned (heap s) F (pair_class k v) p" and p: "\<And>b. p \<notin> set (B b)"
    and i: "heap s p = Some i" "item_key i = k" "item_value i = v" "item_fits i" "it_prev i = NULL"
    and new: "cache_map s k = None"
  shows "\<exists>s' B'. link_item (bucket_of k) p s = Some (0, s') \<and> store_wf s' F B' \<and>
    cache_map s' = (cache_map s)(k \<mapsto> v)"
proof -
  let ?b = "bucket_of k"
  define head where "head = hashtable s ! ?b"
  let ?it = "i\<lparr>it_next := head\<rparr>"
  let ?h = "set_prev head p ((heap s)(p \<mapsto> ?it))"
  let ?s = "s\<lparr>heap := ?h, hashtable := (hashtable s)[?b := p]\<rparr>" and ?B = "B(?b := p # B ?b)"
  have kit: "item_key ?it = k" "item_value ?it = v" "item_fits ?it"
    using payload_eqD [OF payload_links(1)] i by simp_all
  have pf: "p \<notin> set (F j)" for j using ow unfolding owned_def by blast
  have "owned ((heap s)(p \<mapsto> ?it)) F (pair_class k v) p"
    by (rule owned_payload [OF _ ow]) (use i(1) pf in auto)
  then have st: "stored ((heap s)(p \<mapsto> ?it)) F ?b p" using kit by (simp add: stored_def)
  have wf2: "store_wf ?s F ?B"
  proof (rule link_store [OF wf bucket_of_less p pf _ head_def _ _ st])
    fix q assume "q \<in> set (B ?b)"
    then show "key_at (heap s) q \<noteq> item_key ?it"
      using new by (auto simp: cache_map_store [OF wf] bucket_map_def entries_None kit)
  qed (use i in auto)
  have hs: "heap ?s = ?h" by simp
  have "key_at ?h p = k" "value_at ?h p = v"
    using payload_at [of ?h p "(heap s)(p \<mapsto> ?it)"] kit by (simp_all add: key_at_def value_at_def)
  then have "bucket_map ?h ?B = (bucket_map ?h B)(k \<mapsto> v)"
    using bucket_map_add [of ?h p ?b B] by simp
  also have "bucket_map ?h B = bucket_map (heap s) B"
    by (rule bucket_map_cong) (use p i(1) in auto)
  finally have "cache_map ?s = (cache_map s)(k \<mapsto> v)"
    by (simp only: cache_map_store [OF wf] cache_map_store [OF wf2] hs)
  with link_eval [OF wf i(1) bucket_of_less head_def] wf2 show ?thesis by blast
qed

lemma fill_store:
  assumes wf: "store_wf s F B" and ow: "owned (heap s) F c p" and p: "\<And>b. p \<notin> set (B b)"
    and i: "heap s p = Some i" "it_clsid i' = it_clsid i" "length (it_data i') = length (it_data i)"
  shows "store_wf (s\<lparr>heap := (heap s)(p \<mapsto> i')\<rparr>) F B" and "owned ((heap s)(p \<mapsto> i')) F c p"
    and "cache_map (s\<lparr>heap := (heap s)(p \<mapsto> i')\<rparr>) = cache_map s"
proof -
  let ?s = "s\<lparr>heap := (heap s)(p \<mapsto> i')\<rparr>"
  have pf: "p \<notin> set (F j)" for j using ow unfolding owned_def by blast
  have "slabs_wf ?s F"
    by (rule slabs_wf_cong [OF store_wfD(1) [OF wf]]) (use i(1) pf in auto)
  then show wf': "store_wf ?s F B"
    by (rule store_wf_alloc_step [OF wf]) (use p store_disjoint(1) [OF wf] in auto)
  show "owned ((heap s)(p \<mapsto> i')) F c p" using ow i pf by (auto simp: owned_def)
  have "bucket_map (heap ?s) B = bucket_map (heap s) B"
    by (rule bucket_map_cong) (use p in auto)
  then show "cache_map ?s = cache_map s" by (simp only: cache_map_store [OF wf] cache_map_store [OF wf'])
qed

lemma insert_step:
  assumes wf: "store_wf s F B" and args: "set_args key nkey value nval k v" and new: "cache_map s k = None"
  shows "\<exists>it s1 r s2 F' B'. item_alloc key nkey value nval s = Some (it, s1) \<and>
    (if it = NULL then Some (- 1, s1) else link_item (bucket_of k) it s1) = Some (r, s2) \<and> store_wf s2 F' B' \<and>
    (let (ok, a) = kv_insert k v (cache_abs s) in r = (if ok then 0 else - 1) \<and> cache_abs s2 = a)"
proof -
  define n where "n = (ucast (ITEM_ntotal nkey nval) :: u32)"
  let ?c = "pair_class k v"
  note n = set_args_class [OF args n_def]
  show ?thesis
  proof (cases "F ?c")
    case Nil
    then have "slabs_alloc n s = Some (NULL, s)"
      using n by (intro sl.alloc_empty [OF store_wfD(1) [OF wf] n(1)]) simp
    then have "item_alloc key nkey value nval s = Some (NULL, s)" by (simp add: item_alloc_def n_def)
    then show ?thesis using wf Nil by (auto simp: kv_insert_def cache_abs_sel(2) [OF wf])
  next
    case (Cons p ps)
    let ?F = "F(?c := ps)"
    obtain s1 where s1: "slabs_alloc n s = Some (p, s1)" "store_wf s1 ?F B"
      "p \<noteq> NULL" "owned (heap s1) ?F ?c p" "\<And>b. p \<notin> set (B b)" "\<And>b q. q \<in> set (B b) \<Longrightarrow> heap s1 q = heap s q"
      by (rule alloc_store [OF wf n(1), unfolded n(2), OF Cons]) (rule that)
    obtain i where i: "heap s1 p = Some i" "length (it_data i) = 32 * 2 ^ ?c - sizeof_item"
      using s1(4) by (auto simp: owned_def)
    have len: "unat nkey + unat nval + 2 \<le> length (it_data i)"
      using request_class(4) [OF store_wfD(1) [OF wf] n(1)] ITEM_ntotal_small [of nkey nval] args i(2) n(2)
      by (simp add: n_def set_args_def const_defs)
    let ?i = "filled_item key nkey value nval i"
    let ?s1 = "s1\<lparr>heap := (heap s1)(p \<mapsto> ?i)\<rparr>"
    have al: "item_alloc key nkey value nval s = Some (p, ?s1)"
      by (rule item_alloc_eval [OF s1(1) [unfolded n_def] s1(3) i(1) len]) (use args in \<open>auto simp: set_args_def\<close>)
    note fi = filled_item_holds [OF len, of key "value"]
    note fs = fill_store [OF s1(2,4,5) i(1) fi(5,4)]
    have map1: "cache_map ?s1 = cache_map s"
      using bucket_map_cong [of B "heap s1" "heap s"] s1(6)
      by (simp only: fs(3)) (simp add: cache_map_store [OF wf] cache_map_store [OF s1(2)])
    obtain s2 B' where s2: "link_item (bucket_of k) p ?s1 = Some (0, s2)" "store_wf s2 ?F B'"
      "cache_map s2 = (cache_map ?s1)(k \<mapsto> v)"
      using link_step [OF fs(1) _ s1(5), of k v ?i] fs(2) fi(1-3) args new map1
      by (auto simp: set_args_def filled_item_def)
    have "kv_map (cache_abs s2) = (kv_map (cache_abs s))(k \<mapsto> v)"
      using s2(3) map1 by (simp add: cache_abs_def)
    moreover have "kv_free (cache_abs s2) = (kv_free (cache_abs s))(?c := kv_free (cache_abs s) ?c - 1)"
      using Cons by (auto simp: cache_abs_sel(2) [OF s2(2)] cache_abs_sel(2) [OF wf] fun_eq_iff)
    ultimately have "kv_insert k v (cache_abs s) = (True, cache_abs s2)"
      using Cons by (auto simp: kv_insert_def cache_abs_sel(2) [OF wf])
    with al s1(3) s2(1,2) show ?thesis by auto
  qed
qed

lemma cache_set_refine:
  assumes "cache_inv s" and args: "set_args key nkey value nval k v"
  shows "\<exists>r s'. cache_set key nkey value nval s = Some (r, s') \<and> cache_inv s' \<and>
    (let (ok, a) = kv_set k v (cache_abs s) in r = (if ok then 0 else - 1) \<and> cache_abs s' = a)"
proof -
  obtain F B where wf: "store_wf s F B" using assms(1) by (auto simp: cache_inv_def)
  note key = set_args_key [OF args]
  obtain it s1 s2 F1 B1 where d: "item_unlink key nkey (jenkins_ref k) s = Some (it, s1)"
    "(if it \<noteq> NULL then slabs_free it s1 else Some s1) = Some s2" "store_wf s2 F1 B1"
    "cache_abs s2 = kv_drop k (cache_abs s)"
    using drop_step [OF wf key] by blast
  have "cache_map s2 k = kv_map (kv_drop k (cache_abs s)) k" using d(4) by (metis cache_abs_def kv.select_convs(1))
  then have "cache_map s2 k = None" by (simp add: kv_drop_def split: option.splits)
  from insert_step [OF d(3) args this] obtain it' s3 r s4 F' B' where
    "item_alloc key nkey value nval s2 = Some (it', s3)"
    "(if it' = NULL then Some (- 1, s3) else link_item (bucket_of k) it' s3) = Some (r, s4)" "store_wf s4 F' B'"
    "let (ok, a) = kv_insert k v (cache_abs s2) in r = (if ok then 0 else - 1) \<and> cache_abs s4 = a"
    by blast
  moreover from this have "cache_inv s4" by (auto simp: cache_inv_def)
  ultimately show ?thesis
    using d hash_key [OF key] unfolding cache_set_link kv_set_def by (auto simp: bucket_of_def [symmetric])
qed

section \<open>Lookup\<close>

text \<open>
  A lookup returns the length of the copied prefix and the caller's object with the prefix and a
  terminator written to its start; the object is not touched when the key is absent.
\<close>

definition kv_get :: "bytes \<Rightarrow> nat \<Rightarrow> bytes \<Rightarrow> kv \<Rightarrow> u32 \<times> bytes" where
  "kv_get k maxn out a =
     (case kv_map a k of
        None \<Rightarrow> (- 1, out)
      | Some v \<Rightarrow> let n = min (length v) (maxn - 1) in (of_nat n, take n v @ 0 # drop (Suc n) out))"

lemma stored_value:
  assumes "item_fits it"
  shows "length (item_value it) = unat (it_nbytes it)"
    and "n \<le> unat (it_nbytes it) \<Longrightarrow> take n (drop (Suc (unat (it_nkey it))) (it_data it)) = take n (item_value it)"
  using assms by (auto simp: item_fits_def item_value_def min_def)

lemma signed_less_small:
  assumes "unat (a :: u32) < 2 ^ 31" and "unat b < 2 ^ 31"
  shows "a <s b \<longleftrightarrow> unat a < unat b"
  using assms by (simp add: word_sless_alt sint_small word_less_def [symmetric] word_less_nat_alt)

lemma item_small:
  assumes "store_wf s F B" and "p \<in> set (B b)" and "heap s p = Some it"
  shows "unat (it_nkey it) < 2 ^ 31 - 1" "unat (it_nbytes it) < 2 ^ 31 - 1"
proof -
  obtain i where i: "i < num_classes" "length (it_data it) = 32 * 2 ^ i - sizeof_item"
    using store_wfD(4) [OF assms(1,2)] assms(3) by (auto simp: stored_def owned_def)
  have "(2 :: nat) ^ i \<le> 2 ^ 10" using i(1) by (intro power_increasing) (auto simp: const_defs)
  then have "length (it_data it) \<le> 32768" using i(2) by simp
  with stored_fits [OF assms] show "unat (it_nkey it) < 2 ^ 31 - 1" "unat (it_nbytes it) < 2 ^ 31 - 1"
    by (auto simp: item_fits_def)
qed

lemma cache_get_copy:
  assumes it: "item_fits it" "unat (it_nkey it) < 2 ^ 31 - 1" and n: "unat (nval :: u32) \<le> unat (it_nbytes it)"
    and small: "unat nval < 2 ^ 31" and out: "unat nval < length out"
  shows "copy_out (ITEM_val_off it) (scast nval) it out =
    Some (take (unat nval) (item_value it) @ drop (unat nval) out)"
proof -
  have "nat (ITEM_val_off it) = Suc (unat (it_nkey it))" "0 \<le> ITEM_val_off it"
    using it(2) by (simp_all add: ITEM_val_off_def sint_small nat_add_distrib)
  then show ?thesis
    using it(1) n out stored_value(2) [OF it(1) n]
    by (simp add: copy_out_def unat_scast_u64 [OF small] item_fits_def)
qed

lemma cache_get_refine:
  assumes "cache_inv s" and key: "is_key key nkey k"
    and max: "0 < unat maxnval" "unat maxnval < 2 ^ 31" "unat maxnval \<le> length out"
  shows "cache_get key nkey out maxnval s = Some (kv_get k (unat maxnval) out (cache_abs s))"
proof -
  obtain F B where wf: "store_wf s F B" using assms(1) by (auto simp: cache_inv_def)
  let ?ps = "B (bucket_of k)"
  note ig = item_get_store [OF wf key]
  show ?thesis
  proof (cases "cache_map s k")
    case None
    then have "find (\<lambda>q. key_at (heap s) q = k) ?ps = None"
      by (auto simp: cache_map_store [OF wf] bucket_map_def entries_None find_None_iff)
    with ig None show ?thesis
      by (simp add: cache_get_def hash_key [OF key] kv_get_def cache_abs_def)
  next
    case (Some v)
    then obtain p where p: "p \<in> set ?ps" "key_at (heap s) p = k" "value_at (heap s) p = v"
      using cache_map_store [OF wf] entries_Some [OF store_wfD(5) [OF wf]] by (auto simp: bucket_map_def)
    then have find: "find (\<lambda>q. key_at (heap s) q = k) ?ps = Some p"
      using find_unique_key [OF store_wfD(5) [OF wf] p(1)] by simp
    obtain it where it: "heap s p = Some it" "item_fits it"
      using store_wfD(4) [OF wf p(1)] by (auto simp: stored_def)
    have p0: "p \<noteq> NULL" using it(1) slabs_wfD(3) [OF store_wfD(1) [OF wf]] by auto
    note small = item_small [OF wf p(1) it(1)]
    have v: "item_value it = v" "length v = unat (it_nbytes it)"
      using p(3) it stored_value(1) [OF it(2)] by (auto simp: value_at_def)
    have dec: "int_dec maxnval = Some (maxnval - 1)"
      using max(2) by (auto simp: int_dec_def)
    have m: "unat (maxnval - 1) = unat maxnval - 1"
      using max(1) by (subst unat_minus_one) auto
    define n where "n = (if it_nbytes it <s maxnval - 1 then it_nbytes it else maxnval - 1)"
    have n: "unat n = min (length v) (unat maxnval - 1)" "unat n \<le> unat (it_nbytes it)" "unat n < 2 ^ 31"
      "unat n < length out"
      using small(2) max m v(2) by (auto simp: n_def signed_less_small)
    have cp: "copy_out (ITEM_val_off it) (scast n) it out = Some (take (unat n) v @ drop (unat n) out)"
      using cache_get_copy [OF it(2) small(1) n(2-4)] v(1) by simp
    have len: "length (take (unat n) v) = unat n" using n(1) by simp
    have drop: "drop (unat n) out = out ! unat n # drop (Suc (unat n)) out"
      using n(4) by (rule Cons_nth_drop_Suc [symmetric])
    have "(take (unat n) v @ drop (unat n) out)[unat n := 0] = take (unat n) v @ 0 # drop (Suc (unat n)) out"
      unfolding drop by (subst list_update_append) (simp only: len, simp)
    moreover have "nat (sint n) = unat n" "0 \<le> sint n" using n(3) by (simp_all add: sint_small)
    moreover have "kv_get k (unat maxnval) out (cache_abs s) = (n, take (unat n) v @ 0 # drop (Suc (unat n)) out)"
      using Some unfolding kv_get_def cache_abs_def Let_def by (simp add: n(1) [symmetric] del: One_nat_def)
    moreover have "unat n < length (take (unat n) v @ drop (unat n) out)" using n(4) len by simp
    ultimately show ?thesis
      using ig find p0 it(1) dec cp
      by (simp add: cache_get_def hash_key [OF key] n_def [symmetric] Let_def)
  qed
qed

section \<open>Initialisation\<close>

definition kv_init :: kv where
  "kv_init = \<lparr>kv_map = Map.empty, kv_free = (\<lambda>i. if i = 1 then 524288 else 0)\<rparr>"

lemma cache_init_refine:
  assumes "heap s = Map.empty" and "mmap_ok os" and "realloc_ok os" and "calloc_ok os"
  shows "\<exists>s'. cache_init os s = Some s' \<and> cache_inv s' \<and> cache_abs s' = kv_init"
proof -
  let ?t = "replicate 65536 NULL"
  let ?s = "s\<lparr>hashtable := ?t\<rparr>"
  obtain c h where s': "slab_init os ?s = Some (?s\<lparr>slabclass := table0[1 := c], heap := h\<rparr>)"
    "slabs_wf (?s\<lparr>slabclass := table0[1 := c], heap := h\<rparr>) (init_free (os_mmap os))"
    by (rule slab_init_wf [of ?s os]) (use assms(1-3) in auto)
  let ?s' = "?s\<lparr>slabclass := table0[1 := c], heap := h\<rparr>"
  have wf: "store_wf ?s' (init_free (os_mmap os)) (\<lambda>_. [])"
    using s'(2) by (simp add: store_wf_def)
  have "hashsize hashpower = 65536" by (simp add: hashsize_def hashpower_def)
  then have "cache_init os s = Some ?s'" using s'(1) assms(4) by (simp add: cache_init_def calloc_table_def calloc_ok_def)
  moreover have "cache_abs ?s' = kv_init"
    unfolding cache_abs_store [OF wf] by (auto simp: kv_init_def bucket_map_def entries_def init_free_def)
  ultimately show ?thesis using wf by (auto simp: cache_inv_def)
qed

end
