(* ===== verification/Cache_Runs.thy ===== *)
theory Cache_Runs
  imports Cache_Refine
begin

unbundle bit_operations_syntax

text \<open>
  Sequences of operations on the key-value store. The locale \<open>kv_store\<close> is the contract of a store that
  refines \<open>kv_set\<close>; its lemmas carry whole runs of requests over to the abstract store. On the abstract
  store chunks are conserved, which gives the capacity of the cache: one page of 64-byte chunks.
\<close>

section \<open>Requests and runs\<close>

record set_req =
  rq_key :: cbuf
  rq_nkey :: u32
  rq_value :: cbuf
  rq_nval :: u32

definition do_set :: "set_req \<Rightarrow> 'a cache_state_scheme \<Rightarrow> (u32 \<times> 'a cache_state_scheme) option" where
  "do_set r s = cache_set (rq_key r) (rq_nkey r) (rq_value r) (rq_nval r) s"

definition rq_pair :: "set_req \<Rightarrow> bytes \<times> bytes" where
  "rq_pair r = (buf_bytes (rq_key r) (unat (rq_nkey r)), buf_bytes (rq_value r) (unat (rq_nval r)))"

definition rq_valid :: "set_req \<Rightarrow> bool" where
  "rq_valid r \<longleftrightarrow> set_args (rq_key r) (rq_nkey r) (rq_value r) (rq_nval r) (fst (rq_pair r)) (snd (rq_pair r))"

fun run_all :: "('r \<Rightarrow> 's \<Rightarrow> (u32 \<times> 's) option) \<Rightarrow> 'r list \<Rightarrow> 's \<Rightarrow> (u32 list \<times> 's) option" where
  "run_all f [] s = Some ([], s)"
| "run_all f (r # rs) s = do {
     (c, s) \<leftarrow> f r s;
     (cs, s) \<leftarrow> run_all f rs s;
     Some (c # cs, s)
   }"

fun kv_run :: "(bytes \<times> bytes) list \<Rightarrow> kv \<Rightarrow> bool list \<times> kv" where
  "kv_run [] a = ([], a)"
| "kv_run ((k, v) # ps) a =
     (let (ok, a) = kv_set k v a; (oks, a) = kv_run ps a in (ok # oks, a))"

definition code :: "bool \<Rightarrow> u32" where
  "code ok = (if ok then 0 else - 1)"

section \<open>Conservation of chunks\<close>

definition used_keys :: "kv \<Rightarrow> nat \<Rightarrow> bytes set" where
  "used_keys a i = {k. \<exists>v. kv_map a k = Some v \<and> pair_class k v = i}"

definition kv_wf :: "(nat \<Rightarrow> nat) \<Rightarrow> kv \<Rightarrow> bool" where
  "kv_wf tot a \<longleftrightarrow> finite (dom (kv_map a)) \<and> (\<forall>i. kv_free a i + card (used_keys a i) = tot i)"

lemma used_keys_finite: "finite (dom (kv_map a)) \<Longrightarrow> finite (used_keys a i)"
  by (rule finite_subset [of _ "dom (kv_map a)"]) (auto simp: used_keys_def)

lemma kv_drop_map [simp]: "kv_map (kv_drop k a) = (kv_map a)(k := None)"
  by (auto simp: kv_drop_def split: option.splits)

lemma kv_drop_wf:
  assumes "kv_wf tot a"
  shows "kv_wf tot (kv_drop k a)"
proof (cases "kv_map a k")
  case None
  then show ?thesis using assms by (simp add: kv_drop_def)
next
  case (Some v)
  note fin = used_keys_finite [of a]
  have used: "used_keys (kv_drop k a) i = used_keys a i - (if i = pair_class k v then {k} else {})" for i
    using Some by (auto simp: used_keys_def kv_drop_def split: if_splits)
  have "k \<in> used_keys a (pair_class k v)" using Some by (simp add: used_keys_def)
  moreover have "finite (used_keys a (pair_class k v))" using assms fin by (simp add: kv_wf_def)
  ultimately have "card (used_keys a (pair_class k v)) = Suc (card (used_keys a (pair_class k v) - {k}))"
    by (metis card.remove)
  then have "kv_free (kv_drop k a) i + card (used_keys (kv_drop k a) i) = tot i" for i
    using assms Some unfolding used by (cases "i = pair_class k v") (auto simp: kv_wf_def kv_drop_def dest: spec [of _ i])
  then show ?thesis using assms by (simp add: kv_wf_def)
qed

lemma kv_insert_wf:
  assumes "kv_wf tot a" and "kv_map a k = None"
  shows "kv_wf tot (snd (kv_insert k v a))"
proof (cases "kv_free a (pair_class k v) = 0")
  case True
  then show ?thesis using assms by (simp add: kv_insert_def)
next
  case False
  let ?a = "snd (kv_insert k v a)"
  have used: "used_keys ?a i = used_keys a i \<union> (if i = pair_class k v then {k} else {})" for i
    using False assms(2) by (auto simp: used_keys_def kv_insert_def split: if_splits)
  have "k \<notin> used_keys a i" "finite (used_keys a i)" for i
    using assms used_keys_finite by (auto simp: used_keys_def kv_wf_def)
  then have "kv_free ?a i + card (used_keys ?a i) = tot i" for i
    using assms False unfolding used
    by (cases "i = pair_class k v") (auto simp: kv_wf_def kv_insert_def dest: spec [of _ i])
  then show ?thesis using assms False by (simp add: kv_wf_def kv_insert_def)
qed

lemma kv_set_wf: "kv_wf tot a \<Longrightarrow> kv_wf tot (snd (kv_set k v a))"
  unfolding kv_set_def by (rule kv_insert_wf [OF kv_drop_wf]) simp_all

lemma kv_set_map:
  "kv_map (snd (kv_set k v a)) = (if fst (kv_set k v a) then (kv_map a)(k \<mapsto> v) else (kv_map a)(k := None))"
  by (simp add: kv_set_def kv_insert_def)

text \<open>The chunks of the cache after initialisation: one page of class 1.\<close>

definition pool :: "nat \<Rightarrow> nat" where
  "pool i = (if i = 1 then 524288 else 0)"

lemma kv_wf_init: "kv_wf pool kv_init"
  by (simp add: kv_wf_def kv_init_def pool_def used_keys_def)


lemma pair_class_small: "length k + length v \<le> 30 \<Longrightarrow> pair_class k v = 1"
  unfolding pair_class_def by (intro class_of_eqI) (auto simp: pair_size_def sizeof_item_def)


section \<open>The capacity of the abstract store\<close>

lemma used_keys_sub: "used_keys a i \<subseteq> dom (kv_map a)"
  by (auto simp: used_keys_def)

lemma kv_set_ok:
  assumes wf: "kv_wf pool a" and c: "pair_class k v = 1" and room: "card (insert k (dom (kv_map a))) \<le> 524288"
  shows "fst (kv_set k v a)"
proof -
  let ?a = "kv_drop k a"
  have wf': "kv_wf pool ?a" by (rule kv_drop_wf [OF wf])
  have fin: "finite (dom (kv_map a))" using wf by (simp add: kv_wf_def)
  have "used_keys ?a 1 \<subseteq> dom (kv_map a) - {k}" using used_keys_sub [of ?a 1] by auto
  then have "card (used_keys ?a 1) \<le> card (dom (kv_map a) - {k})" using fin by (intro card_mono) auto
  also have "\<dots> < card (insert k (dom (kv_map a)))" using fin by (simp add: card.insert_remove)
  finally have "card (used_keys ?a 1) < 524288" using room by simp
  then have "kv_free ?a 1 \<noteq> 0"
    using wf' unfolding kv_wf_def pool_def by (metis add_0 less_irrefl)
  then show ?thesis using c by (simp add: kv_set_def kv_insert_def)
qed

lemma kv_set_full:
  assumes wf: "kv_wf pool a" and c: "pair_class k v = 1" and new: "kv_map a k = None"
    and full: "card (used_keys a 1) = 524288"
  shows "kv_set k v a = (False, a)"
proof -
  have "kv_drop k a = a" using new by (simp add: kv_drop_def)
  moreover have "kv_free a 1 = 0" using wf full by (simp add: kv_wf_def pool_def) (metis add_right_cancel add_0)
  ultimately show ?thesis using c by (simp add: kv_set_def kv_insert_def)
qed


lemma kv_run_ok:
  assumes "kv_wf pool a" and "\<And>k v. (k, v) \<in> set ps \<Longrightarrow> pair_class k v = 1"
    and "card (dom (kv_map a) \<union> fst ` set ps) \<le> 524288"
  shows "\<exists>a'. kv_run ps a = (replicate (length ps) True, a') \<and> kv_wf pool a' \<and>
    kv_map a' = kv_map a ++ map_of (rev ps)"
  using assms
proof (induction ps arbitrary: a)
  case Nil
  then show ?case by simp
next
  case (Cons p ps)
  obtain k v where p: "p = (k, v)" by (cases p)
  let ?a = "snd (kv_set k v a)"
  have fin: "finite (dom (kv_map a) \<union> fst ` set (p # ps))" using Cons.prems(1) by (simp add: kv_wf_def)
  have "card (insert k (dom (kv_map a))) \<le> card (dom (kv_map a) \<union> fst ` set (p # ps))"
    using fin p by (intro card_mono) auto
  then have ok: "fst (kv_set k v a)"
    using Cons.prems p by (intro kv_set_ok) auto
  then have m: "kv_map ?a = (kv_map a)(k \<mapsto> v)" by (simp add: kv_set_map)
  have d: "dom (kv_map ?a) \<union> fst ` set ps = dom (kv_map a) \<union> fst ` set (p # ps)"
    using m p by auto
  obtain a' where a': "kv_run ps ?a = (replicate (length ps) True, a')" "kv_wf pool a'"
    "kv_map a' = kv_map ?a ++ map_of (rev ps)"
    using Cons.IH [of ?a] kv_set_wf [OF Cons.prems(1)] Cons.prems(2,3) d by auto
  have "kv_run (p # ps) a = (replicate (length (p # ps)) True, a')"
    using a'(1) ok p by (simp add: split_beta)
  moreover have "kv_map a' = kv_map a ++ map_of (rev (p # ps))"
    using a'(3) m p by (simp add: map_add_assoc)
  ultimately show ?case using a'(2) by blast
qed

section \<open>The contract of a store\<close>

locale kv_store =
  fixes valid :: "'r \<Rightarrow> bool"
    and pair :: "'r \<Rightarrow> bytes \<times> bytes"
    and set_op :: "'r \<Rightarrow> 's \<Rightarrow> (u32 \<times> 's) option"
    and inv :: "'s \<Rightarrow> bool"
    and abs :: "'s \<Rightarrow> kv"
  assumes set_refines: "inv s \<Longrightarrow> valid r \<Longrightarrow> \<exists>s'.
      set_op r s = Some (code (fst (kv_set (fst (pair r)) (snd (pair r)) (abs s))), s') \<and> inv s' \<and>
      abs s' = snd (kv_set (fst (pair r)) (snd (pair r)) (abs s))"
begin

lemma run_refines:
  assumes "inv s" and "\<And>r. r \<in> set rs \<Longrightarrow> valid r"
  shows "\<exists>s'. run_all set_op rs s = Some (map code (fst (kv_run (map pair rs) (abs s))), s') \<and> inv s' \<and>
    abs s' = snd (kv_run (map pair rs) (abs s))"
  using assms
proof (induction rs arbitrary: s)
  case Nil
  then show ?case by simp
next
  case (Cons r rs)
  obtain k v where kv: "pair r = (k, v)" by (cases "pair r")
  obtain s1 where s1: "set_op r s = Some (code (fst (kv_set k v (abs s))), s1)" "inv s1"
    "abs s1 = snd (kv_set k v (abs s))"
    using set_refines [of s r] Cons.prems kv by auto
  from Cons.IH [OF s1(2)] Cons.prems(2) obtain s' where
    "run_all set_op rs s1 = Some (map code (fst (kv_run (map pair rs) (abs s1))), s')" "inv s'"
    "abs s' = snd (kv_run (map pair rs) (abs s1))"
    by auto
  with s1 kv show ?case by (simp add: split_beta)
qed

lemma run_fits:
  assumes "inv s" and "abs s = kv_init" and "\<And>r. r \<in> set rs \<Longrightarrow> valid r"
    and "\<And>r. r \<in> set rs \<Longrightarrow> length (fst (pair r)) + length (snd (pair r)) \<le> 30"
    and "card (fst ` pair ` set rs) \<le> 524288"
  shows "\<exists>s'. run_all set_op rs s = Some (replicate (length rs) 0, s') \<and> inv s' \<and> kv_wf pool (abs s') \<and>
    kv_map (abs s') = map_of (rev (map pair rs))"
proof -
  have "\<exists>a'. kv_run (map pair rs) kv_init = (replicate (length (map pair rs)) True, a') \<and> kv_wf pool a' \<and>
      kv_map a' = kv_map kv_init ++ map_of (rev (map pair rs))"
  proof (rule kv_run_ok [OF kv_wf_init])
    show "pair_class k v = 1" if "(k, v) \<in> set (map pair rs)" for k v
    proof -
      obtain r where "r \<in> set rs" "pair r = (k, v)" using \<open>(k, v) \<in> set (map pair rs)\<close> by auto
      then show ?thesis using assms(4) [of r] by (intro pair_class_small) simp
    qed
  qed (use assms(5) in \<open>simp add: kv_init_def image_image\<close>)
  then obtain a' where "kv_run (map pair rs) kv_init = (replicate (length rs) True, a')" "kv_wf pool a'"
    "kv_map a' = map_of (rev (map pair rs))"
    by (auto simp: kv_init_def)
  then show ?thesis
    using run_refines [of s rs] assms(1-3) by (auto simp: code_def)
qed

end

interpretation ca: kv_store rq_valid rq_pair do_set cache_inv cache_abs
proof
  fix s :: "'a cache_state_scheme" and r
  assume "cache_inv s" "rq_valid r"
  then obtain c s' where c: "do_set r s = Some (c, s')" "cache_inv s'"
    "let (ok, a) = kv_set (fst (rq_pair r)) (snd (rq_pair r)) (cache_abs s) in c = (if ok then 0 else - 1) \<and> cache_abs s' = a"
    using cache_set_refine [of s] unfolding rq_valid_def do_set_def by blast
  then show "\<exists>s'. do_set r s = Some (code (fst (kv_set (fst (rq_pair r)) (snd (rq_pair r)) (cache_abs s))), s') \<and>
      cache_inv s' \<and> cache_abs s' = snd (kv_set (fst (rq_pair r)) (snd (rq_pair r)) (cache_abs s))"
    by (auto simp: code_def)
qed

section \<open>Reachable states\<close>

text \<open>The states of a process that initialises the cache once and then sets keys; a lookup changes nothing.\<close>

inductive reachable :: "os \<Rightarrow> cache_state \<Rightarrow> bool" for os where
  reachable_init: "heap s0 = Map.empty \<Longrightarrow> cache_init os s0 = Some s \<Longrightarrow> reachable os s"
| reachable_set: "reachable os s \<Longrightarrow> rq_valid r \<Longrightarrow> do_set r s = Some (c, s') \<Longrightarrow> reachable os s'"

inductive_cases reachableE: "reachable os s"

text \<open>The pages of the classes are fixed by the initialisation.\<close>

definition pages :: "'a slabs_state_scheme \<Rightarrow> u32 list" where
  "pages s = map slabs (slabclass s)"

lemma pages_upd [simp]:
  "pages (s\<lparr>heap := h\<rparr>) = pages s" "pages (c\<lparr>hashtable := t\<rparr>) = pages c"
  by (simp_all add: pages_def)

named_theorems pages_frame "operations that keep the pages"

lemma upd_item_pages [pages_frame]: "upd_item p f s = Some s' \<Longrightarrow> pages s' = pages s"
  by (auto simp: upd_item_def pages_def split: option.splits)

lemma upd_class_pages: "upd_class c f s = Some s' \<Longrightarrow> slabs (f (slabclass s ! c)) = slabs (slabclass s ! c) \<Longrightarrow> pages s' = pages s"
  by (auto simp: upd_class_def pages_def map_update split: if_splits) (metis list_update_id length_map nth_map)

lemma set_bucket_pages [pages_frame]: "set_bucket b p s = Some s' \<Longrightarrow> pages s' = pages s"
  by (auto simp: set_bucket_def pages_def split: if_splits)

lemma slabs_alloc_pages [pages_frame]: "slabs_alloc n s = Some (p, s') \<Longrightarrow> pages s' = pages s"
  by (auto simp: slabs_alloc_def Let_def bind_eq_Some_conv split: if_splits dest!: pages_frame upd_class_pages)

lemma slabs_free_pages [pages_frame]: "slabs_free p s = Some s' \<Longrightarrow> pages s' = pages s"
  by (auto simp: slabs_free_def Let_def bind_eq_Some_conv split: if_splits dest!: pages_frame upd_class_pages)

lemma item_alloc_pages [pages_frame]: "item_alloc key nkey v nval s = Some (p, s') \<Longrightarrow> pages s' = pages s"
  by (auto simp: item_alloc_def bind_eq_Some_conv split: if_splits dest!: pages_frame)

lemma unlink_here_pages [pages_frame]: "unlink_here b p i s = Some s' \<Longrightarrow> pages s' = pages s"
  by (auto simp: unlink_here_def bind_eq_Some_conv split: if_splits dest!: pages_frame)

lemma item_unlink_loop_pages: "item_unlink_loop key nkey b p s = Some r \<Longrightarrow> pages (snd r) = pages s"
proof (induction rule: item_unlink_loop.raw_induct [rotated, consumes 1, case_names step])
  case (step f key nkey b p s r)
  from step(2) show ?case
    by (auto simp: bind_eq_Some_conv split: if_splits dest: pages_frame intro: step(1))
qed

lemma item_unlink_pages [pages_frame]: "item_unlink key nkey hv s = Some (q, s') \<Longrightarrow> pages s' = pages s"
  by (auto simp: item_unlink_def bind_eq_Some_conv dest!: item_unlink_loop_pages)

lemma link_item_pages [pages_frame]: "link_item b p s = Some (c, s') \<Longrightarrow> pages s' = pages s"
  by (auto simp: link_item_def bind_eq_Some_conv split: if_splits dest!: pages_frame)

lemma cache_set_pages:
  assumes "cache_set key nkey v nval s = Some (c, s')"
  shows "pages s' = pages s"
proof -
  obtain hv it s1 s2 it' s3 where "item_unlink key nkey hv s = Some (it, s1)"
    "(if it \<noteq> NULL then slabs_free it s1 else Some s1) = Some s2" "item_alloc key nkey v nval s2 = Some (it', s3)"
    "(if it' = NULL then Some (- 1, s3) else link_item (bucket_index hv) it' s3) = Some (c, s')"
    using assms unfolding cache_set_link bind_eq_Some_conv case_prod_unfold by (metis prod.collapse)
  then show ?thesis by (auto split: if_splits dest!: pages_frame)
qed

definition init_pages :: "u32 list" where
  "init_pages = (replicate 64 0)[1 := 1]"

lemma cache_init_pages:
  assumes "heap s = Map.empty" and "mmap_ok os" and "realloc_ok os" and "cache_init os s = Some s'"
  shows "pages s' = init_pages"
proof -
  let ?s = "s\<lparr>hashtable := calloc_table os (unat (hashsize hashpower))\<rparr>"
  obtain c h where "slab_init os ?s = Some (?s\<lparr>slabclass := table0[1 := c], heap := h\<rparr>)" "slabs c = 1"
    by (rule slab_init_wf [of ?s os]) (use assms in auto)
  moreover have "map slabs table0 = replicate 64 0" by code_simp
  ultimately show ?thesis
    using assms(4) by (auto simp: cache_init_def pages_def map_update init_pages_def)
qed

text \<open>What holds in every reachable state.\<close>

lemma reachable_inv:
  assumes "reachable os s" and "mmap_ok os" and "realloc_ok os" and "calloc_ok os"
  shows "cache_inv s \<and> kv_wf pool (cache_abs s) \<and> pages s = init_pages"
  using assms(1)
proof induction
  case (reachable_init s0 s)
  then show ?case
    using cache_init_refine [OF reachable_init(1) assms(2-4)] cache_init_pages [OF reachable_init(1) assms(2,3)] kv_wf_init
    by auto
next
  case (reachable_set s r c s')
  from ca.set_refines [OF _ reachable_set(2), of s] reachable_set(3,4)
  have "cache_inv s'" "cache_abs s' = snd (kv_set (fst (rq_pair r)) (snd (rq_pair r)) (cache_abs s))" by auto
  moreover have "pages s' = pages s" using reachable_set(3) cache_set_pages by (auto simp: do_set_def)
  ultimately show ?case using reachable_set(4) kv_set_wf by auto
qed

section \<open>Memory accounting\<close>

lemma fold_add_class:
  "fold (\<lambda>slab storage. if sc_size slab = 0 then storage else storage + class_used slab) cs acc =
     acc + (\<Sum>slab\<leftarrow>cs. if sc_size slab = 0 then 0 else class_used slab)"
  by (induction cs arbitrary: acc) (auto simp: add.assoc)

lemma used_class_1:
  assumes "slabs_wf s F" and "pages s = init_pages" and F: "length (F 1) \<le> 524288" "\<And>i. i \<noteq> 1 \<Longrightarrow> F i = []"
    and i: "i < MAX_NUMBER_OF_SLAB_CLASSES"
  shows "(if sc_size (slabclass s ! i) = 0 then 0 else class_used (slabclass s ! i)) =
    (if i = 1 then of_nat (64 * (524288 - length (F 1))) else 0)"
proof -
  let ?c = "slabclass s ! i"
  note wfD = slabs_wfD [OF assms(1)]
  have "slabs ?c = init_pages ! i" using assms(2) i wfD(1) by (metis nth_map pages_def)
  then have sl: "slabs ?c = (if i = 1 then 1 else 0)" using i by (simp add: init_pages_def const_defs nth_list_update)
  have cur: "sl_curr ?c = of_nat (length (F i))" using wfD(6) [OF i] by (simp add: free_ok_def)
  show ?thesis
  proof (cases "i = 1")
    case True
    have "unat (sc_size ?c) = 64" using wfD(2) i True by (simp add: table_ok_def const_defs)
    then have sz: "sc_size ?c = 64" by (simp add: word_unat_eq_iff)
    have "class_used ?c = 33554432 - of_nat (length (F 1)) * 64"
      using F(1) sl cur sz True by (simp add: class_used_def slab_page_size_def ucast_of_nat_u64)
    also have "\<dots> = of_nat (64 * (524288 - length (F 1)))"
      using F(1) by (simp add: of_nat_diff right_diff_distrib' mult.commute)
    finally show ?thesis using True sz by simp
  next
    case False
    then show ?thesis using F(2) [OF False] sl cur by (simp add: class_used_def)
  qed
qed

lemma pool_dom:
  assumes "kv_wf pool a"
  shows "dom (kv_map a) = used_keys a 1" and "kv_free a 1 + card (dom (kv_map a)) = 524288"
    and "i \<noteq> 1 \<Longrightarrow> kv_free a i = 0"
proof -
  have u: "kv_free a j + card (used_keys a j) = pool j" for j using assms by (simp add: kv_wf_def)
  have "used_keys a j = {}" if "j \<noteq> 1" for j
    using u [of j] that assms used_keys_finite [of a j] by (simp add: pool_def kv_wf_def)
  then show *: "dom (kv_map a) = used_keys a 1" by (fastforce simp: used_keys_def)
  show "kv_free a 1 + card (dom (kv_map a)) = 524288" using u [of 1] unfolding * by (simp add: pool_def)
  show "i \<noteq> 1 \<Longrightarrow> kv_free a i = 0" using u [of i] by (simp add: pool_def)
qed

lemma memory_used_store:
  assumes wf: "store_wf s F B" and pg: "pages s = init_pages" and kv: "kv_wf pool (cache_abs s)"
  shows "slabs_memory_used s = of_nat (64 * card (dom (cache_map s)))"
proof -
  note sl = store_wfD(1) [OF wf]
  let ?u = "of_nat (64 * (524288 - length (F 1))) :: u64"
  let ?f = "\<lambda>slab. if sc_size slab = 0 then 0 else class_used slab"
  have free: "kv_free (cache_abs s) i = length (F i)" for i by (simp add: cache_abs_sel(2) [OF wf])
  have F: "length (F 1) \<le> 524288" "\<And>i. i \<noteq> 1 \<Longrightarrow> F i = []"
    and card: "card (dom (cache_map s)) = 524288 - length (F 1)"
    using pool_dom [OF kv] free by (auto simp: cache_abs_def)
  have len: "length (slabclass s) = 64" using slabs_wfD(1) [OF sl] by (simp add: const_defs)
  have "slabs_memory_used s = (\<Sum>slab\<leftarrow>slabclass s. ?f slab)"
    by (simp add: slabs_memory_used_def fold_add_class)
  also have "\<dots> = (\<Sum>i<(64 :: nat). ?f (slabclass s ! i))"
    using len by (simp add: sum_list_sum_nth atLeast0LessThan)
  also have "\<dots> = (\<Sum>i<(64 :: nat). if i = 1 then ?u else 0)"
    by (rule sum.cong [OF refl], rule used_class_1 [OF sl pg F]) (simp_all add: const_defs)
  also have "\<dots> = ?u" by simp
  finally show ?thesis by (simp add: card)
qed

section \<open>Properties\<close>

text \<open>An empty process image, a state of the store after initialisation, and a small request.\<close>

definition blank_cache :: cache_state where
  "blank_cache = \<lparr>slabclass = [], heap = Map.empty, hashtable = []\<rparr>"

definition demo_req :: "bytes \<Rightarrow> bytes \<Rightarrow> set_req" where
  "demo_req k v = \<lparr>rq_key = mk_buf 0x2000 (k @ [0]), rq_nkey = of_nat (length k), rq_value = mk_buf 0x3000 (v @ [0]), rq_nval = of_nat (length v)\<rparr>"

lemma demo_cache: "\<exists>s. cache_init demo_os blank_cache = Some s \<and> cache_inv s \<and> cache_abs s = kv_init"
  by (rule cache_init_refine) (simp_all add: blank_cache_def demo_os_ok)

text \<open>Initialisation, when the pool can be mapped and the tables can be allocated, returns an empty store over 524288 free chunks of 64
  bytes and establishes the store's invariant.\<close>
theorem cache_init_refines:
  assumes "heap s = Map.empty" and "mmap_ok os" and "realloc_ok os" and "calloc_ok os"
  shows "\<exists>s'. cache_init os s = Some s' \<and> cache_inv s' \<and> cache_abs s' = kv_init"
  by (rule cache_init_refine [OF assms])

theorem cache_init_refines_witness:
  "\<exists>s'. cache_init demo_os blank_cache = Some s' \<and> cache_inv s' \<and> cache_abs s' = kv_init"
  by (rule cache_init_refines) (simp_all add: blank_cache_def demo_os_ok)

text \<open>C2: \<open>cache_set\<close> refines the abstract store: from every state of the invariant and for every pair that some
  chunk size holds it returns, it keeps the invariant, it drops the old pair of the key and returns its
  chunk, and it then inserts the new pair if the pair's size class has a free chunk, returning 0, and
  otherwise returns -1.\<close>
theorem cache_set_refines:
  assumes "cache_inv s" and "set_args key nkey val nval k v"
  shows "\<exists>r s'. cache_set key nkey val nval s = Some (r, s') \<and> cache_inv s' \<and>
    (let (ok, a) = kv_set k v (cache_abs s) in r = (if ok then 0 else - 1) \<and> cache_abs s' = a)"
  by (rule cache_set_refine [OF assms])

theorem cache_set_refines_witness:
  "\<exists>s :: cache_state. cache_inv s \<and> (\<exists>r s'. cache_set (mk_buf 0x2000 [107, 0]) 1 (mk_buf 0x3000 [118, 0]) 1 s = Some (r, s') \<and> cache_inv s' \<and>
    (let (ok, a) = kv_set [107] [118] (cache_abs s) in r = (if ok then 0 else - 1) \<and> cache_abs s' = a))"
proof -
  obtain s :: cache_state where s: "cache_inv s" using demo_cache by blast
  have "set_args (mk_buf 0x2000 [107, 0]) 1 (mk_buf 0x3000 [118, 0]) 1 [107] [118]"
    by (simp add: set_args_def mk_buf_def buf_bytes_def sizeof_item_def)
  from cache_set_refines [OF s this] s show ?thesis by blast
qed

text \<open>C3: \<open>cache_get\<close> refines the abstract lookup: it returns -1 and leaves the buffer alone for an unknown
  key, and otherwise copies as much of the value as the caller has room for, terminates it with a zero
  byte, writes nothing else, and returns the number of bytes copied.\<close>
theorem cache_get_refines:
  assumes "cache_inv s" and "is_key key nkey k" and "0 < unat maxnval" "unat maxnval < 2 ^ 31" "unat maxnval \<le> length out"
  shows "cache_get key nkey out maxnval s = Some (kv_get k (unat maxnval) out (cache_abs s))"
  by (rule cache_get_refine [OF assms])

theorem cache_get_refines_witness:
  "\<exists>s :: cache_state. cache_inv s \<and> cache_get (mk_buf 0x2000 [107, 0]) 1 (replicate 8 0) 8 s = Some (kv_get [107] 8 (replicate 8 0) (cache_abs s))"
proof -
  obtain s :: cache_state where s: "cache_inv s" using demo_cache by blast
  have "is_key (mk_buf 0x2000 [107, 0]) 1 [107]" by (simp add: is_key_def mk_buf_def buf_bytes_def)
  from cache_get_refines [OF s this, of 8 "replicate 8 0"] s show ?thesis by auto
qed

text \<open>C1: round trip: after a \<open>cache_set\<close> that returned 0, \<open>cache_get\<close> of the key returns the value, and
  \<open>cache_get\<close> of any other key returns what it would have returned before.\<close>
theorem set_then_get:
  assumes "cache_inv s" and "set_args key nkey val nval k v" and "cache_set key nkey val nval s = Some (0, s')"
    and "is_key key' nkey' k'" and "0 < unat maxn" "unat maxn < 2 ^ 31" "unat maxn \<le> length out"
  shows "cache_get key' nkey' out maxn s' =
    (if k' = k then let n = min (length v) (unat maxn - 1) in Some (of_nat n, take n v @ 0 # drop (Suc n) out)
     else cache_get key' nkey' out maxn s)"
proof -
  have inv: "cache_inv s'" and abs: "cache_abs s' = snd (kv_set k v (cache_abs s))" and ok: "fst (kv_set k v (cache_abs s))"
    using cache_set_refine [OF assms(1,2)] assms(3) by (auto simp: split_beta Let_def split: if_splits)
  show ?thesis
    using cache_get_refine [OF inv assms(4-7)] cache_get_refine [OF assms(1,4-7)] kv_set_map [of k v "cache_abs s"] ok
    by (auto simp: kv_get_def abs Let_def)
qed

lemma demo_set_args: "set_args (mk_buf 0x2000 [107, 0]) 1 (mk_buf 0x3000 [118, 0]) 1 [107] [118]"
  by (simp add: set_args_def mk_buf_def buf_bytes_def sizeof_item_def)

lemma demo_set: "\<exists>s s' :: cache_state. cache_inv s \<and> cache_set (mk_buf 0x2000 [107, 0]) 1 (mk_buf 0x3000 [118, 0]) 1 s = Some (0, s') \<and>
    cache_inv s' \<and> kv_wf pool (cache_abs s') \<and> kv_map (cache_abs s') [107] = Some [118]"
proof -
  obtain s :: cache_state where s: "cache_inv s" "cache_abs s = kv_init" using demo_cache by blast
  have ok: "fst (kv_set [107] [118] kv_init)"
    by (rule kv_set_ok [OF kv_wf_init]) (simp_all add: pair_class_small kv_init_def)
  from cache_set_refine [OF s(1) demo_set_args] s(2) ok show ?thesis
    using s(1) kv_set_map [of "[107]" "[118]" kv_init] kv_set_wf [OF kv_wf_init, of "[107]" "[118]"]
    by (auto simp: split_beta Let_def)
qed

theorem set_then_get_witness:
  "\<exists>s s' :: cache_state. cache_inv s \<and> cache_set (mk_buf 0x2000 [107, 0]) 1 (mk_buf 0x3000 [118, 0]) 1 s = Some (0, s') \<and>
     cache_get (mk_buf 0x2000 [107, 0]) 1 [7, 7, 7, 7] 4 s' = Some (1, [118, 0, 7, 7])"
proof -
  obtain s s' :: cache_state where s: "cache_inv s"
    "cache_set (mk_buf 0x2000 [107, 0]) 1 (mk_buf 0x3000 [118, 0]) 1 s = Some (0, s')"
    using demo_set by blast
  have "is_key (mk_buf 0x2000 [107, 0]) 1 [107]" by (simp add: is_key_def mk_buf_def buf_bytes_def)
  from set_then_get [OF s(1) demo_set_args s(2) this, of 4 "[7, 7, 7, 7]"] s show ?thesis
    by (auto simp: Let_def)
qed

text \<open>C22: capacity: when its memory can be had, initialisation returns, and after it every sequence of valid requests (their
  buffers hold the key and the value with their terminators) whose pairs take at most 30 bytes and that name at most 524288 different keys succeeds, and the store then maps every
  key to the value set last.\<close>
theorem store_capacity:
  assumes "heap s0 = Map.empty" and "mmap_ok os" and "realloc_ok os" and "calloc_ok os" and "\<forall>r\<in>set rs. rq_valid r"
    and "\<forall>r\<in>set rs. length (fst (rq_pair r)) + length (snd (rq_pair r)) \<le> 30"
    and "card (fst ` rq_pair ` set rs) \<le> 524288"
  shows "\<exists>s s'. cache_init os s0 = Some s \<and> run_all do_set rs s = Some (replicate (length rs) 0, s') \<and> cache_inv s' \<and>
    cache_map s' = map_of (rev (map rq_pair rs))"
proof -
  obtain s where s: "cache_init os s0 = Some s" "cache_inv s" "cache_abs s = kv_init"
    using cache_init_refine [OF assms(1-4)] by blast
  obtain s' where "run_all do_set rs s = Some (replicate (length rs) 0, s')" "cache_inv s'"
    "kv_map (cache_abs s') = map_of (rev (map rq_pair rs))"
    using ca.run_fits [OF s(2,3) _ _ assms(7)] assms(5,6) by blast
  with s(1) show ?thesis by (auto simp: cache_abs_def)
qed

lemma demo_req_valid: "length k + length v \<le> 30 \<Longrightarrow> rq_valid (demo_req k v) \<and> rq_pair (demo_req k v) = (k, v)"
  by (auto simp: demo_req_def rq_valid_def rq_pair_def set_args_def buf_bytes_mk_buf unat_of_nat_less sizeof_item_def)


theorem store_capacity_witness:
  "\<exists>s s' :: cache_state. cache_init demo_os blank_cache = Some s \<and>
     run_all do_set [demo_req [1] [2], demo_req [3] [4], demo_req [1] [5]] s = Some ([0, 0, 0], s') \<and>
     cache_map s' [1] = Some [5] \<and> cache_map s' [3] = Some [4]"
proof -
  have h: "heap blank_cache = Map.empty" by (simp add: blank_cache_def)
  have v: "\<forall>r\<in>set [demo_req [1] [2], demo_req [3] [4], demo_req [1] [5]]. rq_valid r"
    "\<forall>r\<in>set [demo_req [1] [2], demo_req [3] [4], demo_req [1] [5]]. length (fst (rq_pair r)) + length (snd (rq_pair r)) \<le> 30"
    using demo_req_valid [of "[1]" "[2]"] demo_req_valid [of "[3]" "[4]"] demo_req_valid [of "[1]" "[5]"] by auto
  have "card (fst ` rq_pair ` set [demo_req [1] [2], demo_req [3] [4], demo_req [1] [5]]) \<le> 3"
    by (rule order_trans [OF card_image_le]) (simp_all add: order_trans [OF card_image_le] card_insert_if)
  then have "card (fst ` rq_pair ` set [demo_req [1] [2], demo_req [3] [4], demo_req [1] [5]]) \<le> 524288" by simp
  from store_capacity [OF h demo_os_ok v this] show ?thesis
    using demo_req_valid [of "[1]" "[2]"] demo_req_valid [of "[3]" "[4]"] demo_req_valid [of "[1]" "[5]"]
    by (auto simp: eval_nat_numeral)
qed

text \<open>When all 524288 chunks are taken, setting a new key with a small pair returns -1 and leaves the
  contents of the store as they are.\<close>
theorem full_store_refuses:
  assumes "cache_inv s" and "kv_wf pool (cache_abs s)" and "set_args key nkey val nval k v"
    and "cache_map s k = None" and "kv_free (cache_abs s) 1 = 0" and "length k + length v \<le> 30"
  shows "\<exists>s'. cache_set key nkey val nval s = Some (- 1, s') \<and> cache_inv s' \<and> cache_abs s' = cache_abs s"
proof -
  have "kv_map (cache_abs s) k = None" using assms(4) by (simp add: cache_abs_def)
  then have "kv_set k v (cache_abs s) = (False, cache_abs s)"
    using assms(5,6) by (simp add: kv_set_def kv_drop_def kv_insert_def pair_class_small)
  with cache_set_refine [OF assms(1,3)] show ?thesis by auto
qed

text \<open>A full store: 524288 pairs with different keys of three bytes.\<close>

definition three_bytes :: "nat \<Rightarrow> bytes" where
  "three_bytes i = [of_nat i, of_nat (i div 256), of_nat (i div 65536)]"

lemma three_bytes_inj: "inj_on three_bytes {..<524288}"
proof (rule inj_onI)
  fix i j :: nat assume ij: "i \<in> {..<524288}" "j \<in> {..<524288}" and eq: "three_bytes i = three_bytes j"
  have "take_bit 8 i = take_bit 8 j" "take_bit 8 (i div 256) = take_bit 8 (j div 256)" "take_bit 8 (i div 65536) = take_bit 8 (j div 65536)"
    using eq by (simp_all add: three_bytes_def word_of_nat_eq_iff)
  moreover have "n = take_bit 8 n + 256 * take_bit 8 (n div 256) + 65536 * take_bit 8 (n div 65536)" if "n < 524288" for n :: nat
  proof -
    have "n div 256 div 256 = n div 65536" by (simp add: div_mult2_eq [symmetric])
    moreover have "n div 65536 mod 256 = n div 65536" using that by (intro mod_less) (simp add: less_mult_imp_div_less)
    ultimately have "256 * (n div 65536) + n div 256 mod 256 = n div 256" "n = 256 * (n div 256) + n mod 256"
      using mult_div_mod_eq [of 256 "n div 256"] by simp_all
    then have "n = n mod 256 + 256 * (n div 256 mod 256) + 65536 * (n div 65536)" by linarith
    then show ?thesis using \<open>n div 65536 mod 256 = n div 65536\<close> by (simp only: take_bit_eq_mod) simp
  qed
  ultimately show "i = j" using ij by (metis lessThan_iff)
qed

lemma demo_full: "\<exists>s :: cache_state. cache_inv s \<and> kv_wf pool (cache_abs s) \<and> kv_free (cache_abs s) 1 = 0 \<and> cache_map s [1] = None"
proof -
  obtain s :: cache_state where s: "cache_inv s" "cache_abs s = kv_init" using demo_cache by blast
  let ?rs = "map (\<lambda>i. demo_req (three_bytes i) [1]) [0..<524288]"
  have d: "rq_valid (demo_req (three_bytes i) [1]) \<and> rq_pair (demo_req (three_bytes i) [1]) = (three_bytes i, [1])" for i
    by (rule demo_req_valid) (simp add: three_bytes_def)
  have keys: "fst ` rq_pair ` set ?rs = three_bytes ` {..<524288}"
    using d by (auto simp: image_image atLeast0LessThan)
  have card: "card (three_bytes ` {..<524288}) = 524288" using three_bytes_inj by (simp add: card_image)
  have "\<And>r. r \<in> set ?rs \<Longrightarrow> rq_valid r" "\<And>r. r \<in> set ?rs \<Longrightarrow> length (fst (rq_pair r)) + length (snd (rq_pair r)) \<le> 30"
    using d by (auto simp: three_bytes_def)
  moreover have "card (fst ` rq_pair ` set ?rs) \<le> 524288" unfolding keys card by simp
  ultimately obtain s' :: cache_state where s': "cache_inv s'" "kv_wf pool (cache_abs s')"
    "kv_map (cache_abs s') = map_of (rev (map rq_pair ?rs))" using ca.run_fits [OF s, of ?rs] by metis
  have dom: "dom (kv_map (cache_abs s')) = three_bytes ` {..<524288}"
    unfolding s'(3) dom_map_of_conv_image_fst set_rev set_map using keys by simp
  then have "kv_free (cache_abs s') 1 = 0" using pool_dom(2) [OF s'(2)] card by simp
  moreover have "kv_map (cache_abs s') [1] = None" using dom by (auto simp: domIff three_bytes_def)
  ultimately show ?thesis using s'(1,2) by (auto simp: cache_abs_def)
qed

theorem full_store_refuses_witness:
  "\<exists>s s' :: cache_state. cache_map s [1] = None \<and> cache_set (mk_buf 0x2000 [1, 0]) 1 (mk_buf 0x3000 [118, 0]) 1 s = Some (- 1, s') \<and>
     cache_inv s' \<and> cache_abs s' = cache_abs s"
proof -
  obtain s :: cache_state where s: "cache_inv s" "kv_wf pool (cache_abs s)" "kv_free (cache_abs s) 1 = 0" "cache_map s [1] = None"
    using demo_full by blast
  have "set_args (mk_buf 0x2000 [1, 0]) 1 (mk_buf 0x3000 [118, 0]) 1 [1] [118]"
    by (simp add: set_args_def mk_buf_def buf_bytes_def sizeof_item_def)
  from full_store_refuses [OF s(1,2) this s(4,3)] s(4) show ?thesis by auto
qed



text \<open>C4: in every state that initialisation, with the memory that it asks for, and valid requests can reach, the invariant holds, free chunks and
  stored pairs add up to the pool, and \<open>slabs_memory_used\<close> reports 64 bytes per stored pair.\<close>
theorem reachable_accounting:
  assumes "reachable os s" and "mmap_ok os" and "realloc_ok os" and "calloc_ok os"
  shows "cache_inv s \<and> card (dom (cache_map s)) + unat (sl_curr (slabclass s ! 1)) = 524288 \<and>
    slabs_memory_used s = of_nat (64 * card (dom (cache_map s)))"
proof -
  have r: "cache_inv s" "kv_wf pool (cache_abs s)" "pages s = init_pages" using reachable_inv [OF assms] by auto
  obtain F B where wf: "store_wf s F B" using r(1) by (auto simp: cache_inv_def)
  have "card (dom (cache_map s)) + unat (sl_curr (slabclass s ! 1)) = 524288"
    using pool_dom(2) [OF r(2)] by (simp add: cache_abs_def num_classes_def add.commute)
  with r(1) memory_used_store [OF wf r(3,2)] show ?thesis by simp
qed

theorem reachable_accounting_witness:
  "\<exists>s. reachable demo_os s \<and> cache_inv s \<and> card (dom (cache_map s)) + unat (sl_curr (slabclass s ! 1)) = 524288 \<and>
    slabs_memory_used s = of_nat (64 * card (dom (cache_map s)))"
proof -
  obtain s where "cache_init demo_os blank_cache = Some s" using demo_cache by blast
  then have "reachable demo_os s" by (rule reachable_init [rotated]) (simp add: blank_cache_def)
  with reachable_accounting [OF this demo_os_ok] show ?thesis by blast
qed

end
