(* ===== verification/Cache_Dump.thy ===== *)
theory Cache_Dump
  imports Cache_Runs
begin

unbundle bit_operations_syntax

text \<open>
  \<^verbatim>\<open>dump_cache\<close> of \<^verbatim>\<open>src/src/cache.c\<close>: what it writes to standard output, as a list of bytes. A \<^verbatim>\<open>%s\<close>
  conversion reads up to a zero byte and a \<^verbatim>\<open>%.3s\<close> conversion at most three bytes; running out of the
  chunk first is undefined, hence \<open>None\<close>.
\<close>

section \<open>Formatted output\<close>

definition ascii :: "string \<Rightarrow> bytes" where
  "ascii xs = map of_char xs"

definition c_str :: "int \<Rightarrow> bytes \<Rightarrow> bytes option" where
  "c_str off data =
     (if 0 \<le> off \<and> 0 \<in> set (drop (nat off) data) then Some (takeWhile (\<lambda>c. c \<noteq> 0) (drop (nat off) data))
      else None)"

definition c_str_max :: "nat \<Rightarrow> int \<Rightarrow> bytes \<Rightarrow> bytes option" where
  "c_str_max n off data =
     (if 0 \<le> off \<and> (n \<le> length (drop (nat off) data) \<or> 0 \<in> set (drop (nat off) data))
      then Some (takeWhile (\<lambda>c. c \<noteq> 0) (take n (drop (nat off) data)))
      else None)"

fun decimal :: "nat \<Rightarrow> bytes" where
  "decimal n = (if n < 10 then [of_nat (48 + n)] else decimal (n div 10) @ [of_nat (48 + n mod 10)])"

declare decimal.simps [simp del]

section \<open>The dump\<close>

partial_function (option) dump_bucket :: "heap \<Rightarrow> ptr \<Rightarrow> u64 \<Rightarrow> bytes \<Rightarrow> (u64 \<times> bytes) option" where
  "dump_bucket h it storage out =
     (if it = NULL then Some (storage, out)
      else do {
        i \<leftarrow> h it;
        k \<leftarrow> c_str 0 (it_data i);
        v \<leftarrow> c_str_max 3 (ITEM_val_off i) (it_data i);
        dump_bucket h (it_next i) (storage + ITEM_ntotal (it_nkey i) (it_nbytes i))
          (out @ k @ ascii '' = '' @ v @ (if it_next i \<noteq> NULL then ascii '', '' else []))
      })"

fun dump_buckets :: "nat list \<Rightarrow> 'a cache_state_scheme \<Rightarrow> u64 \<Rightarrow> bytes \<Rightarrow> (u64 \<times> bytes) option" where
  "dump_buckets [] s storage out = Some (storage, out)"
| "dump_buckets (i # is) s storage out = do {
     it \<leftarrow> get_bucket i s;
     (storage, out) \<leftarrow> dump_bucket (heap s) it storage out;
     dump_buckets is s storage (if it \<noteq> NULL then out @ [10] else out)
   }"

definition dump_cache :: "'a cache_state_scheme \<Rightarrow> bytes option" where
  "dump_cache s = do {
     (storage, out) \<leftarrow> dump_buckets [0..<unat (hashsize hashpower)] s 0 [];
     Some (out @ ascii ''Used '' @ decimal (unat (slabs_memory_used s)) @ ascii '' bytes'' @ [10])
   }"

section \<open>What it prints\<close>

text \<open>One entry, one bucket, and the whole table, in terms of the stored keys and values.\<close>

definition show_entry :: "bytes \<times> bytes \<Rightarrow> bytes" where
  "show_entry kv = takeWhile (\<lambda>c. c \<noteq> 0) (fst kv) @ ascii '' = '' @ takeWhile (\<lambda>c. c \<noteq> 0) (take 3 (snd kv))"

fun show_line :: "(bytes \<times> bytes) list \<Rightarrow> bytes" where
  "show_line [] = []"
| "show_line [e] = show_entry e @ [10]"
| "show_line (e # es) = show_entry e @ ascii '', '' @ show_line es"

definition bucket_entries :: "'a cache_state_scheme \<Rightarrow> nat \<Rightarrow> (bytes \<times> bytes) list" where
  "bucket_entries s b = (case chain_ptrs (heap s) (hashtable s ! b) of
     None \<Rightarrow> [] | Some ps \<Rightarrow> map (\<lambda>p. (key_at (heap s) p, value_at (heap s) p)) ps)"

text \<open>The terminators that \<open>item_alloc\<close> copies from the caller's buffers.\<close>

definition terminated :: "item \<Rightarrow> bool" where
  "terminated it \<longleftrightarrow> it_data it ! unat (it_nkey it) = 0 \<and> it_data it ! (unat (it_nkey it) + 1 + unat (it_nbytes it)) = 0"

lemma terminated_data:
  assumes "item_fits it" and "terminated it"
  obtains xs where "it_data it = item_key it @ 0 # item_value it @ 0 # xs"
proof -
  let ?k = "unat (it_nkey it)" and ?n = "unat (it_nbytes it)"
  have "it_data it = take ?k (it_data it) @ it_data it ! ?k # drop (Suc ?k) (it_data it)"
    using assms(1) by (intro id_take_nth_drop) (simp add: item_fits_def)
  moreover have "drop (Suc ?k) (it_data it) =
      take ?n (drop (Suc ?k) (it_data it)) @ drop (Suc ?k) (it_data it) ! ?n # drop (Suc ?n) (drop (Suc ?k) (it_data it))"
    using assms(1) by (intro id_take_nth_drop) (simp add: item_fits_def)
  moreover have "drop (Suc ?k) (it_data it) ! ?n = 0"
    using assms by (simp add: item_fits_def terminated_def)
  ultimately show ?thesis
    using assms(2) that [of "drop (Suc ?n) (drop (Suc ?k) (it_data it))"]
    by (simp add: item_key_def item_value_def terminated_def)
qed

lemma takeWhile_take_append:
  "takeWhile P (take n (xs @ y # ys)) = takeWhile P (take n xs)" if "\<not> P y"
proof (induction xs arbitrary: n)
  case Nil
  then show ?case using that by (cases n) simp_all
next
  case (Cons x xs)
  then show ?case by (cases n) simp_all
qed

lemma entry_strings:
  assumes "item_fits it" and "terminated it" and "unat (it_nkey it) < 2 ^ 31"
  shows "c_str 0 (it_data it) = Some (takeWhile (\<lambda>c. c \<noteq> 0) (item_key it))"
    and "c_str_max 3 (ITEM_val_off it) (it_data it) = Some (takeWhile (\<lambda>c. c \<noteq> 0) (take 3 (item_value it)))"
proof -
  obtain xs where xs: "it_data it = item_key it @ 0 # item_value it @ 0 # xs"
    by (rule terminated_data [OF assms(1,2)])
  have len: "length (item_key it) = unat (it_nkey it)" using assms(1) by (simp add: item_key_def item_fits_def)
  have off: "nat (ITEM_val_off it) = Suc (length (item_key it))" "0 \<le> ITEM_val_off it"
    using assms(3) len by (simp_all add: ITEM_val_off_def sint_small nat_add_distrib)
  show "c_str 0 (it_data it) = Some (takeWhile (\<lambda>c. c \<noteq> 0) (item_key it))"
    unfolding xs by (simp add: c_str_def takeWhile_tail)
  have "drop (nat (ITEM_val_off it)) (it_data it) = item_value it @ 0 # xs"
    unfolding off(1) by (subst xs) simp
  then show "c_str_max 3 (ITEM_val_off it) (it_data it) = Some (takeWhile (\<lambda>c. c \<noteq> 0) (take 3 (item_value it)))"
    using off(2) takeWhile_take_append [of "\<lambda>c. c \<noteq> 0" 0 3 "item_value it" xs] by (simp add: c_str_max_def)
qed

lemma show_entry_nonempty [simp]: "show_entry e \<noteq> []"
  by (simp add: show_entry_def ascii_def)

lemma show_line_nonempty: "es \<noteq> [] \<Longrightarrow> show_line es \<noteq> []"
  by (induction es rule: show_line.induct) auto

lemma dump_bucket_line:
  assumes "chain h p ps" and "\<And>q i. q \<in> set ps \<Longrightarrow> h q = Some i \<Longrightarrow> item_fits i \<and> terminated i \<and> unat (it_nkey i) < 2 ^ 31"
  shows "\<exists>st. dump_bucket h p storage out = Some (st, out @ butlast (show_line (map (\<lambda>q. (key_at h q, value_at h q)) ps)))"
  using assms
proof (induction ps arbitrary: p storage out)
  case Nil
  then show ?case by (simp add: dump_bucket.simps)
next
  case (Cons q qs)
  then obtain i where i: "p = q" "q \<noteq> NULL" "h q = Some i" "chain h (it_next i) qs"
    by (auto split: option.splits)
  have ok: "item_fits i" "terminated i" "unat (it_nkey i) < 2 ^ 31" using Cons.prems(2) [of q i] i by auto
  have nx: "it_next i = NULL \<longleftrightarrow> qs = []" using i(4) by (cases qs) auto
  let ?e = "(key_at h q, value_at h q)" and ?es = "map (\<lambda>q. (key_at h q, value_at h q)) qs"
  let ?out = "out @ show_entry ?e @ (if qs \<noteq> [] then ascii '', '' else [])"
  have "dump_bucket h p storage out =
      dump_bucket h (it_next i) (storage + ITEM_ntotal (it_nkey i) (it_nbytes i)) ?out"
    using i entry_strings [OF ok] nx
    by (subst dump_bucket.simps) (simp add: show_entry_def key_at_def value_at_def)
  moreover obtain st where "dump_bucket h (it_next i) (storage + ITEM_ntotal (it_nkey i) (it_nbytes i)) ?out =
      Some (st, ?out @ butlast (show_line ?es))"
    using Cons.IH [OF i(4), of "storage + ITEM_ntotal (it_nkey i) (it_nbytes i)" ?out] Cons.prems(2) by auto
  moreover have "show_line (?e # ?es) = (show_entry ?e @ (if qs \<noteq> [] then ascii '', '' else [])) @ (if qs = [] then [10] else show_line ?es)"
    by (cases qs) simp_all
  moreover have "qs \<noteq> [] \<Longrightarrow> show_line ?es \<noteq> []" by (rule show_line_nonempty) simp
  ultimately show ?case by (simp add: butlast_append)
qed

lemma show_line_last: "es \<noteq> [] \<Longrightarrow> butlast (show_line es) @ [10] = show_line es"
proof (induction es rule: show_line.induct)
  case (3 e e' es)
  moreover have "show_line (e' # es) \<noteq> []" by (rule show_line_nonempty) simp
  ultimately show ?case by (simp add: butlast_append)
qed auto

lemma dump_buckets_lines:
  assumes wf: "store_wf s F B" and t: "\<And>b p i. p \<in> set (B b) \<Longrightarrow> heap s p = Some i \<Longrightarrow> terminated i"
    and "\<And>b. b \<in> set bs \<Longrightarrow> b < 65536"
  shows "\<exists>st. dump_buckets bs s storage out = Some (st, out @ concat (map (\<lambda>b. show_line (bucket_entries s b)) bs))"
  using assms(3)
proof (induction bs arbitrary: storage out)
  case Nil
  then show ?case by simp
next
  case (Cons b bs)
  let ?p = "hashtable s ! b" and ?l = "show_line (bucket_entries s b)"
  have b: "b < 65536" using Cons.prems by simp
  have ch: "chain (heap s) ?p (B b)" by (rule dchain_chain [OF store_wfD(3) [OF wf b]])
  have e: "bucket_entries s b = map (\<lambda>p. (key_at (heap s) p, value_at (heap s) p)) (B b)"
    using chain_ptrs_chain [OF ch] by (simp add: bucket_entries_def)
  obtain st where st: "dump_bucket (heap s) ?p storage out = Some (st, out @ butlast ?l)"
    using dump_bucket_line [OF ch, of storage out] stored_fits [OF wf] t item_small(1) [OF wf] unfolding e by fastforce
  have "(if ?p \<noteq> NULL then (out @ butlast ?l) @ [10] else out @ butlast ?l) = out @ ?l"
    using ch show_line_last [of "bucket_entries s b"] e by (cases "B b") auto
  then have "dump_buckets (b # bs) s storage out = dump_buckets bs s st (out @ ?l)"
    using st b store_wfD(2) [OF wf] by (simp add: get_bucket_def)
  with Cons.IH [of st "out @ ?l"] Cons.prems show ?case by simp
qed

lemma dump_cache_store:
  assumes wf: "store_wf s F B" and t: "\<And>b p i. p \<in> set (B b) \<Longrightarrow> heap s p = Some i \<Longrightarrow> terminated i"
  shows "dump_cache s = Some (concat (map (\<lambda>b. show_line (bucket_entries s b)) [0..<65536]) @
    ascii ''Used '' @ decimal (unat (slabs_memory_used s)) @ ascii '' bytes'' @ [10])"
proof -
  have "unat (hashsize hashpower) = 65536" by (simp add: hashsize_def hashpower_def)
  moreover obtain st where "dump_buckets [0..<65536] s 0 [] =
      Some (st, [] @ concat (map (\<lambda>b. show_line (bucket_entries s b)) [0..<65536]))"
    using dump_buckets_lines [OF wf, of "[0..<65536]" 0 "[]"] t by fastforce
  ultimately show ?thesis by (simp add: dump_cache_def del: upt_rec_numeral)
qed

section \<open>Properties\<close>

lemma demo_empty: "\<exists>(s :: cache_state) F B. store_wf s F B \<and> (\<forall>b. B b = [])"
proof -
  obtain s :: cache_state where s: "cache_inv s" "cache_abs s = kv_init" using demo_cache by blast
  then obtain F B where wf: "store_wf s F B" by (auto simp: cache_inv_def)
  have "bucket_map (heap s) B k = None" for k
    using fun_cong [OF cache_abs_sel(1) [OF wf], of k] by (simp add: s(2) kv_init_def)
  then have none: "p \<notin> set (B (bucket_of (key_at (heap s) p)))" for p by (auto simp: bucket_map_def entries_None)
  have "p \<notin> set (B b)" for p b
  proof
    assume p: "p \<in> set (B b)"
    from storedD(2) [OF store_wfD(4) [OF wf p]] p none [of p] show False by simp
  qed
  then have "B b = []" for b by (metis ex_in_conv set_empty)
  with wf show ?thesis by blast
qed

text \<open>\<open>dump_cache\<close> prints one line per non-empty bucket with the stored pairs of the bucket, keys whole and
  values cut to three characters, and then the number of bytes in use, when the keys and values were
  stored with their terminators.\<close>
theorem dump_cache_prints:
  assumes "store_wf s F B" and "\<forall>b. \<forall>p\<in>set (B b). \<forall>i. heap s p = Some i \<longrightarrow> terminated i"
  shows "dump_cache s = Some (concat (map (\<lambda>b. show_line (bucket_entries s b)) [0..<65536]) @
    ascii ''Used '' @ decimal (unat (slabs_memory_used s)) @ ascii '' bytes'' @ [10])"
  using dump_cache_store [OF assms(1)] assms(2) by blast

theorem dump_cache_prints_witness:
  "\<exists>(s :: cache_state) F B. store_wf s F B \<and>
    dump_cache s = Some (concat (map (\<lambda>b. show_line (bucket_entries s b)) [0..<65536]) @
      ascii ''Used '' @ decimal (unat (slabs_memory_used s)) @ ascii '' bytes'' @ [10])"
proof -
  obtain s :: cache_state and F B where s: "store_wf s F B" "\<forall>b. B b = []" using demo_empty by blast
  from dump_cache_prints [OF s(1)] s show ?thesis by fastforce
qed

end
