(* ===== verification/Tlbcache.thy ===== *)
theory Tlbcache
  imports Prelude
begin

unbundle bit_operations_syntax

text \<open>
  The TLB and cache simulator, \<^verbatim>\<open>src/tracing/tlbcache.c\<close>, \<^verbatim>\<open>tlbcache.h\<close>, \<^verbatim>\<open>util.h\<close> and \<^verbatim>\<open>config.h\<close>.
  A \<^verbatim>\<open>cache_t\<close> is passed by value but its \<^verbatim>\<open>array\<close> is shared, so the arrays live in a store of the
  state and a \<^verbatim>\<open>cache_t\<close> names one of them. \<open>None\<close> is a failed \<^verbatim>\<open>assert\<close>, an access outside an array,
  or a loop that does not end.
\<close>

section \<open>Configuration\<close>

definition CACHE_LINE_BITS :: nat where "CACHE_LINE_BITS = 6"
definition ARCH_PAGE_BITS :: nat where "ARCH_PAGE_BITS = 12"
definition CACHE_INCLUSIVE :: bool where "CACHE_INCLUSIVE = False"

definition L1_I_TLB_SIZE :: nat where "L1_I_TLB_SIZE = 64"
definition L1_I_TLB_ASSOC :: nat where "L1_I_TLB_ASSOC = 64"
definition L1_I_TLB_SETS :: nat where "L1_I_TLB_SETS = L1_I_TLB_SIZE div L1_I_TLB_ASSOC"
definition L1_D_TLB_SIZE :: nat where "L1_D_TLB_SIZE = 64"
definition L1_D_TLB_ASSOC :: nat where "L1_D_TLB_ASSOC = 64"
definition L1_D_TLB_SETS :: nat where "L1_D_TLB_SETS = L1_D_TLB_SIZE div L1_D_TLB_ASSOC"
definition L2_TLB_SIZE :: nat where "L2_TLB_SIZE = 1024"
definition L2_TLB_ASSOC :: nat where "L2_TLB_ASSOC = 4"
definition L2_TLB_SETS :: nat where "L2_TLB_SETS = L2_TLB_SIZE div L2_TLB_ASSOC"

definition L1_D_SIZE :: nat where "L1_D_SIZE = 32 * 1024"
definition L1_D_ASSOC :: nat where "L1_D_ASSOC = 8"
definition L1_D_SETS :: nat where "L1_D_SETS = drop_bit CACHE_LINE_BITS L1_D_SIZE div L1_D_ASSOC"
definition L1_I_SIZE :: nat where "L1_I_SIZE = 32 * 1024"
definition L1_I_ASSOC :: nat where "L1_I_ASSOC = 8"
definition L1_I_SETS :: nat where "L1_I_SETS = drop_bit CACHE_LINE_BITS L1_I_SIZE div L1_I_ASSOC"
definition LLC_SIZE :: nat where "LLC_SIZE = 16 * 1024 * 1024"
definition LLC_ASSOC :: nat where "LLC_ASSOC = 16"
definition LLC_SETS :: nat where "LLC_SETS = drop_bit CACHE_LINE_BITS LLC_SIZE div LLC_ASSOC"

lemmas config_defs =
  CACHE_LINE_BITS_def ARCH_PAGE_BITS_def L1_I_TLB_SIZE_def L1_I_TLB_ASSOC_def L1_I_TLB_SETS_def
  L1_D_TLB_SIZE_def L1_D_TLB_ASSOC_def L1_D_TLB_SETS_def L2_TLB_SIZE_def L2_TLB_ASSOC_def L2_TLB_SETS_def
  L1_D_SIZE_def L1_D_ASSOC_def L1_D_SETS_def L1_I_SIZE_def L1_I_ASSOC_def L1_I_SETS_def
  LLC_SIZE_def LLC_ASSOC_def LLC_SETS_def

section \<open>Data\<close>

datatype array_id = array_l1itlb | array_l1dtlb | array_l2stlb | array_l1i | array_l1d | array_llc

record access_t =
  acc_addr :: u64
  acc_size :: u64

datatype access_type = INST_ACCESS | DATA_ACCESS

record cache_t =
  setmask :: u64
  sets :: u32
  assoc :: u32
  tagshift :: u32
  array :: array_id

record sim =
  arrays :: "array_id \<Rightarrow> u64 list"
  l1itlb :: cache_t
  l1dtlb :: cache_t
  l2stlb :: cache_t
  l1i :: cache_t
  l1d :: cache_t
  llc :: cache_t
  l1i_tlb_misses :: u64
  l1d_tlb_misses :: u64
  l2_stlb_misses :: u64
  l1i_misses :: u64
  l1d_misses :: u64
  llc_misses :: u64
  user_insts :: u64
  kern_insts :: u64
  inst_counter :: u64
  data_counter :: u64
  instrumentation_enable :: bool
  warmup :: bool

section \<open>Helpers\<close>

partial_function (option) vallog2_loop :: "u64 \<Rightarrow> u8 \<Rightarrow> u8 option" where
  "vallog2_loop val logval =
     (if val AND 1 \<noteq> 0 then Some logval else vallog2_loop (drop_bit 1 val) (logval + 1))"

definition vallog2 :: "u64 \<Rightarrow> u8 option" where
  "vallog2 val = vallog2_loop val 0"

definition mixpageasid :: "u64 \<Rightarrow> u16 \<Rightarrow> u64 option" where
  "mixpageasid pageno asid =
     (let top16bits = drop_bit 48 (pageno AND push_bit 48 0xffff) in
      if top16bits = 0 \<or> top16bits = 0xffff then Some (push_bit 48 (ucast asid) OR pageno) else None)"

definition account_inst :: "sim \<Rightarrow> sim" where
  "account_inst s =
     (if \<not> instrumentation_enable s then s else if warmup s then s else s\<lparr>inst_counter := inst_counter s + 1\<rparr>)"

definition account_data :: "sim \<Rightarrow> sim" where
  "account_data s =
     (if \<not> instrumentation_enable s then s else if warmup s then s else s\<lparr>data_counter := data_counter s + 1\<rparr>)"

text \<open>The seven numbers that \<^verbatim>\<open>account_final\<close> prints, in order.\<close>

definition account_final :: "sim \<Rightarrow> u64 list" where
  "account_final s = [data_counter s, l1i_tlb_misses s, l1d_tlb_misses s, l2_stlb_misses s,
     l1i_misses s, l1d_misses s, llc_misses s]"

section \<open>Initialisation\<close>

definition mk_cache :: "nat \<Rightarrow> nat \<Rightarrow> array_id \<Rightarrow> cache_t option" where
  "mk_cache n_sets n_assoc arr = do {
     sh \<leftarrow> vallog2 (of_nat n_sets);
     Some \<lparr>setmask = of_nat n_sets - 1, sets = of_nat n_sets, assoc = of_nat n_assoc, tagshift = ucast sh, array = arr\<rparr>
   }"

definition zeroed :: "array_id \<Rightarrow> u64 list" where
  "zeroed a = (case a of
     array_l1itlb \<Rightarrow> replicate L1_I_TLB_SIZE 0
   | array_l1dtlb \<Rightarrow> replicate L1_D_TLB_SIZE 0
   | array_l2stlb \<Rightarrow> replicate L2_TLB_SIZE 0
   | array_l1i \<Rightarrow> replicate (drop_bit CACHE_LINE_BITS L1_I_SIZE) 0
   | array_l1d \<Rightarrow> replicate (drop_bit CACHE_LINE_BITS L1_D_SIZE) 0
   | array_llc \<Rightarrow> replicate (drop_bit CACHE_LINE_BITS LLC_SIZE) 0)"

definition init_tlbcache :: "sim \<Rightarrow> sim option" where
  "init_tlbcache s = do {
     c1 \<leftarrow> mk_cache L1_I_TLB_SETS L1_I_TLB_ASSOC array_l1itlb;
     c2 \<leftarrow> mk_cache L1_D_TLB_SETS L1_D_TLB_ASSOC array_l1dtlb;
     c3 \<leftarrow> mk_cache L2_TLB_SETS L2_TLB_ASSOC array_l2stlb;
     c4 \<leftarrow> mk_cache L1_I_SETS L1_I_ASSOC array_l1i;
     c5 \<leftarrow> mk_cache L1_D_SETS L1_D_ASSOC array_l1d;
     c6 \<leftarrow> mk_cache LLC_SETS LLC_ASSOC array_llc;
     Some (s\<lparr>l1itlb := c1, l1dtlb := c2, l2stlb := c3, l1i := c4, l1d := c5, llc := c6, arrays := zeroed,
            user_insts := 0, kern_insts := 0, instrumentation_enable := False, warmup := False\<rparr>)
   }"

section \<open>Cache operations\<close>

text \<open>Element \<open>idx\<close> of \<^verbatim>\<open>cache_set = cache.array + (cache.assoc * set)\<close>.\<close>

definition set_base :: "cache_t \<Rightarrow> u64 \<Rightarrow> nat" where
  "set_base c st = unat (ucast (assoc c) * st)"

definition rd :: "u64 list \<Rightarrow> nat \<Rightarrow> u64 option" where
  "rd xs i = (if i < length xs then Some (xs ! i) else None)"

definition wr :: "u64 list \<Rightarrow> nat \<Rightarrow> u64 \<Rightarrow> u64 list option" where
  "wr xs i v = (if i < length xs then Some (xs[i := v]) else None)"

text \<open>The search: the first index that holds the tag, or the associativity. \<open>n\<close> counts what is left.\<close>

fun find_idx :: "nat \<Rightarrow> u64 list \<Rightarrow> nat \<Rightarrow> nat \<Rightarrow> u64 \<Rightarrow> nat option" where
  "find_idx 0 xs base idx tag = Some idx"
| "find_idx (Suc n) xs base idx tag = do {
     v \<leftarrow> rd xs (base + idx);
     if v = tag then Some idx else find_idx n xs base (Suc idx) tag
   }"

text \<open>The boosting loop: step \<open>j\<close> copies element \<open>b - j - 1\<close> to \<open>b - j\<close>.\<close>

fun boost :: "nat list \<Rightarrow> nat \<Rightarrow> nat \<Rightarrow> u64 list \<Rightarrow> u64 list option" where
  "boost [] base b xs = Some xs"
| "boost (j # js) base b xs = do {
     v \<leftarrow> rd xs (base + (b - j - 1));
     xs \<leftarrow> wr xs (base + (b - j)) v;
     boost js base b xs
   }"

definition access_cache :: "cache_t \<Rightarrow> u64 \<Rightarrow> (array_id \<Rightarrow> u64 list) \<Rightarrow> (u64 \<times> (array_id \<Rightarrow> u64 list)) option" where
  "access_cache c addr st = do {
     let xs = st (array c);
     let base = set_base c (addr AND setmask c);
     let tag = drop_bit (unat (tagshift c)) addr;
     let n = unat (assoc c);
     evict_addr \<leftarrow> rd xs (base + (n - 1));
     idx \<leftarrow> find_idx n xs base 0 tag;
     let bounded_idx = (if idx = n then n - 1 else idx);
     xs \<leftarrow> boost [0..<bounded_idx] base bounded_idx xs;
     xs \<leftarrow> wr xs base tag;
     Some (if idx = n then (if evict_addr \<noteq> 0 then evict_addr else 1) else 0, st(array c := xs))
   }"

text \<open>
  \<^verbatim>\<open>evict\<close> starts with \<^verbatim>\<open>assert(0)\<close>; the code after it is \<open>evict_body\<close>. Its copy loop moves the elements
  after the match down by one.
\<close>

definition assert_that :: "bool \<Rightarrow> unit option" where
  "assert_that b = (if b then Some () else None)"

fun copy_down :: "nat list \<Rightarrow> nat \<Rightarrow> u64 list \<Rightarrow> u64 list option" where
  "copy_down [] base xs = Some xs"
| "copy_down (idx # is) base xs = do {
     v \<leftarrow> rd xs (base + (idx + 1));
     xs \<leftarrow> wr xs (base + idx) v;
     copy_down is base xs
   }"

definition evict_body :: "cache_t \<Rightarrow> u64 \<Rightarrow> (array_id \<Rightarrow> u64 list) \<Rightarrow> (array_id \<Rightarrow> u64 list) option" where
  "evict_body c addr st = do {
     let xs = st (array c);
     let base = set_base c (addr AND setmask c);
     let tag = drop_bit (unat (tagshift c)) addr;
     let n = unat (assoc c);
     idx \<leftarrow> find_idx n xs base 0 tag;
     xs \<leftarrow> copy_down [idx..<n - 1] base xs;
     let idx = max idx (n - 1);
     xs \<leftarrow> (if idx = n then wr xs (base + (n - 1)) 0 else Some xs);
     Some (st(array c := xs))
   }"

definition evict :: "cache_t \<Rightarrow> u64 \<Rightarrow> (array_id \<Rightarrow> u64 list) \<Rightarrow> (array_id \<Rightarrow> u64 list) option" where
  "evict c addr st = do { assert_that False; evict_body c addr st }"

text \<open>
  \<open>cycle_helper\<close> is given its two statistics as indices of the counters of the state: the loop keeps
  the pair of counters and the arrays. Its counter \<^verbatim>\<open>i\<close> has 32 bits and the bound 64.
\<close>

record helper =
  h_arrays :: "array_id \<Rightarrow> u64 list"
  h_l1stat :: u64
  h_l2stat :: u64

definition helper_step :: "bool \<Rightarrow> cache_t \<Rightarrow> cache_t \<Rightarrow> bool \<Rightarrow> u64 \<Rightarrow> helper \<Rightarrow> helper option" where
  "helper_step wup c1 c2 incl addr h = do {
     (r1, st) \<leftarrow> access_cache c1 addr (h_arrays h);
     if r1 \<noteq> 0
     then do {
       let l1 = (if \<not> wup then h_l1stat h + 1 else h_l1stat h);
       (evict_addr, st) \<leftarrow> access_cache c2 addr st;
       let l2 = (if evict_addr \<noteq> 0 \<and> \<not> wup then h_l2stat h + 1 else h_l2stat h);
       st \<leftarrow> (if incl \<and> evict_addr \<noteq> 1 then evict c1 evict_addr st else Some st);
       Some \<lparr>h_arrays = st, h_l1stat = l1, h_l2stat = l2\<rparr>
     }
     else Some (h\<lparr>h_arrays := st\<rparr>)
   }"

partial_function (option) cycle_loop ::
    "bool \<Rightarrow> access_t \<Rightarrow> cache_t \<Rightarrow> cache_t \<Rightarrow> bool \<Rightarrow> u32 \<Rightarrow> helper \<Rightarrow> helper option" where
  "cycle_loop wup acc c1 c2 incl i h =
     (if ucast i < acc_size acc
      then do {
        h \<leftarrow> helper_step wup c1 c2 incl (acc_addr acc + ucast i) h;
        cycle_loop wup acc c1 c2 incl (i + 1) h
      }
      else Some h)"

definition cycle_helper ::
    "bool \<Rightarrow> access_t \<Rightarrow> cache_t \<Rightarrow> u64 \<Rightarrow> cache_t \<Rightarrow> u64 \<Rightarrow> bool \<Rightarrow> (array_id \<Rightarrow> u64 list) \<Rightarrow>
     (u64 \<times> u64 \<times> (array_id \<Rightarrow> u64 list)) option" where
  "cycle_helper wup acc c1 l1stat c2 l2stat incl st = do {
     h \<leftarrow> cycle_loop wup acc c1 c2 incl 0 \<lparr>h_arrays = st, h_l1stat = l1stat, h_l2stat = l2stat\<rparr>;
     Some (h_l1stat h, h_l2stat h, h_arrays h)
   }"

text \<open>The granules (pages, cache lines) that an access spans.\<close>

definition span :: "nat \<Rightarrow> access_t \<Rightarrow> u64" where
  "span bits a = drop_bit bits (acc_addr a + acc_size a - 1) - drop_bit bits (acc_addr a) + 1"

definition count_insts :: "access_t \<Rightarrow> access_type \<Rightarrow> sim \<Rightarrow> sim" where
  "count_insts a ty s =
     (if ty = INST_ACCESS \<and> \<not> warmup s
      then s\<lparr>user_insts := user_insts s + (if drop_bit 48 (acc_addr a) = 0 then 1 else 0),
             kern_insts := kern_insts s + (if drop_bit 48 (acc_addr a) = 0xffff then 1 else 0)\<rparr>
      else s)"

definition access_tlb :: "access_t \<Rightarrow> u16 \<Rightarrow> access_type \<Rightarrow> sim \<Rightarrow> sim option" where
  "access_tlb a asid ty s = do {
     p \<leftarrow> mixpageasid (signed_drop_bit ARCH_PAGE_BITS (acc_addr a)) asid;
     let acc = \<lparr>acc_addr = p, acc_size = span ARCH_PAGE_BITS a\<rparr>;
     if ty = DATA_ACCESS
     then do {
       (m1, m2, st) \<leftarrow> cycle_helper (warmup s) acc (l1dtlb s) (l1d_tlb_misses s) (l2stlb s) (l2_stlb_misses s) False (arrays s);
       Some (s\<lparr>l1d_tlb_misses := m1, l2_stlb_misses := m2, arrays := st\<rparr>)
     }
     else do {
       (m1, m2, st) \<leftarrow> cycle_helper (warmup s) acc (l1itlb s) (l1i_tlb_misses s) (l2stlb s) (l2_stlb_misses s) False (arrays s);
       Some (s\<lparr>l1i_tlb_misses := m1, l2_stlb_misses := m2, arrays := st\<rparr>)
     }
   }"

definition access_lines :: "access_t \<Rightarrow> access_type \<Rightarrow> sim \<Rightarrow> sim option" where
  "access_lines a ty s = do {
     let acc = \<lparr>acc_addr = drop_bit CACHE_LINE_BITS (acc_addr a), acc_size = span CACHE_LINE_BITS a\<rparr>;
     if ty = DATA_ACCESS
     then do {
       (m1, m2, st) \<leftarrow> cycle_helper (warmup s) acc (l1d s) (l1d_misses s) (llc s) (llc_misses s) CACHE_INCLUSIVE (arrays s);
       Some (s\<lparr>l1d_misses := m1, llc_misses := m2, arrays := st\<rparr>)
     }
     else do {
       (m1, m2, st) \<leftarrow> cycle_helper (warmup s) acc (l1i s) (l1i_misses s) (llc s) (llc_misses s) CACHE_INCLUSIVE (arrays s);
       Some (s\<lparr>l1i_misses := m1, llc_misses := m2, arrays := st\<rparr>)
     }
   }"

definition cycle_access :: "access_t \<Rightarrow> u16 \<Rightarrow> access_type \<Rightarrow> sim \<Rightarrow> sim option" where
  "cycle_access a asid ty s =
     (if \<not> instrumentation_enable s then Some s
      else do {
        s \<leftarrow> access_tlb a asid ty (count_insts a ty s);
        access_lines a ty s
      })"

text \<open>What \<^verbatim>\<open>dump_cache\<close> prints: a header, runs of all-zero sets, and the other sets.\<close>

datatype dump_line = Dumping_cache | Zero_set u32 | Row "u64 list"

fun dump_loop :: "nat list \<Rightarrow> cache_t \<Rightarrow> u64 list \<Rightarrow> u32 \<Rightarrow> dump_line list \<Rightarrow> (u32 \<times> dump_line list) option" where
  "dump_loop [] c xs zeros out = Some (zeros, out)"
| "dump_loop (i # is) c xs zeros out =
     (let n = unat (assoc c); base = unat (assoc c * of_nat i) in
      if base + n \<le> length xs
      then let row = take n (drop base xs) in
           if list_all (\<lambda>v. v = 0) row then dump_loop is c xs (zeros + 1) out
           else dump_loop is c xs 0 (out @ (if zeros > 0 then [Zero_set zeros] else []) @ [Row row])
      else None)"

definition tlb_dump_cache :: "cache_t \<Rightarrow> (array_id \<Rightarrow> u64 list) \<Rightarrow> dump_line list option" where
  "tlb_dump_cache c st = do {
     (zeros, out) \<leftarrow> dump_loop [0..<unat (sets c)] c (st (array c)) 0 [Dumping_cache];
     Some (if zeros > 0 then out @ [Zero_set zeros] else out)
   }"

section \<open>The helpers\<close>

lemma vallog2_loop_pow: "k < 64 \<Longrightarrow> vallog2_loop (2 ^ k) l = Some (l + of_nat k)"
proof (induction k arbitrary: l)
  case 0
  then show ?case by (subst vallog2_loop.simps) simp
next
  case (Suc k)
  have bit: "(2 ^ Suc k :: u64) AND 1 = 0"
    by (rule bit_eqI) (simp add: bit_and_iff bit_exp_iff bit_1_iff del: power_Suc)
  have "drop_bit 1 (2 ^ Suc k :: u64) = 2 ^ k"
    using Suc.prems by (intro bit_eqI) (auto simp: bit_drop_bit_eq bit_exp_iff simp del: power_Suc)
  then show ?case
    using Suc bit by (subst vallog2_loop.simps) (simp add: add.assoc)
qed

lemma vallog2_pow: "k < 64 \<Longrightarrow> vallog2 (2 ^ k) = Some (of_nat k)"
  by (simp add: vallog2_def vallog2_loop_pow)

text \<open>The search, the boosting loop and the final write, on lists.\<close>

lemma find_idx_takeWhile:
  "base + idx + n \<le> length xs \<Longrightarrow>
     find_idx n xs base idx tag = Some (idx + length (takeWhile (\<lambda>v. v \<noteq> tag) (take n (drop (base + idx) xs))))"
proof (induction n arbitrary: idx)
  case 0
  then show ?case by simp
next
  case (Suc n)
  have "drop (base + idx) xs = xs ! (base + idx) # drop (base + Suc idx) xs"
    using Suc.prems by (simp add: Cons_nth_drop_Suc)
  then show ?case using Suc by (simp add: rd_def)
qed

lemma boost_shift:
  assumes "m \<le> b" and "base + b < length xs"
  shows "boost [m..<b] base b xs =
    Some (take base xs @ xs ! base # take (b - m) (drop base xs) @ drop (base + (b - m) + 1) xs)"
  using assms
proof (induction "b - m" arbitrary: m xs)
  case 0
  then show ?case by (simp add: id_take_nth_drop [of base xs, symmetric])
next
  case (Suc d)
  let ?p = "base + (b - m)"
  define xs' where "xs' = xs[?p := xs ! (?p - 1)]"
  have m: "m < b" using Suc by simp
  have IH: "boost [Suc m..<b] base b xs' =
      Some (take base xs' @ xs' ! base # take (b - Suc m) (drop base xs') @ drop (base + (b - Suc m) + 1) xs')"
    by (rule Suc.hyps(1)) (use Suc m in \<open>auto simp: xs'_def\<close>)
  have step: "boost [m..<b] base b xs = boost [Suc m..<b] base b xs'"
    using m Suc.prems(2) by (auto simp: upt_conv_Cons rd_def wr_def xs'_def)
  have 1: "take base xs' = take base xs" by (simp add: xs'_def)
  have 2: "xs' ! base = xs ! base" using m Suc.prems(2) by (simp add: xs'_def)
  have 3: "take (b - Suc m) (drop base xs') = take (b - Suc m) (drop base xs)"
    using m by (simp add: xs'_def drop_update_swap)
  have "base + (b - Suc m) + 1 = ?p" using m by simp
  then have 4: "drop (base + (b - Suc m) + 1) xs' = xs ! (?p - 1) # drop (?p + 1) xs"
    using m Suc.prems(2) by (simp add: xs'_def drop_update_swap) (simp add: Cons_nth_drop_Suc [symmetric])
  have 5: "take (b - m) (drop base xs) = take (b - Suc m) (drop base xs) @ [xs ! (?p - 1)]"
  proof -
    have "b - m = Suc (b - Suc m)" using m by simp
    then show ?thesis using m Suc.prems(2) by (simp add: take_Suc_conv_app_nth)
  qed
  show ?case unfolding step IH 1 2 3 4 5 by simp
qed

section \<open>A set is a least-recently-used list\<close>

definition lru_touch :: "u64 \<Rightarrow> u64 list \<Rightarrow> u64 list" where
  "lru_touch t ws = (if t \<in> set ws then t # remove1 t ws else t # butlast ws)"

definition lru_result :: "u64 \<Rightarrow> u64 list \<Rightarrow> u64" where
  "lru_result t ws = (if t \<in> set ws then 0 else if last ws \<noteq> 0 then last ws else 1)"

lemma length_lru_touch [simp]: "ws \<noteq> [] \<Longrightarrow> length (lru_touch t ws) = length ws"
  by (auto simp: lru_touch_def length_remove1 Suc_diff_Suc dest: length_pos_if_in_set)

lemma remove1_takeWhile:
  "t \<in> set ws \<Longrightarrow> n = length (takeWhile (\<lambda>v. v \<noteq> t) ws) \<Longrightarrow> remove1 t ws = take n ws @ drop (Suc n) ws"
  by (induction ws arbitrary: n) auto

lemma takeWhile_length_iff: "length (takeWhile (\<lambda>v. v \<noteq> t) ws) = length ws \<longleftrightarrow> t \<notin> set ws"
  by (induction ws) auto

lemma lru_touch_shift:
  assumes "ws \<noteq> []" and "idx = length (takeWhile (\<lambda>v. v \<noteq> t) ws)"
    and "b = (if idx = length ws then length ws - 1 else idx)"
  shows "t # take b ws @ drop (Suc b) ws = lru_touch t ws" and "b < length ws"
proof -
  have le: "idx \<le> length ws" using assms(2) by (simp add: length_takeWhile_le)
  then show "b < length ws" using assms(1,3) by (auto simp: le_less)
  show "t # take b ws @ drop (Suc b) ws = lru_touch t ws"
    using assms takeWhile_length_iff [of t ws] remove1_takeWhile [of t ws idx]
    by (auto simp: lru_touch_def butlast_conv_take)
qed

text \<open>A cache whose geometry is that of its array: \<open>2^k\<close> sets of \<open>assoc\<close> ways.\<close>

definition geometry :: "nat \<Rightarrow> cache_t \<Rightarrow> bool" where
  "geometry k c \<longleftrightarrow> k < 32 \<and> setmask c = mask k \<and> unat (sets c) = 2 ^ k \<and> unat (tagshift c) = k \<and>
     0 < unat (assoc c) \<and> unat (assoc c) * 2 ^ k < 2 ^ 32"

definition set_index :: "cache_t \<Rightarrow> u64 \<Rightarrow> nat" where
  "set_index c addr = unat (addr AND setmask c)"

definition tag_of :: "cache_t \<Rightarrow> u64 \<Rightarrow> u64" where
  "tag_of c addr = drop_bit (unat (tagshift c)) addr"

definition ways :: "cache_t \<Rightarrow> u64 list \<Rightarrow> nat \<Rightarrow> u64 list" where
  "ways c xs i = take (unat (assoc c)) (drop (unat (assoc c) * i) xs)"

definition cache_ok :: "cache_t \<Rightarrow> (array_id \<Rightarrow> u64 list) \<Rightarrow> bool" where
  "cache_ok c st \<longleftrightarrow> (\<exists>k. geometry k c) \<and> length (st (array c)) = unat (assoc c) * unat (sets c)"

lemma set_index_less: "geometry k c \<Longrightarrow> set_index c addr < 2 ^ k"
  by (simp add: geometry_def set_index_def take_bit_eq_mask [symmetric] unsigned_take_bit_eq take_bit_nat_less_exp)

lemma ways_bound:
  assumes "cache_ok c st" and "i < unat (sets c)"
  shows "unat (assoc c) * i + unat (assoc c) \<le> length (st (array c))"
proof -
  have "unat (assoc c) * Suc i \<le> unat (assoc c) * unat (sets c)" using assms(2) by (intro mult_le_mono2) simp
  then show ?thesis using assms(1) by (simp add: cache_ok_def)
qed

lemma length_ways: "cache_ok c st \<Longrightarrow> i < unat (sets c) \<Longrightarrow> length (ways c (st (array c)) i) = unat (assoc c)"
  using ways_bound [of c st i] by (simp add: ways_def)

lemma set_base_eq:
  assumes "geometry k c"
  shows "set_base c (addr AND setmask c) = unat (assoc c) * set_index c addr"
proof -
  have "unat (assoc c) * set_index c addr \<le> unat (assoc c) * 2 ^ k"
    using set_index_less [OF assms] by (intro mult_le_mono2) (simp add: less_imp_le)
  also have "\<dots> < 2 ^ 32" using assms by (simp add: geometry_def)
  finally have "unat (assoc c) * set_index c addr < 2 ^ 64" by simp
  then show ?thesis
    by (simp add: set_base_def set_index_def unat_mult_lem [THEN iffD1])
qed

text \<open>The effect of an access on the array: the window of its set is rewritten.\<close>

definition put_ways :: "cache_t \<Rightarrow> nat \<Rightarrow> u64 list \<Rightarrow> u64 list \<Rightarrow> u64 list" where
  "put_ways c i ws xs = take (unat (assoc c) * i) xs @ ws @ drop (unat (assoc c) * i + unat (assoc c)) xs"

lemma access_cache_lru:
  assumes ok: "cache_ok c st" and i: "i = set_index c addr" and t: "t = tag_of c addr" and ws: "ws = ways c (st (array c)) i"
  shows "access_cache c addr st = Some (lru_result t ws, st(array c := put_ways c i (lru_touch t ws) (st (array c))))"
proof -
  obtain k where g: "geometry k c" using ok by (auto simp: cache_ok_def)
  let ?xs = "st (array c)" and ?n = "unat (assoc c)"
  define base where "base = ?n * i"
  have n0: "0 < ?n" using g by (simp add: geometry_def)
  have il: "i < unat (sets c)" using set_index_less [OF g] g i by (simp add: geometry_def)
  have bound: "base + ?n \<le> length ?xs" using ways_bound [OF ok il] by (simp add: base_def)
  have len: "length ws = ?n" using length_ways [OF ok il] ws by simp
  have win: "take ?n (drop base ?xs) = ws" by (simp add: ws ways_def base_def)
  have ne: "ws \<noteq> []" using len n0 by auto
  define idx where "idx = length (takeWhile (\<lambda>v. v \<noteq> t) ws)"
  define b where "b = (if idx = ?n then ?n - 1 else idx)"
  have b: "t # take b ws @ drop (Suc b) ws = lru_touch t ws" "b < ?n"
    using lru_touch_shift [OF ne idx_def, of b] len by (auto simp: b_def)
  have f: "find_idx ?n ?xs base 0 t = Some idx"
    using find_idx_takeWhile [of base 0 ?n ?xs t] bound win by (simp add: idx_def)
  have e: "rd ?xs (base + (?n - 1)) = Some (last ws)"
  proof -
    have "last ws = ws ! (?n - 1)" using len n0 by (metis last_conv_nth length_greater_0_conv)
    also have "\<dots> = ?xs ! (base + (?n - 1))" using n0 bound by (simp add: win [symmetric])
    finally show ?thesis using bound n0 by (simp add: rd_def)
  qed
  have s: "boost [0..<b] base b ?xs =
      Some (take base ?xs @ ?xs ! base # take b (drop base ?xs) @ drop (base + b + 1) ?xs)"
    using boost_shift [of 0 b base ?xs] b(2) bound by simp
  have w: "wr (take base ?xs @ ?xs ! base # take b (drop base ?xs) @ drop (base + b + 1) ?xs) base t =
      Some (take base ?xs @ t # take b (drop base ?xs) @ drop (base + b + 1) ?xs)"
    using bound by (simp add: wr_def list_update_append)
  have tb: "take b (drop base ?xs) = take b ws" using b(2) by (simp add: win [symmetric])
  have "drop (Suc b) ws @ drop (base + ?n) ?xs = drop (Suc b) (drop base ?xs)"
  proof -
    have "drop (Suc b) (drop base ?xs) = drop (Suc b) (ws @ drop ?n (drop base ?xs))"
      unfolding win [symmetric] append_take_drop_id by (rule refl)
    also have "\<dots> = drop (Suc b) ws @ drop ?n (drop base ?xs)" using b(2) len by simp
    finally show ?thesis by (simp add: add.commute)
  qed
  then have "take base ?xs @ t # take b (drop base ?xs) @ drop (base + b + 1) ?xs =
      put_ways c i (lru_touch t ws) ?xs"
    unfolding put_ways_def base_def [symmetric] b(1) [symmetric] tb by (simp add: add.commute)
  moreover have B: "set_base c (addr AND setmask c) = base" using set_base_eq [OF g] i by (simp add: base_def)
  moreover have T: "drop_bit (unat (tagshift c)) addr = t" by (simp add: t tag_of_def)
  moreover have b': "t \<in> set ws \<Longrightarrow> idx = b" "t \<notin> set ws \<Longrightarrow> ?n - Suc 0 = b"
    using takeWhile_length_iff [of t ws] len by (auto simp: b_def idx_def)
  moreover have "idx = ?n \<longleftrightarrow> t \<notin> set ws" using takeWhile_length_iff [of t ws] len by (simp add: idx_def)
  ultimately show ?thesis
    using e f s w
    by (cases "t \<in> set ws") (simp_all add: access_cache_def Let_def B T lru_result_def)
qed

text \<open>An access changes the ways of its own set only and keeps the array well formed.\<close>

lemma length_put_ways:
  assumes "cache_ok c st" and "i < unat (sets c)" and "length ws = unat (assoc c)"
  shows "length (put_ways c i ws (st (array c))) = length (st (array c))"
  using ways_bound [OF assms(1,2)] assms(3) by (simp add: put_ways_def)

lemma ways_put_ways:
  assumes ok: "cache_ok c st" and i: "i < unat (sets c)" and len: "length ws = unat (assoc c)" and j: "j < unat (sets c)"
  shows "ways c (put_ways c i ws (st (array c))) j = (if j = i then ws else ways c (st (array c)) j)"
proof -
  let ?n = "unat (assoc c)" and ?xs = "st (array c)"
  have bi: "?n * i + ?n \<le> length ?xs" by (rule ways_bound [OF ok i])
  show ?thesis
  proof (cases rule: linorder_cases [of j i])
    case less
    then have "?n * Suc j \<le> ?n * i" by (intro mult_le_mono2) simp
    then have le: "?n * j + ?n \<le> ?n * i" by simp
    then have z: "?n * j - ?n * i = 0" by linarith
    then have "drop (?n * j) (put_ways c i ws ?xs) =
        drop (?n * j) (take (?n * i) ?xs) @ ws @ drop (?n * i + ?n) ?xs"
      using bi z by (simp add: put_ways_def)
    then show ?thesis using le less bi by (simp add: ways_def take_drop)
  next
    case equal
    then show ?thesis using bi len by (simp add: ways_def put_ways_def)
  next
    case greater
    then have "?n * Suc i \<le> ?n * j" by (intro mult_le_mono2) simp
    then have "?n * i + ?n \<le> ?n * j" by simp
    then show ?thesis using bi len greater by (simp add: ways_def put_ways_def)
  qed
qed

lemma access_cache_ok:
  assumes ok: "cache_ok c st"
  obtains r st' where "access_cache c addr st = Some (r, st')" "cache_ok c st'"
    "\<And>a. a \<noteq> array c \<Longrightarrow> st' a = st a"
    "r = lru_result (tag_of c addr) (ways c (st (array c)) (set_index c addr))"
    "\<And>j. j < unat (sets c) \<Longrightarrow> ways c (st' (array c)) j =
       (if j = set_index c addr then lru_touch (tag_of c addr) (ways c (st (array c)) j) else ways c (st (array c)) j)"
proof -
  obtain k where g: "geometry k c" using ok by (auto simp: cache_ok_def)
  let ?i = "set_index c addr" and ?t = "tag_of c addr"
  let ?ws = "ways c (st (array c)) ?i"
  let ?st = "st(array c := put_ways c ?i (lru_touch ?t ?ws) (st (array c)))"
  have i: "?i < unat (sets c)" using set_index_less [OF g] g by (simp add: geometry_def)
  have l: "length ?ws = unat (assoc c)" by (rule length_ways [OF ok i])
  then have ne: "?ws \<noteq> []" using g by (auto simp: geometry_def)
  have l': "length (lru_touch ?t ?ws) = unat (assoc c)" using ne l by simp
  have "cache_ok c ?st" using ok length_put_ways [OF ok i l'] by (simp add: cache_ok_def)
  moreover have "ways c (?st (array c)) j = (if j = ?i then lru_touch ?t (ways c (st (array c)) j) else ways c (st (array c)) j)"
    if "j < unat (sets c)" for j
    using ways_put_ways [OF ok i l' that] by simp
  ultimately show ?thesis
    using that access_cache_lru [OF ok, of ?i addr] by simp
qed

section \<open>The least-recently-used order\<close>

text \<open>
  The unbounded order: every tag that was touched is moved to the front. A set of \<open>n\<close> ways holds the
  first \<open>n\<close> elements of it, whatever the sequence of accesses; so a touch hits exactly when fewer than
  \<open>n\<close> other tags were touched since its last touch.
\<close>

definition mtf :: "u64 \<Rightarrow> u64 list \<Rightarrow> u64 list" where
  "mtf t ml = t # remove1 t ml"

lemma take_remove1:
  "t \<in> set (take n ml) \<Longrightarrow> take n (t # remove1 t ml) = t # remove1 t (take n ml)"
proof (induction ml arbitrary: n)
  case Nil
  then show ?case by simp
next
  case (Cons x ml)
  then obtain m where n: "n = Suc m" by (cases n) auto
  show ?case
  proof (cases "x = t")
    case True
    then show ?thesis using n by simp
  next
    case False
    with Cons.prems n have "t \<in> set (take m ml)" by simp
    from Cons.IH [OF this] have "take (m - 1) (remove1 t ml) = remove1 t (take m ml)"
      using \<open>t \<in> set (take m ml)\<close> by (cases m) auto
    moreover have "m \<noteq> 0" using \<open>t \<in> set (take m ml)\<close> by (cases m) auto
    ultimately show ?thesis using False n by (cases m) auto
  qed
qed

lemma take_remove1_notin: "t \<notin> set (take n ml) \<Longrightarrow> take (n - 1) (remove1 t ml) = take (n - 1) ml"
proof (induction ml arbitrary: n)
  case Nil
  then show ?case by simp
next
  case (Cons x ml)
  show ?case
  proof (cases n)
    case 0
    then show ?thesis by simp
  next
    case (Suc m)
    then have "x \<noteq> t" "t \<notin> set (take m ml)" using Cons.prems by auto
    with Cons.IH [of m] Suc show ?thesis by (cases m) auto
  qed
qed

lemma lru_stack:
  assumes "n \<le> length ml" and "0 < n"
  shows "lru_touch t (take n ml) = take n (mtf t ml)"
proof (cases "t \<in> set (take n ml)")
  case True
  then show ?thesis using take_remove1 [OF True] by (simp add: lru_touch_def mtf_def)
next
  case False
  then have "take n (mtf t ml) = t # take (n - 1) ml"
    using take_remove1_notin [OF False] assms(2) by (cases n) (simp_all add: mtf_def)
  then show ?thesis using False assms by (simp add: lru_touch_def butlast_take)
qed

lemma length_mtf: "length ml \<le> length (mtf t ml)"
  by (auto simp: mtf_def length_remove1)

lemma lru_stack_fold:
  assumes "0 < n" and "n \<le> length ml"
  shows "fold lru_touch ts (take n ml) = take n (fold mtf ts ml)"
  using assms(2)
proof (induction ts arbitrary: ml)
  case (Cons t ts)
  then show ?case using lru_stack [OF Cons.prems assms(1)] length_mtf [of ml t] by simp
qed simp

text \<open>Running a sequence of accesses.\<close>

fun access_all :: "cache_t \<Rightarrow> u64 list \<Rightarrow> (array_id \<Rightarrow> u64 list) \<Rightarrow> (u64 list \<times> (array_id \<Rightarrow> u64 list)) option" where
  "access_all c [] st = Some ([], st)"
| "access_all c (a # as) st = do {
     (r, st) \<leftarrow> access_cache c a st;
     (rs, st) \<leftarrow> access_all c as st;
     Some (r # rs, st)
   }"

lemma access_all_ways:
  assumes "cache_ok c st"
  shows "\<exists>rs st'. access_all c as st = Some (rs, st') \<and> cache_ok c st' \<and>
    (\<forall>j<unat (sets c). ways c (st' (array c)) j =
       fold lru_touch (map (tag_of c) [a \<leftarrow> as. set_index c a = j]) (ways c (st (array c)) j))"
  using assms
proof (induction as arbitrary: st)
  case Nil
  then show ?case by simp
next
  case (Cons a as)
  obtain r st1 where st1: "access_cache c a st = Some (r, st1)" "cache_ok c st1"
    "\<And>j. j < unat (sets c) \<Longrightarrow> ways c (st1 (array c)) j =
       (if j = set_index c a then lru_touch (tag_of c a) (ways c (st (array c)) j) else ways c (st (array c)) j)"
    by (rule access_cache_ok [OF Cons.prems]) (rule that)
  obtain rs st' where "access_all c as st1 = Some (rs, st')" "cache_ok c st'"
    "\<forall>j<unat (sets c). ways c (st' (array c)) j =
       fold lru_touch (map (tag_of c) [a \<leftarrow> as. set_index c a = j]) (ways c (st1 (array c)) j)"
    using Cons.IH [OF st1(2)] by blast
  with st1 show ?case by auto
qed

section \<open>Two levels\<close>

lemma cache_ok_cong: "st (array c) = st' (array c) \<Longrightarrow> cache_ok c st = cache_ok c st'"
  by (simp add: cache_ok_def)

text \<open>
  The reference: a cache is a map from set numbers to lists of tags, most recently used first, and an access
  moves its tag to the front of its set. A sequence of granules goes through two levels, the second one seeing
  the misses of the first; the result is the number of misses of each level and the contents of both.
\<close>

definition contents :: "cache_t \<Rightarrow> (array_id \<Rightarrow> u64 list) \<Rightarrow> nat \<Rightarrow> u64 list" where
  "contents c st i = (if i < unat (sets c) then ways c (st (array c)) i else [])"

definition present :: "cache_t \<Rightarrow> u64 \<Rightarrow> (nat \<Rightarrow> u64 list) \<Rightarrow> bool" where
  "present c g A \<longleftrightarrow> tag_of c g \<in> set (A (set_index c g))"

definition touch :: "cache_t \<Rightarrow> u64 \<Rightarrow> (nat \<Rightarrow> u64 list) \<Rightarrow> nat \<Rightarrow> u64 list" where
  "touch c g A = A(set_index c g := lru_touch (tag_of c g) (A (set_index c g)))"

fun two_level :: "cache_t \<Rightarrow> cache_t \<Rightarrow> u64 list \<Rightarrow> (nat \<Rightarrow> u64 list) \<times> (nat \<Rightarrow> u64 list) \<Rightarrow>
    (nat \<times> nat) \<times> (nat \<Rightarrow> u64 list) \<times> (nat \<Rightarrow> u64 list)" where
  "two_level c1 c2 [] (A, B) = ((0, 0), A, B)"
| "two_level c1 c2 (g # gs) (A, B) =
     (if present c1 g A then two_level c1 c2 gs (touch c1 g A, B)
      else let ((m1, m2), AB) = two_level c1 c2 gs (touch c1 g A, touch c2 g B) in
        ((Suc m1, if present c2 g B then m2 else Suc m2), AB))"

text \<open>Misses are not counted during warm-up.\<close>

definition count_misses :: "bool \<Rightarrow> nat \<times> nat \<Rightarrow> u64 \<times> u64 \<Rightarrow> u64 \<times> u64" where
  "count_misses wup k m = (if wup then m else (fst m + of_nat (fst k), snd m + of_nat (snd k)))"

lemma count_misses_0 [simp]: "count_misses wup (0, 0) m = m"
  by (simp add: count_misses_def)

lemma count_misses_add: "count_misses wup (a1 + b1, a2 + b2) m = count_misses wup (b1, b2) (count_misses wup (a1, a2) m)"
  by (simp add: count_misses_def)

lemma two_level_Cons:
  assumes "two_level c1 c2 [g] (A, B) = ((a1, a2), A', B')" and "two_level c1 c2 gs (A', B') = ((b1, b2), AB)"
  shows "two_level c1 c2 (g # gs) (A, B) = ((a1 + b1, a2 + b2), AB)"
  using assms by (auto split: if_splits)

lemma access_contents:
  assumes ok: "cache_ok c st"
  shows "\<exists>r st'. access_cache c g st = Some (r, st') \<and> cache_ok c st' \<and> (\<forall>a. a \<noteq> array c \<longrightarrow> st' a = st a) \<and>
    (r = 0 \<longleftrightarrow> present c g (contents c st)) \<and> contents c st' = touch c g (contents c st)"
proof -
  obtain k where g: "geometry k c" using ok by (auto simp: cache_ok_def)
  have i: "set_index c g < unat (sets c)" using set_index_less [OF g] g by (simp add: geometry_def)
  obtain r st' where a: "access_cache c g st = Some (r, st')" "cache_ok c st'" "\<And>a. a \<noteq> array c \<Longrightarrow> st' a = st a"
    "r = lru_result (tag_of c g) (ways c (st (array c)) (set_index c g))"
    "\<And>j. j < unat (sets c) \<Longrightarrow> ways c (st' (array c)) j =
       (if j = set_index c g then lru_touch (tag_of c g) (ways c (st (array c)) j) else ways c (st (array c)) j)"
    by (rule access_cache_ok [OF ok]) (rule that)
  have "contents c st' = touch c g (contents c st)"
    using a(5) i by (auto simp: contents_def touch_def)
  moreover have "r = 0 \<longleftrightarrow> present c g (contents c st)" using a(4) i by (auto simp: present_def contents_def lru_result_def)
  ultimately show ?thesis using a(1-3) by blast
qed

lemma contents_cong: "st (array c) = st' (array c) \<Longrightarrow> contents c st = contents c st'"
  by (simp add: contents_def fun_eq_iff)

definition stats :: "helper \<Rightarrow> u64 \<times> u64" where
  "stats h = (h_l1stat h, h_l2stat h)"

lemma helper_step_exact:
  assumes ok: "cache_ok c1 (h_arrays h)" "cache_ok c2 (h_arrays h)" and ne: "array c1 \<noteq> array c2"
  shows "\<exists>h' k. helper_step wup c1 c2 False g h = Some h' \<and> cache_ok c1 (h_arrays h') \<and> cache_ok c2 (h_arrays h') \<and>
    (\<forall>a. a \<noteq> array c1 \<longrightarrow> a \<noteq> array c2 \<longrightarrow> h_arrays h' a = h_arrays h a) \<and>
    two_level c1 c2 [g] (contents c1 (h_arrays h), contents c2 (h_arrays h)) = (k, contents c1 (h_arrays h'), contents c2 (h_arrays h')) \<and>
    stats h' = count_misses wup k (stats h)"
proof -
  obtain r1 st1 where 1: "access_cache c1 g (h_arrays h) = Some (r1, st1)" "cache_ok c1 st1"
    "\<And>a. a \<noteq> array c1 \<Longrightarrow> st1 a = h_arrays h a" "r1 = 0 \<longleftrightarrow> present c1 g (contents c1 (h_arrays h))"
    "contents c1 st1 = touch c1 g (contents c1 (h_arrays h))"
    using access_contents [OF ok(1)] by blast
  have ok2: "cache_ok c2 st1" and same: "contents c2 st1 = contents c2 (h_arrays h)"
    using ok(2) cache_ok_cong [of st1 c2 "h_arrays h"] contents_cong [of st1 c2 "h_arrays h"] 1(3) ne by auto
  show ?thesis
  proof (cases "r1 = 0")
    case True
    with 1 ok2 same show ?thesis by (intro exI [of _ "h\<lparr>h_arrays := st1\<rparr>"] exI [of _ "(0, 0)"]) (auto simp: helper_step_def stats_def)
  next
    case False
    obtain r2 st2 where 2: "access_cache c2 g st1 = Some (r2, st2)" "cache_ok c2 st2" "\<And>a. a \<noteq> array c2 \<Longrightarrow> st2 a = st1 a"
      "r2 = 0 \<longleftrightarrow> present c2 g (contents c2 st1)" "contents c2 st2 = touch c2 g (contents c2 st1)"
      using access_contents [OF ok2] by blast
    have "cache_ok c1 st2" "contents c1 st2 = contents c1 st1"
      using 1(2) cache_ok_cong [of st2 c1 st1] contents_cong [of st2 c1 st1] 2(3) ne by auto
    with False 1 2 same show ?thesis
      by (auto simp: helper_step_def Let_def stats_def count_misses_def)
  qed
qed

text \<open>The loop ends after its granules, in order.\<close>

lemma cycle_loop_exact:
  assumes "cache_ok c1 (h_arrays h)" "cache_ok c2 (h_arrays h)" and ne: "array c1 \<noteq> array c2"
    and "unat (acc_size acc) < 2 ^ 32" and "unat i \<le> unat (acc_size acc)"
  shows "\<exists>h' k. cycle_loop wup acc c1 c2 False i h = Some h' \<and> cache_ok c1 (h_arrays h') \<and> cache_ok c2 (h_arrays h') \<and>
    (\<forall>a. a \<noteq> array c1 \<longrightarrow> a \<noteq> array c2 \<longrightarrow> h_arrays h' a = h_arrays h a) \<and>
    two_level c1 c2 (map (\<lambda>j. acc_addr acc + of_nat j) [unat i..<unat (acc_size acc)])
      (contents c1 (h_arrays h), contents c2 (h_arrays h)) = (k, contents c1 (h_arrays h'), contents c2 (h_arrays h')) \<and>
    stats h' = count_misses wup k (stats h)"
  using assms
proof (induction "unat (acc_size acc) - unat i" arbitrary: i h)
  case 0
  then have "\<not> ucast i < acc_size acc" by (simp add: ucast_u32_less_iff)
  with 0 show ?case by (subst cycle_loop.simps) auto
next
  case (Suc n)
  have lt: "unat i < unat (acc_size acc)" using Suc.hyps(2) by simp
  then have c: "ucast i < acc_size acc" by (simp add: ucast_u32_less_iff)
  have i1: "unat (i + 1) = Suc (unat i)" using lt Suc.prems(4) by (subst unat_inc) simp_all
  let ?g = "acc_addr acc + of_nat (unat i)" and ?gs = "map (\<lambda>j. acc_addr acc + of_nat j) [unat (i + 1)..<unat (acc_size acc)]"
  have gs: "map (\<lambda>j. acc_addr acc + of_nat j) [unat i..<unat (acc_size acc)] = ?g # ?gs"
    using lt i1 by (simp add: upt_conv_Cons)
  obtain h1 a1 a2 where h1: "helper_step wup c1 c2 False ?g h = Some h1" "cache_ok c1 (h_arrays h1)"
    "cache_ok c2 (h_arrays h1)" "\<And>a. a \<noteq> array c1 \<Longrightarrow> a \<noteq> array c2 \<Longrightarrow> h_arrays h1 a = h_arrays h a"
    "two_level c1 c2 [?g] (contents c1 (h_arrays h), contents c2 (h_arrays h)) = ((a1, a2), contents c1 (h_arrays h1), contents c2 (h_arrays h1))"
    "stats h1 = count_misses wup (a1, a2) (stats h)"
    using helper_step_exact [OF Suc.prems(1-3), of wup ?g] by auto
  have "n = unat (acc_size acc) - unat (i + 1)" "unat (i + 1) \<le> unat (acc_size acc)" using Suc.hyps(2) i1 lt by auto
  from Suc.hyps(1) [OF this(1) h1(2,3) ne Suc.prems(4) this(2)]
  obtain h' b1 b2 where h': "cycle_loop wup acc c1 c2 False (i + 1) h1 = Some h'" "cache_ok c1 (h_arrays h')"
    "cache_ok c2 (h_arrays h')" "\<And>a. a \<noteq> array c1 \<Longrightarrow> a \<noteq> array c2 \<Longrightarrow> h_arrays h' a = h_arrays h1 a"
    "two_level c1 c2 ?gs (contents c1 (h_arrays h1), contents c2 (h_arrays h1)) = ((b1, b2), contents c1 (h_arrays h'), contents c2 (h_arrays h'))"
    "stats h' = count_misses wup (b1, b2) (stats h1)" by auto
  have "cycle_loop wup acc c1 c2 False i h = Some h'"
    using c h1(1) h'(1) by (subst cycle_loop.simps) simp
  moreover note two_level_Cons [OF h1(5) h'(5)]
  ultimately show ?case
    unfolding gs using h' h1(4,6) by (intro exI [of _ h'] exI [of _ "(a1 + b1, a2 + b2)"]) (simp add: count_misses_add)
qed

lemma cycle_helper_exact:
  assumes "cache_ok c1 st" "cache_ok c2 st" "array c1 \<noteq> array c2" "unat (acc_size acc) < 2 ^ 32"
    and "gs = map (\<lambda>j. acc_addr acc + of_nat j) [0..<unat (acc_size acc)]"
  shows "\<exists>m1 m2 st' k. cycle_helper wup acc c1 l1 c2 l2 False st = Some (m1, m2, st') \<and> cache_ok c1 st' \<and> cache_ok c2 st' \<and>
    (\<forall>a. a \<noteq> array c1 \<longrightarrow> a \<noteq> array c2 \<longrightarrow> st' a = st a) \<and>
    two_level c1 c2 gs (contents c1 st, contents c2 st) = (k, contents c1 st', contents c2 st') \<and>
    (m1, m2) = count_misses wup k (l1, l2)"
  using cycle_loop_exact [of c1 "\<lparr>h_arrays = st, h_l1stat = l1, h_l2stat = l2\<rparr>" c2 acc 0 wup] assms
  by (fastforce simp: cycle_helper_def stats_def)

section \<open>Page numbers and address spaces\<close>

lemma mixpageasid_user:
  assumes "drop_bit 48 p = 0"
  shows "mixpageasid p asid = Some (push_bit 48 (ucast asid) OR p)"
proof -
  have "drop_bit 48 (p AND push_bit 48 0xffff) = drop_bit 48 p AND drop_bit 48 (push_bit 48 0xffff)"
    by (rule drop_bit_and)
  then show ?thesis using assms by (simp add: mixpageasid_def Let_def)
qed

lemma bit_user:
  assumes "drop_bit 48 (p :: u64) = 0" and "bit p n"
  shows "n < 48"
proof (rule ccontr)
  assume "\<not> n < 48"
  then have "bit (drop_bit 48 p) (n - 48)" using assms(2) bit_imp_le_length [OF assms(2)]
    by (simp add: bit_drop_bit_eq)
  with assms(1) show False by simp
qed

lemma bit_mash:
  assumes "drop_bit 48 (p :: u64) = 0"
  shows "bit (push_bit 48 (ucast (asid :: u16)) OR p) n \<longleftrightarrow> (if n < 48 then bit p n else n < 64 \<and> bit asid (n - 48))"
  using bit_user [OF assms, of n] by (auto simp: bit_simps)

lemma mash_inj:
  assumes "drop_bit 48 (p :: u64) = 0" and "drop_bit 48 q = 0"
    and "push_bit 48 (ucast (a :: u16)) OR p = push_bit 48 (ucast b) OR q"
  shows "p = q \<and> a = b"
proof
  have eq: "(if n < 48 then bit p n else n < 64 \<and> bit a (n - 48)) \<longleftrightarrow> (if n < 48 then bit q n else n < 64 \<and> bit b (n - 48))" for n
    using bit_mash [OF assms(1), of a n] bit_mash [OF assms(2), of b n] assms(3) by simp
  show "p = q"
  proof (rule bit_word_eqI)
    fix n assume "n < LENGTH(64)"
    show "bit p n = bit q n"
      using eq [of n] bit_user [OF assms(1), of n] bit_user [OF assms(2), of n] by (cases "n < 48") auto
  qed
  show "a = b"
  proof (rule bit_word_eqI)
    fix n assume "n < LENGTH(16)"
    then show "bit a n = bit b n" using eq [of "n + 48"] by simp
  qed
qed

text \<open>A page of the kernel half: the address-space identifier is lost.\<close>

lemma mixpageasid_kernel:
  assumes "drop_bit 48 p = 0xffff"
  shows "mixpageasid p asid = Some p"
proof -
  have "drop_bit 48 (p AND push_bit 48 0xffff) = drop_bit 48 p AND drop_bit 48 (push_bit 48 0xffff)"
    by (rule drop_bit_and)
  then have "drop_bit 48 (p AND push_bit 48 0xffff) = 0xffff" using assms by simp
  moreover have "push_bit 48 (ucast asid) OR p = p"
  proof (rule bit_word_eqI)
    fix n assume n: "n < LENGTH(64)"
    have "bit p n" if "48 \<le> n"
    proof -
      have "drop_bit 48 p = mask 16" using assms by (simp add: mask_eq_exp_minus_1)
      then have "bit (drop_bit 48 p) (n - 48)" using that n by (simp only: bit_mask_iff) auto
      then show ?thesis using that by (simp add: bit_drop_bit_eq)
    qed
    then show "bit (push_bit 48 (ucast asid) OR p) n = bit p n" by (auto simp: bit_simps)
  qed
  ultimately show ?thesis by (simp add: mixpageasid_def Let_def)
qed

section \<open>The simulator\<close>

definition sim_ok :: "sim \<Rightarrow> bool" where
  "sim_ok s \<longleftrightarrow>
     cache_ok (l1itlb s) (arrays s) \<and> cache_ok (l1dtlb s) (arrays s) \<and> cache_ok (l2stlb s) (arrays s) \<and>
     cache_ok (l1i s) (arrays s) \<and> cache_ok (l1d s) (arrays s) \<and> cache_ok (llc s) (arrays s) \<and>
     array (l1itlb s) = array_l1itlb \<and> array (l1dtlb s) = array_l1dtlb \<and> array (l2stlb s) = array_l2stlb \<and>
     array (l1i s) = array_l1i \<and> array (l1d s) = array_l1d \<and> array (llc s) = array_llc"

lemma mk_cache_pow:
  assumes "k < 32" and "0 < n" and "n * 2 ^ k < 2 ^ 32"
  obtains c where "mk_cache (2 ^ k) n a = Some c" "geometry k c" "array c = a" "unat (assoc c) = n" "unat (sets c) = 2 ^ k"
proof -
  have v: "vallog2 (of_nat (2 ^ k)) = Some (of_nat k)" using vallog2_pow [of k] assms(1) by simp
  let ?c = "\<lparr>setmask = of_nat (2 ^ k) - 1, sets = of_nat (2 ^ k), assoc = of_nat n, tagshift = ucast (of_nat k :: u8), array = a\<rparr>"
  have n: "n < 2 ^ 32" using assms(3) by (metis le_less_trans mult.right_neutral mult_le_mono2 one_le_numeral one_le_power)
  have k2: "(2 :: nat) ^ k < 2 ^ 32" by (rule power_strict_increasing) (use assms(1) in auto)
  have "unat (of_nat (2 ^ k) :: u32) = 2 ^ k" by (rule unat_of_nat_less) (use k2 in simp)
  moreover have "unat (ucast (of_nat k :: u8) :: u32) = k"
    using assms(1) by (simp add: unsigned_ucast_eq unat_of_nat take_bit_nat_eq_self)
  moreover have "unat (of_nat n :: u32) = n" using n by (simp add: unat_of_nat_less)
  moreover have "(of_nat (2 ^ k) - 1 :: u64) = mask k" by (simp add: mask_eq_exp_minus_1)
  ultimately have "geometry k ?c \<and> unat (assoc ?c) = n \<and> unat (sets ?c) = 2 ^ k"
    using assms by (simp add: geometry_def)
  then show ?thesis using v that [of ?c] by (simp add: mk_cache_def)
qed

lemma mk_cache_ok:
  assumes "k < 32" and "0 < n" and "n * 2 ^ k < 2 ^ 32" and "length (zeroed a) = n * 2 ^ k"
  shows "\<exists>c. mk_cache (2 ^ k) n a = Some c \<and> cache_ok c zeroed \<and> array c = a"
  by (rule mk_cache_pow [OF assms(1-3), of a]) (use assms(4) in \<open>auto simp: cache_ok_def\<close>)

lemma init_tlbcache_ok: "\<exists>s'. init_tlbcache s = Some s' \<and> sim_ok s'"
proof -
  have geo: "L1_I_TLB_SETS = 2 ^ 0" "L1_D_TLB_SETS = 2 ^ 0" "L2_TLB_SETS = 2 ^ 8" "L1_I_SETS = 2 ^ 6" "L1_D_SETS = 2 ^ 6"
    "LLC_SETS = 2 ^ 14"
    by (simp_all add: config_defs drop_bit_nat_def)
  note z = zeroed_def config_defs drop_bit_nat_def
  obtain c1 where 1: "mk_cache (2 ^ 0) L1_I_TLB_ASSOC array_l1itlb = Some c1" "cache_ok c1 zeroed" "array c1 = array_l1itlb"
    using mk_cache_ok [of 0 L1_I_TLB_ASSOC array_l1itlb] by (auto simp: z)
  obtain c2 where 2: "mk_cache (2 ^ 0) L1_D_TLB_ASSOC array_l1dtlb = Some c2" "cache_ok c2 zeroed" "array c2 = array_l1dtlb"
    using mk_cache_ok [of 0 L1_D_TLB_ASSOC array_l1dtlb] by (auto simp: z)
  obtain c3 where 3: "mk_cache (2 ^ 8) L2_TLB_ASSOC array_l2stlb = Some c3" "cache_ok c3 zeroed" "array c3 = array_l2stlb"
    using mk_cache_ok [of 8 L2_TLB_ASSOC array_l2stlb] by (auto simp: z)
  obtain c4 where 4: "mk_cache (2 ^ 6) L1_I_ASSOC array_l1i = Some c4" "cache_ok c4 zeroed" "array c4 = array_l1i"
    using mk_cache_ok [of 6 L1_I_ASSOC array_l1i] by (auto simp: z)
  obtain c5 where 5: "mk_cache (2 ^ 6) L1_D_ASSOC array_l1d = Some c5" "cache_ok c5 zeroed" "array c5 = array_l1d"
    using mk_cache_ok [of 6 L1_D_ASSOC array_l1d] by (auto simp: z)
  obtain c6 where 6: "mk_cache (2 ^ 14) LLC_ASSOC array_llc = Some c6" "cache_ok c6 zeroed" "array c6 = array_llc"
    using mk_cache_ok [of 14 LLC_ASSOC array_llc] by (auto simp: z)
  show ?thesis
    unfolding init_tlbcache_def geo 1(1) 2(1) 3(1) 4(1) 5(1) 6(1)
    using 1(2,3) 2(2,3) 3(2,3) 4(2,3) 5(2,3) 6(2,3) by (simp add: sim_ok_def)
qed

text \<open>The counters of an access: of its first level and of the shared second level.\<close>

definition tlb_counters :: "access_type \<Rightarrow> sim \<Rightarrow> u64 \<times> u64" where
  "tlb_counters ty s = (if ty = DATA_ACCESS then l1d_tlb_misses s else l1i_tlb_misses s, l2_stlb_misses s)"

definition line_counters :: "access_type \<Rightarrow> sim \<Rightarrow> u64 \<times> u64" where
  "line_counters ty s = (if ty = DATA_ACCESS then l1d_misses s else l1i_misses s, llc_misses s)"

definition mode :: "sim \<Rightarrow> bool \<times> bool" where
  "mode s = (instrumentation_enable s, warmup s)"

lemma count_insts_frame:
  "sim_ok (count_insts a ty s) = sim_ok s" "mode (count_insts a ty s) = mode s" "warmup (count_insts a ty s) = warmup s"
  "tlb_counters ty (count_insts a ty s) = tlb_counters ty s" "line_counters ty (count_insts a ty s) = line_counters ty s"
  by (simp_all add: count_insts_def sim_ok_def mode_def tlb_counters_def line_counters_def)

text \<open>An access that stays below the top of the user half of the address space, and is not empty.\<close>

definition user_access :: "access_t \<Rightarrow> bool" where
  "user_access a \<longleftrightarrow> unat (acc_addr a) + unat (acc_size a) \<le> 2 ^ 47 \<and> 0 < unat (acc_size a) \<and> unat (acc_size a) < 2 ^ 32"

lemma span_user:
  assumes "user_access a" and "0 < b"
  shows "unat (span b a) = (unat (acc_addr a) + unat (acc_size a) - 1) div 2 ^ b - unat (acc_addr a) div 2 ^ b + 1"
    and "unat (span b a) \<le> unat (acc_size a)"
proof -
  let ?x = "unat (acc_addr a)" and ?n = "unat (acc_size a)"
  have bnd: "?x + ?n \<le> 2 ^ 47" "0 < ?n" using assms by (auto simp: user_access_def)
  have "unat (acc_addr a + acc_size a - 1) = ?x + ?n - 1"
  proof -
    have "unat (acc_addr a + acc_size a) = ?x + ?n" using bnd by (intro unat_add_lem [THEN iffD1]) simp
    moreover from this have "acc_addr a + acc_size a \<noteq> 0" using bnd by auto
    ultimately show ?thesis by (simp add: unat_minus_one)
  qed
  then have d: "unat (drop_bit b (acc_addr a + acc_size a - 1)) = (?x + ?n - 1) div 2 ^ b"
    "unat (drop_bit b (acc_addr a)) = ?x div 2 ^ b"
    by (simp_all add: unat_drop_bit)
  have mono: "?x div 2 ^ b \<le> (?x + ?n - 1) div 2 ^ b" using bnd by (intro div_le_mono) simp
  have "(?x + ?n - 1) div 2 ^ b \<le> (?x + (?n - 1) * 2 ^ b) div 2 ^ b"
    using bnd by (intro div_le_mono) (cases ?n, auto)
  also have "\<dots> = ?x div 2 ^ b + (?n - 1)" by simp
  finally have le: "(?x + ?n - 1) div 2 ^ b - ?x div 2 ^ b \<le> ?n - 1" by simp
  have "unat (drop_bit b (acc_addr a + acc_size a - 1) - drop_bit b (acc_addr a)) = (?x + ?n - 1) div 2 ^ b - ?x div 2 ^ b"
    using mono d by (simp add: unat_sub word_le_nat_alt)
  then show *: "unat (span b a) = (?x + ?n - 1) div 2 ^ b - ?x div 2 ^ b + 1"
    unfolding span_def using le bnd by (subst unat_inc) auto
  show "unat (span b a) \<le> ?n" unfolding * using le bnd by linarith
qed

text \<open>The granules of \<open>g\<close> bytes that an access touches, in ascending order, and the key of a user page in a TLB.\<close>

definition touched :: "nat \<Rightarrow> access_t \<Rightarrow> nat list" where
  "touched g a = sorted_list_of_set ((\<lambda>x. x div g) ` {unat (acc_addr a)..<unat (acc_addr a) + unat (acc_size a)})"

definition tlb_key :: "u16 \<Rightarrow> nat \<Rightarrow> u64" where
  "tlb_key asid p = of_nat (unat asid * 2 ^ 48 + p)"

lemma image_div_interval:
  assumes "0 < (g :: nat)" and "0 < n"
  shows "(\<lambda>x. x div g) ` {m..<m + n} = {m div g..(m + n - 1) div g}"
proof (intro equalityI subsetI)
  fix y assume y: "y \<in> {m div g..(m + n - 1) div g}"
  show "y \<in> (\<lambda>x. x div g) ` {m..<m + n}"
  proof (cases "y = m div g")
    case False
    then have "m div g < y" "y \<le> (m + n - 1) div g" using y by auto
    then have "m < y * g" "y * g \<le> m + n - 1"
      using assms(1) by (simp_all add: less_eq_div_iff_mult_less_eq div_less_iff_less_mult)
    moreover have "y * g div g = y" using assms(1) by simp
    ultimately show ?thesis using assms(2) by (intro image_eqI [of _ _ "y * g"]) auto
  qed (use assms in auto)
next
  fix y assume "y \<in> (\<lambda>x. x div g) ` {m..<m + n}"
  then obtain x where "y = x div g" "m \<le> x" "x \<le> m + n - 1" by auto
  then show "y \<in> {m div g..(m + n - 1) div g}" by (auto intro: div_le_mono)
qed

lemma touched_span:
  assumes "user_access a" and "0 < b"
  shows "touched (2 ^ b) a = map (\<lambda>j. unat (acc_addr a) div 2 ^ b + j) [0..<unat (span b a)]"
proof -
  let ?m = "unat (acc_addr a)" and ?n = "unat (acc_size a)"
  have n: "0 < ?n" using assms by (simp add: user_access_def)
  have "(\<lambda>x. x div 2 ^ b) ` {?m..<?m + ?n} = {?m div 2 ^ b..<Suc ((?m + ?n - 1) div 2 ^ b)}"
    unfolding atLeastLessThanSuc_atLeastAtMost using n by (intro image_div_interval) simp_all
  then have "touched (2 ^ b) a = [?m div 2 ^ b..<Suc ((?m + ?n - 1) div 2 ^ b)]"
    unfolding touched_def by (simp only: sorted_list_of_set_range)
  also have "Suc ((?m + ?n - 1) div 2 ^ b) = unat (span b a) + ?m div 2 ^ b"
    unfolding span_user(1) [OF assms] using n by (simp add: div_le_mono)
  finally show ?thesis by (simp add: map_add_upt add.commute)
qed

lemma mix_user_page:
  assumes "user_access a"
  shows "mixpageasid (signed_drop_bit ARCH_PAGE_BITS (acc_addr a)) asid = Some (tlb_key asid (unat (acc_addr a) div 2 ^ ARCH_PAGE_BITS))"
proof -
  let ?w = "acc_addr a" and ?h = "push_bit 48 (ucast asid) :: u64"
  have "unat ?w < 2 ^ 47" using assms by (auto simp: user_access_def)
  then have "take_bit 47 (unat ?w) = unat ?w" by (rule take_bit_nat_eq_self)
  then have "unat (take_bit 47 ?w) = unat ?w" by (simp add: unsigned_take_bit_eq)
  then have w: "take_bit 47 ?w = ?w" by (simp add: word_unat_eq_iff)
  have hi: "\<not> bit ?w n" if "47 \<le> n" for n
    using that by (subst w [symmetric]) (simp add: bit_take_bit_iff)
  have s: "signed_drop_bit 12 ?w = drop_bit 12 ?w"
    by (rule bit_word_eqI) (auto simp: bit_drop_bit_eq bit_signed_drop_bit_iff hi)
  have z: "drop_bit 48 (drop_bit 12 ?w) = 0" by (rule bit_word_eqI) (simp add: bit_drop_bit_eq hi)
  have "?h AND drop_bit 12 ?w = 0"
    by (rule bit_word_eqI) (auto simp: bit_and_iff bit_push_bit_iff bit_drop_bit_eq hi)
  then have "?h OR drop_bit 12 ?w = ?h + drop_bit 12 ?w" using word_plus_and_or [of ?h "drop_bit 12 ?w"] by simp
  also have "\<dots> = of_nat (unat asid * 2 ^ 48) + of_nat (unat ?w div 2 ^ 12)"
  proof -
    have "drop_bit 12 ?w = of_nat (unat (drop_bit 12 ?w))" by simp
    also have "unat (drop_bit 12 ?w) = unat ?w div 2 ^ 12" by (rule unat_drop_bit)
    finally show ?thesis by (simp add: push_bit_eq_mult mult.commute)
  qed
  finally show ?thesis using mixpageasid_user [OF z, of asid] by (simp add: s ARCH_PAGE_BITS_def tlb_key_def)
qed

text \<open>The first levels that an access of a type uses.\<close>

definition l1tlb_of :: "access_type \<Rightarrow> sim \<Rightarrow> cache_t" where
  "l1tlb_of ty s = (if ty = DATA_ACCESS then l1dtlb s else l1itlb s)"

definition l1cache_of :: "access_type \<Rightarrow> sim \<Rightarrow> cache_t" where
  "l1cache_of ty s = (if ty = DATA_ACCESS then l1d s else l1i s)"

definition same_caches :: "access_type \<Rightarrow> sim \<Rightarrow> sim \<Rightarrow> bool" where
  "same_caches ty s s' \<longleftrightarrow> l1tlb_of ty s' = l1tlb_of ty s \<and> l2stlb s' = l2stlb s \<and> l1cache_of ty s' = l1cache_of ty s \<and> llc s' = llc s \<and>
     mode s' = mode s"

lemmas side_defs = l1tlb_of_def l1cache_of_def same_caches_def mode_def tlb_counters_def line_counters_def

lemma access_tlb_exact:
  assumes ok: "sim_ok s" and a: "user_access a"
  shows "\<exists>s' k. access_tlb a asid ty s = Some s' \<and> sim_ok s' \<and> same_caches ty s s' \<and> line_counters ty s' = line_counters ty s \<and>
    arrays s' (array (l1cache_of ty s)) = arrays s (array (l1cache_of ty s)) \<and> arrays s' (array (llc s)) = arrays s (array (llc s)) \<and>
    two_level (l1tlb_of ty s) (l2stlb s) (map (tlb_key asid) (touched 4096 a)) (contents (l1tlb_of ty s) (arrays s), contents (l2stlb s) (arrays s)) =
      (k, contents (l1tlb_of ty s) (arrays s'), contents (l2stlb s) (arrays s')) \<and>
    tlb_counters ty s' = count_misses (warmup s) k (tlb_counters ty s)"
proof -
  let ?p = "tlb_key asid (unat (acc_addr a) div 2 ^ ARCH_PAGE_BITS)"
  let ?acc = "\<lparr>acc_addr = ?p, acc_size = span ARCH_PAGE_BITS a\<rparr>"
  let ?c = "l1tlb_of ty s" and ?l = "fst (tlb_counters ty s)" and ?gs = "map (tlb_key asid) (touched 4096 a)"
  have sp: "unat (span ARCH_PAGE_BITS a) < 2 ^ 32"
    using span_user(2) [OF a, of ARCH_PAGE_BITS] a by (auto simp: user_access_def config_defs)
  have gs: "?gs = map (\<lambda>j. acc_addr ?acc + of_nat j) [0..<unat (acc_size ?acc)]"
    using touched_span [OF a, of ARCH_PAGE_BITS] by (simp add: ARCH_PAGE_BITS_def tlb_key_def)
  have c: "cache_ok ?c (arrays s)" "cache_ok (l2stlb s) (arrays s)" "array ?c \<noteq> array (l2stlb s)" "unat (acc_size ?acc) < 2 ^ 32"
    using ok sp by (auto simp: sim_ok_def l1tlb_of_def)
  obtain m1 m2 st' k where h: "cycle_helper (warmup s) ?acc ?c ?l (l2stlb s) (l2_stlb_misses s) False (arrays s) = Some (m1, m2, st')"
    "cache_ok ?c st'" "cache_ok (l2stlb s) st'" "\<And>x. x \<noteq> array ?c \<Longrightarrow> x \<noteq> array (l2stlb s) \<Longrightarrow> st' x = arrays s x"
    "two_level ?c (l2stlb s) ?gs (contents ?c (arrays s), contents (l2stlb s) (arrays s)) = (k, contents ?c st', contents (l2stlb s) st')"
    "(m1, m2) = count_misses (warmup s) k (?l, l2_stlb_misses s)"
    using cycle_helper_exact [OF c gs, of "warmup s" ?l "l2_stlb_misses s"] by blast
  have keep: "cache_ok c st'" if "cache_ok c (arrays s)" "array c \<noteq> array ?c" "array c \<noteq> array (l2stlb s)" for c
    using that h(4) cache_ok_cong [of st' c "arrays s"] by auto
  have other: "st' (array (l1cache_of ty s)) = arrays s (array (l1cache_of ty s))" "st' (array (llc s)) = arrays s (array (llc s))"
    using ok h(4) by (auto simp: sim_ok_def l1cache_of_def l1tlb_of_def)
  show ?thesis
  proof (cases ty)
    case INST_ACCESS
    let ?s = "s\<lparr>l1i_tlb_misses := m1, l2_stlb_misses := m2, arrays := st'\<rparr>"
    have "access_tlb a asid ty s = Some ?s"
      using h(1) INST_ACCESS by (simp add: access_tlb_def mix_user_page [OF a] l1tlb_of_def tlb_counters_def)
    moreover have "sim_ok ?s"
      using INST_ACCESS h(2,3) ok keep [of "l1dtlb s"] keep [of "l1i s"] keep [of "l1d s"] keep [of "llc s"]
      by (simp add: sim_ok_def l1tlb_of_def)
    ultimately show ?thesis
      using INST_ACCESS h(5,6) other by (intro exI [of _ ?s] exI [of _ k]) (simp add: side_defs)
  next
    case DATA_ACCESS
    let ?s = "s\<lparr>l1d_tlb_misses := m1, l2_stlb_misses := m2, arrays := st'\<rparr>"
    have "access_tlb a asid ty s = Some ?s"
      using h(1) DATA_ACCESS by (simp add: access_tlb_def mix_user_page [OF a] l1tlb_of_def tlb_counters_def)
    moreover have "sim_ok ?s"
      using DATA_ACCESS h(2,3) ok keep [of "l1itlb s"] keep [of "l1i s"] keep [of "l1d s"] keep [of "llc s"]
      by (simp add: sim_ok_def l1tlb_of_def)
    ultimately show ?thesis
      using DATA_ACCESS h(5,6) other by (intro exI [of _ ?s] exI [of _ k]) (simp add: side_defs)
  qed
qed

lemma access_lines_exact:
  assumes ok: "sim_ok s" and a: "user_access a"
  shows "\<exists>s' k. access_lines a ty s = Some s' \<and> sim_ok s' \<and> same_caches ty s s' \<and> tlb_counters ty s' = tlb_counters ty s \<and>
    arrays s' (array (l1tlb_of ty s)) = arrays s (array (l1tlb_of ty s)) \<and> arrays s' (array (l2stlb s)) = arrays s (array (l2stlb s)) \<and>
    two_level (l1cache_of ty s) (llc s) (map of_nat (touched 64 a)) (contents (l1cache_of ty s) (arrays s), contents (llc s) (arrays s)) =
      (k, contents (l1cache_of ty s) (arrays s'), contents (llc s) (arrays s')) \<and>
    line_counters ty s' = count_misses (warmup s) k (line_counters ty s)"
proof -
  let ?acc = "\<lparr>acc_addr = drop_bit CACHE_LINE_BITS (acc_addr a), acc_size = span CACHE_LINE_BITS a\<rparr>"
  let ?c = "l1cache_of ty s" and ?l = "fst (line_counters ty s)" and ?gs = "map of_nat (touched 64 a) :: u64 list"
  have sp: "unat (span CACHE_LINE_BITS a) < 2 ^ 32"
    using span_user(2) [OF a, of CACHE_LINE_BITS] a by (auto simp: user_access_def config_defs)
  have base: "drop_bit 6 (acc_addr a) = of_nat (unat (acc_addr a) div 64)"
  proof -
    have "drop_bit 6 (acc_addr a) = of_nat (unat (drop_bit 6 (acc_addr a)))" by simp
    also have "unat (drop_bit 6 (acc_addr a)) = unat (acc_addr a) div 2 ^ 6" by (rule unat_drop_bit)
    finally show ?thesis by simp
  qed
  have gs: "?gs = map (\<lambda>j. acc_addr ?acc + of_nat j) [0..<unat (acc_size ?acc)]"
    using touched_span [OF a, of CACHE_LINE_BITS] by (simp add: CACHE_LINE_BITS_def base)
  have c: "cache_ok ?c (arrays s)" "cache_ok (llc s) (arrays s)" "array ?c \<noteq> array (llc s)" "unat (acc_size ?acc) < 2 ^ 32"
    using ok sp by (auto simp: sim_ok_def l1cache_of_def)
  obtain m1 m2 st' k where h: "cycle_helper (warmup s) ?acc ?c ?l (llc s) (llc_misses s) False (arrays s) = Some (m1, m2, st')"
    "cache_ok ?c st'" "cache_ok (llc s) st'" "\<And>x. x \<noteq> array ?c \<Longrightarrow> x \<noteq> array (llc s) \<Longrightarrow> st' x = arrays s x"
    "two_level ?c (llc s) ?gs (contents ?c (arrays s), contents (llc s) (arrays s)) = (k, contents ?c st', contents (llc s) st')"
    "(m1, m2) = count_misses (warmup s) k (?l, llc_misses s)"
    using cycle_helper_exact [OF c gs, of "warmup s" ?l "llc_misses s"] by blast
  have keep: "cache_ok c st'" if "cache_ok c (arrays s)" "array c \<noteq> array ?c" "array c \<noteq> array (llc s)" for c
    using that h(4) cache_ok_cong [of st' c "arrays s"] by auto
  have other: "st' (array (l1tlb_of ty s)) = arrays s (array (l1tlb_of ty s))" "st' (array (l2stlb s)) = arrays s (array (l2stlb s))"
    using ok h(4) by (auto simp: sim_ok_def l1cache_of_def l1tlb_of_def)
  show ?thesis
  proof (cases ty)
    case INST_ACCESS
    let ?s = "s\<lparr>l1i_misses := m1, llc_misses := m2, arrays := st'\<rparr>"
    have "access_lines a ty s = Some ?s"
      using h(1) INST_ACCESS by (simp add: access_lines_def l1cache_of_def line_counters_def CACHE_INCLUSIVE_def)
    moreover have "sim_ok ?s"
      using INST_ACCESS h(2,3) ok keep [of "l1itlb s"] keep [of "l1dtlb s"] keep [of "l1d s"] keep [of "l2stlb s"]
      by (simp add: sim_ok_def l1cache_of_def)
    ultimately show ?thesis
      using INST_ACCESS h(5,6) other by (intro exI [of _ ?s] exI [of _ k]) (simp add: side_defs)
  next
    case DATA_ACCESS
    let ?s = "s\<lparr>l1d_misses := m1, llc_misses := m2, arrays := st'\<rparr>"
    have "access_lines a ty s = Some ?s"
      using h(1) DATA_ACCESS by (simp add: access_lines_def l1cache_of_def line_counters_def CACHE_INCLUSIVE_def)
    moreover have "sim_ok ?s"
      using DATA_ACCESS h(2,3) ok keep [of "l1itlb s"] keep [of "l1dtlb s"] keep [of "l1i s"] keep [of "l2stlb s"]
      by (simp add: sim_ok_def l1cache_of_def)
    ultimately show ?thesis
      using DATA_ACCESS h(5,6) other by (intro exI [of _ ?s] exI [of _ k]) (simp add: side_defs)
  qed
qed

lemma two_level_bound: "two_level c1 c2 gs AB = ((m1, m2), AB') \<Longrightarrow> m2 \<le> m1 \<and> m1 \<le> length gs"
proof (induction c1 c2 gs AB arbitrary: m1 m2 rule: two_level.induct)
  case (2 c1 c2 g gs A B)
  then show ?case by (fastforce split: if_splits prod.splits)
qed auto

lemma cycle_access_exact:
  assumes ok: "sim_ok s" and en: "instrumentation_enable s" and a: "user_access a"
  shows "\<exists>s' t l. cycle_access a asid ty s = Some s' \<and> sim_ok s' \<and> mode s' = mode s \<and>
    two_level (l1tlb_of ty s) (l2stlb s) (map (tlb_key asid) (touched 4096 a)) (contents (l1tlb_of ty s) (arrays s), contents (l2stlb s) (arrays s)) =
      (t, contents (l1tlb_of ty s) (arrays s'), contents (l2stlb s) (arrays s')) \<and>
    two_level (l1cache_of ty s) (llc s) (map of_nat (touched 64 a)) (contents (l1cache_of ty s) (arrays s), contents (llc s) (arrays s)) =
      (l, contents (l1cache_of ty s) (arrays s'), contents (llc s) (arrays s')) \<and>
    tlb_counters ty s' = count_misses (warmup s) t (tlb_counters ty s) \<and> line_counters ty s' = count_misses (warmup s) l (line_counters ty s)"
proof -
  let ?s = "count_insts a ty s"
  have f: "l1tlb_of ty ?s = l1tlb_of ty s" "l2stlb ?s = l2stlb s" "l1cache_of ty ?s = l1cache_of ty s" "llc ?s = llc s" "arrays ?s = arrays s"
    by (simp_all add: count_insts_def l1tlb_of_def l1cache_of_def)
  obtain s1 t where 1: "access_tlb a asid ty ?s = Some s1" "sim_ok s1" "same_caches ty s s1" "line_counters ty s1 = line_counters ty s"
    "arrays s1 (array (l1cache_of ty s)) = arrays s (array (l1cache_of ty s))" "arrays s1 (array (llc s)) = arrays s (array (llc s))"
    "two_level (l1tlb_of ty s) (l2stlb s) (map (tlb_key asid) (touched 4096 a)) (contents (l1tlb_of ty s) (arrays s), contents (l2stlb s) (arrays s)) =
      (t, contents (l1tlb_of ty s) (arrays s1), contents (l2stlb s) (arrays s1))"
    "tlb_counters ty s1 = count_misses (warmup s) t (tlb_counters ty s)"
    using access_tlb_exact [of ?s a asid ty] ok a by (auto simp: count_insts_frame f same_caches_def)
  have c1: "l1tlb_of ty s1 = l1tlb_of ty s" "l2stlb s1 = l2stlb s" "l1cache_of ty s1 = l1cache_of ty s" "llc s1 = llc s" "mode s1 = mode s" "warmup s1 = warmup s"
    using 1(3) by (auto simp: same_caches_def mode_def)
  have c2: "contents (l1cache_of ty s) (arrays s1) = contents (l1cache_of ty s) (arrays s)" "contents (llc s) (arrays s1) = contents (llc s) (arrays s)"
    using 1(5,6) by (auto intro: contents_cong)
  obtain s2 l where 2: "access_lines a ty s1 = Some s2" "sim_ok s2" "mode s2 = mode s" "tlb_counters ty s2 = tlb_counters ty s1"
    "arrays s2 (array (l1tlb_of ty s)) = arrays s1 (array (l1tlb_of ty s))" "arrays s2 (array (l2stlb s)) = arrays s1 (array (l2stlb s))"
    "two_level (l1cache_of ty s) (llc s) (map of_nat (touched 64 a)) (contents (l1cache_of ty s) (arrays s), contents (llc s) (arrays s)) =
      (l, contents (l1cache_of ty s) (arrays s2), contents (llc s) (arrays s2))"
    "line_counters ty s2 = count_misses (warmup s) l (line_counters ty s)"
    using access_lines_exact [OF 1(2) a, of ty] 1(4) c1 c2 by (auto simp: same_caches_def)
  have "contents (l1tlb_of ty s) (arrays s2) = contents (l1tlb_of ty s) (arrays s1)" "contents (l2stlb s) (arrays s2) = contents (l2stlb s) (arrays s1)"
    using 2(5,6) by (auto intro: contents_cong)
  moreover have "cycle_access a asid ty s = Some s2" using 1(1) 2(1) en by (simp add: cycle_access_def)
  ultimately show ?thesis using 1 2 by (intro exI [of _ s2] exI [of _ t] exI [of _ l]) simp
qed

section \<open>Properties\<close>

text \<open>A small cache of two sets with two ways, for the witnesses.\<close>

definition small_cache :: cache_t where
  "small_cache = \<lparr>setmask = 1, sets = 2, assoc = 2, tagshift = 1, array = array_l1d\<rparr>"

definition small_arrays :: "array_id \<Rightarrow> u64 list" where
  "small_arrays a = [5, 6, 7, 8]"

lemma small_cache_ok: "cache_ok small_cache small_arrays"
proof -
  have "geometry 1 small_cache" by (simp add: geometry_def small_cache_def)
  then show ?thesis unfolding cache_ok_def by (auto simp: small_cache_def small_arrays_def)
qed

text \<open>C30: an access to a cache or TLB is one step of least-recently-used replacement on the set that the low
  address bits select: a tag that is present moves to the front, another one takes the front and pushes
  out the last; the result is 0 for a hit and the tag that fell out, or 1, for a miss; the other sets
  and arrays are unchanged.\<close>
theorem access_is_lru:
  assumes "cache_ok c st"
  shows "access_cache c addr st =
    (let i = set_index c addr; t = tag_of c addr; ws = ways c (st (array c)) i in
     Some (lru_result t ws, st(array c := put_ways c i (lru_touch t ws) (st (array c)))))"
  unfolding Let_def by (rule access_cache_lru [OF assms refl refl refl])

theorem access_is_lru_witness:
  "access_cache small_cache 13 small_arrays = Some (8, small_arrays(array_l1d := [5, 6, 6, 7]))"
proof -
  have "access_cache small_cache 13 small_arrays =
      (let i = set_index small_cache 13; t = tag_of small_cache 13; ws = ways small_cache (small_arrays (array small_cache)) i in
       Some (lru_result t ws, small_arrays(array small_cache := put_ways small_cache i (lru_touch t ws) (small_arrays (array small_cache)))))"
    by (rule access_is_lru [OF small_cache_ok])
  then show ?thesis
    by (simp add: small_cache_def small_arrays_def set_index_def tag_of_def ways_def lru_result_def lru_touch_def put_ways_def Let_def)
qed

text \<open>After any sequence of accesses, every set holds its most recently used tags in order: the first \<open>assoc\<close>
  entries of the list that moves every accessed tag to the front.\<close>
theorem lru_recency:
  assumes "cache_ok c st"
  shows "\<exists>rs st'. access_all c as st = Some (rs, st') \<and> cache_ok c st' \<and>
    (\<forall>j<unat (sets c). ways c (st' (array c)) j =
       take (unat (assoc c)) (fold mtf (map (tag_of c) [a \<leftarrow> as. set_index c a = j]) (ways c (st (array c)) j)))"
proof -
  obtain rs st' where r: "access_all c as st = Some (rs, st')" "cache_ok c st'"
    "\<forall>j<unat (sets c). ways c (st' (array c)) j = fold lru_touch (map (tag_of c) [a \<leftarrow> as. set_index c a = j]) (ways c (st (array c)) j)"
    using access_all_ways [OF assms] by blast
  have a: "0 < unat (assoc c)" using assms by (auto simp: cache_ok_def geometry_def)
  have "fold lru_touch ts (ways c (st (array c)) j) = take (unat (assoc c)) (fold mtf ts (ways c (st (array c)) j))"
    if "j < unat (sets c)" for ts j
    using lru_stack_fold [OF a, of "ways c (st (array c)) j" ts] length_ways [OF assms that] by simp
  with r show ?thesis by auto
qed

theorem lru_recency_witness:
  "\<exists>rs st'. access_all small_cache [4, 2, 4] small_arrays = Some (rs, st') \<and> cache_ok small_cache st' \<and>
    (\<forall>j<unat (sets small_cache). ways small_cache (st' (array small_cache)) j =
       take (unat (assoc small_cache)) (fold mtf (map (tag_of small_cache) [a \<leftarrow> [4, 2, 4]. set_index small_cache a = j])
         (ways small_cache (small_arrays (array small_cache)) j)))"
  by (rule lru_recency [OF small_cache_ok])

text \<open>C32: initialisation computes consistent set masks, tag shifts and array sizes for the six arrays, so that
  no access leaves its array.\<close>
theorem init_consistent: "\<exists>s'. init_tlbcache s = Some s' \<and> sim_ok s'"
  by (rule init_tlbcache_ok)

text \<open>C31: with consistent arrays and instrumentation on, an access to user memory (not empty, of less than \<open>2\<^sup>32\<close> bytes, and below
  address \<open>2\<^sup>47\<close>) is simulated without a fault or a failed assertion, keeps the arrays consistent, and
  has the effect of two-level least-recently-used replacement: on the TLBs for the 4096-byte pages, and on the
  caches for the 64-byte lines, that its bytes lie in, in ascending order. The counters of each level grow by
  exactly the misses of that level, outside warm-up, and not at all during it; so a first level misses at most
  once per page or line, and a second level at most as often as its first.\<close>
theorem cycle_access_counts:
  assumes "sim_ok s" and "instrumentation_enable s" and "user_access a"
  shows "\<exists>s' t l. cycle_access a asid ty s = Some s' \<and> sim_ok s' \<and>
    two_level (l1tlb_of ty s) (l2stlb s) (map (tlb_key asid) (touched 4096 a)) (contents (l1tlb_of ty s) (arrays s), contents (l2stlb s) (arrays s)) =
      (t, contents (l1tlb_of ty s) (arrays s'), contents (l2stlb s) (arrays s')) \<and>
    two_level (l1cache_of ty s) (llc s) (map of_nat (touched 64 a)) (contents (l1cache_of ty s) (arrays s), contents (llc s) (arrays s)) =
      (l, contents (l1cache_of ty s) (arrays s'), contents (llc s) (arrays s')) \<and>
    tlb_counters ty s' = count_misses (warmup s) t (tlb_counters ty s) \<and> line_counters ty s' = count_misses (warmup s) l (line_counters ty s) \<and>
    snd t \<le> fst t \<and> fst t \<le> length (touched 4096 a) \<and> snd l \<le> fst l \<and> fst l \<le> length (touched 64 a)"
proof -
  obtain s' t l where c: "cycle_access a asid ty s = Some s'" "sim_ok s'"
    "two_level (l1tlb_of ty s) (l2stlb s) (map (tlb_key asid) (touched 4096 a)) (contents (l1tlb_of ty s) (arrays s), contents (l2stlb s) (arrays s)) =
      (t, contents (l1tlb_of ty s) (arrays s'), contents (l2stlb s) (arrays s'))"
    "two_level (l1cache_of ty s) (llc s) (map of_nat (touched 64 a)) (contents (l1cache_of ty s) (arrays s), contents (llc s) (arrays s)) =
      (l, contents (l1cache_of ty s) (arrays s'), contents (llc s) (arrays s'))"
    "tlb_counters ty s' = count_misses (warmup s) t (tlb_counters ty s)" "line_counters ty s' = count_misses (warmup s) l (line_counters ty s)"
    using cycle_access_exact [OF assms] by blast
  have "snd t \<le> fst t \<and> fst t \<le> length (touched 4096 a)" "snd l \<le> fst l \<and> fst l \<le> length (touched 64 a)"
    using two_level_bound [of _ _ _ _ "fst t" "snd t"] two_level_bound [of _ _ _ _ "fst l" "snd l"] c(3,4)
    by (metis prod.collapse length_map)+
  with c show ?thesis by blast
qed

text \<open>An access of 32 bytes across the end of a page, in a fresh simulator: two pages and two lines.\<close>

lemma demo_touched: "touched 4096 \<lparr>acc_addr = 0x7ff0, acc_size = 32\<rparr> = [7, 8]" "touched 64 \<lparr>acc_addr = 0x7ff0, acc_size = 32\<rparr> = [511, 512]"
proof -
  have u: "user_access \<lparr>acc_addr = 0x7ff0, acc_size = 32\<rparr>" by (simp add: user_access_def)
  show "touched 4096 \<lparr>acc_addr = 0x7ff0, acc_size = 32\<rparr> = [7, 8]"
    using touched_span [OF u, of 12] span_user(1) [OF u, of 12] by (simp add: upt_rec)
  show "touched 64 \<lparr>acc_addr = 0x7ff0, acc_size = 32\<rparr> = [511, 512]"
    using touched_span [OF u, of 6] span_user(1) [OF u, of 6] by (simp add: upt_rec)
qed

definition ready :: "sim \<Rightarrow> sim" where
  "ready s = s\<lparr>instrumentation_enable := True\<rparr>"

lemma fresh_caches:
  assumes "init_tlbcache s = Some s'"
  shows "geometry 0 (l1dtlb s') \<and> geometry 8 (l2stlb s') \<and> geometry 6 (l1d s') \<and> geometry 14 (llc s')"
    "array (l1dtlb s') = array_l1dtlb \<and> array (l2stlb s') = array_l2stlb \<and> array (l1d s') = array_l1d \<and> array (llc s') = array_llc"
    "arrays s' = zeroed \<and> \<not> warmup s' \<and> l1d_tlb_misses s' = l1d_tlb_misses s \<and> l2_stlb_misses s' = l2_stlb_misses s \<and>
     l1d_misses s' = l1d_misses s \<and> llc_misses s' = llc_misses s"
proof -
  have geo: "L1_D_TLB_SETS = 2 ^ 0" "L2_TLB_SETS = 2 ^ 8" "L1_D_SETS = 2 ^ 6" "LLC_SETS = 2 ^ 14"
    by (simp_all add: config_defs drop_bit_nat_def)
  obtain c1 c2 c3 c4 c5 c6 where c: "mk_cache L1_D_TLB_SETS L1_D_TLB_ASSOC array_l1dtlb = Some c2" "mk_cache L2_TLB_SETS L2_TLB_ASSOC array_l2stlb = Some c3"
    "mk_cache L1_D_SETS L1_D_ASSOC array_l1d = Some c5" "mk_cache LLC_SETS LLC_ASSOC array_llc = Some c6"
    and s': "s' = s\<lparr>l1itlb := c1, l1dtlb := c2, l2stlb := c3, l1i := c4, l1d := c5, llc := c6, arrays := zeroed,
            user_insts := 0, kern_insts := 0, instrumentation_enable := False, warmup := False\<rparr>"
    using assms unfolding init_tlbcache_def by (auto simp: bind_eq_Some_conv)
  have "geometry 0 c2" "array c2 = array_l1dtlb"
    using mk_cache_pow [of 0 L1_D_TLB_ASSOC array_l1dtlb] c(1) unfolding geo by (auto simp: config_defs)
  moreover have "geometry 8 c3" "array c3 = array_l2stlb"
    using mk_cache_pow [of 8 L2_TLB_ASSOC array_l2stlb] c(2) unfolding geo by (auto simp: config_defs)
  moreover have "geometry 6 c5" "array c5 = array_l1d"
    using mk_cache_pow [of 6 L1_D_ASSOC array_l1d] c(3) unfolding geo by (auto simp: config_defs)
  moreover have "geometry 14 c6" "array c6 = array_llc"
    using mk_cache_pow [of 14 LLC_ASSOC array_llc] c(4) unfolding geo by (auto simp: config_defs)
  ultimately show "geometry 0 (l1dtlb s') \<and> geometry 8 (l2stlb s') \<and> geometry 6 (l1d s') \<and> geometry 14 (llc s')"
    "array (l1dtlb s') = array_l1dtlb \<and> array (l2stlb s') = array_l2stlb \<and> array (l1d s') = array_l1d \<and> array (llc s') = array_llc"
    "arrays s' = zeroed \<and> \<not> warmup s' \<and> l1d_tlb_misses s' = l1d_tlb_misses s \<and> l2_stlb_misses s' = l2_stlb_misses s \<and>
     l1d_misses s' = l1d_misses s \<and> llc_misses s' = llc_misses s"
    by (simp_all add: s')
qed

text \<open>A cold cache holds the tag 0 only.\<close>

lemma cold_tags: "x \<in> set (contents c zeroed i) \<Longrightarrow> x = 0"
  by (auto simp: contents_def ways_def zeroed_def split: if_splits array_id.splits dest!: in_set_takeD in_set_dropD)

lemma cold_absent:
  assumes "tag_of c g \<noteq> 0"
  shows "\<not> present c g (contents c zeroed)" and "tag_of c g \<noteq> tag_of c h \<Longrightarrow> \<not> present c g (touch c h (contents c zeroed))"
  using assms cold_tags [of "tag_of c g" c] cold_tags [of "tag_of c h" c]
  by (auto simp: present_def touch_def lru_touch_def split: if_splits dest!: in_set_butlastD)

theorem cycle_access_counts_witness:
  "\<forall>s0. \<exists>s s'. init_tlbcache s0 = Some s \<and> cycle_access \<lparr>acc_addr = 0x7ff0, acc_size = 32\<rparr> 1 DATA_ACCESS (ready s) = Some s' \<and>
     l1d_tlb_misses s' = l1d_tlb_misses s0 + 2 \<and> l2_stlb_misses s' = l2_stlb_misses s0 + 2 \<and> l1d_misses s' = l1d_misses s0 + 2"
proof
  fix s0
  obtain s where s: "init_tlbcache s0 = Some s" "sim_ok s" using init_tlbcache_ok by blast
  note f = fresh_caches [OF s(1)]
  have r: "sim_ok (ready s)" "instrumentation_enable (ready s)" "user_access \<lparr>acc_addr = 0x7ff0, acc_size = 32\<rparr>"
    using s(2) by (simp_all add: ready_def sim_ok_def user_access_def)
  have same: "l1tlb_of DATA_ACCESS (ready s) = l1dtlb s" "l1cache_of DATA_ACCESS (ready s) = l1d s" "arrays (ready s) = zeroed"
    "l2stlb (ready s) = l2stlb s" "llc (ready s) = llc s" "\<not> warmup (ready s)"
    using f(3) by (simp_all add: ready_def l1tlb_of_def l1cache_of_def)
  have keys: "tlb_key 1 7 = 0x1000000000007" "tlb_key 1 8 = 0x1000000000008" by (simp_all add: tlb_key_def)
  have tags: "tag_of (l1dtlb s) g = g" "tag_of (l2stlb s) g = drop_bit 8 g" "tag_of (l1d s) g = drop_bit 6 g" for g
    using f(1) by (simp_all add: tag_of_def geometry_def)
  have sets: "set_index (l2stlb s) g = unat (g AND mask 8)" for g using f(1) by (simp add: set_index_def geometry_def)
  note ab = cold_absent [of "l1dtlb s"] cold_absent [of "l2stlb s"] cold_absent [of "l1d s"]
  obtain s' t l where c: "cycle_access \<lparr>acc_addr = 0x7ff0, acc_size = 32\<rparr> 1 DATA_ACCESS (ready s) = Some s'"
    "two_level (l1dtlb s) (l2stlb s) [tlb_key 1 7, tlb_key 1 8] (contents (l1dtlb s) zeroed, contents (l2stlb s) zeroed) =
      (t, contents (l1dtlb s) (arrays s'), contents (l2stlb s) (arrays s'))"
    "two_level (l1d s) (llc s) [511, 512] (contents (l1d s) zeroed, contents (llc s) zeroed) =
      (l, contents (l1d s) (arrays s'), contents (llc s) (arrays s'))"
    "tlb_counters DATA_ACCESS s' = count_misses False t (tlb_counters DATA_ACCESS (ready s))"
    "line_counters DATA_ACCESS s' = count_misses False l (line_counters DATA_ACCESS (ready s))"
    using cycle_access_counts [OF r, of 1 DATA_ACCESS] by (auto simp: same demo_touched)
  have "\<not> present (l2stlb s) (tlb_key 1 8) (touch (l2stlb s) (tlb_key 1 7) (contents (l2stlb s) zeroed))"
    using cold_tags [of "tag_of (l2stlb s) (tlb_key 1 8)" "l2stlb s"]
    by (auto simp: present_def touch_def keys tags sets mask_eq_exp_minus_1)
  then have "t = (2, 2)" using c(2) ab(1,2) ab(3) by (auto simp: keys tags)
  moreover have "fst l = 2" using c(3) ab(5,6) by (auto simp: tags split: prod.splits)
  ultimately show "\<exists>s s'. init_tlbcache s0 = Some s \<and> cycle_access \<lparr>acc_addr = 0x7ff0, acc_size = 32\<rparr> 1 DATA_ACCESS (ready s) = Some s' \<and>
     l1d_tlb_misses s' = l1d_tlb_misses s0 + 2 \<and> l2_stlb_misses s' = l2_stlb_misses s0 + 2 \<and> l1d_misses s' = l1d_misses s0 + 2"
    using s(1) c(1,4,5) f(3)
    by (intro exI [of _ s] exI [of _ s']) (simp add: tlb_counters_def line_counters_def count_misses_def ready_def)
qed

text \<open>TLB entries of different compartments never coincide for user pages: the mixed page number
  determines both the page and the compartment.\<close>
theorem asid_separates_user_pages:
  assumes "drop_bit 48 p = 0" and "drop_bit 48 q = 0" and "mixpageasid p a = mixpageasid q b"
  shows "p = q \<and> a = b"
  using mash_inj [OF assms(1,2)] assms by (simp add: mixpageasid_user)

theorem asid_separates_user_pages_witness: "mixpageasid 0x1234 3 = mixpageasid 0x1234 3 \<and> (0x1234 :: u64) = 0x1234 \<and> (3 :: u16) = 3"
proof -
  have "drop_bit 48 (0x1234 :: u64) = 0" by simp
  from asid_separates_user_pages [OF this this refl] show ?thesis by simp
qed

text \<open>For kernel pages, whose number has its 16 top bits set, the mix ignores the compartment, so that the
  compartments share these TLB entries.\<close>
theorem kernel_pages_shared:
  assumes "drop_bit 48 p = 0xffff"
  shows "mixpageasid p a = Some p"
  by (rule mixpageasid_kernel [OF assms])

theorem kernel_pages_shared_witness: "mixpageasid 0xffff000000000001 3 = Some 0xffff000000000001"
  by (rule kernel_pages_shared) simp

text \<open>\<open>evict\<close> cannot run, because it starts with an assertion that fails; and if the tag is not in the set,
  what follows the assertion would clear the last way of the set, another tag's entry.\<close>
theorem evict_clears_last_way:
  assumes "cache_ok c st" and "tag_of c addr \<notin> set (ways c (st (array c)) (set_index c addr))"
  shows "evict c addr st = None \<and>
    evict_body c addr st =
      Some (st(array c := (st (array c))[unat (assoc c) * set_index c addr + (unat (assoc c) - 1) := 0]))"
proof -
  obtain k where g: "geometry k c" using assms(1) by (auto simp: cache_ok_def)
  have i: "set_index c addr < unat (sets c)" using set_index_less [OF g] g by (simp add: geometry_def)
  note b = ways_bound [OF assms(1) i]
  have n: "0 < unat (assoc c)" using g by (simp add: geometry_def)
  have "find_idx (unat (assoc c)) (st (array c)) (unat (assoc c) * set_index c addr) 0 (tag_of c addr) = Some (unat (assoc c))"
    using find_idx_takeWhile [of "unat (assoc c) * set_index c addr" 0 "unat (assoc c)" "st (array c)" "tag_of c addr"]
      takeWhile_length_iff [of "tag_of c addr" "ways c (st (array c)) (set_index c addr)"] assms(2) b length_ways [OF assms(1) i]
    by (simp add: ways_def)
  then show ?thesis
    using b n by (simp add: evict_def assert_that_def evict_body_def set_base_eq [OF g] tag_of_def [symmetric] Let_def wr_def)
qed

theorem evict_clears_last_way_witness:
  "evict small_cache 13 small_arrays = None \<and> evict_body small_cache 13 small_arrays = Some (small_arrays(array_l1d := [5, 6, 7, 0]))"
proof -
  have "tag_of small_cache 13 \<notin> set (ways small_cache (small_arrays (array small_cache)) (set_index small_cache 13))"
    by (simp add: small_cache_def small_arrays_def set_index_def tag_of_def ways_def)
  moreover have "unat (assoc small_cache) * set_index small_cache 13 + (unat (assoc small_cache) - 1) = 3" "array small_cache = array_l1d"
    by (simp_all add: small_cache_def set_index_def)
  moreover have "(small_arrays array_l1d)[3 := 0] = [5, 6, 7, 0]" by (simp add: small_arrays_def numeral_3_eq_3)
  ultimately show ?thesis using evict_clears_last_way [OF small_cache_ok, of 13] by simp
qed

end
