(* ===== verification/Trace.thy ===== *)
theory Trace
  imports Tlbcache
begin

unbundle bit_operations_syntax

text \<open>
  The trace reader, \<^verbatim>\<open>src/tracing/main.c\<close>: it reads the trace line by line, cuts lines into tokens and
  drives the simulator. The format of the lines is the one \<^verbatim>\<open>flush_accesses\<close> of
  \<^verbatim>\<open>src/memtrace/pintool/memtrace.cpp\<close> prints, which is modelled too.

  \<open>None\<close> is a failed \<^verbatim>\<open>assert\<close> or undefined behaviour: a line longer than the buffer, more tokens than the
  array holds, or the use of a token that the line does not have (the array then holds what an earlier
  line left there, or nothing). The counter \<^verbatim>\<open>reps\<close> is not initialised by the code; its first value is
  an argument.
\<close>

section \<open>The C library\<close>

definition isspace :: "char \<Rightarrow> bool" where
  "isspace c \<longleftrightarrow> of_char c = (32 :: nat) \<or> 9 \<le> (of_char c :: nat) \<and> of_char c \<le> (13 :: nat)"

text \<open>\<^verbatim>\<open>fscanf(f, "%[^\n]\n", linebuf)\<close>: end of file, no match, or a line and what is left.\<close>

datatype scan = Scan_EOF | Scan_none | Scan_line string string

definition newline :: char where
  "newline = CHR 10"

definition fscanf_line :: "string \<Rightarrow> scan" where
  "fscanf_line inp =
     (if inp = [] then Scan_EOF
      else if hd inp = newline then Scan_none
      else Scan_line (takeWhile (\<lambda>c. c \<noteq> newline) inp) (dropWhile isspace (dropWhile (\<lambda>c. c \<noteq> newline) inp)))"

text \<open>All tokens of repeated \<^verbatim>\<open>strtok\<close> calls with the separator blank.\<close>

definition blank :: char where
  "blank = CHR '' ''"

function strtok_all :: "string \<Rightarrow> string list" where
  "strtok_all s =
     (case dropWhile (\<lambda>c. c = blank) s of
        [] \<Rightarrow> []
      | c # cs \<Rightarrow> takeWhile (\<lambda>c. c \<noteq> blank) (c # cs) # strtok_all (dropWhile (\<lambda>c. c \<noteq> blank) cs))"
  by pat_completeness auto
termination
proof (relation "measure length")
  fix s :: string and c cs
  assume e: "dropWhile (\<lambda>c. c = blank) s = c # cs"
  have "length (dropWhile (\<lambda>c. c \<noteq> blank) cs) \<le> length cs" by (rule length_dropWhile_le)
  also have "\<dots> < length (dropWhile (\<lambda>c. c = blank) s)" using e by simp
  also have "\<dots> \<le> length s" by (rule length_dropWhile_le)
  finally show "(dropWhile (\<lambda>c. c \<noteq> blank) cs, s) \<in> measure length" by simp
qed simp

declare strtok_all.simps [simp del]

definition digit_val :: "char \<Rightarrow> nat option" where
  "digit_val c =
     (let n = of_char c :: nat in
      if 48 \<le> n \<and> n \<le> 57 then Some (n - 48)
      else if 97 \<le> n \<and> n \<le> 122 then Some (n - 87)
      else if 65 \<le> n \<and> n \<le> 90 then Some (n - 55)
      else None)"

definition is_digit :: "nat \<Rightarrow> char \<Rightarrow> bool" where
  "is_digit base c \<longleftrightarrow> (case digit_val c of None \<Rightarrow> False | Some d \<Rightarrow> d < base)"

definition digits_value :: "nat \<Rightarrow> string \<Rightarrow> nat" where
  "digits_value base s = foldl (\<lambda>acc c. acc * base + the (digit_val c)) 0 s"

definition strip_0x :: "nat \<Rightarrow> string \<Rightarrow> string" where
  "strip_0x base s =
     (case s of z # x # c # cs \<Rightarrow>
        if base = 16 \<and> z = CHR ''0'' \<and> (x = CHR ''x'' \<or> x = CHR ''X'') \<and> is_digit 16 c then c # cs else s
      | _ \<Rightarrow> s)"

definition sign_of :: "string \<Rightarrow> bool \<times> string" where
  "sign_of s =
     (case s of [] \<Rightarrow> (False, s)
      | c # cs \<Rightarrow> if c = CHR ''-'' then (True, cs) else if c = CHR ''+'' then (False, cs) else (False, s))"

definition strtoul :: "nat \<Rightarrow> string \<Rightarrow> u64" where
  "strtoul base s =
     (let (neg, s) = sign_of (dropWhile isspace s);
          n = digits_value base (takeWhile (is_digit base) (strip_0x base s)) in
      if 2 ^ 64 \<le> n then - 1 else if neg then - of_nat n else of_nat n)"

section \<open>The reader\<close>

definition LINEBUFLEN :: nat where "LINEBUFLEN = 4096"
definition MAXTOKENS :: nat where "MAXTOKENS = 16"
definition WARMUP_REPS :: int where "WARMUP_REPS = 2"
definition WRAPPER_COMPARTMENT_ID :: u16 where "WRAPPER_COMPARTMENT_ID = 1"
definition CACHE_COMPARTMENT_ID :: u16 where "CACHE_COMPARTMENT_ID = 2"

record reader =
  rd_sim :: sim
  reps :: int
  repstarted :: bool
  cur_comp_id :: u16
  lines_handled :: u64

definition on_repstart :: "reader \<Rightarrow> reader option" where
  "on_repstart r = (if repstarted r then None else Some (r\<lparr>repstarted := True\<rparr>))"

definition on_repend :: "reader \<Rightarrow> reader option" where
  "on_repend r =
     (if \<not> repstarted r \<or> reps r = 2 ^ 31 - 1 then None
      else Some (let r = r\<lparr>repstarted := False, reps := reps r + 1\<rparr> in
                 if reps r = WARMUP_REPS then r\<lparr>rd_sim := (rd_sim r)\<lparr>warmup := False\<rparr>\<rparr> else r))"

definition on_switch :: "u16 \<Rightarrow> u16 \<Rightarrow> reader \<Rightarrow> reader option" where
  "on_switch from to r = (if cur_comp_id r \<noteq> from then None else Some (r\<lparr>cur_comp_id := to\<rparr>))"

definition on_access :: "u64 \<Rightarrow> u64 \<Rightarrow> reader \<Rightarrow> reader option" where
  "on_access addr sz r = do {
     s \<leftarrow> cycle_access \<lparr>acc_addr = addr, acc_size = sz\<rparr> (cur_comp_id r) DATA_ACCESS (rd_sim r);
     Some (r\<lparr>rd_sim := account_inst (account_data s)\<rparr>)
   }"

definition tok :: "string list \<Rightarrow> nat \<Rightarrow> string option" where
  "tok ts i = (if i < length ts then Some (ts ! i) else None)"

definition handle_line :: "string \<Rightarrow> reader \<Rightarrow> reader option" where
  "handle_line line r =
     (if LINEBUFLEN \<le> length line then None
      else let tokens = strtok_all line in
      if MAXTOKENS < length tokens then None
      else do {
        t2 \<leftarrow> tok tokens 2;
        r \<leftarrow> (if t2 = ''repstart'' then on_repstart r
             else if t2 = ''repend'' then on_repend r
             else if t2 = ''switch_cache'' then on_switch WRAPPER_COMPARTMENT_ID CACHE_COMPARTMENT_ID r
             else if t2 = ''switch_wrapper'' then on_switch CACHE_COMPARTMENT_ID WRAPPER_COMPARTMENT_ID r
             else if repstarted r
             then do {
               t3 \<leftarrow> tok tokens 3;
               on_access (strtoul 16 t2) (strtoul 10 (drop 1 t3)) r
             }
             else Some r);
        Some (r\<lparr>lines_handled := lines_handled r + 1\<rparr>)
      })"

function read_trace :: "string \<Rightarrow> reader \<Rightarrow> reader option" where
  "read_trace inp r =
     (case fscanf_line inp of
        Scan_EOF \<Rightarrow> Some r
      | Scan_none \<Rightarrow> None
      | Scan_line line rest \<Rightarrow> do { r \<leftarrow> handle_line line r; read_trace rest r })"
  by pat_completeness auto
termination
proof (relation "measure (length \<circ> fst)")
  fix inp r line rest r'
  assume "fscanf_line inp = Scan_line line rest"
  then have ne: "inp \<noteq> []" "hd inp \<noteq> newline" and
    rest: "rest = dropWhile isspace (dropWhile (\<lambda>c. c \<noteq> newline) inp)"
    by (auto simp: fscanf_line_def split: if_splits)
  have "length rest \<le> length (dropWhile (\<lambda>c. c \<noteq> newline) inp)" unfolding rest by (rule length_dropWhile_le)
  also have "\<dots> \<le> length (tl inp)" using ne by (cases inp) (auto simp: length_dropWhile_le)
  also have "\<dots> < length inp" using ne by (cases inp) auto
  finally show "((rest, r'), (inp, r)) \<in> measure (length \<circ> fst)" by simp
qed simp

declare read_trace.simps [simp del]

text \<open>\<^verbatim>\<open>main\<close>: the number of repetitions and the numbers of \<open>account_final\<close> that it prints.\<close>

definition trace_start :: "int \<Rightarrow> sim \<Rightarrow> reader option" where
  "trace_start reps0 s = do {
     s \<leftarrow> init_tlbcache s;
     Some \<lparr>rd_sim = s\<lparr>instrumentation_enable := True, warmup := True\<rparr>, reps = reps0, repstarted = False,
           cur_comp_id = WRAPPER_COMPARTMENT_ID, lines_handled = 0\<rparr>
   }"

definition trace_main :: "int \<Rightarrow> string \<Rightarrow> sim \<Rightarrow> (int \<times> u64 list) option" where
  "trace_main reps0 trace s = do {
     r \<leftarrow> trace_start reps0 s;
     r \<leftarrow> read_trace trace r;
     Some (reps r, account_final (rd_sim r))
   }"

section \<open>The lines of the pin tool\<close>

datatype marker = Repstart | Repend | Switch_cache | Switch_wrapper

datatype event = Access u64 string u64 nat bool | Mark u64 string marker

fun marker_name :: "marker \<Rightarrow> string" where
  "marker_name Repstart = ''repstart''"
| "marker_name Repend = ''repend''"
| "marker_name Switch_cache = ''switch_cache''"
| "marker_name Switch_wrapper = ''switch_wrapper''"

definition digit_char :: "nat \<Rightarrow> char" where
  "digit_char d = char_of (if d < 10 then 48 + d else 87 + d)"

fun digits :: "nat \<Rightarrow> nat \<Rightarrow> string" where
  "digits base n = (if base \<le> 1 \<or> n < base then [digit_char n] else digits base (n div base) @ [digit_char (n mod base)])"

declare digits.simps [simp del]

definition pad0 :: "nat \<Rightarrow> string \<Rightarrow> string" where
  "pad0 w s = replicate (w - length s) (CHR ''0'') @ s"

text \<open>The size, an unsigned number of 32 bits, is printed with \<^verbatim>\<open>%02d\<close>, as a signed one.\<close>

definition dec2 :: "nat \<Rightarrow> string" where
  "dec2 n = (let i = sint (of_nat n :: u32) in
     if i < 0 then ''-'' @ digits 10 (nat (- i)) else pad0 2 (digits 10 (nat i)))"

definition print_event :: "event \<Rightarrow> string" where
  "print_event e = (case e of
     Mark ip rtn m \<Rightarrow> pad0 12 (digits 16 (unat ip)) @ '' ('' @ rtn @ ''): '' @ marker_name m @ [newline]
   | Access ip rtn p sz load \<Rightarrow> pad0 12 (digits 16 (unat ip)) @ '' ('' @ rtn @ ''): '' @ pad0 12 (digits 16 (unat p)) @
       '' ('' @ dec2 sz @ '', '' @ (if load then ''R'' else ''W'') @ '')'' @ [newline])"

section \<open>Numbers round trip\<close>

lemma digit_val_char: "d < 36 \<Longrightarrow> digit_val (digit_char d) = Some d"
  by (simp add: digit_val_def digit_char_def Let_def)

lemma is_digit_char: "d < base \<Longrightarrow> base \<le> 36 \<Longrightarrow> is_digit base (digit_char d)"
  by (simp add: is_digit_def digit_val_char)

lemma digits_ok:
  assumes "2 \<le> base" and "base \<le> 36"
  shows "list_all (is_digit base) (digits base n)" and "digits_value base (digits base n) = n" and "digits base n \<noteq> []"
proof -
  have "list_all (is_digit base) (digits base n) \<and> digits_value base (digits base n) = n"
  proof (induction n rule: less_induct)
    case (less n)
    show ?case
    proof (cases "n < base")
      case True
      then show ?thesis
        using assms by (subst (1 2) digits.simps) (simp add: is_digit_char digits_value_def digit_val_char)
    next
      case False
      then have "n div base < n" using assms by (intro div_less_dividend) auto
      from less.IH [OF this] have IH: "list_all (is_digit base) (digits base (n div base))"
        "digits_value base (digits base (n div base)) = n div base" by auto
      have d: "digits base n = digits base (n div base) @ [digit_char (n mod base)]"
        using False assms by (subst digits.simps) simp
      have "digits_value base (digits base n) = n div base * base + n mod base"
        using IH(2) assms digit_val_char [of "n mod base"] pos_mod_bound [of "int base" "int n"]
        unfolding d digits_value_def by (simp add: order_less_le_trans [OF mod_less_divisor])
      then show ?thesis using IH(1) assms unfolding d by (simp add: is_digit_char)
    qed
  qed
  then show "list_all (is_digit base) (digits base n)" "digits_value base (digits base n) = n" by auto
  show "digits base n \<noteq> []" by (subst digits.simps) simp
qed

lemma length_digits: "2 \<le> base \<Longrightarrow> n < base ^ k \<Longrightarrow> 0 < k \<Longrightarrow> length (digits base n) \<le> k"
proof (induction k arbitrary: n)
  case (Suc k)
  show ?case
  proof (cases "n < base")
    case True
    then show ?thesis by (subst digits.simps) simp
  next
    case False
    then have k: "0 < k" using Suc.prems by (cases k) auto
    have "n div base < base ^ k" using Suc.prems by (intro less_mult_imp_div_less) (simp add: mult.commute)
    from Suc.IH [OF Suc.prems(1) this k] show ?thesis using False by (subst digits.simps) auto
  qed
qed simp

lemma digit_0: "digit_val (CHR ''0'') = Some 0" "2 \<le> base \<Longrightarrow> is_digit base (CHR ''0'')"
  by (simp_all add: digit_val_def is_digit_def)

lemma digits_value_zeros: "digits_value base (replicate m (CHR ''0'') @ s) = digits_value base s"
proof -
  have "foldl (\<lambda>acc c. acc * base + the (digit_val c)) 0 (replicate m (CHR ''0'')) = 0"
    by (induction m) (simp_all add: digit_0)
  then show ?thesis by (simp add: digits_value_def)
qed

lemma pad0_ok:
  assumes "2 \<le> base" and "base \<le> 36"
  shows "list_all (is_digit base) (pad0 w (digits base n))" and "digits_value base (pad0 w (digits base n)) = n"
    and "w \<le> length (pad0 w (digits base n))" and "pad0 w (digits base n) \<noteq> []"
  using digits_ok [OF assms, of n] digit_0(2) [OF assms(1)]
  by (auto simp: pad0_def digits_value_zeros list_all_iff)

lemma is_digit_range: "is_digit base c \<Longrightarrow> 48 \<le> (of_char c :: nat)"
  by (auto simp: is_digit_def digit_val_def Let_def split: if_splits)

lemma not_digit_x: "is_digit 16 c \<Longrightarrow> c \<noteq> CHR ''x'' \<and> c \<noteq> CHR ''X''"
  by (auto simp: is_digit_def digit_val_def Let_def)

lemma strip_0x_digits:
  assumes "list_all (is_digit base) ds" and "base = 16 \<Longrightarrow> 2 \<le> length ds"
  shows "strip_0x base (ds @ rest) = ds @ rest"
proof (cases "base = 16")
  case True
  then obtain a b ds' where "ds = a # b # ds'" using assms(2) by (cases ds; cases "tl ds") auto
  with assms(1) True not_digit_x [of b] show ?thesis
    by (cases "ds' @ rest") (auto simp: strip_0x_def)
next
  case False
  then show ?thesis by (auto simp: strip_0x_def split: list.splits)
qed

lemma strtoul_digits:
  assumes ds: "list_all (is_digit base) ds" "ds \<noteq> []" "base = 16 \<Longrightarrow> 2 \<le> length ds"
    and rest: "rest = [] \<or> \<not> is_digit base (hd rest)" and n: "digits_value base ds < 2 ^ 64"
  shows "strtoul base (ds @ rest) = of_nat (digits_value base ds)"
proof -
  obtain c cs where c: "ds = c # cs" using ds(2) by (cases ds) auto
  have 48: "48 \<le> (of_char c :: nat)" using ds(1) c is_digit_range by auto
  then have "\<not> isspace c" by (auto simp: isspace_def)
  then have 1: "dropWhile isspace (ds @ rest) = ds @ rest" using c by simp
  have 2: "sign_of (ds @ rest) = (False, ds @ rest)" using 48 c by (auto simp: sign_of_def)
  have "takeWhile (is_digit base) (ds @ rest) = ds @ takeWhile (is_digit base) rest"
    using ds(1) by (intro takeWhile_append2) (simp add: list_all_iff)
  also have "takeWhile (is_digit base) rest = []" using rest by (cases rest) auto
  finally have 3: "takeWhile (is_digit base) (ds @ rest) = ds" by simp
  show ?thesis
    unfolding strtoul_def 1 2 using strip_0x_digits [OF ds(1,3)] n by (simp add: 3)
qed

section \<open>Lines round trip\<close>

lemma strtok_one: "a \<noteq> [] \<Longrightarrow> blank \<notin> set a \<Longrightarrow> strtok_all a = [a]"
proof -
  assume a: "a \<noteq> []" "blank \<notin> set a"
  then obtain c cs where c: "a = c # cs" by (cases a) auto
  have "takeWhile (\<lambda>x. x \<noteq> blank) cs = cs" "dropWhile (\<lambda>x. x \<noteq> blank) cs = []"
    using a(2) c by (auto simp: takeWhile_eq_all_conv dropWhile_eq_Nil_conv)
  moreover have "strtok_all [] = []" by (subst strtok_all.simps) simp
  ultimately show ?thesis using a c by (subst strtok_all.simps) (auto simp del: dropWhile_eq_Nil_conv)
qed

lemma strtok_cons: "a \<noteq> [] \<Longrightarrow> blank \<notin> set a \<Longrightarrow> strtok_all (a @ blank # rest) = a # strtok_all rest"
proof -
  assume a: "a \<noteq> []" "blank \<notin> set a"
  then obtain c cs where c: "a = c # cs" by (cases a) auto
  have t: "takeWhile (\<lambda>x. x \<noteq> blank) (cs @ blank # rest) = cs" "dropWhile (\<lambda>x. x \<noteq> blank) (cs @ blank # rest) = blank # rest"
    using a(2) c by simp_all
  have s: "strtok_all (blank # rest) = strtok_all rest" by (subst (1 2) strtok_all.simps) simp
  show ?thesis using a c t s by (subst strtok_all.simps) auto
qed

lemma fscanf_line_newline:
  assumes "line \<noteq> []" and "newline \<notin> set line" and "rest = [] \<or> \<not> isspace (hd rest)"
  shows "fscanf_line (line @ newline # rest) = Scan_line line rest"
proof -
  have "takeWhile (\<lambda>c. c \<noteq> newline) (line @ newline # rest) = line"
    "dropWhile (\<lambda>c. c \<noteq> newline) (line @ newline # rest) = newline # rest"
    using assms(2) by simp_all
  moreover have "dropWhile isspace (newline # rest) = rest"
    using assms(3) by (cases rest) (auto simp: isspace_def newline_def)
  moreover have "hd (line @ newline # rest) \<noteq> newline" using assms(1,2) by (cases line) auto
  ultimately show ?thesis using assms(1) by (simp add: fscanf_line_def)
qed

section \<open>Running a printed trace\<close>

fun on_marker :: "marker \<Rightarrow> reader \<Rightarrow> reader option" where
  "on_marker Repstart r = on_repstart r"
| "on_marker Repend r = on_repend r"
| "on_marker Switch_cache r = on_switch WRAPPER_COMPARTMENT_ID CACHE_COMPARTMENT_ID r"
| "on_marker Switch_wrapper r = on_switch CACHE_COMPARTMENT_ID WRAPPER_COMPARTMENT_ID r"

fun on_event :: "event \<Rightarrow> reader \<Rightarrow> reader option" where
  "on_event (Mark ip rtn m) r = on_marker m r"
| "on_event (Access ip rtn p sz load) r = (if repstarted r then on_access p (of_nat sz) r else Some r)"

fun run_events :: "event list \<Rightarrow> reader \<Rightarrow> reader option" where
  "run_events [] r = Some r"
| "run_events (e # es) r = do {
     r \<leftarrow> on_event e r;
     run_events es (r\<lparr>lines_handled := lines_handled r + 1\<rparr>)
   }"

text \<open>What the format needs: no blank or line end in a routine name, a size that \<^verbatim>\<open>%02d\<close> prints as it is.\<close>

fun printable :: "event \<Rightarrow> bool" where
  "printable (Mark ip rtn m) \<longleftrightarrow> blank \<notin> set rtn \<and> newline \<notin> set rtn \<and> length rtn \<le> 3900"
| "printable (Access ip rtn p sz load) \<longleftrightarrow>
     blank \<notin> set rtn \<and> newline \<notin> set rtn \<and> length rtn \<le> 3900 \<and> sz < 2 ^ 31"

definition hex12 :: "u64 \<Rightarrow> string" where
  "hex12 w = pad0 12 (digits 16 (unat w))"

lemma hex12_digits: "list_all (is_digit 16) (hex12 w)" "digits_value 16 (hex12 w) = unat w" "12 \<le> length (hex12 w)"
  unfolding hex12_def by (rule pad0_ok, simp_all)+

lemma hex12_length: "length (hex12 w) \<le> 16"
proof -
  have "unat w < 16 ^ 16" using unsigned_less [of w] by simp
  then have "length (digits 16 (unat w)) \<le> 16" by (intro length_digits) simp_all
  then show ?thesis by (simp add: hex12_def pad0_def)
qed

lemma digit_plain: "is_digit base c \<Longrightarrow> c \<noteq> blank \<and> c \<noteq> newline \<and> \<not> isspace c"
  by (auto dest!: is_digit_range simp: blank_def newline_def isspace_def)

lemma hex12_plain: "blank \<notin> set (hex12 w)" "newline \<notin> set (hex12 w)" "hex12 w \<noteq> []" "\<not> isspace (hd (hex12 w))"
proof -
  have all: "\<And>c. c \<in> set (hex12 w) \<Longrightarrow> is_digit 16 c" using hex12_digits(1) by (auto simp: list_all_iff)
  show "blank \<notin> set (hex12 w)" "newline \<notin> set (hex12 w)" using all digit_plain by blast+
  show ne: "hex12 w \<noteq> []" using hex12_digits(3) [of w] by auto
  show "\<not> isspace (hd (hex12 w))" using all [OF hd_in_set [OF ne]] digit_plain by blast
qed

lemma hex12_strtoul: "strtoul 16 (hex12 w) = w"
  using strtoul_digits [OF hex12_digits(1), of w "[]"] hex12_digits(2,3) [of w] hex12_plain(3) [of w] unsigned_less [of w]
  by simp

lemma hex12_no_marker: "hex12 w \<noteq> marker_name m"
proof
  assume "hex12 w = marker_name m"
  then have "list_all (is_digit 16) (marker_name m)" using hex12_digits(1) [of w] by simp
  then show False by (cases m) (simp_all add: is_digit_def digit_val_def)
qed

lemma dec2_small: "n < 2 ^ 31 \<Longrightarrow> dec2 n = pad0 2 (digits 10 n)"
proof -
  assume n: "n < 2 ^ 31"
  then have "unat (of_nat n :: u32) = n" by (intro unat_of_nat_less) simp
  then have "sint (of_nat n :: u32) = int n" using n by (simp add: sint_small)
  then show ?thesis by (simp add: dec2_def)
qed

lemma dec2_plain: "blank \<notin> set (dec2 n)" "newline \<notin> set (dec2 n)"
proof -
  have "c \<noteq> blank" "c \<noteq> newline" if "c \<in> set (dec2 n)" for c
  proof -
    have "c = CHR ''-'' \<or> is_digit 10 c"
      using that pad0_ok(1) [of 10 2] digits_ok(1) [of 10] by (auto simp: dec2_def Let_def list_all_iff split: if_splits)
    then show "c \<noteq> blank" "c \<noteq> newline" using digit_plain [of 10 c] by (auto simp: blank_def newline_def)
  qed
  then show "blank \<notin> set (dec2 n)" "newline \<notin> set (dec2 n)" by blast+
qed

lemma dec2_strtoul: "n < 2 ^ 31 \<Longrightarrow> strtoul 10 (dec2 n @ '','') = of_nat n"
  using strtoul_digits [of 10 "pad0 2 (digits 10 n)" "'',''"] pad0_ok [of 10 2 n]
  by (simp add: dec2_small is_digit_def digit_val_def)

lemma dec2_length: "n < 2 ^ 31 \<Longrightarrow> length (dec2 n) \<le> 10"
  using length_digits [of 10 n 10] by (auto simp: dec2_small pad0_def)

text \<open>The lines without their ends, and their tokens.\<close>

definition body :: "event \<Rightarrow> string" where
  "body e = (case e of
     Mark ip rtn m \<Rightarrow> hex12 ip @ blank # (''('' @ rtn @ ''):'') @ blank # marker_name m
   | Access ip rtn p sz load \<Rightarrow> hex12 ip @ blank # (''('' @ rtn @ ''):'') @ blank # hex12 p @
       blank # (''('' @ dec2 sz @ '','') @ blank # ((if load then ''R'' else ''W'') @ '')''))"

lemma print_event_body: "print_event e = body e @ [newline]"
  by (simp add: print_event_def body_def hex12_def blank_def split: event.splits)

lemma body_plain:
  assumes "printable e"
  shows "newline \<notin> set (body e)" "body e \<noteq> []" "\<not> isspace (hd (body e))" "length (body e) < LINEBUFLEN"
proof -
  show "body e \<noteq> []" "\<not> isspace (hd (body e))"
    using hex12_plain(3,4) by (auto simp: body_def hd_append split: event.splits)
  have m: "newline \<notin> set (marker_name m)" "length (marker_name m) \<le> 14" for m
    by (cases m; simp add: newline_def)+
  show "newline \<notin> set (body e)"
    using assms m hex12_plain(2) dec2_plain(2)
    by (cases e) (auto simp: body_def newline_def blank_def)
  show "length (body e) < LINEBUFLEN"
  proof (cases e)
    case (Access ip rtn p sz load)
    then show ?thesis
      using assms hex12_length [of ip] hex12_length [of p] dec2_length [of sz] by (simp add: body_def LINEBUFLEN_def)
  next
    case (Mark ip rtn m')
    then show ?thesis
      using assms m(2) [of m'] hex12_length [of ip] by (simp add: body_def LINEBUFLEN_def)
  qed
qed

lemma rtn_token:
  assumes "blank \<notin> set rtn"
  shows "strtok_all (hex12 ip @ blank # (''('' @ rtn @ ''):'') @ blank # rest) = hex12 ip # (''('' @ rtn @ ''):'') # strtok_all rest"
proof -
  have "blank \<notin> set (''('' @ rtn @ ''):'')" using assms by (simp add: blank_def)
  then show ?thesis using strtok_cons [OF hex12_plain(3,1)] strtok_cons [of "''('' @ rtn @ ''):''"] by simp
qed

lemma body_tokens:
  assumes "printable e"
  shows "strtok_all (body e) = (case e of
     Mark ip rtn m \<Rightarrow> [hex12 ip, ''('' @ rtn @ ''):'', marker_name m]
   | Access ip rtn p sz load \<Rightarrow> [hex12 ip, ''('' @ rtn @ ''):'', hex12 p, ''('' @ dec2 sz @ '','', (if load then ''R'' else ''W'') @ '')''])"
proof (cases e)
  case (Mark ip rtn m)
  have "strtok_all (marker_name m) = [marker_name m]" by (rule strtok_one) (cases m; simp add: blank_def)+
  then show ?thesis using assms Mark rtn_token [of rtn ip] by (simp add: body_def)
next
  case (Access ip rtn p sz load)
  let ?w = "(if load then ''R'' else ''W'') @ '')''" and ?d = "''('' @ dec2 sz @ '',''"
  have "strtok_all ?w = [?w]" by (rule strtok_one) (simp_all add: blank_def)
  moreover have "blank \<notin> set ?d" using dec2_plain(1) [of sz] by (simp add: blank_def)
  ultimately show ?thesis
    using assms Access rtn_token [of rtn ip] strtok_cons [OF hex12_plain(3,1)] strtok_cons [of ?d ?w]
    by (simp add: body_def)
qed

lemma handle_event:
  assumes "printable e"
  shows "handle_line (body e) r = do { r \<leftarrow> on_event e r; Some (r\<lparr>lines_handled := lines_handled r + 1\<rparr>) }"
proof (cases e)
  case (Mark ip rtn m)
  then show ?thesis
    using body_plain(4) [OF assms] body_tokens [OF assms]
    by (cases m) (simp_all add: handle_line_def Let_def MAXTOKENS_def tok_def not_le)
next
  case (Access ip rtn p sz load)
  have ne: "hex12 p \<noteq> ''repstart''" "hex12 p \<noteq> ''repend''" "hex12 p \<noteq> ''switch_cache''" "hex12 p \<noteq> ''switch_wrapper''"
    using hex12_no_marker [of p Repstart] hex12_no_marker [of p Repend] hex12_no_marker [of p Switch_cache]
      hex12_no_marker [of p Switch_wrapper] by simp_all
  have "sz < 2 ^ 31" using assms Access by simp
  with Access ne show ?thesis
    using body_plain(4) [OF assms] body_tokens [OF assms] dec2_strtoul [of sz]
    by (simp add: handle_line_def Let_def MAXTOKENS_def tok_def not_le hex12_strtoul)
qed

lemma read_printed_trace:
  assumes "list_all printable es"
  shows "read_trace (concat (map print_event es)) r = run_events es r"
  using assms
proof (induction es arbitrary: r)
  case Nil
  then show ?case by (subst read_trace.simps) (simp add: fscanf_line_def)
next
  case (Cons e es)
  let ?rest = "concat (map print_event es)"
  have e: "printable e" using Cons.prems by simp
  have "?rest = [] \<or> \<not> isspace (hd ?rest)"
  proof (cases es)
    case (Cons e' es')
    then have "printable e'" using Cons.prems by simp
    then show ?thesis using Cons body_plain(2,3) [of e'] by (simp add: print_event_body hd_append)
  qed simp
  then have "fscanf_line (body e @ newline # ?rest) = Scan_line (body e) ?rest"
    using body_plain(1,2) [OF e] by (intro fscanf_line_newline) auto
  moreover have "concat (map print_event (e # es)) = body e @ newline # ?rest" by (simp add: print_event_body [of e])
  ultimately show ?case
    using Cons.IH Cons.prems by (subst read_trace.simps) (simp add: handle_event [OF e])
qed

section \<open>Well-formed traces\<close>

text \<open>Repetitions and compartment switches alternate; accesses inside a repetition are user accesses.\<close>

fun trace_ok :: "bool \<Rightarrow> bool \<Rightarrow> event list \<Rightarrow> bool" where
  "trace_ok st c [] \<longleftrightarrow> True"
| "trace_ok st c (Mark ip rtn Repstart # es) \<longleftrightarrow> \<not> st \<and> trace_ok True c es"
| "trace_ok st c (Mark ip rtn Repend # es) \<longleftrightarrow> st \<and> trace_ok False c es"
| "trace_ok st c (Mark ip rtn Switch_cache # es) \<longleftrightarrow> \<not> c \<and> trace_ok st True es"
| "trace_ok st c (Mark ip rtn Switch_wrapper # es) \<longleftrightarrow> c \<and> trace_ok st False es"
| "trace_ok st c (Access ip rtn p sz load # es) \<longleftrightarrow>
     (st \<longrightarrow> user_access \<lparr>acc_addr = p, acc_size = of_nat sz\<rparr>) \<and> trace_ok st c es"

fun is_repend :: "event \<Rightarrow> bool" where
  "is_repend (Mark ip rtn Repend) = True"
| "is_repend _ = False"

definition rounds :: "event list \<Rightarrow> nat" where
  "rounds es = length (filter is_repend es)"

definition reader_ok :: "bool \<Rightarrow> bool \<Rightarrow> reader \<Rightarrow> bool" where
  "reader_ok st c r \<longleftrightarrow> sim_ok (rd_sim r) \<and> instrumentation_enable (rd_sim r) \<and> repstarted r = st \<and>
     cur_comp_id r = (if c then CACHE_COMPARTMENT_ID else WRAPPER_COMPARTMENT_ID)"

text \<open>A data access leaves the instruction side and the access counters alone.\<close>

lemma cycle_access_frame:
  assumes "cycle_access a asid DATA_ACCESS s = Some s'"
  shows "l1i_tlb_misses s' = l1i_tlb_misses s" "l1i_misses s' = l1i_misses s" "data_counter s' = data_counter s"
    "instrumentation_enable s' = instrumentation_enable s" "warmup s' = warmup s"
  using assms
  by (auto simp: cycle_access_def access_tlb_def access_lines_def count_insts_def Let_def bind_eq_Some_conv split: if_splits)

lemma on_access_ok:
  assumes r: "reader_ok True c r" and a: "user_access \<lparr>acc_addr = p, acc_size = n\<rparr>"
  shows "\<exists>r'. on_access p n r = Some r' \<and> reader_ok True c r' \<and> reps r' = reps r \<and> warmup (rd_sim r') = warmup (rd_sim r) \<and>
    (warmup (rd_sim r) \<longrightarrow> account_final (rd_sim r') = account_final (rd_sim r))"
proof -
  obtain s where s: "cycle_access \<lparr>acc_addr = p, acc_size = n\<rparr> (cur_comp_id r) DATA_ACCESS (rd_sim r) = Some s" "sim_ok s"
    "mode s = mode (rd_sim r)"
    "\<exists>t. tlb_counters DATA_ACCESS s = count_misses (warmup (rd_sim r)) t (tlb_counters DATA_ACCESS (rd_sim r))"
    "\<exists>l. line_counters DATA_ACCESS s = count_misses (warmup (rd_sim r)) l (line_counters DATA_ACCESS (rd_sim r))"
    using cycle_access_exact [OF _ _ a, of "rd_sim r" "cur_comp_id r" DATA_ACCESS] r by (auto simp: reader_ok_def)
  note fr = cycle_access_frame [OF s(1)]
  let ?s = "account_inst (account_data s)"
  have "sim_ok ?s" "mode ?s = mode s" using s(2) by (simp_all add: account_inst_def account_data_def sim_ok_def mode_def)
  moreover have "account_final ?s = account_final (rd_sim r)" if "warmup (rd_sim r)"
    using that s(3-5) fr
    by (simp add: account_final_def account_inst_def account_data_def mode_def count_misses_def tlb_counters_def line_counters_def)
  ultimately show ?thesis using r s(1,3) by (auto simp: on_access_def reader_ok_def mode_def)
qed

lemma reader_ok_lines [simp]: "reader_ok st c (r\<lparr>lines_handled := n\<rparr>) = reader_ok st c r"
  by (simp add: reader_ok_def)

text \<open>
  On a well-formed trace the reader never aborts; it counts the rounds, ends the warm-up at the second
  one when the count started at 0, and counts no miss before that.
\<close>

lemma run_events_ok:
  assumes "trace_ok st c es" and "reader_ok st c r" and "reps r + int (rounds es) < 2 ^ 31"
  shows "\<exists>r'. run_events es r = Some r' \<and> reps r' = reps r + int (rounds es) \<and>
    (warmup (rd_sim r) \<and> reps r + int (rounds es) < WARMUP_REPS \<longrightarrow>
       warmup (rd_sim r') \<and> account_final (rd_sim r') = account_final (rd_sim r))"
  using assms
proof (induction st c es arbitrary: r rule: trace_ok.induct)
  case (1 st c)
  then show ?case by (simp add: rounds_def)
next
  case (2 st c ip rtn es)
  let ?r = "r\<lparr>repstarted := True, lines_handled := lines_handled r + 1\<rparr>"
  have "reader_ok True c ?r" "reps ?r = reps r" "rd_sim ?r = rd_sim r" using 2 by (auto simp: reader_ok_def)
  with "2.IH" [of ?r] 2 show ?case by (auto simp: on_repstart_def reader_ok_def rounds_def)
next
  case (3 st c ip rtn es)
  let ?r1 = "r\<lparr>repstarted := False, reps := reps r + 1\<rparr>"
  define r2 where "r2 = (if reps r + 1 = WARMUP_REPS then ?r1\<lparr>rd_sim := (rd_sim r)\<lparr>warmup := False\<rparr>\<rparr> else ?r1)\<lparr>lines_handled := lines_handled r + 1\<rparr>"
  have st: "st" and es: "trace_ok False c es" using "3.prems"(1) by auto
  have n: "rounds (Mark ip rtn Repend # es) = Suc (rounds es)" by (simp add: rounds_def)
  have ok: "reader_ok False c r2" using "3.prems"(2) by (auto simp: reader_ok_def sim_ok_def r2_def)
  have step: "run_events (Mark ip rtn Repend # es) r = run_events es r2"
    using "3.prems"(2,3) st n by (auto simp: on_repend_def reader_ok_def Let_def r2_def)
  have rp: "reps r2 = reps r + 1" by (simp add: r2_def)
  have bnd: "reps r2 + int (rounds es) < 2 ^ 31" using "3.prems"(3) n rp by simp
  obtain r' where "run_events es r2 = Some r'" "reps r' = reps r2 + int (rounds es)"
    "warmup (rd_sim r2) \<and> reps r2 + int (rounds es) < WARMUP_REPS \<longrightarrow>
       warmup (rd_sim r') \<and> account_final (rd_sim r') = account_final (rd_sim r2)"
    using "3.IH" [OF es ok bnd] by blast
  moreover have "rd_sim r2 = rd_sim r" if "reps r + int (rounds (Mark ip rtn Repend # es)) < WARMUP_REPS"
    using that n by (auto simp: r2_def)
  ultimately show ?case using n rp step by (auto simp: algebra_simps)
next
  case (4 st c ip rtn es)
  let ?r = "r\<lparr>cur_comp_id := CACHE_COMPARTMENT_ID, lines_handled := lines_handled r + 1\<rparr>"
  have "reader_ok st True ?r" "reps ?r = reps r" "rd_sim ?r = rd_sim r" using 4 by (auto simp: reader_ok_def)
  with "4.IH" [of ?r] 4 show ?case by (auto simp: on_switch_def reader_ok_def rounds_def)
next
  case (5 st c ip rtn es)
  let ?r = "r\<lparr>cur_comp_id := WRAPPER_COMPARTMENT_ID, lines_handled := lines_handled r + 1\<rparr>"
  have "reader_ok st False ?r" "reps ?r = reps r" "rd_sim ?r = rd_sim r" using 5 by (auto simp: reader_ok_def)
  with "5.IH" [of ?r] 5 show ?case by (auto simp: on_switch_def reader_ok_def rounds_def)
next
  case (6 st c ip rtn p sz load es)
  have rs: "repstarted r = st" using "6.prems"(2) by (simp add: reader_ok_def)
  obtain r1 where r1: "on_event (Access ip rtn p sz load) r = Some r1" "reader_ok st c r1" "reps r1 = reps r"
    "warmup (rd_sim r1) = warmup (rd_sim r)" "warmup (rd_sim r) \<longrightarrow> account_final (rd_sim r1) = account_final (rd_sim r)"
    using on_access_ok [of c r p "of_nat sz"] 6 rs by (cases st) auto
  with "6.IH" [of "r1\<lparr>lines_handled := lines_handled r1 + 1\<rparr>"] "6.prems" show ?case
    by (auto simp: rounds_def)
qed

text \<open>
  The accesses that a run measures: those inside a repetition, after the repetition that ends the warm-up.
\<close>

fun after_rounds :: "nat \<Rightarrow> event list \<Rightarrow> event list" where
  "after_rounds 0 es = es"
| "after_rounds (Suc k) [] = []"
| "after_rounds (Suc k) (e # es) = after_rounds (if is_repend e then k else Suc k) es"

fun rep_accesses :: "bool \<Rightarrow> event list \<Rightarrow> nat" where
  "rep_accesses st [] = 0"
| "rep_accesses st (Access ip rtn p sz load # es) = (if st then 1 else 0) + rep_accesses st es"
| "rep_accesses st (Mark ip rtn m # es) = rep_accesses (m = Repstart \<or> st \<and> m \<noteq> Repend) es"

definition measured :: "int \<Rightarrow> event list \<Rightarrow> nat" where
  "measured reps0 es = (if reps0 < WARMUP_REPS then rep_accesses False (after_rounds (nat (WARMUP_REPS - reps0)) es) else 0)"

lemma measured_skip: "\<not> is_repend e \<Longrightarrow> measured n (e # es) = measured n es"
proof -
  assume e: "\<not> is_repend e"
  have "after_rounds k (e # es) = after_rounds k es" if "0 < k" for k using that e by (cases k) auto
  then show ?thesis by (simp add: measured_def)
qed

lemma measured_repend:
  "measured n (Mark ip rtn Repend # es) = (if n + 1 = WARMUP_REPS then rep_accesses False es else measured (n + 1) es)"
proof (cases "n < WARMUP_REPS")
  case True
  then have "nat (WARMUP_REPS - n) = Suc (nat (WARMUP_REPS - (n + 1)))" by simp
  with True show ?thesis by (simp add: measured_def)
qed (simp add: measured_def)

lemma on_access_frame:
  assumes "on_access p n r = Some r'" and "instrumentation_enable (rd_sim r)"
  shows "repstarted r' = repstarted r" "reps r' = reps r" "instrumentation_enable (rd_sim r')" "warmup (rd_sim r') = warmup (rd_sim r)"
    "data_counter (rd_sim r') = data_counter (rd_sim r) + (if warmup (rd_sim r) then 0 else 1)"
proof -
  obtain s where s: "cycle_access \<lparr>acc_addr = p, acc_size = n\<rparr> (cur_comp_id r) DATA_ACCESS (rd_sim r) = Some s"
    "r' = r\<lparr>rd_sim := account_inst (account_data s)\<rparr>"
    using assms(1) by (auto simp: on_access_def bind_eq_Some_conv)
  with cycle_access_frame [OF s(1)] assms(2)
  show "repstarted r' = repstarted r" "reps r' = reps r" "instrumentation_enable (rd_sim r')" "warmup (rd_sim r') = warmup (rd_sim r)"
    "data_counter (rd_sim r') = data_counter (rd_sim r) + (if warmup (rd_sim r) then 0 else 1)"
    by (auto simp: account_inst_def account_data_def)
qed

lemma run_events_measured:
  assumes "run_events es r = Some r'" and "instrumentation_enable (rd_sim r)"
  shows "data_counter (rd_sim r') = data_counter (rd_sim r) +
    of_nat (if warmup (rd_sim r) then measured (reps r) es else rep_accesses (repstarted r) es)"
  using assms
proof (induction es arbitrary: r)
  case Nil
  have "after_rounds k [] = []" for k by (cases k) simp_all
  with Nil show ?case by (simp add: measured_def)
next
  case (Cons e es)
  obtain r1 where r1: "on_event e r = Some r1" "run_events es (r1\<lparr>lines_handled := lines_handled r1 + 1\<rparr>) = Some r'"
    using Cons.prems(1) by (auto simp: bind_eq_Some_conv)
  note IH = Cons.IH [OF r1(2), simplified]
  show ?case
  proof (cases e)
    case (Access ip rtn p sz load)
    show ?thesis
    proof (cases "repstarted r")
      case True
      then have "on_access p (of_nat sz) r = Some r1" using r1(1) Access by simp
      from on_access_frame [OF this Cons.prems(2)] IH True Access show ?thesis by (simp add: measured_skip)
    next
      case False
      then show ?thesis using r1(1) IH Access Cons.prems(2) by (simp add: measured_skip)
    qed
  next
    case (Mark ip rtn m)
    show ?thesis
    proof (cases m)
      case Repend
      then show ?thesis
        using r1(1) IH Mark Cons.prems(2) by (auto simp: on_repend_def Let_def measured_repend split: if_splits)
    qed (use r1(1) IH Mark Cons.prems(2) in \<open>auto simp: on_repstart_def on_switch_def measured_skip split: if_splits\<close>)
  qed
qed

lemma trace_start_ok:
  obtains r where "trace_start reps0 s = Some r" "reader_ok False False r" "reps r = reps0" "warmup (rd_sim r)"
    "account_final (rd_sim r) = account_final s"
proof -
  obtain s1 where s1: "init_tlbcache s = Some s1" "sim_ok s1" using init_tlbcache_ok by blast
  have "account_final s1 = account_final s"
    using s1(1) by (auto simp: init_tlbcache_def account_final_def split: bind_splits)
  then show ?thesis
    using that s1 by (simp add: trace_start_def reader_ok_def sim_ok_def account_final_def)
qed

section \<open>Properties\<close>

text \<open>Round trip of the trace format: reading what the tracing tool prints for a list of events has the
  effect of the events in order, when no routine name has a blank, a newline or an excessive length.\<close>
theorem printed_trace_read_back:
  assumes "list_all printable es"
  shows "read_trace (concat (map print_event es)) r = run_events es r"
  by (rule read_printed_trace [OF assms])

definition demo_trace :: "event list" where
  "demo_trace = [Mark 0x401000 ''main'' Repstart, Access 0x401010 ''cache_get'' 0x7fff0010 8 True, Mark 0x401020 ''main'' Repend]"

theorem printed_trace_read_back_witness: "\<forall>r. read_trace (concat (map print_event demo_trace)) r = run_events demo_trace r"
  by (rule allI, rule printed_trace_read_back) (simp add: demo_trace_def blank_def newline_def)

text \<open>C33: a trace whose repetitions and compartment switches alternate and whose accesses within
  repetitions go to user memory is processed to the end, with every repetition counted; and while the
  repetitions are fewer than the warm-up needs, no miss and no access is counted.\<close>
theorem trace_processed:
  assumes "list_all printable es" and "trace_ok False False es" and "reps0 + int (rounds es) < 2 ^ 31"
  shows "\<exists>counts. trace_main reps0 (concat (map print_event es)) s = Some (reps0 + int (rounds es), counts) \<and>
    (reps0 + int (rounds es) < WARMUP_REPS \<longrightarrow> counts = account_final s)"
proof -
  obtain r where r: "trace_start reps0 s = Some r" "reader_ok False False r" "reps r = reps0" "warmup (rd_sim r)"
    "account_final (rd_sim r) = account_final s" by (rule trace_start_ok)
  have "reps r + int (rounds es) < 2 ^ 31" using assms(3) r(3) by simp
  from run_events_ok [OF assms(2) r(2) this] r show ?thesis
    by (auto simp: trace_main_def read_printed_trace [OF assms(1)])
qed

theorem trace_processed_witness:
  "\<forall>s. \<exists>counts. trace_main 0 (concat (map print_event demo_trace)) s = Some (1, counts) \<and> counts = account_final s"
proof -
  have "list_all printable demo_trace" "trace_ok False False demo_trace" "rounds demo_trace = 1"
    by (simp_all add: demo_trace_def blank_def newline_def user_access_def rounds_def)
  then show ?thesis using trace_processed [of demo_trace 0] by (simp add: WARMUP_REPS_def)
qed

end
