(* ===== verification/AES.thy ===== *)
theory AES
  imports AES_Tables
begin

unbundle bit_operations_syntax

text \<open>
  The AES block cipher of \<^verbatim>\<open>src/mbedtls-3.1.0/library/aes.c\<close>: contexts, key schedules, and the table-based
  encryption and decryption of a block. The null checks of the API are empty macros in this version, so
  there is nothing to model for them. A context that has no key has a null \<^verbatim>\<open>rk\<close>; using it faults (\<open>None\<close>).
\<close>

section \<open>Contexts\<close>

record aes_context =
  nr :: int
  rk_set :: bool
  buf :: "u32 list"

definition MBEDTLS_ERR_AES_INVALID_KEY_LENGTH :: int where "MBEDTLS_ERR_AES_INVALID_KEY_LENGTH = - 0x0020"
definition MBEDTLS_ERR_AES_BAD_INPUT_DATA :: int where "MBEDTLS_ERR_AES_BAD_INPUT_DATA = - 0x0021"
definition MBEDTLS_ERR_AES_INVALID_INPUT_LENGTH :: int where "MBEDTLS_ERR_AES_INVALID_INPUT_LENGTH = - 0x0022"

definition MBEDTLS_AES_ENCRYPT :: int where "MBEDTLS_AES_ENCRYPT = 1"
definition MBEDTLS_AES_DECRYPT :: int where "MBEDTLS_AES_DECRYPT = 0"

definition mbedtls_aes_init :: aes_context where
  "mbedtls_aes_init = \<lparr>nr = 0, rk_set = False, buf = replicate 68 0\<rparr>"

definition mbedtls_aes_free :: "aes_context \<Rightarrow> aes_context" where
  "mbedtls_aes_free ctx = \<lparr>nr = 0, rk_set = False, buf = replicate 68 0\<rparr>"

section \<open>Bytes and words\<close>

definition MBEDTLS_GET_UINT32_LE :: "u8 list \<Rightarrow> nat \<Rightarrow> u32" where
  "MBEDTLS_GET_UINT32_LE data offset =
     ucast (data ! offset) OR push_bit 8 (ucast (data ! (offset + 1))) OR
     push_bit 16 (ucast (data ! (offset + 2))) OR push_bit 24 (ucast (data ! (offset + 3)))"

definition MBEDTLS_PUT_UINT32_LE :: "u32 \<Rightarrow> u8 list" where
  "MBEDTLS_PUT_UINT32_LE n = [MBEDTLS_BYTE_0 n, MBEDTLS_BYTE_1 n, MBEDTLS_BYTE_2 n, MBEDTLS_BYTE_3 n]"

section \<open>The encryption key schedule\<close>

text \<open>The two ways the schedules substitute the bytes of a word, with and without a rotation.\<close>

definition sub_rot :: "u32 \<Rightarrow> u32" where
  "sub_rot w = ucast (FSb_at (MBEDTLS_BYTE_1 w)) XOR push_bit 8 (ucast (FSb_at (MBEDTLS_BYTE_2 w))) XOR
     push_bit 16 (ucast (FSb_at (MBEDTLS_BYTE_3 w))) XOR push_bit 24 (ucast (FSb_at (MBEDTLS_BYTE_0 w)))"

definition sub_word :: "u32 \<Rightarrow> u32" where
  "sub_word w = ucast (FSb_at (MBEDTLS_BYTE_0 w)) XOR push_bit 8 (ucast (FSb_at (MBEDTLS_BYTE_1 w))) XOR
     push_bit 16 (ucast (FSb_at (MBEDTLS_BYTE_2 w))) XOR push_bit 24 (ucast (FSb_at (MBEDTLS_BYTE_3 w)))"

definition set_xor :: "nat \<Rightarrow> nat \<Rightarrow> nat \<Rightarrow> u32 list \<Rightarrow> u32 list" where
  "set_xor d a b rk = rk[d := rk ! a XOR rk ! b]"

text \<open>One iteration of each of the three loops; \<open>o\<close> is the offset of \<^verbatim>\<open>RK\<close>.\<close>

definition expand_128 :: "nat \<Rightarrow> u32 list \<Rightarrow> u32 list" where
  "expand_128 i rk = (let p = 4 * i in
     (set_xor (p + 7) (p + 3) (p + 6) \<circ> set_xor (p + 6) (p + 2) (p + 5) \<circ> set_xor (p + 5) (p + 1) (p + 4))
       (rk[p + 4 := rk ! p XOR RCON ! i XOR sub_rot (rk ! (p + 3))]))"

definition expand_192 :: "nat \<Rightarrow> u32 list \<Rightarrow> u32 list" where
  "expand_192 i rk = (let p = 6 * i in
     (set_xor (p + 11) (p + 5) (p + 10) \<circ> set_xor (p + 10) (p + 4) (p + 9) \<circ> set_xor (p + 9) (p + 3) (p + 8) \<circ>
      set_xor (p + 8) (p + 2) (p + 7) \<circ> set_xor (p + 7) (p + 1) (p + 6))
       (rk[p + 6 := rk ! p XOR RCON ! i XOR sub_rot (rk ! (p + 5))]))"

definition expand_256 :: "nat \<Rightarrow> u32 list \<Rightarrow> u32 list" where
  "expand_256 i rk = (let p = 8 * i;
     rk = (set_xor (p + 11) (p + 3) (p + 10) \<circ> set_xor (p + 10) (p + 2) (p + 9) \<circ> set_xor (p + 9) (p + 1) (p + 8))
            (rk[p + 8 := rk ! p XOR RCON ! i XOR sub_rot (rk ! (p + 7))]) in
     (set_xor (p + 15) (p + 7) (p + 14) \<circ> set_xor (p + 14) (p + 6) (p + 13) \<circ> set_xor (p + 13) (p + 5) (p + 12))
       (rk[p + 12 := rk ! (p + 4) XOR sub_word (rk ! (p + 11))]))"

fun load_key :: "nat list \<Rightarrow> u8 list \<Rightarrow> u32 list \<Rightarrow> u32 list" where
  "load_key [] key rk = rk"
| "load_key (i # is) key rk = load_key is key (rk[i := MBEDTLS_GET_UINT32_LE key (4 * i)])"

definition rounds_of :: "nat \<Rightarrow> int option" where
  "rounds_of keybits =
     (if keybits = 128 then Some 10 else if keybits = 192 then Some 12 else if keybits = 256 then Some 14 else None)"

definition setkey_tables :: "u8 list \<Rightarrow> nat \<Rightarrow> u32 list \<Rightarrow> u32 list" where
  "setkey_tables key keybits rk =
     (let rk = load_key [0..<keybits div 32] key rk in
      if keybits = 128 then fold expand_128 [0..<10] rk
      else if keybits = 192 then fold expand_192 [0..<8] rk
      else fold expand_256 [0..<7] rk)"

section \<open>The decryption key schedule\<close>

definition inv_key_word :: "u32 \<Rightarrow> u32" where
  "inv_key_word w = AES_RT0 (FSb_at (MBEDTLS_BYTE_0 w)) XOR AES_RT1 (FSb_at (MBEDTLS_BYTE_1 w)) XOR
     AES_RT2 (FSb_at (MBEDTLS_BYTE_2 w)) XOR AES_RT3 (FSb_at (MBEDTLS_BYTE_3 w))"

text \<open>Writes \<^verbatim>\<open>*RK++ = w\<close> for a list of words.\<close>

fun put_words :: "u32 list \<Rightarrow> nat \<Rightarrow> u32 list \<Rightarrow> u32 list" where
  "put_words [] r rk = rk"
| "put_words (w # ws) r rk = put_words ws (Suc r) (rk[r := w])"

definition words_at :: "u32 list \<Rightarrow> nat \<Rightarrow> u32 list" where
  "words_at sk p = [sk ! p, sk ! (p + 1), sk ! (p + 2), sk ! (p + 3)]"

text \<open>The loop over \<open>i = nr - 1\<close> down to 1: \<open>r\<close> is the offset of \<^verbatim>\<open>RK\<close>, and \<^verbatim>\<open>SK\<close> is at \<open>4 * i\<close>.\<close>

fun inverse_loop :: "nat \<Rightarrow> nat \<Rightarrow> u32 list \<Rightarrow> u32 list \<Rightarrow> nat \<times> u32 list" where
  "inverse_loop 0 r sk rk = (r, rk)"
| "inverse_loop (Suc i) r sk rk =
     inverse_loop i (r + 4) sk (put_words (map inv_key_word (words_at sk (4 * Suc i))) r rk)"

definition inverse_tables :: "nat \<Rightarrow> u32 list \<Rightarrow> u32 list \<Rightarrow> u32 list" where
  "inverse_tables n sk rk =
     (let rk = put_words (words_at sk (4 * n)) 0 rk; (r, rk) = inverse_loop (n - 1) 4 sk rk in
      put_words (words_at sk 0) r rk)"

section \<open>Rounds\<close>

type_synonym block4 = "u32 \<times> u32 \<times> u32 \<times> u32"

definition AES_FROUND :: "u32 list \<Rightarrow> nat \<Rightarrow> block4 \<Rightarrow> block4" where
  "AES_FROUND rk p = (\<lambda>(y0, y1, y2, y3).
     (rk ! p XOR (AES_FT0 (MBEDTLS_BYTE_0 y0) XOR AES_FT1 (MBEDTLS_BYTE_1 y1) XOR AES_FT2 (MBEDTLS_BYTE_2 y2) XOR AES_FT3 (MBEDTLS_BYTE_3 y3)),
      rk ! (p + 1) XOR (AES_FT0 (MBEDTLS_BYTE_0 y1) XOR AES_FT1 (MBEDTLS_BYTE_1 y2) XOR AES_FT2 (MBEDTLS_BYTE_2 y3) XOR AES_FT3 (MBEDTLS_BYTE_3 y0)),
      rk ! (p + 2) XOR (AES_FT0 (MBEDTLS_BYTE_0 y2) XOR AES_FT1 (MBEDTLS_BYTE_1 y3) XOR AES_FT2 (MBEDTLS_BYTE_2 y0) XOR AES_FT3 (MBEDTLS_BYTE_3 y1)),
      rk ! (p + 3) XOR (AES_FT0 (MBEDTLS_BYTE_0 y3) XOR AES_FT1 (MBEDTLS_BYTE_1 y0) XOR AES_FT2 (MBEDTLS_BYTE_2 y1) XOR AES_FT3 (MBEDTLS_BYTE_3 y2))))"

definition AES_RROUND :: "u32 list \<Rightarrow> nat \<Rightarrow> block4 \<Rightarrow> block4" where
  "AES_RROUND rk p = (\<lambda>(y0, y1, y2, y3).
     (rk ! p XOR (AES_RT0 (MBEDTLS_BYTE_0 y0) XOR AES_RT1 (MBEDTLS_BYTE_1 y3) XOR AES_RT2 (MBEDTLS_BYTE_2 y2) XOR AES_RT3 (MBEDTLS_BYTE_3 y1)),
      rk ! (p + 1) XOR (AES_RT0 (MBEDTLS_BYTE_0 y1) XOR AES_RT1 (MBEDTLS_BYTE_1 y0) XOR AES_RT2 (MBEDTLS_BYTE_2 y3) XOR AES_RT3 (MBEDTLS_BYTE_3 y2)),
      rk ! (p + 2) XOR (AES_RT0 (MBEDTLS_BYTE_0 y2) XOR AES_RT1 (MBEDTLS_BYTE_1 y1) XOR AES_RT2 (MBEDTLS_BYTE_2 y0) XOR AES_RT3 (MBEDTLS_BYTE_3 y3)),
      rk ! (p + 3) XOR (AES_RT0 (MBEDTLS_BYTE_0 y3) XOR AES_RT1 (MBEDTLS_BYTE_1 y2) XOR AES_RT2 (MBEDTLS_BYTE_2 y1) XOR AES_RT3 (MBEDTLS_BYTE_3 y0))))"

text \<open>Four bytes through an S-box, as in the last rounds.\<close>

definition sbox4 :: "(u8 \<Rightarrow> u8) \<Rightarrow> u8 \<Rightarrow> u8 \<Rightarrow> u8 \<Rightarrow> u8 \<Rightarrow> u32" where
  "sbox4 S a b c d = ucast (S a) XOR push_bit 8 (ucast (S b)) XOR push_bit 16 (ucast (S c)) XOR push_bit 24 (ucast (S d))"

definition last_fround :: "u32 list \<Rightarrow> nat \<Rightarrow> block4 \<Rightarrow> block4" where
  "last_fround rk p = (\<lambda>(y0, y1, y2, y3).
     (rk ! p XOR sbox4 FSb_at (MBEDTLS_BYTE_0 y0) (MBEDTLS_BYTE_1 y1) (MBEDTLS_BYTE_2 y2) (MBEDTLS_BYTE_3 y3),
      rk ! (p + 1) XOR sbox4 FSb_at (MBEDTLS_BYTE_0 y1) (MBEDTLS_BYTE_1 y2) (MBEDTLS_BYTE_2 y3) (MBEDTLS_BYTE_3 y0),
      rk ! (p + 2) XOR sbox4 FSb_at (MBEDTLS_BYTE_0 y2) (MBEDTLS_BYTE_1 y3) (MBEDTLS_BYTE_2 y0) (MBEDTLS_BYTE_3 y1),
      rk ! (p + 3) XOR sbox4 FSb_at (MBEDTLS_BYTE_0 y3) (MBEDTLS_BYTE_1 y0) (MBEDTLS_BYTE_2 y1) (MBEDTLS_BYTE_3 y2)))"

definition last_rround :: "u32 list \<Rightarrow> nat \<Rightarrow> block4 \<Rightarrow> block4" where
  "last_rround rk p = (\<lambda>(y0, y1, y2, y3).
     (rk ! p XOR sbox4 RSb_at (MBEDTLS_BYTE_0 y0) (MBEDTLS_BYTE_1 y3) (MBEDTLS_BYTE_2 y2) (MBEDTLS_BYTE_3 y1),
      rk ! (p + 1) XOR sbox4 RSb_at (MBEDTLS_BYTE_0 y1) (MBEDTLS_BYTE_1 y0) (MBEDTLS_BYTE_2 y3) (MBEDTLS_BYTE_3 y2),
      rk ! (p + 2) XOR sbox4 RSb_at (MBEDTLS_BYTE_0 y2) (MBEDTLS_BYTE_1 y1) (MBEDTLS_BYTE_2 y0) (MBEDTLS_BYTE_3 y3),
      rk ! (p + 3) XOR sbox4 RSb_at (MBEDTLS_BYTE_0 y3) (MBEDTLS_BYTE_1 y2) (MBEDTLS_BYTE_2 y1) (MBEDTLS_BYTE_3 y0)))"

definition load_block :: "u32 list \<Rightarrow> u8 list \<Rightarrow> block4" where
  "load_block rk input =
     (MBEDTLS_GET_UINT32_LE input 0 XOR rk ! 0, MBEDTLS_GET_UINT32_LE input 4 XOR rk ! 1,
      MBEDTLS_GET_UINT32_LE input 8 XOR rk ! 2, MBEDTLS_GET_UINT32_LE input 12 XOR rk ! 3)"

definition store_block :: "block4 \<Rightarrow> u8 list" where
  "store_block = (\<lambda>(x0, x1, x2, x3).
     MBEDTLS_PUT_UINT32_LE x0 @ MBEDTLS_PUT_UINT32_LE x1 @ MBEDTLS_PUT_UINT32_LE x2 @ MBEDTLS_PUT_UINT32_LE x3)"

text \<open>The loop of two rounds per iteration, \<open>i\<close> times; \<open>p\<close> is the offset of \<^verbatim>\<open>RK\<close>.\<close>

fun fround_pairs :: "nat \<Rightarrow> u32 list \<Rightarrow> nat \<Rightarrow> block4 \<Rightarrow> nat \<times> block4" where
  "fround_pairs 0 rk p x = (p, x)"
| "fround_pairs (Suc i) rk p x = fround_pairs i rk (p + 8) (AES_FROUND rk (p + 4) (AES_FROUND rk p x))"

fun rround_pairs :: "nat \<Rightarrow> u32 list \<Rightarrow> nat \<Rightarrow> block4 \<Rightarrow> nat \<times> block4" where
  "rround_pairs 0 rk p x = (p, x)"
| "rround_pairs (Suc i) rk p x = rround_pairs i rk (p + 8) (AES_RROUND rk (p + 4) (AES_RROUND rk p x))"

definition encrypt_words :: "nat \<Rightarrow> u32 list \<Rightarrow> block4 \<Rightarrow> block4" where
  "encrypt_words n rk x =
     (let (p, x) = fround_pairs (n div 2 - 1) rk 4 x; y = AES_FROUND rk p x in last_fround rk (p + 4) y)"

definition decrypt_words :: "nat \<Rightarrow> u32 list \<Rightarrow> block4 \<Rightarrow> block4" where
  "decrypt_words n rk x =
     (let (p, x) = rround_pairs (n div 2 - 1) rk 4 x; y = AES_RROUND rk p x in last_rround rk (p + 4) y)"

text \<open>
  The two block functions. They read \<open>4 * (nr + 1)\<close> round-key words and 16 input bytes.
\<close>

definition mbedtls_internal_aes_encrypt :: "aes_context \<Rightarrow> u8 list \<Rightarrow> (int \<times> u8 list) option" where
  "mbedtls_internal_aes_encrypt ctx input =
     (if rk_set ctx \<and> 4 * (nat (nr ctx) + 1) \<le> length (buf ctx) \<and> 16 \<le> length input
      then Some (0, store_block (encrypt_words (nat (nr ctx)) (buf ctx) (load_block (buf ctx) input)))
      else None)"

definition mbedtls_internal_aes_decrypt :: "aes_context \<Rightarrow> u8 list \<Rightarrow> (int \<times> u8 list) option" where
  "mbedtls_internal_aes_decrypt ctx input =
     (if rk_set ctx \<and> 4 * (nat (nr ctx) + 1) \<le> length (buf ctx) \<and> 16 \<le> length input
      then Some (0, store_block (decrypt_words (nat (nr ctx)) (buf ctx) (load_block (buf ctx) input)))
      else None)"

end
