(* ===== verification/AES_Correct.thy ===== *)
theory AES_Correct
  imports AES
begin

unbundle bit_operations_syntax

text \<open>
  The block cipher against FIPS-197: the round functions of the standard on a state of four columns,
  the cipher, the equivalent inverse cipher, and the proofs that the table-driven rounds of theory \<open>AES\<close>
  compute them and that decryption undoes encryption.
\<close>

section \<open>The standard's round functions\<close>

definition map4 :: "(u32 \<Rightarrow> u32) \<Rightarrow> block4 \<Rightarrow> block4" where
  "map4 f = (\<lambda>(a, b, c, d). (f a, f b, f c, f d))"

definition xor4 :: "block4 \<Rightarrow> block4 \<Rightarrow> block4" where
  "xor4 = (\<lambda>(a, b, c, d) (a', b', c', d'). (a XOR a', b XOR b', c XOR c', d XOR d'))"

definition sub4 :: "(u8 \<Rightarrow> u8) \<Rightarrow> u32 \<Rightarrow> u32" where
  "sub4 S w = le32 (S (MBEDTLS_BYTE_0 w)) (S (MBEDTLS_BYTE_1 w)) (S (MBEDTLS_BYTE_2 w)) (S (MBEDTLS_BYTE_3 w))"

definition sub_bytes :: "block4 \<Rightarrow> block4" where "sub_bytes = map4 (sub4 FSb_at)"
definition inv_sub_bytes :: "block4 \<Rightarrow> block4" where "inv_sub_bytes = map4 (sub4 RSb_at)"

text \<open>Row \<open>r\<close> of the state, byte \<open>r\<close> of every column, is rotated by \<open>r\<close> columns.\<close>

definition pick :: "u32 \<Rightarrow> u32 \<Rightarrow> u32 \<Rightarrow> u32 \<Rightarrow> u32" where
  "pick a b c d = le32 (MBEDTLS_BYTE_0 a) (MBEDTLS_BYTE_1 b) (MBEDTLS_BYTE_2 c) (MBEDTLS_BYTE_3 d)"

definition shift_rows :: "block4 \<Rightarrow> block4" where
  "shift_rows = (\<lambda>(a, b, c, d). (pick a b c d, pick b c d a, pick c d a b, pick d a b c))"

definition inv_shift_rows :: "block4 \<Rightarrow> block4" where
  "inv_shift_rows = (\<lambda>(a, b, c, d). (pick a d c b, pick b a d c, pick c b a d, pick d c b a))"

definition mix_columns :: "block4 \<Rightarrow> block4" where "mix_columns = map4 mix_column"
definition inv_mix_columns :: "block4 \<Rightarrow> block4" where "inv_mix_columns = map4 inv_mix_column"

definition round_key :: "u32 list \<Rightarrow> nat \<Rightarrow> block4" where
  "round_key rk j = (rk ! (4 * j), rk ! (4 * j + 1), rk ! (4 * j + 2), rk ! (4 * j + 3))"

definition fips_round :: "block4 \<Rightarrow> block4 \<Rightarrow> block4" where
  "fips_round k x = xor4 (mix_columns (shift_rows (sub_bytes x))) k"

definition fips_last :: "block4 \<Rightarrow> block4 \<Rightarrow> block4" where
  "fips_last k x = xor4 (shift_rows (sub_bytes x)) k"

definition fips_inv_round :: "block4 \<Rightarrow> block4 \<Rightarrow> block4" where
  "fips_inv_round k x = xor4 (inv_mix_columns (inv_sub_bytes (inv_shift_rows x))) k"

definition fips_inv_last :: "block4 \<Rightarrow> block4 \<Rightarrow> block4" where
  "fips_inv_last k x = xor4 (inv_sub_bytes (inv_shift_rows x)) k"

text \<open>The cipher and the equivalent inverse cipher, with the round keys as a function.\<close>

fun fips_rounds :: "nat \<Rightarrow> (nat \<Rightarrow> block4) \<Rightarrow> block4 \<Rightarrow> block4" where
  "fips_rounds 0 k x = xor4 x (k 0)"
| "fips_rounds (Suc i) k x = fips_round (k (Suc i)) (fips_rounds i k x)"

definition fips_cipher :: "nat \<Rightarrow> (nat \<Rightarrow> block4) \<Rightarrow> block4 \<Rightarrow> block4" where
  "fips_cipher n k x = fips_last (k n) (fips_rounds (n - 1) k x)"

fun fips_inv_rounds :: "nat \<Rightarrow> (nat \<Rightarrow> block4) \<Rightarrow> block4 \<Rightarrow> block4" where
  "fips_inv_rounds 0 k x = xor4 x (k 0)"
| "fips_inv_rounds (Suc i) k x = fips_inv_round (k (Suc i)) (fips_inv_rounds i k x)"

definition fips_eq_inv_cipher :: "nat \<Rightarrow> (nat \<Rightarrow> block4) \<Rightarrow> block4 \<Rightarrow> block4" where
  "fips_eq_inv_cipher n k x = fips_inv_last (k n) (fips_inv_rounds (n - 1) k x)"

section \<open>Algebra of the round functions\<close>

lemma xor4_commute: "xor4 x y = xor4 y x"
  by (simp add: xor4_def split_beta xor.commute)

lemma xor4_cancel [simp]: "xor4 (xor4 x k) k = x"
  by (simp add: xor4_def split_beta)

lemma inv_shift_rows_shift_rows [simp]: "inv_shift_rows (shift_rows x) = x"
  by (cases x) (simp add: inv_shift_rows_def shift_rows_def pick_def)

lemma shift_rows_inv_shift_rows [simp]: "shift_rows (inv_shift_rows x) = x"
  by (cases x) (simp add: inv_shift_rows_def shift_rows_def pick_def)

lemma inv_sub_bytes_sub_bytes [simp]: "inv_sub_bytes (sub_bytes x) = x"
  by (cases x) (simp add: inv_sub_bytes_def sub_bytes_def map4_def sub4_def)

lemma inv_mix_columns_mix_columns [simp]: "inv_mix_columns (mix_columns x) = x"
  by (cases x) (simp add: inv_mix_columns_def mix_columns_def map4_def inv_mix_column_mix_column)

lemma inv_mix_columns_xor: "inv_mix_columns (xor4 x y) = xor4 (inv_mix_columns x) (inv_mix_columns y)"
  by (cases x; cases y) (simp add: inv_mix_columns_def xor4_def map4_def inv_mix_column_xor)

text \<open>
  The round keys of the equivalent inverse cipher: reversed, with \<open>InvMixColumns\<close> on all but the first
  and the last.
\<close>

definition inverse_keys :: "nat \<Rightarrow> (nat \<Rightarrow> block4) \<Rightarrow> (nat \<Rightarrow> block4) \<Rightarrow> bool" where
  "inverse_keys n k d \<longleftrightarrow>
     d 0 = k n \<and> d n = k 0 \<and> (\<forall>j. 0 < j \<longrightarrow> j < n \<longrightarrow> d j = inv_mix_columns (k (n - j)))"

lemma fips_inv_rounds_cipher:
  assumes "inverse_keys n k d" and "j < n"
  shows "fips_inv_rounds j d (fips_cipher n k x) = shift_rows (sub_bytes (fips_rounds (n - 1 - j) k x))"
  using assms(2)
proof (induction j)
  case 0
  then show ?case using assms(1) by (simp add: fips_cipher_def fips_last_def inverse_keys_def)
next
  case (Suc j)
  let ?i = "n - 1 - Suc j"
  have i: "n - 1 - j = Suc ?i" "n - Suc j = Suc ?i" using Suc.prems by auto
  have "fips_inv_rounds (Suc j) d (fips_cipher n k x) =
      fips_inv_round (d (Suc j)) (shift_rows (sub_bytes (fips_round (k (Suc ?i)) (fips_rounds ?i k x))))"
    using Suc i by simp
  also have "\<dots> = xor4 (inv_mix_columns (fips_round (k (Suc ?i)) (fips_rounds ?i k x))) (d (Suc j))"
    by (simp add: fips_inv_round_def)
  also have "d (Suc j) = inv_mix_columns (k (Suc ?i))"
    using assms(1) Suc.prems i by (simp add: inverse_keys_def)
  finally show ?case by (simp add: fips_round_def inv_mix_columns_xor)
qed

theorem fips_inverse_cipher:
  assumes "inverse_keys n k d" and "0 < n"
  shows "fips_eq_inv_cipher n d (fips_cipher n k x) = x"
  using fips_inv_rounds_cipher [OF assms(1), of "n - 1"] assms
  by (simp add: fips_eq_inv_cipher_def fips_inv_last_def inverse_keys_def)

section \<open>The tables compute the standard's rounds\<close>

lemma sbox4_le32: "sbox4 S a b c d = le32 (S a) (S b) (S c) (S d)"
  unfolding sbox4_def by (rule word_of_bytes)

lemma AES_FROUND_fips: "AES_FROUND rk (4 * j) x = fips_round (round_key rk j) x"
  by (cases x) (simp add: AES_FROUND_def fips_round_def round_key_def FT_column xor4_def mix_columns_def map4_def
      shift_rows_def pick_def sub_bytes_def sub4_def xor.commute)

lemma AES_RROUND_fips: "AES_RROUND rk (4 * j) x = fips_inv_round (round_key rk j) x"
  by (cases x) (simp add: AES_RROUND_def fips_inv_round_def round_key_def RT_column xor4_def inv_mix_columns_def map4_def
      inv_shift_rows_def pick_def inv_sub_bytes_def sub4_def xor.commute)

lemma last_fround_fips: "last_fround rk (4 * j) x = fips_last (round_key rk j) x"
  by (cases x) (simp add: last_fround_def fips_last_def round_key_def sbox4_le32 xor4_def map4_def
      shift_rows_def pick_def sub_bytes_def sub4_def xor.commute)

lemma last_rround_fips: "last_rround rk (4 * j) x = fips_inv_last (round_key rk j) x"
  by (cases x) (simp add: last_rround_def fips_inv_last_def round_key_def sbox4_le32 xor4_def map4_def
      inv_shift_rows_def pick_def inv_sub_bytes_def sub4_def xor.commute)

lemma fround_pairs_fips:
  "fround_pairs i rk (4 * Suc j) (fips_rounds j (round_key rk) x) =
     (4 * Suc (j + 2 * i), fips_rounds (j + 2 * i) (round_key rk) x)"
proof (induction i arbitrary: j)
  case (Suc i)
  have 1: "AES_FROUND rk (4 * Suc j) (fips_rounds j (round_key rk) x) = fips_rounds (Suc j) (round_key rk) x"
    by (simp only: AES_FROUND_fips fips_rounds.simps)
  have e: "4 * Suc j + 4 = 4 * Suc (Suc j)" "4 * Suc j + 8 = 4 * Suc (j + 2)" by simp_all
  have 2: "AES_FROUND rk (4 * Suc j + 4) (fips_rounds (Suc j) (round_key rk) x) = fips_rounds (j + 2) (round_key rk) x"
    by (simp only: e AES_FROUND_fips fips_rounds.simps add_2_eq_Suc')
  show ?case unfolding fround_pairs.simps 1 2 e(2) Suc.IH by simp
qed simp

lemma rround_pairs_fips:
  "rround_pairs i rk (4 * Suc j) (fips_inv_rounds j (round_key rk) x) =
     (4 * Suc (j + 2 * i), fips_inv_rounds (j + 2 * i) (round_key rk) x)"
proof (induction i arbitrary: j)
  case (Suc i)
  have 1: "AES_RROUND rk (4 * Suc j) (fips_inv_rounds j (round_key rk) x) = fips_inv_rounds (Suc j) (round_key rk) x"
    by (simp only: AES_RROUND_fips fips_inv_rounds.simps)
  have e: "4 * Suc j + 4 = 4 * Suc (Suc j)" "4 * Suc j + 8 = 4 * Suc (j + 2)" by simp_all
  have 2: "AES_RROUND rk (4 * Suc j + 4) (fips_inv_rounds (Suc j) (round_key rk) x) = fips_inv_rounds (j + 2) (round_key rk) x"
    by (simp only: e AES_RROUND_fips fips_inv_rounds.simps add_2_eq_Suc')
  show ?case unfolding rround_pairs.simps 1 2 e(2) Suc.IH by simp
qed simp

text \<open>The input block as four columns.\<close>

definition columns :: "u8 list \<Rightarrow> block4" where
  "columns inp = (MBEDTLS_GET_UINT32_LE inp 0, MBEDTLS_GET_UINT32_LE inp 4, MBEDTLS_GET_UINT32_LE inp 8, MBEDTLS_GET_UINT32_LE inp 12)"

lemma load_block_columns: "load_block rk inp = xor4 (columns inp) (round_key rk 0)"
  by (simp add: load_block_def columns_def xor4_def round_key_def numeral_2_eq_2)

lemma encrypt_words_fips:
  assumes "even n" and "2 \<le> n"
  shows "encrypt_words n rk (xor4 x (round_key rk 0)) = fips_cipher n (round_key rk) x"
proof -
  obtain m where m: "n = 2 * Suc m" using assms by (elim evenE) (cases "n div 2", auto)
  have "fround_pairs (n div 2 - 1) rk 4 (xor4 x (round_key rk 0)) = (4 * Suc (2 * m), fips_rounds (2 * m) (round_key rk) x)"
    using fround_pairs_fips [of m rk 0 x] m by simp
  moreover have "AES_FROUND rk (4 * Suc (2 * m)) (fips_rounds (2 * m) (round_key rk) x) = fips_rounds (n - 1) (round_key rk) x"
    using m by (simp only: AES_FROUND_fips) simp
  moreover have "4 * Suc (2 * m) + 4 = 4 * n" using m by simp
  ultimately show ?thesis by (simp add: encrypt_words_def fips_cipher_def last_fround_fips)
qed

lemma decrypt_words_fips:
  assumes "even n" and "2 \<le> n"
  shows "decrypt_words n rk (xor4 x (round_key rk 0)) = fips_eq_inv_cipher n (round_key rk) x"
proof -
  obtain m where m: "n = 2 * Suc m" using assms by (elim evenE) (cases "n div 2", auto)
  have "rround_pairs (n div 2 - 1) rk 4 (xor4 x (round_key rk 0)) = (4 * Suc (2 * m), fips_inv_rounds (2 * m) (round_key rk) x)"
    using rround_pairs_fips [of m rk 0 x] m by simp
  moreover have "AES_RROUND rk (4 * Suc (2 * m)) (fips_inv_rounds (2 * m) (round_key rk) x) = fips_inv_rounds (n - 1) (round_key rk) x"
    using m by (simp only: AES_RROUND_fips) simp
  moreover have "4 * Suc (2 * m) + 4 = 4 * n" using m by simp
  ultimately show ?thesis by (simp add: decrypt_words_def fips_eq_inv_cipher_def last_rround_fips)
qed

section \<open>Bytes and blocks\<close>

lemma GET_le32: "MBEDTLS_GET_UINT32_LE data p = le32 (data ! p) (data ! (p + 1)) (data ! (p + 2)) (data ! (p + 3))"
  by (simp add: MBEDTLS_GET_UINT32_LE_def le32_def)

lemma list16:
  assumes "length xs = 16"
  obtains a b c d e f g h i j k l m n p q where "xs = [a, b, c, d, e, f, g, h, i, j, k, l, m, n, p, q]"
  using assms by (auto simp: eval_nat_numeral length_Suc_conv)

lemma store_columns:
  assumes "length inp = 16"
  shows "store_block (columns inp) = inp"
  by (rule list16 [OF assms]) (simp add: store_block_def columns_def MBEDTLS_PUT_UINT32_LE_def GET_le32)

lemma columns_store: "columns (store_block x) = x"
  by (cases x) (simp add: columns_def store_block_def MBEDTLS_PUT_UINT32_LE_def GET_le32)

lemma length_store_block [simp]: "length (store_block x) = 16"
  by (cases x) (simp add: store_block_def MBEDTLS_PUT_UINT32_LE_def)

section \<open>The decryption key schedule\<close>

lemma inv_key_word_eq: "inv_key_word w = inv_mix_column w"
  by (simp add: inv_key_word_def RT_column)

lemma length_put_words [simp]: "length (put_words ws r rk) = length rk"
  by (induction ws r rk rule: put_words.induct) simp_all

lemma nth_put_words:
  "r + length ws \<le> length rk \<Longrightarrow>
     put_words ws r rk ! j = (if r \<le> j \<and> j < r + length ws then ws ! (j - r) else rk ! j)"
proof (induction ws r rk rule: put_words.induct)
  case (2 w ws r rk)
  then show ?case by (cases "j = r") (auto simp: nth_Cons' Suc_diff_le)
qed auto

lemma length_words_at [simp]: "length (words_at sk p) = 4"
  by (simp add: words_at_def)

lemma nth_words_at: "i < 4 \<Longrightarrow> words_at sk p ! i = sk ! (p + i)"
proof -
  assume "i < 4"
  then have "i \<in> {0, 1, 2, 3}" by auto
  then show ?thesis by (elim insertE emptyE) (simp_all add: words_at_def numeral_2_eq_2 numeral_3_eq_3)
qed

lemma inverse_loop_words:
  assumes "r + 4 * i \<le> length rk"
  shows "\<exists>rk'. inverse_loop i r sk rk = (r + 4 * i, rk') \<and> length rk' = length rk \<and>
    (\<forall>m t. 0 < m \<longrightarrow> m \<le> i \<longrightarrow> t < 4 \<longrightarrow> rk' ! (r + 4 * (i - m) + t) = inv_mix_column (sk ! (4 * m + t))) \<and>
    (\<forall>j. j < r \<or> r + 4 * i \<le> j \<longrightarrow> rk' ! j = rk ! j)"
  using assms
proof (induction i arbitrary: r rk)
  case 0
  then show ?case by simp
next
  case (Suc i)
  let ?ws = "map inv_key_word (words_at sk (4 * Suc i))"
  let ?rk = "put_words ?ws r rk"
  have len: "r + 4 + 4 * i \<le> length ?rk" using Suc.prems by simp
  obtain rk' where rk': "inverse_loop i (r + 4) sk ?rk = (r + 4 + 4 * i, rk')" "length rk' = length ?rk"
    "\<And>m t. 0 < m \<Longrightarrow> m \<le> i \<Longrightarrow> t < 4 \<Longrightarrow> rk' ! (r + 4 + 4 * (i - m) + t) = inv_mix_column (sk ! (4 * m + t))"
    "\<And>j. j < r + 4 \<or> r + 4 + 4 * i \<le> j \<Longrightarrow> rk' ! j = ?rk ! j"
    using Suc.IH [OF len] by blast
  have put: "?rk ! j = (if r \<le> j \<and> j < r + 4 then inv_mix_column (sk ! (4 * Suc i + (j - r))) else rk ! j)" for j
    using Suc.prems nth_put_words [of r ?ws rk j] nth_words_at [of "j - r" sk "4 * Suc i"]
    by (auto simp: inv_key_word_eq)
  have "rk' ! (r + 4 * (Suc i - m) + t) = inv_mix_column (sk ! (4 * m + t))" if "0 < m" "m \<le> Suc i" "t < 4" for m t
  proof (cases "m = Suc i")
    case True
    then show ?thesis using rk'(4) [of "r + t"] put [of "r + t"] that by simp
  next
    case False
    then have "m \<le> i" and e: "r + 4 * (Suc i - m) + t = r + 4 + 4 * (i - m) + t" using that by auto
    show ?thesis unfolding e by (rule rk'(3) [OF that(1) \<open>m \<le> i\<close> that(3)])
  qed
  moreover have "rk' ! j = rk ! j" if "j < r \<or> r + 4 * Suc i \<le> j" for j
    using rk'(4) [of j] put [of j] that by auto
  ultimately show ?case using rk' by auto
qed

lemma inverse_tables_keys:
  assumes "0 < n" and "4 * (n + 1) \<le> length rk"
  shows "inverse_keys n (round_key sk) (round_key (inverse_tables n sk rk))" and "length (inverse_tables n sk rk) = length rk"
proof -
  let ?rk0 = "put_words (words_at sk (4 * n)) 0 rk"
  obtain rk1 where rk1: "inverse_loop (n - 1) 4 sk ?rk0 = (4 * n, rk1)" "length rk1 = length rk"
    "\<And>m t. 0 < m \<Longrightarrow> m \<le> n - 1 \<Longrightarrow> t < 4 \<Longrightarrow> rk1 ! (4 + 4 * (n - 1 - m) + t) = inv_mix_column (sk ! (4 * m + t))"
    "\<And>j. j < 4 \<or> 4 * n \<le> j \<Longrightarrow> rk1 ! j = ?rk0 ! j"
    using inverse_loop_words [of 4 "n - 1" ?rk0 sk] assms by (auto simp: algebra_simps)
  have res: "inverse_tables n sk rk = put_words (words_at sk 0) (4 * n) rk1"
    using rk1(1) by (simp add: inverse_tables_def Let_def)
  let ?d = "inverse_tables n sk rk"
  have d: "?d ! j = (if 4 * n \<le> j \<and> j < 4 * n + 4 then sk ! (j - 4 * n) else rk1 ! j)" for j
    using nth_put_words [of "4 * n" "words_at sk 0" rk1 j] nth_words_at [of "j - 4 * n" sk 0] assms rk1(2)
    by (auto simp: res)
  have d0: "?d ! t = sk ! (4 * n + t)" if "t < 4" for t
    using d [of t] rk1(4) [of t] nth_put_words [of 0 "words_at sk (4 * n)" rk t] nth_words_at [of t sk "4 * n"] that assms
    by auto
  have dj: "?d ! (4 * j + t) = inv_mix_column (sk ! (4 * (n - j) + t))" if "0 < j" "j < n" "t < 4" for j t
  proof -
    have "4 + 4 * (n - 1 - (n - j)) + t = 4 * j + t" using that by auto
    moreover have "rk1 ! (4 + 4 * (n - 1 - (n - j)) + t) = inv_mix_column (sk ! (4 * (n - j) + t))"
      using that by (intro rk1(3)) auto
    ultimately show ?thesis using d [of "4 * j + t"] that by auto
  qed
  have "round_key ?d 0 = round_key sk n" using d0 [of 0] d0 [of 1] d0 [of 2] d0 [of 3] by (simp add: round_key_def numeral_2_eq_2 numeral_3_eq_3)
  moreover have "round_key ?d n = round_key sk 0" by (simp add: round_key_def d numeral_2_eq_2 numeral_3_eq_3)
  moreover have "round_key ?d j = inv_mix_columns (round_key sk (n - j))" if "0 < j" "j < n" for j
    using dj [OF that, of 0] dj [OF that, of 1] dj [OF that, of 2] dj [OF that, of 3]
    by (simp add: round_key_def inv_mix_columns_def map4_def)
  ultimately show "inverse_keys n (round_key sk) (round_key ?d)" by (simp add: inverse_keys_def)
  show "length ?d = length rk" using rk1(2) by (simp add: res)
qed

end
