(* ===== verification/AES_Gen.thy ===== *)
theory AES_Gen
  imports AES_Tables
begin

unbundle bit_operations_syntax

text \<open>
  The table generation of \<^verbatim>\<open>src/mbedtls-3.1.0/library/aes.c\<close>. The configuration leaves
  \<^verbatim>\<open>MBEDTLS_AES_ROM_TABLES\<close> undefined, so the first key set-up computes the tables; the theory shows that it
  computes the constant tables of the other configuration, on which the theory \<open>AES\<close> rests. The values of the
  type \<^verbatim>\<open>int\<close> are words of 32 bits; they stay below 512. The arrays \<^verbatim>\<open>pow\<close> and \<^verbatim>\<open>log\<close> are uninitialised at
  the start and are arguments.
\<close>

section \<open>The generator\<close>

record aes_tables =
  g_FSb :: "u8 list"
  g_FT0 :: "u32 list"
  g_FT1 :: "u32 list"
  g_FT2 :: "u32 list"
  g_FT3 :: "u32 list"
  g_RSb :: "u8 list"
  g_RT0 :: "u32 list"
  g_RT1 :: "u32 list"
  g_RT2 :: "u32 list"
  g_RT3 :: "u32 list"
  g_RCON :: "u32 list"

definition ROTL8 :: "u32 \<Rightarrow> u32" where
  "ROTL8 x = (push_bit 8 x AND 0xFFFFFFFF) OR drop_bit 24 x"

definition XTIME :: "u32 \<Rightarrow> u32" where
  "XTIME x = push_bit 1 x XOR (if x AND 0x80 \<noteq> 0 then 0x1B else 0x00)"

definition MUL :: "u32 list \<Rightarrow> u32 list \<Rightarrow> u32 \<Rightarrow> u32 \<Rightarrow> u32" where
  "MUL pow log x y = (if x \<noteq> 0 \<and> y \<noteq> 0 then pow ! ((unat (log ! unat x) + unat (log ! unat y)) mod 255) else 0)"

definition pow_log_body :: "nat \<Rightarrow> u32 \<times> u32 list \<times> u32 list \<Rightarrow> u32 \<times> u32 list \<times> u32 list" where
  "pow_log_body i = (\<lambda>(x, pow, log). (ucast (MBEDTLS_BYTE_0 (x XOR XTIME x)), pow[i := x], log[unat x := of_nat i]))"

definition rcon_body :: "nat \<Rightarrow> u32 \<times> u32 list \<Rightarrow> u32 \<times> u32 list" where
  "rcon_body i = (\<lambda>(x, rcon). (ucast (MBEDTLS_BYTE_0 (XTIME x)), rcon[i := x]))"

definition rotl_byte :: "u32 \<Rightarrow> u32" where
  "rotl_byte y = ucast (MBEDTLS_BYTE_0 (push_bit 1 y OR drop_bit 7 y))"

definition sbox_value :: "u32 \<Rightarrow> u32" where
  "sbox_value x =
     (let y = x; y = rotl_byte y;
          x = x XOR y; y = rotl_byte y;
          x = x XOR y; y = rotl_byte y;
          x = x XOR y; y = rotl_byte y in
      x XOR (y XOR 0x63))"

definition sbox_body :: "u32 list \<Rightarrow> u32 list \<Rightarrow> nat \<Rightarrow> u8 list \<times> u8 list \<Rightarrow> u8 list \<times> u8 list" where
  "sbox_body pow log i = (\<lambda>(F, R).
     let x = sbox_value (pow ! (255 - unat (log ! i))) in (F[i := ucast x], R[unat x := of_nat i]))"

definition table_body :: "u32 list \<Rightarrow> u32 list \<Rightarrow> nat \<Rightarrow> aes_tables \<Rightarrow> aes_tables" where
  "table_body pow log i t =
     (let x = ucast (g_FSb t ! i) :: u32; y = ucast (MBEDTLS_BYTE_0 (XTIME x)) :: u32; z = ucast (MBEDTLS_BYTE_0 (y XOR x)) :: u32;
          f0 = y XOR push_bit 8 x XOR push_bit 16 x XOR push_bit 24 z; f1 = ROTL8 f0; f2 = ROTL8 f1; f3 = ROTL8 f2;
          x = ucast (g_RSb t ! i) :: u32;
          r0 = MUL pow log 0x0E x XOR push_bit 8 (MUL pow log 0x09 x) XOR push_bit 16 (MUL pow log 0x0D x) XOR
               push_bit 24 (MUL pow log 0x0B x);
          r1 = ROTL8 r0; r2 = ROTL8 r1; r3 = ROTL8 r2 in
      t\<lparr>g_FT0 := (g_FT0 t)[i := f0], g_FT1 := (g_FT1 t)[i := f1], g_FT2 := (g_FT2 t)[i := f2], g_FT3 := (g_FT3 t)[i := f3],
        g_RT0 := (g_RT0 t)[i := r0], g_RT1 := (g_RT1 t)[i := r1], g_RT2 := (g_RT2 t)[i := r2], g_RT3 := (g_RT3 t)[i := r3]\<rparr>)"

definition aes_gen_tables :: "u32 list \<Rightarrow> u32 list \<Rightarrow> aes_tables \<Rightarrow> aes_tables" where
  "aes_gen_tables pow log t =
     (let (x, pow, log) = fold pow_log_body [0..<256] (1, pow, log);
          (x, rcon) = fold rcon_body [0..<10] (1, g_RCON t);
          (F, R) = fold (sbox_body pow log) [1..<256] ((g_FSb t)[0 := 0x63], (g_RSb t)[0x63 := 0]) in
      fold (table_body pow log) [0..<256] (t\<lparr>g_RCON := rcon, g_FSb := F, g_RSb := R\<rparr>))"

section \<open>Powers and logarithms\<close>

text \<open>The powers of the generator 3 and the exponents, as constants.\<close>

definition POW :: "u8 list" where
  "POW = [
   1, 3, 5, 15, 17, 51, 85, 255, 26, 46, 114, 150, 161, 248, 19, 53,
   95, 225, 56, 72, 216, 115, 149, 164, 247, 2, 6, 10, 30, 34, 102, 170,
   229, 52, 92, 228, 55, 89, 235, 38, 106, 190, 217, 112, 144, 171, 230, 49,
   83, 245, 4, 12, 20, 60, 68, 204, 79, 209, 104, 184, 211, 110, 178, 205,
   76, 212, 103, 169, 224, 59, 77, 215, 98, 166, 241, 8, 24, 40, 120, 136,
   131, 158, 185, 208, 107, 189, 220, 127, 129, 152, 179, 206, 73, 219, 118, 154,
   181, 196, 87, 249, 16, 48, 80, 240, 11, 29, 39, 105, 187, 214, 97, 163,
   254, 25, 43, 125, 135, 146, 173, 236, 47, 113, 147, 174, 233, 32, 96, 160,
   251, 22, 58, 78, 210, 109, 183, 194, 93, 231, 50, 86, 250, 21, 63, 65,
   195, 94, 226, 61, 71, 201, 64, 192, 91, 237, 44, 116, 156, 191, 218, 117,
   159, 186, 213, 100, 172, 239, 42, 126, 130, 157, 188, 223, 122, 142, 137, 128,
   155, 182, 193, 88, 232, 35, 101, 175, 234, 37, 111, 177, 200, 67, 197, 84,
   252, 31, 33, 99, 165, 244, 7, 9, 27, 45, 119, 153, 176, 203, 70, 202,
   69, 207, 74, 222, 121, 139, 134, 145, 168, 227, 62, 66, 198, 81, 243, 14,
   18, 54, 90, 238, 41, 123, 141, 140, 143, 138, 133, 148, 167, 242, 13, 23,
   57, 75, 221, 124, 132, 151, 162, 253, 28, 36, 108, 180, 199, 82, 246, 1]"

definition LOG :: "nat list" where
  "LOG = [
   0, 255, 25, 1, 50, 2, 26, 198, 75, 199, 27, 104, 51, 238, 223, 3,
   100, 4, 224, 14, 52, 141, 129, 239, 76, 113, 8, 200, 248, 105, 28, 193,
   125, 194, 29, 181, 249, 185, 39, 106, 77, 228, 166, 114, 154, 201, 9, 120,
   101, 47, 138, 5, 33, 15, 225, 36, 18, 240, 130, 69, 53, 147, 218, 142,
   150, 143, 219, 189, 54, 208, 206, 148, 19, 92, 210, 241, 64, 70, 131, 56,
   102, 221, 253, 48, 191, 6, 139, 98, 179, 37, 226, 152, 34, 136, 145, 16,
   126, 110, 72, 195, 163, 182, 30, 66, 58, 107, 40, 84, 250, 133, 61, 186,
   43, 121, 10, 21, 155, 159, 94, 202, 78, 212, 172, 229, 243, 115, 167, 87,
   175, 88, 168, 80, 244, 234, 214, 116, 79, 174, 233, 213, 231, 230, 173, 232,
   44, 215, 117, 122, 235, 22, 11, 245, 89, 203, 95, 176, 156, 169, 81, 160,
   127, 12, 246, 111, 23, 196, 73, 236, 216, 67, 31, 45, 164, 118, 123, 183,
   204, 187, 62, 90, 251, 96, 177, 134, 59, 82, 161, 108, 170, 85, 41, 157,
   151, 178, 135, 144, 97, 190, 220, 252, 188, 149, 207, 205, 55, 63, 91, 209,
   83, 57, 132, 60, 65, 162, 109, 71, 20, 42, 158, 93, 86, 242, 211, 171,
   68, 17, 146, 217, 35, 32, 46, 137, 180, 124, 184, 38, 119, 153, 227, 165,
   103, 74, 237, 222, 197, 49, 254, 24, 13, 99, 140, 128, 192, 247, 112, 7]"

lemma length_POW: "length POW = 256"
  by code_simp

lemma length_LOG: "length LOG = 256"
  by code_simp

lemma POW_step: "map mul3 (butlast POW) = tl POW"
  by code_simp

lemma POW_LOG: "map (\<lambda>i. POW ! (LOG ! i)) [1..<256] = map of_nat [1..<256]"
  by code_simp

lemma LOG_range: "list_all (\<lambda>n. 1 \<le> n \<and> n \<le> 255) (tl LOG)"
  by code_simp

text \<open>The S-box on bytes, and the table of the S-box read in the order of the powers.\<close>

definition rot1 :: "u8 \<Rightarrow> u8" where
  "rot1 y = push_bit 1 y OR drop_bit 7 y"

definition sbox_byte :: "u8 \<Rightarrow> u8" where
  "sbox_byte x = (let y1 = rot1 x; y2 = rot1 y1; y3 = rot1 y2; y4 = rot1 y3 in x XOR y1 XOR y2 XOR y3 XOR y4 XOR 0x63)"

lemma sbox_POW: "map FSb_at (tl POW) = map sbox_byte (rev (butlast POW))"
  by code_simp

lemma mul14_POW: "map mul14 (butlast POW) = drop 223 (butlast POW) @ take 223 (butlast POW)"
  by code_simp

lemma mul9_POW: "map mul9 (butlast POW) = drop 199 (butlast POW) @ take 199 (butlast POW)"
  by code_simp

lemma mul13_POW: "map mul13 (butlast POW) = drop 238 (butlast POW) @ take 238 (butlast POW)"
  by code_simp

lemma mul11_POW: "map mul11 (butlast POW) = drop 104 (butlast POW) @ take 104 (butlast POW)"
  by code_simp

lemma special_values: "POW ! 0 = 1" "POW ! 255 = 1" "FSb ! 0 = 0x63" "LOG ! 14 = 223" "LOG ! 9 = 199" "LOG ! 13 = 238" "LOG ! 11 = 104" "LOG ! 1 = 255"
  by code_simp+

lemma XTIME_byte: "MBEDTLS_BYTE_0 (XTIME (ucast b)) = xtime b"
proof -
  have "(0x80 :: u32) = 2 ^ 7" by simp
  then have c: "(ucast b AND 0x80 \<noteq> (0 :: u32)) = bit (b :: u8) 7"
    by (simp only: and_exp_eq_0_iff_not_bit) (simp add: bit_simps)
  have p: "(ucast (push_bit 1 (ucast b :: u32)) :: u8) = push_bit 1 b"
    by (rule bit_word_eqI) (auto simp: bit_simps simp del: push_bit_Suc)
  show ?thesis
    unfolding XTIME_def c byte_ucast xtime_def by (simp add: unsigned_xor_eq p del: One_nat_def push_bit_Suc)
qed


lemma byte_word_byte [simp]: "(ucast (ucast (b :: u8) :: u32) :: u8) = b"
  by (rule bit_word_eqI) (simp add: bit_simps)

lemma unat_byte_word [simp]: "unat (ucast (b :: u8) :: u32) = unat b"
  by (simp add: unsigned_ucast_eq take_bit_nat_eq_self order_less_trans [OF byte_index])

lemma mul3_byte: "MBEDTLS_BYTE_0 (ucast b XOR XTIME (ucast b)) = mul3 b"
  using XTIME_byte [of b] by (simp add: mul3_def byte_ucast unsigned_xor_eq xor.commute)

lemma sbox_value_byte: "sbox_value (ucast b) = ucast (sbox_byte b)"
proof -
  have "rotl_byte (ucast y) = ucast (rot1 y)" for y :: u8
  proof -
    have "(ucast (push_bit 1 (ucast y :: u32) OR drop_bit 7 (ucast y)) :: u8) = push_bit 1 y OR drop_bit 7 y"
      by (rule bit_word_eqI) (unfold bit_or_iff bit_push_bit_iff bit_drop_bit_eq bit_unsigned_iff comp_apply, auto dest: bit_imp_le_length)
    then show ?thesis by (simp only: rotl_byte_def rot1_def byte_ucast)
  qed
  then show ?thesis
    by (simp add: sbox_value_def sbox_byte_def Let_def unsigned_xor_eq xor.assoc)
qed

lemma POW_Suc: "j < 255 \<Longrightarrow> mul3 (POW ! j) = POW ! Suc j"
proof -
  assume j: "j < 255"
  have "map mul3 (butlast POW) ! j = tl POW ! j" by (simp only: POW_step)
  then show ?thesis using j by (simp add: nth_butlast nth_tl length_POW)
qed

lemma POW_LOG_nth: "1 \<le> v \<Longrightarrow> v < 256 \<Longrightarrow> POW ! (LOG ! v) = of_nat v"
proof -
  assume v: "1 \<le> v" "v < 256"
  have "map (\<lambda>i. POW ! (LOG ! i)) [1..<256] ! (v - 1) = map of_nat [1..<256] ! (v - 1)" by (simp only: POW_LOG)
  then show ?thesis using v by (simp add: nth_map)
qed

lemma LOG_bounds: "1 \<le> v \<Longrightarrow> v < 256 \<Longrightarrow> 1 \<le> LOG ! v \<and> LOG ! v \<le> 255"
proof -
  assume v: "1 \<le> v" "v < 256"
  have "1 \<le> tl LOG ! (v - 1) \<and> tl LOG ! (v - 1) \<le> 255"
    using LOG_range v length_LOG by (auto simp: list_all_length)
  then show ?thesis using v length_LOG by (simp add: nth_tl)
qed

text \<open>A power that is not the first one has only one exponent.\<close>

lemma POW_unique:
  assumes "m < 256" and "1 \<le> v" "v < 256" and "unat (POW ! m) = v"
  shows "m = LOG ! v \<or> m = 0"
proof (cases "m = 0")
  case False
  let ?A = "{1..255 :: nat}"
  have into: "(!) LOG ` ?A \<subseteq> ?A" using LOG_bounds by fastforce
  have val: "unat (POW ! (LOG ! u)) = u" if "u \<in> ?A" for u
    using POW_LOG_nth [of u] that by (simp add: unat_of_nat_less)
  then have "inj_on ((!) LOG) ?A" by (metis inj_onI)
  then have "(!) LOG ` ?A = ?A" using into by (simp add: endo_inj_surj)
  moreover have "m \<in> ?A" using assms(1) False by simp
  ultimately obtain u where "u \<in> ?A" "m = LOG ! u" by blast
  then show ?thesis using val assms(4) by auto
qed simp

section \<open>The first loop\<close>

definition log_tables :: "u32 list \<Rightarrow> u32 list \<Rightarrow> bool" where
  "log_tables pow log \<longleftrightarrow> (\<forall>j<256. pow ! j = ucast (POW ! j)) \<and> (\<forall>v. 1 \<le> v \<and> v < 256 \<longrightarrow> log ! v = of_nat (LOG ! v))"

lemma pow_log_loop:
  assumes "length pow = 256" "length log = 256"
  shows "m \<le> 256 \<Longrightarrow> \<exists>x pow' log'. fold pow_log_body [0..<m] (1, pow, log) = (x, pow', log') \<and> length pow' = 256 \<and> length log' = 256 \<and>
    (m < 256 \<longrightarrow> x = ucast (POW ! m)) \<and> (\<forall>j<m. pow' ! j = ucast (POW ! j)) \<and>
    (\<forall>v. 1 \<le> v \<and> v < 256 \<and> LOG ! v < m \<longrightarrow> log' ! v = of_nat (LOG ! v))"
proof (induction m)
  case 0
  then show ?case using assms special_values(1) by simp
next
  case (Suc m)
  then obtain x pow' log' where IH: "fold pow_log_body [0..<m] (1, pow, log) = (x, pow', log')" "length pow' = 256" "length log' = 256"
    "x = ucast (POW ! m)" "\<forall>j<m. pow' ! j = ucast (POW ! j)" "\<forall>v. 1 \<le> v \<and> v < 256 \<and> LOG ! v < m \<longrightarrow> log' ! v = of_nat (LOG ! v)"
    by auto
  let ?v = "unat (POW ! m)"
  have v: "?v < 256" by (rule byte_index)
  have step: "fold pow_log_body [0..<Suc m] (1, pow, log) = (ucast (mul3 (POW ! m)), pow'[m := ucast (POW ! m)], log'[?v := of_nat m])"
    using IH(1,4) by (simp add: pow_log_body_def mul3_byte del: byte_xor)
  have "log'[?v := of_nat m] ! v = of_nat (LOG ! v)" if "1 \<le> v" "v < 256" "LOG ! v < Suc m" for v
  proof (cases "?v = v")
    case True
    then have "m = LOG ! v" using POW_unique [of m v] that LOG_bounds [of v] Suc.prems by fastforce
    then show ?thesis using True IH(3) v by simp
  next
    case False
    have "LOG ! v \<noteq> m"
    proof
      assume "LOG ! v = m"
      then have "POW ! m = of_nat v" using POW_LOG_nth that by blast
      then show False using False that by (simp add: unat_of_nat_less)
    qed
    then show ?thesis using False IH(6) that by simp
  qed
  moreover have "\<forall>j<Suc m. pow'[m := ucast (POW ! m)] ! j = ucast (POW ! j)" using IH(2,5) Suc.prems by (auto simp: less_Suc_eq nth_list_update)
  ultimately show ?case unfolding step using IH(2,3) POW_Suc [of m] by auto
qed

lemma pow_log_done:
  assumes "length pow = 256" "length log = 256"
  shows "\<exists>x pow' log'. fold pow_log_body [0..<256] (1, pow, log) = (x, pow', log') \<and> log_tables pow' log'"
proof -
  have b: "1 \<le> v \<Longrightarrow> v < 256 \<Longrightarrow> LOG ! v < 256" for v using LOG_bounds [of v] by simp
  obtain x pow' log' where "fold pow_log_body [0..<256] (1, pow, log) = (x, pow', log')" "\<forall>j<256. pow' ! j = ucast (POW ! j)"
    "\<forall>v. 1 \<le> v \<and> v < 256 \<and> LOG ! v < 256 \<longrightarrow> log' ! v = of_nat (LOG ! v)"
    using pow_log_loop [OF assms, of 256] by blast
  with b show ?thesis unfolding log_tables_def by blast
qed

section \<open>The round constants and the S-boxes\<close>

lemma rcon_loop: "length rcon = 10 \<Longrightarrow> snd (fold rcon_body [0..<10] (1, rcon)) = RCON"
proof -
  assume "length rcon = 10"
  then obtain a b c d e f g h i j where "rcon = [a, b, c, d, e, f, g, h, i, j]" by (auto simp: eval_nat_numeral length_Suc_conv)
  then show ?thesis by (simp add: upt_rec rcon_body_def XTIME_def MBEDTLS_BYTE_0_def RCON_def)
qed

lemma generated_sbox:
  assumes "log_tables pow log" and i: "1 \<le> i" "i < 256"
  shows "sbox_value (pow ! (255 - unat (log ! i))) = ucast (FSb ! i)"
proof -
  let ?k = "LOG ! i"
  have k: "1 \<le> ?k" "?k \<le> 255" using LOG_bounds [OF i] by auto
  have "unat (log ! i) = ?k" using assms k by (simp add: log_tables_def unat_of_nat_less)
  then have "pow ! (255 - unat (log ! i)) = ucast (POW ! (255 - ?k))" using assms(1) by (simp add: log_tables_def)
  moreover have "FSb_at (POW ! ?k) = sbox_byte (POW ! (255 - ?k))"
  proof -
    have "map FSb_at (tl POW) ! (?k - 1) = map sbox_byte (rev (butlast POW)) ! (?k - 1)" by (simp only: sbox_POW)
    then show ?thesis using k by (simp add: length_POW nth_tl rev_nth nth_butlast)
  qed
  moreover have "FSb_at (POW ! ?k) = FSb ! i" using POW_LOG_nth [OF i] i by (simp add: FSb_at_def unat_of_nat_less)
  ultimately show ?thesis by (simp add: sbox_value_byte)
qed

lemma FSb_nth_inj: "i < 256 \<Longrightarrow> j < 256 \<Longrightarrow> FSb ! i = FSb ! j \<Longrightarrow> i = j"
proof -
  assume ij: "i < 256" "j < 256" "FSb ! i = FSb ! j"
  then have "FSb_at (of_nat i) = FSb_at (of_nat j)" by (simp add: FSb_at_def unat_of_nat_less)
  then have "(of_nat i :: u8) = of_nat j" by (metis RSb_FSb)
  then have "unat (of_nat i :: u8) = unat (of_nat j :: u8)" by simp
  then show "i = j" using ij by (simp add: unat_of_nat_less)
qed

lemma sbox_loop:
  assumes "log_tables pow log" and "length F0 = 256" "length R0 = 256" "F0 ! 0 = FSb ! 0" "R0 ! unat (FSb ! 0) = 0"
  shows "1 \<le> m \<Longrightarrow> m \<le> 256 \<Longrightarrow> \<exists>F R. fold (sbox_body pow log) [1..<m] (F0, R0) = (F, R) \<and> length F = 256 \<and> length R = 256 \<and>
    (\<forall>i<m. F ! i = FSb ! i \<and> R ! unat (FSb ! i) = of_nat i)"
proof (induction m)
  case (Suc m)
  show ?case
  proof (cases "m = 0")
    case True
    then show ?thesis using assms by simp
  next
    case False
    then obtain F R where IH: "fold (sbox_body pow log) [1..<m] (F0, R0) = (F, R)" "length F = 256" "length R = 256"
      "\<forall>i<m. F ! i = FSb ! i \<and> R ! unat (FSb ! i) = of_nat i" using Suc by auto
    have m: "1 \<le> m" "m < 256" using False Suc.prems by auto
    have "fold (sbox_body pow log) [1..<Suc m] (F0, R0) = (F[m := FSb ! m], R[unat (FSb ! m) := of_nat m])"
      using m IH(1) by (simp add: sbox_body_def generated_sbox [OF assms(1) m] Let_def)
    moreover have "R[unat (FSb ! m) := of_nat m] ! unat (FSb ! i) = of_nat i" if "i < Suc m" for i
    proof (cases "i = m")
      case True
      then show ?thesis using IH(3) byte_index by simp
    next
      case False
      then have "unat (FSb ! i) \<noteq> unat (FSb ! m)" using FSb_nth_inj [of i m] m that by (metis less_SucE less_trans word_unat_eq_iff)
      then show ?thesis using IH(4) that False by simp
    qed
    moreover have "F[m := FSb ! m] ! i = FSb ! i" if "i < Suc m" for i
      using IH(2,4) m that by (cases "i = m") auto
    ultimately show ?thesis using IH(2,3) by simp
  qed
qed simp

lemma sbox_done:
  assumes "log_tables pow log" and "length F0 = 256" "length R0 = 256"
  shows "fold (sbox_body pow log) [1..<256] (F0[0 := 0x63], R0[0x63 := 0]) = (FSb, RSb)"
proof -
  obtain F R where FR: "fold (sbox_body pow log) [1..<256] (F0[0 := 0x63], R0[0x63 := 0]) = (F, R)" "length F = 256" "length R = 256"
    "\<forall>i<256. F ! i = FSb ! i \<and> R ! unat (FSb ! i) = of_nat i"
    using sbox_loop [OF assms(1), of "F0[0 := 0x63]" "R0[0x63 := 0]" 256] assms(2,3) special_values(3) by auto
  have "F = FSb" by (rule nth_equalityI) (use FR table_lengths in auto)
  moreover have "R = RSb"
  proof (rule nth_equalityI)
    fix v assume "v < length R"
    then have v: "v < 256" using FR(3) by simp
    let ?i = "unat (RSb_at (of_nat v))"
    have "FSb ! ?i = of_nat v" using FSb_RSb [of "of_nat v"] by (simp only: FSb_at_def)
    moreover have "?i < 256" by (rule byte_index)
    ultimately have "R ! unat (of_nat v :: u8) = of_nat ?i" using FR(4) by metis
    then have "R ! v = of_nat ?i" using v by (simp add: unat_of_nat_less)
    then show "R ! v = RSb ! v" using v by (simp add: RSb_at_def unat_of_nat_less)
  qed (use FR table_lengths in simp)
  ultimately show ?thesis using FR(1) by simp
qed


section \<open>The round tables\<close>

lemma rotated_powers:
  assumes "length P = 255" and "map f P = drop k P @ take k P" and "k < 255" and "j < 255"
  shows "f (P ! j) = P ! ((k + j) mod 255)"
proof -
  have "f (P ! j) = map f P ! j" using assms(1,4) by simp
  also have "\<dots> = (drop k P @ take k P) ! j" by (simp only: assms(2))
  also have "\<dots> = P ! ((k + j) mod 255)"
  proof (cases "j < 255 - k")
    case True
    then have "(k + j) mod 255 = k + j" using assms(3) by (intro mod_less) simp
    then show ?thesis using True assms(1,3) by (simp add: nth_append)
  next
    case False
    then have "(k + j) mod 255 = k + j - 255" using assms(3,4) le_mod_geq [of 255 "k + j"] by simp
    then show ?thesis using False assms(1,3,4) by (simp add: nth_append add.commute)
  qed
  finally show ?thesis .
qed

lemma MUL_power:
  assumes t: "log_tables pow log" and f: "map f (butlast POW) = drop k (butlast POW) @ take k (butlast POW)"
    and c: "unat c < 256" "c \<noteq> 0" "LOG ! unat c = k" "k < 255" and f0: "f 0 = 0"
  shows "MUL pow log c (ucast b) = ucast (f b)"
proof (cases "b = 0")
  case True
  then show ?thesis by (simp add: MUL_def f0)
next
  case False
  let ?v = "unat b"
  have v: "1 \<le> ?v" "?v < 256" using False byte_index [of b] by (auto simp: Suc_le_eq unat_gt_0)
  have cv: "1 \<le> unat c" using c(2) by (auto simp: Suc_le_eq unat_gt_0)
  have l: "unat (log ! unat c) = k" "unat (log ! ?v) = LOG ! ?v"
    using t c(1,3,4) cv v LOG_bounds [OF v] by (auto simp: log_tables_def unat_of_nat_less)
  have b: "b = POW ! (LOG ! ?v)" using POW_LOG_nth [OF v] by simp
  define j where "j = LOG ! ?v mod 255"
  have j: "j < 255" "(k + LOG ! ?v) mod 255 = (k + j) mod 255" by (simp_all add: j_def mod_add_right_eq)
  have "POW ! j = b"
  proof (cases "LOG ! ?v = 255")
    case True
    then show ?thesis using b special_values(1,2) by (simp add: j_def)
  next
    case F: False
    then show ?thesis using b LOG_bounds [OF v] by (simp add: j_def)
  qed
  then have "butlast POW ! j = b" using j(1) by (simp add: nth_butlast length_POW)
  then have "f b = butlast POW ! ((k + j) mod 255)"
    using rotated_powers [of "butlast POW" f k j] f c(4) j(1) by (simp add: length_POW)
  also have "\<dots> = POW ! ((k + j) mod 255)" by (simp add: nth_butlast length_POW)
  finally have fb: "f b = POW ! ((k + j) mod 255)" .
  have "(k + j) mod 255 < 256" by (rule less_trans [of _ 255]) simp_all
  then have "pow ! ((k + j) mod 255) = ucast (f b)" using t fb by (simp add: log_tables_def)
  moreover have "ucast b \<noteq> (0 :: u32)" using False by (metis byte_word_byte unsigned_0)
  ultimately show ?thesis using c(2) by (simp add: MUL_def l j(2))
qed

lemma mul_zero: "mul14 0 = 0" "mul9 0 = 0" "mul13 0 = 0" "mul11 0 = 0"
  by (simp_all add: mul14_def mul9_def mul13_def mul11_def xtime_def)

lemma MUL_values:
  assumes "log_tables pow log"
  shows "MUL pow log 0x0E (ucast b) = ucast (mul14 b)" "MUL pow log 0x09 (ucast b) = ucast (mul9 b)"
    "MUL pow log 0x0D (ucast b) = ucast (mul13 b)" "MUL pow log 0x0B (ucast b) = ucast (mul11 b)"
  by (rule MUL_power [OF assms mul14_POW], simp_all add: special_values mul_zero)
    (rule MUL_power [OF assms mul9_POW], simp_all add: special_values mul_zero,
     rule MUL_power [OF assms mul13_POW], simp_all add: special_values mul_zero,
     rule MUL_power [OF assms mul11_POW], simp_all add: special_values mul_zero)

lemma ROTL8_le32: "ROTL8 (le32 a b c d) = le32 d a b c"
proof -
  have e: "(0xFFFFFFFF :: u32) = - 1" by simp
  have "ROTL8 (le32 a b c d) = push_bit 8 (le32 a b c d) OR drop_bit 24 (le32 a b c d)"
    unfolding ROTL8_def e and.right_neutral by (rule refl)
  also have "\<dots> = le32 d a b c"
    by (rule bit_word_eqI) (auto simp: bit_simps bit_le32)
  finally show ?thesis .
qed


definition entry_F :: "u8 \<Rightarrow> u32" where "entry_F s = le32 (xtime s) s s (mul3 s)"
definition entry_R :: "u8 \<Rightarrow> u32" where "entry_R s = le32 (mul14 s) (mul9 s) (mul13 s) (mul11 s)"

lemma table_body_eq:
  assumes "log_tables pow log" and "g_FSb t = FSb" "g_RSb t = RSb"
  shows "table_body pow log i t =
    (let f = entry_F (FSb ! i); r = entry_R (RSb ! i) in
     t\<lparr>g_FT0 := (g_FT0 t)[i := f], g_FT1 := (g_FT1 t)[i := ROTL8 f], g_FT2 := (g_FT2 t)[i := ROTL8 (ROTL8 f)],
       g_FT3 := (g_FT3 t)[i := ROTL8 (ROTL8 (ROTL8 f))],
       g_RT0 := (g_RT0 t)[i := r], g_RT1 := (g_RT1 t)[i := ROTL8 r], g_RT2 := (g_RT2 t)[i := ROTL8 (ROTL8 r)],
       g_RT3 := (g_RT3 t)[i := ROTL8 (ROTL8 (ROTL8 r))]\<rparr>)"
proof -
  have z: "MBEDTLS_BYTE_0 (ucast (xtime s) XOR ucast s) = mul3 s" for s
    by (simp add: byte_ucast unsigned_xor_eq mul3_def del: byte_xor)
  show ?thesis
    unfolding table_body_def Let_def assms(2,3) XTIME_byte z MUL_values [OF assms(1)] word_of_bytes entry_F_def entry_R_def by (rule refl)
qed

lemma table_loop:
  assumes "log_tables pow log" and "g_FSb t = FSb" "g_RSb t = RSb"
    and "length (g_FT0 t) = 256" "length (g_FT1 t) = 256" "length (g_FT2 t) = 256" "length (g_FT3 t) = 256"
    "length (g_RT0 t) = 256" "length (g_RT1 t) = 256" "length (g_RT2 t) = 256" "length (g_RT3 t) = 256"
  shows "m \<le> 256 \<Longrightarrow> fold (table_body pow log) [0..<m] t =
    t\<lparr>g_FT0 := map (\<lambda>i. entry_F (FSb ! i)) [0..<m] @ drop m (g_FT0 t), g_FT1 := map (\<lambda>i. ROTL8 (entry_F (FSb ! i))) [0..<m] @ drop m (g_FT1 t),
      g_FT2 := map (\<lambda>i. ROTL8 (ROTL8 (entry_F (FSb ! i)))) [0..<m] @ drop m (g_FT2 t),
      g_FT3 := map (\<lambda>i. ROTL8 (ROTL8 (ROTL8 (entry_F (FSb ! i))))) [0..<m] @ drop m (g_FT3 t),
      g_RT0 := map (\<lambda>i. entry_R (RSb ! i)) [0..<m] @ drop m (g_RT0 t), g_RT1 := map (\<lambda>i. ROTL8 (entry_R (RSb ! i))) [0..<m] @ drop m (g_RT1 t),
      g_RT2 := map (\<lambda>i. ROTL8 (ROTL8 (entry_R (RSb ! i)))) [0..<m] @ drop m (g_RT2 t),
      g_RT3 := map (\<lambda>i. ROTL8 (ROTL8 (ROTL8 (entry_R (RSb ! i))))) [0..<m] @ drop m (g_RT3 t)\<rparr>"
proof (induction m)
  case (Suc m)
  have u: "(map h [0..<m] @ drop m xs)[m := v] = map h [0..<Suc m] @ drop (Suc m) xs" if "length xs = 256" "v = h m" for h v and xs :: "u32 list"
    using that Suc.prems by (simp add: list_update_append upd_conv_take_nth_drop Cons_nth_drop_Suc [symmetric])
  have "fold (table_body pow log) [0..<Suc m] t = table_body pow log m (fold (table_body pow log) [0..<m] t)" by simp
  also note Suc.IH
  finally show ?case
    using Suc.prems assms(2-) by (simp add: table_body_eq [OF assms(1)] Let_def u del: upt_Suc)
qed simp

text \<open>C34: the tables that the first key set-up generates, from whatever the arrays held before, are the constant
  tables of the configuration that keeps them in read-only memory: the S-box and its inverse, the eight
  round tables and the round constants.\<close>
theorem generated_tables:
  assumes "length pow = 256" "length log = 256" and "length (g_FSb t) = 256" "length (g_RSb t) = 256" "length (g_RCON t) = 10"
    and "length (g_FT0 t) = 256" "length (g_FT1 t) = 256" "length (g_FT2 t) = 256" "length (g_FT3 t) = 256"
    "length (g_RT0 t) = 256" "length (g_RT1 t) = 256" "length (g_RT2 t) = 256" "length (g_RT3 t) = 256"
  shows "aes_gen_tables pow log t = \<lparr>g_FSb = FSb, g_FT0 = FT0, g_FT1 = FT1, g_FT2 = FT2, g_FT3 = FT3,
    g_RSb = RSb, g_RT0 = RT0, g_RT1 = RT1, g_RT2 = RT2, g_RT3 = RT3, g_RCON = RCON\<rparr>"
proof -
  obtain x pow' log' where pl: "fold pow_log_body [0..<256] (1, pow, log) = (x, pow', log')" "log_tables pow' log'"
    using pow_log_done [OF assms(1,2)] by blast
  obtain y where rc: "fold rcon_body [0..<10] (1, g_RCON t) = (y, RCON)" using rcon_loop [OF assms(5)] by (metis prod.collapse)
  have tab: "map h [0..<256] = T" if "length T = 256" "\<And>b. T ! unat b = h (unat (b :: u8))" for h and T :: "u32 list"
  proof (rule nth_equalityI)
    fix i assume "i < length (map h [0..<256])"
    then have "i < 256" by simp
    then show "map h [0..<256] ! i = T ! i" using that(2) [of "of_nat i"] by (simp add: unat_of_nat_less)
  qed (simp add: that(1))
  have F: "map (\<lambda>i. entry_F (FSb ! i)) [0..<256] = FT0" "map (\<lambda>i. ROTL8 (entry_F (FSb ! i))) [0..<256] = FT1"
    "map (\<lambda>i. ROTL8 (ROTL8 (entry_F (FSb ! i)))) [0..<256] = FT2" "map (\<lambda>i. ROTL8 (ROTL8 (ROTL8 (entry_F (FSb ! i))))) [0..<256] = FT3"
    using FT_values by (intro tab; simp add: entry_F_def ROTL8_le32 AES_FT0_def AES_FT1_def AES_FT2_def AES_FT3_def FSb_at_def
        FT0_def FT1_def FT2_def FT3_def table_lengths)+
  have R: "map (\<lambda>i. entry_R (RSb ! i)) [0..<256] = RT0" "map (\<lambda>i. ROTL8 (entry_R (RSb ! i))) [0..<256] = RT1"
    "map (\<lambda>i. ROTL8 (ROTL8 (entry_R (RSb ! i)))) [0..<256] = RT2" "map (\<lambda>i. ROTL8 (ROTL8 (ROTL8 (entry_R (RSb ! i))))) [0..<256] = RT3"
    using RT_values by (intro tab; simp add: entry_R_def ROTL8_le32 AES_RT0_def AES_RT1_def AES_RT2_def AES_RT3_def RSb_at_def
        RT0_def RT1_def RT2_def RT3_def table_lengths)+
  have "aes_gen_tables pow log t = fold (table_body pow' log') [0..<256] (t\<lparr>g_RCON := RCON, g_FSb := FSb, g_RSb := RSb\<rparr>)"
    unfolding aes_gen_tables_def pl(1) rc Let_def case_prod_conv sbox_done [OF pl(2) assms(3,4)] by (rule refl)
  also have "\<dots> = t\<lparr>g_RCON := RCON, g_FSb := FSb, g_RSb := RSb, g_FT0 := FT0, g_FT1 := FT1, g_FT2 := FT2, g_FT3 := FT3,
      g_RT0 := RT0, g_RT1 := RT1, g_RT2 := RT2, g_RT3 := RT3\<rparr>"
    using assms(6-) table_loop [OF pl(2), of "t\<lparr>g_RCON := RCON, g_FSb := FSb, g_RSb := RSb\<rparr>" 256] by (simp add: F R)
  finally show ?thesis by simp
qed

theorem generated_tables_witness:
  "aes_gen_tables (replicate 256 7) (replicate 256 8) \<lparr>g_FSb = replicate 256 1, g_FT0 = replicate 256 2, g_FT1 = replicate 256 2,
      g_FT2 = replicate 256 2, g_FT3 = replicate 256 2, g_RSb = replicate 256 3, g_RT0 = replicate 256 4, g_RT1 = replicate 256 4,
      g_RT2 = replicate 256 4, g_RT3 = replicate 256 4, g_RCON = replicate 10 5\<rparr> =
    \<lparr>g_FSb = FSb, g_FT0 = FT0, g_FT1 = FT1, g_FT2 = FT2, g_FT3 = FT3,
     g_RSb = RSb, g_RT0 = RT0, g_RT1 = RT1, g_RT2 = RT2, g_RT3 = RT3, g_RCON = RCON\<rparr>"
  by (rule generated_tables) simp_all

end
