(* ===== verification/AES_NI.thy ===== *)
theory AES_NI
  imports AES_Correct
begin

unbundle bit_operations_syntax

text \<open>
  The AES-NI code of \<^verbatim>\<open>src/mbedtls-3.1.0/library/aesni.c\<close> and the functions of \<^verbatim>\<open>aes.c\<close> that choose between it
  and the tables. An \<^verbatim>\<open>xmm\<close> register is its four doublewords, lowest first. The instructions are modelled
  as the processor manual describes them, on the round functions of FIPS-197; the assembly is modelled
  instruction by instruction. What \<^verbatim>\<open>cpuid\<close> reports is an argument. A processor without the AES instructions
  stops the program with an illegal instruction when it meets one: \<open>mbedtls_aesni_crypt_ecb\<close>, which
  \<^verbatim>\<open>cache_wrapper.c\<close> calls without asking, is then \<open>None\<close>; the key routines are only called after the
  processor was asked.
\<close>

section \<open>Instructions\<close>

type_synonym xmm = block4

definition pxor :: "xmm \<Rightarrow> xmm \<Rightarrow> xmm" where
  "pxor src dst = xor4 dst src"

text \<open>\<^verbatim>\<open>pslldq $4\<close> and \<^verbatim>\<open>pshufd\<close>.\<close>

definition pslldq4 :: "xmm \<Rightarrow> xmm" where
  "pslldq4 = (\<lambda>(a, b, c, d). (0, a, b, c))"

definition pshufd :: "nat \<Rightarrow> xmm \<Rightarrow> xmm" where
  "pshufd imm = (\<lambda>(a, b, c, d).
     let sel = (\<lambda>i. [a, b, c, d] ! (imm div 4 ^ i mod 4)) in (sel 0, sel 1, sel 2, sel 3))"

definition aesenc :: "xmm \<Rightarrow> xmm \<Rightarrow> xmm" where "aesenc k x = fips_round k x"
definition aesenclast :: "xmm \<Rightarrow> xmm \<Rightarrow> xmm" where "aesenclast k x = fips_last k x"
definition aesdec :: "xmm \<Rightarrow> xmm \<Rightarrow> xmm" where "aesdec k x = fips_inv_round k x"
definition aesdeclast :: "xmm \<Rightarrow> xmm \<Rightarrow> xmm" where "aesdeclast k x = fips_inv_last k x"
definition aesimc :: "xmm \<Rightarrow> xmm" where "aesimc x = inv_mix_columns x"

definition ror8 :: "u32 \<Rightarrow> u32" where
  "ror8 w = le32 (MBEDTLS_BYTE_1 w) (MBEDTLS_BYTE_2 w) (MBEDTLS_BYTE_3 w) (MBEDTLS_BYTE_0 w)"

definition aeskeygenassist :: "u32 \<Rightarrow> xmm \<Rightarrow> xmm" where
  "aeskeygenassist rcon = (\<lambda>(a, b, c, d).
     (sub4 FSb_at b, ror8 (sub4 FSb_at b) XOR rcon, sub4 FSb_at d, ror8 (sub4 FSb_at d) XOR rcon))"

text \<open>Loads and stores of 16 and 8 bytes in a buffer of words.\<close>

definition load_xmm :: "u32 list \<Rightarrow> nat \<Rightarrow> xmm" where
  "load_xmm rk p = (rk ! p, rk ! (p + 1), rk ! (p + 2), rk ! (p + 3))"

definition store_xmm :: "xmm \<Rightarrow> nat \<Rightarrow> u32 list \<Rightarrow> u32 list" where
  "store_xmm = (\<lambda>(a, b, c, d) p rk. put_words [a, b, c, d] p rk)"

definition store_low :: "xmm \<Rightarrow> nat \<Rightarrow> u32 list \<Rightarrow> u32 list" where
  "store_low = (\<lambda>(a, b, c, d) p rk. put_words [a, b] p rk)"

section \<open>Blocks\<close>

fun aesni_enc_loop :: "nat \<Rightarrow> u32 list \<Rightarrow> nat \<Rightarrow> xmm \<Rightarrow> nat \<times> xmm" where
  "aesni_enc_loop 0 rk p x = (p, x)"
| "aesni_enc_loop (Suc n) rk p x = aesni_enc_loop n rk (p + 4) (aesenc (load_xmm rk p) x)"

fun aesni_dec_loop :: "nat \<Rightarrow> u32 list \<Rightarrow> nat \<Rightarrow> xmm \<Rightarrow> nat \<times> xmm" where
  "aesni_dec_loop 0 rk p x = (p, x)"
| "aesni_dec_loop (Suc n) rk p x = aesni_dec_loop n rk (p + 4) (aesdec (load_xmm rk p) x)"

definition MBEDTLS_AESNI_AES :: u32 where "MBEDTLS_AESNI_AES = 0x02000000"

text \<open>\<open>cpuid\<close> is the feature word that the instruction leaves in \<^verbatim>\<open>ecx\<close>.\<close>

definition mbedtls_aesni_has_support :: "u32 \<Rightarrow> u32 \<Rightarrow> bool" where
  "mbedtls_aesni_has_support cpuid what \<longleftrightarrow> cpuid AND what \<noteq> 0"

abbreviation has_aesni :: "u32 \<Rightarrow> bool" where
  "has_aesni cpuid \<equiv> mbedtls_aesni_has_support cpuid MBEDTLS_AESNI_AES"

text \<open>The loops test their counter after the body, so they need at least two rounds.\<close>

definition mbedtls_aesni_crypt_ecb :: "u32 \<Rightarrow> aes_context \<Rightarrow> int \<Rightarrow> u8 list \<Rightarrow> (int \<times> u8 list) option" where
  "mbedtls_aesni_crypt_ecb cpuid ctx mode input =
     (if has_aesni cpuid \<and> rk_set ctx \<and> 2 \<le> nr ctx \<and> 4 * (nat (nr ctx) + 1) \<le> length (buf ctx) \<and> 16 \<le> length input
      then let rk = buf ctx; x = pxor (load_xmm rk 0) (columns input) in
        if mode \<noteq> 0
        then let (p, x) = aesni_enc_loop (nat (nr ctx) - 1) rk 4 x in Some (0, store_block (aesenclast (load_xmm rk p) x))
        else let (p, x) = aesni_dec_loop (nat (nr ctx) - 1) rk 4 x in Some (0, store_block (aesdeclast (load_xmm rk p) x))
      else None)"

section \<open>Key schedules\<close>

text \<open>\<open>mbedtls_aesni_inverse_key\<close>: the loop runs while \<^verbatim>\<open>fk > fwdkey\<close>, with \<^verbatim>\<open>fk\<close> at round key \<open>i\<close>.\<close>

fun aesni_inverse_loop :: "nat \<Rightarrow> nat \<Rightarrow> u32 list \<Rightarrow> u32 list \<Rightarrow> nat \<times> u32 list" where
  "aesni_inverse_loop 0 r fk ik = (r, ik)"
| "aesni_inverse_loop (Suc i) r fk ik =
     aesni_inverse_loop i (r + 4) fk (store_xmm (aesimc (load_xmm fk (4 * Suc i))) r ik)"

definition mbedtls_aesni_inverse_key :: "nat \<Rightarrow> u32 list \<Rightarrow> u32 list \<Rightarrow> u32 list" where
  "mbedtls_aesni_inverse_key n fk ik =
     (let ik = put_words (words_at fk (4 * n)) 0 ik; (r, ik) = aesni_inverse_loop (n - 1) 4 fk ik in
      put_words (words_at fk 0) r ik)"

text \<open>The shift-and-add sequence that the three auxiliary routines share.\<close>

definition spread :: "xmm \<Rightarrow> xmm \<Rightarrow> xmm" where
  "spread x0 x1 =
     (let x1 = pxor x0 x1; x0 = pslldq4 x0; x1 = pxor x0 x1; x0 = pslldq4 x0; x1 = pxor x0 x1; x0 = pslldq4 x0 in
      pxor x1 x0)"

definition aux_128 :: "u32 \<Rightarrow> xmm \<times> nat \<times> u32 list \<Rightarrow> xmm \<times> nat \<times> u32 list" where
  "aux_128 rcon = (\<lambda>(x0, p, rk).
     let x1 = aeskeygenassist rcon x0; x0 = spread x0 (pshufd 0xff x1); p = p + 4 in (x0, p, store_xmm x0 p rk))"

definition aesni_setkey_enc_128 :: "u8 list \<Rightarrow> u32 list \<Rightarrow> u32 list" where
  "aesni_setkey_enc_128 key rk =
     (let x0 = columns key in
      snd (snd (fold aux_128 [0x01, 0x02, 0x04, 0x08, 0x10, 0x20, 0x40, 0x80, 0x1B, 0x36] (x0, 0, store_xmm x0 0 rk))))"

definition aux_192 :: "u32 \<Rightarrow> xmm \<times> xmm \<times> nat \<times> u32 list \<Rightarrow> xmm \<times> xmm \<times> nat \<times> u32 list" where
  "aux_192 rcon = (\<lambda>(x0, x1, p, rk).
     let x2 = aeskeygenassist rcon x1; x0 = spread x0 (pshufd 0x55 x2); rk = store_xmm x0 p rk; p = p + 4;
         x2 = pxor x1 (pshufd 0xff x0); x1 = pslldq4 x1; x1 = pxor x2 x1 in
     (x0, x1, p + 2, store_low x1 p rk))"

definition aesni_setkey_enc_192 :: "u8 list \<Rightarrow> u32 list \<Rightarrow> u32 list" where
  "aesni_setkey_enc_192 key rk =
     (let x0 = columns key; x1 = (MBEDTLS_GET_UINT32_LE key 16, MBEDTLS_GET_UINT32_LE key 20, 0, 0);
          rk = store_low x1 4 (store_xmm x0 0 rk) in
      snd (snd (snd (fold aux_192 [0x01, 0x02, 0x04, 0x08, 0x10, 0x20, 0x40, 0x80] (x0, x1, 6, rk)))))"

definition aux_256 :: "u32 \<Rightarrow> xmm \<times> xmm \<times> nat \<times> u32 list \<Rightarrow> xmm \<times> xmm \<times> nat \<times> u32 list" where
  "aux_256 rcon = (\<lambda>(x0, x1, p, rk).
     let x2 = aeskeygenassist rcon x1; x0 = spread x0 (pshufd 0xff x2); p = p + 4; rk = store_xmm x0 p rk;
         x2 = aeskeygenassist 0 x0; x1 = spread x1 (pshufd 0xaa x2); p = p + 4 in
     (x0, x1, p, store_xmm x1 p rk))"

definition aesni_setkey_enc_256 :: "u8 list \<Rightarrow> u32 list \<Rightarrow> u32 list" where
  "aesni_setkey_enc_256 key rk =
     (let x0 = columns key; x1 = columns (drop 16 key); rk = store_xmm x1 4 (store_xmm x0 0 rk) in
      snd (snd (snd (fold aux_256 [0x01, 0x02, 0x04, 0x08, 0x10, 0x20, 0x40] (x0, x1, 4, rk)))))"

definition mbedtls_aesni_setkey_enc :: "u8 list \<Rightarrow> nat \<Rightarrow> u32 list \<Rightarrow> int \<times> u32 list" where
  "mbedtls_aesni_setkey_enc key bits rk =
     (if bits = 128 then (0, aesni_setkey_enc_128 key rk)
      else if bits = 192 then (0, aesni_setkey_enc_192 key rk)
      else if bits = 256 then (0, aesni_setkey_enc_256 key rk)
      else (MBEDTLS_ERR_AES_INVALID_KEY_LENGTH, rk))"

section \<open>The functions of the API\<close>

definition mbedtls_aes_setkey_enc :: "u32 \<Rightarrow> u8 list \<Rightarrow> nat \<Rightarrow> aes_context \<Rightarrow> (int \<times> aes_context) option" where
  "mbedtls_aes_setkey_enc cpuid key keybits ctx =
     (case rounds_of keybits of
        None \<Rightarrow> Some (MBEDTLS_ERR_AES_INVALID_KEY_LENGTH, ctx)
      | Some n \<Rightarrow>
          if length key < keybits div 8 then None
          else let ctx = ctx\<lparr>nr := n, rk_set := True\<rparr> in
            if mbedtls_aesni_has_support cpuid MBEDTLS_AESNI_AES
            then let (ret, rk) = mbedtls_aesni_setkey_enc key keybits (buf ctx) in Some (ret, ctx\<lparr>buf := rk\<rparr>)
            else Some (0, ctx\<lparr>buf := setkey_tables key keybits (buf ctx)\<rparr>))"

definition mbedtls_aes_setkey_dec :: "u32 \<Rightarrow> u8 list \<Rightarrow> nat \<Rightarrow> aes_context \<Rightarrow> (int \<times> aes_context) option" where
  "mbedtls_aes_setkey_dec cpuid key keybits ctx =
     (let ctx = ctx\<lparr>rk_set := True\<rparr> in
      case mbedtls_aes_setkey_enc cpuid key keybits mbedtls_aes_init of
        None \<Rightarrow> None
      | Some (ret, cty) \<Rightarrow>
          if ret \<noteq> 0 then Some (ret, ctx)
          else let ctx = ctx\<lparr>nr := nr cty\<rparr> in
            if mbedtls_aesni_has_support cpuid MBEDTLS_AESNI_AES
            then Some (ret, ctx\<lparr>buf := mbedtls_aesni_inverse_key (nat (nr ctx)) (buf cty) (buf ctx)\<rparr>)
            else Some (ret, ctx\<lparr>buf := inverse_tables (nat (nr ctx)) (buf cty) (buf ctx)\<rparr>))"

definition mbedtls_aes_crypt_ecb :: "u32 \<Rightarrow> aes_context \<Rightarrow> int \<Rightarrow> u8 list \<Rightarrow> (int \<times> u8 list) option" where
  "mbedtls_aes_crypt_ecb cpuid ctx mode input =
     (if mbedtls_aesni_has_support cpuid MBEDTLS_AESNI_AES then mbedtls_aesni_crypt_ecb cpuid ctx mode input
      else if mode = MBEDTLS_AES_ENCRYPT then mbedtls_internal_aes_encrypt ctx input
      else mbedtls_internal_aes_decrypt ctx input)"

section \<open>The key expansion of FIPS-197\<close>

text \<open>Word \<open>i\<close> of the expanded key for a key of \<open>nk\<close> words, in little-endian words.\<close>

function fips_word :: "nat \<Rightarrow> u8 list \<Rightarrow> nat \<Rightarrow> u32" where
  "fips_word nk key i =
     (if nk = 0 \<or> i < nk then MBEDTLS_GET_UINT32_LE key (4 * i)
      else let t = fips_word nk key (i - 1) in
        fips_word nk key (i - nk) XOR
        (if i mod nk = 0 then ror8 (sub4 FSb_at t) XOR RCON ! (i div nk - 1)
         else if 6 < nk \<and> i mod nk = 4 then sub4 FSb_at t else t))"
  by pat_completeness auto
termination
  by (relation "measure (\<lambda>(nk, key, i). i)") auto

declare fips_word.simps [simp del]

text \<open>The first \<open>c\<close> words of a schedule, above an untouched rest of the buffer.\<close>

definition scheduled :: "nat \<Rightarrow> u8 list \<Rightarrow> u32 list \<Rightarrow> nat \<Rightarrow> u32 list \<Rightarrow> bool" where
  "scheduled nk key rk0 c rk \<longleftrightarrow> length rk = length rk0 \<and>
     (\<forall>j<length rk0. rk ! j = (if j < c then fips_word nk key j else rk0 ! j))"

lemma scheduled_unique: "scheduled nk key rk0 c rk \<Longrightarrow> scheduled nk key rk0 c rk' \<Longrightarrow> rk = rk'"
  by (rule nth_equalityI) (auto simp: scheduled_def)

lemma scheduled_put:
  assumes "scheduled nk key rk0 c rk" and "c < length rk0" and "w = fips_word nk key c"
  shows "scheduled nk key rk0 (Suc c) (rk[c := w])"
  using assms by (auto simp: scheduled_def nth_list_update less_Suc_eq)

lemma scheduled_nth: "scheduled nk key rk0 c rk \<Longrightarrow> j < c \<Longrightarrow> j < length rk0 \<Longrightarrow> rk ! j = fips_word nk key j"
  by (simp add: scheduled_def)

lemma sub_rot_eq: "sub_rot w = ror8 (sub4 FSb_at w)"
  unfolding sub_rot_def word_of_bytes by (simp add: ror8_def sub4_def)

lemma sub_word_eq: "sub_word w = sub4 FSb_at w"
  unfolding sub_word_def word_of_bytes by (simp add: sub4_def)

text \<open>The three kinds of steps.\<close>

lemma fips_word_key: "i < nk \<Longrightarrow> fips_word nk key i = MBEDTLS_GET_UINT32_LE key (4 * i)"
  by (subst fips_word.simps) simp

lemma fips_word_first:
  "0 < nk \<Longrightarrow> fips_word nk key (nk * Suc i) =
     fips_word nk key (nk * i) XOR RCON ! i XOR sub_rot (fips_word nk key (nk * Suc i - 1))"
  by (subst fips_word.simps) (simp add: Let_def sub_rot_eq xor_ac)

lemma fips_word_other:
  "0 < nk \<Longrightarrow> nk \<le> i \<Longrightarrow> i mod nk \<noteq> 0 \<Longrightarrow> \<not> (6 < nk \<and> i mod nk = 4) \<Longrightarrow>
     fips_word nk key i = fips_word nk key (i - nk) XOR fips_word nk key (i - 1)"
  by (subst fips_word.simps) (auto simp: Let_def)

lemma fips_word_fourth:
  "6 < nk \<Longrightarrow> nk \<le> i \<Longrightarrow> i mod nk = 4 \<Longrightarrow>
     fips_word nk key i = fips_word nk key (i - nk) XOR sub_word (fips_word nk key (i - 1))"
  by (subst fips_word.simps) (simp add: Let_def sub_word_eq)

lemma scheduled_xor:
  assumes "scheduled nk key rk0 d rk" and "d < length rk0" and "a + nk = d" and "Suc b = d" and "c = Suc d"
    and "0 < nk" "d mod nk \<noteq> 0" "nk \<le> 6 \<or> d mod nk \<noteq> 4"
  shows "scheduled nk key rk0 c (set_xor d a b rk)"
  unfolding set_xor_def \<open>c = Suc d\<close>
proof (rule scheduled_put [OF assms(1,2)])
  have "a < d" "b < d" using assms by auto
  with assms(2) have "rk ! a = fips_word nk key a" "rk ! b = fips_word nk key b"
    using scheduled_nth [OF assms(1)] by auto
  moreover have "fips_word nk key d = fips_word nk key (d - nk) XOR fips_word nk key (d - 1)"
    using assms by (intro fips_word_other) auto
  moreover have "d - nk = a" "d - 1 = b" using assms by auto
  ultimately show "rk ! a XOR rk ! b = fips_word nk key d" by simp
qed

lemma scheduled_first:
  assumes "scheduled nk key rk0 d rk" and "d < length rk0" and "0 < nk" and "d = nk * Suc i" "p = nk * i" "Suc b = d" "c = Suc d"
  shows "scheduled nk key rk0 c (rk[d := rk ! p XOR RCON ! i XOR sub_rot (rk ! b)])"
proof -
  have "p < d" "b < d" using assms by auto
  with assms(2) have "rk ! p = fips_word nk key p" "rk ! b = fips_word nk key b"
    using scheduled_nth [OF assms(1)] by auto
  moreover have "nk * Suc i - 1 = b" using assms by simp
  ultimately show ?thesis
    using scheduled_put [OF assms(1,2)] fips_word_first [OF assms(3), of key i] assms(4,5,7) by simp
qed

lemma scheduled_fourth:
  assumes "scheduled nk key rk0 d rk" and "d < length rk0" and "6 < nk" and "d mod nk = 4" "a + nk = d" "Suc b = d" "c = Suc d"
  shows "scheduled nk key rk0 c (rk[d := rk ! a XOR sub_word (rk ! b)])"
proof -
  have "a < d" "b < d" using assms by auto
  with assms(2) have "rk ! a = fips_word nk key a" "rk ! b = fips_word nk key b"
    using scheduled_nth [OF assms(1)] by auto
  moreover have "fips_word nk key d = fips_word nk key (d - nk) XOR sub_word (fips_word nk key (d - 1))"
    using assms by (intro fips_word_fourth) auto
  moreover have "d - nk = a" "d - 1 = b" using assms by auto
  ultimately show ?thesis using scheduled_put [OF assms(1,2)] assms(7) by simp
qed

section \<open>The tables compute the standard's schedule\<close>

lemma load_key_scheduled:
  "m \<le> nk \<Longrightarrow> nk \<le> length rk0 \<Longrightarrow> scheduled nk key rk0 m (load_key [0..<m] key rk0)"
proof (induction m)
  case 0
  then show ?case by (simp add: scheduled_def)
next
  case (Suc m)
  have app: "load_key (is @ [i]) key rk = (load_key is key rk)[i := MBEDTLS_GET_UINT32_LE key (4 * i)]" for "is" i rk
    by (induction "is" arbitrary: rk) simp_all
  show ?case
    using scheduled_put [of nk key rk0 m "load_key [0..<m] key rk0"] Suc fips_word_key [of m nk key]
    by (simp add: app)
qed

lemma expand_128_scheduled:
  assumes "scheduled 4 key rk0 (4 * Suc i) rk" and "4 * Suc i + 4 \<le> length rk0"
  shows "scheduled 4 key rk0 (4 * Suc (Suc i)) (expand_128 i rk)"
proof -
  let ?p = "4 * i"
  have s: "scheduled 4 key rk0 (?p + 4) rk" using assms(1) by (simp add: add.commute)
  have len: "?p + 7 < length rk0" using assms(2) by simp
  have m: "(?p + 5) mod 4 = 1" "(?p + 6) mod 4 = 2" "(?p + 7) mod 4 = 3" by presburger+
  note 1 = scheduled_first [OF s, of i ?p "?p + 3" "?p + 5"]
  note 2 = scheduled_xor [OF 1, of "?p + 1" "?p + 4" "?p + 6"]
  note 3 = scheduled_xor [OF 2, of "?p + 2" "?p + 5" "?p + 7"]
  note 4 = scheduled_xor [OF 3, of "?p + 3" "?p + 6" "4 * Suc (Suc i)"]
  show ?thesis unfolding expand_128_def Let_def comp_def by (rule 4) (use len m in simp_all)
qed

lemma expand_192_scheduled:
  assumes "scheduled 6 key rk0 (6 * Suc i) rk" and "6 * Suc i + 6 \<le> length rk0"
  shows "scheduled 6 key rk0 (6 * Suc (Suc i)) (expand_192 i rk)"
proof -
  let ?p = "6 * i"
  have s: "scheduled 6 key rk0 (?p + 6) rk" using assms(1) by (simp add: add.commute)
  have len: "?p + 11 < length rk0" using assms(2) by simp
  have m: "(?p + 7) mod 6 = 1" "(?p + 8) mod 6 = 2" "(?p + 9) mod 6 = 3" "(?p + 10) mod 6 = 4" "(?p + 11) mod 6 = 5"
    by presburger+
  note 1 = scheduled_first [OF s, of i ?p "?p + 5" "?p + 7"]
  note 2 = scheduled_xor [OF 1, of "?p + 1" "?p + 6" "?p + 8"]
  note 3 = scheduled_xor [OF 2, of "?p + 2" "?p + 7" "?p + 9"]
  note 4 = scheduled_xor [OF 3, of "?p + 3" "?p + 8" "?p + 10"]
  note 5 = scheduled_xor [OF 4, of "?p + 4" "?p + 9" "?p + 11"]
  note 6 = scheduled_xor [OF 5, of "?p + 5" "?p + 10" "6 * Suc (Suc i)"]
  show ?thesis unfolding expand_192_def Let_def comp_def by (rule 6) (use len m in simp_all)
qed

lemma expand_256_scheduled:
  assumes "scheduled 8 key rk0 (8 * Suc i) rk" and "8 * Suc i + 8 \<le> length rk0"
  shows "scheduled 8 key rk0 (8 * Suc (Suc i)) (expand_256 i rk)"
proof -
  let ?p = "8 * i"
  have s: "scheduled 8 key rk0 (?p + 8) rk" using assms(1) by (simp add: add.commute)
  have len: "?p + 15 < length rk0" using assms(2) by simp
  have m: "(?p + 9) mod 8 = 1" "(?p + 10) mod 8 = 2" "(?p + 11) mod 8 = 3" "(?p + 12) mod 8 = 4" "(?p + 13) mod 8 = 5"
    "(?p + 14) mod 8 = 6" "(?p + 15) mod 8 = 7"
    by presburger+
  note 1 = scheduled_first [OF s, of i ?p "?p + 7" "?p + 9"]
  note 2 = scheduled_xor [OF 1, of "?p + 1" "?p + 8" "?p + 10"]
  note 3 = scheduled_xor [OF 2, of "?p + 2" "?p + 9" "?p + 11"]
  note 4 = scheduled_xor [OF 3, of "?p + 3" "?p + 10" "?p + 12"]
  note 5 = scheduled_fourth [OF 4, of "?p + 4" "?p + 11" "?p + 13"]
  note 6 = scheduled_xor [OF 5, of "?p + 5" "?p + 12" "?p + 14"]
  note 7 = scheduled_xor [OF 6, of "?p + 6" "?p + 13" "?p + 15"]
  note 8 = scheduled_xor [OF 7, of "?p + 7" "?p + 14" "8 * Suc (Suc i)"]
  show ?thesis unfolding expand_256_def Let_def comp_def by (rule 8) (use len m in simp_all)
qed

lemma fold_scheduled:
  assumes "scheduled nk key rk0 nk rk" and "nk * Suc m \<le> length rk0"
    and step: "\<And>i rk. scheduled nk key rk0 (nk * Suc i) rk \<Longrightarrow> nk * Suc i + nk \<le> length rk0 \<Longrightarrow>
      scheduled nk key rk0 (nk * Suc (Suc i)) (f i rk)"
  shows "scheduled nk key rk0 (nk * Suc m) (fold f [0..<m] rk)"
  using assms(2)
proof (induction m)
  case 0
  then show ?case using assms(1) by simp
next
  case (Suc m)
  then have "scheduled nk key rk0 (nk * Suc m) (fold f [0..<m] rk)" by simp
  from step [OF this] Suc.prems show ?case by (simp add: algebra_simps)
qed

text \<open>The number of words that the schedules write.\<close>

definition schedule_words :: "nat \<Rightarrow> nat" where
  "schedule_words keybits = (if keybits = 128 then 44 else if keybits = 192 then 54 else 64)"

lemma setkey_tables_scheduled:
  assumes "keybits \<in> {128, 192, 256}" and "length rk = 68"
  shows "scheduled (keybits div 32) key rk (schedule_words keybits) (setkey_tables key keybits rk)"
proof -
  have l: "nk \<le> 68 \<Longrightarrow> scheduled nk key rk nk (load_key [0..<nk] key rk)" for nk
    using load_key_scheduled [of nk nk rk key] assms(2) by simp
  consider "keybits = 128" | "keybits = 192" | "keybits = 256" using assms(1) by auto
  then show ?thesis
  proof cases
    case 1
    have "scheduled 4 key rk (4 * Suc 10) (fold expand_128 [0..<10] (load_key [0..<4] key rk))"
      by (rule fold_scheduled [OF l _ expand_128_scheduled]) (use assms(2) in simp_all)
    then show ?thesis using 1 by (simp add: setkey_tables_def Let_def schedule_words_def)
  next
    case 2
    have "scheduled 6 key rk (6 * Suc 8) (fold expand_192 [0..<8] (load_key [0..<6] key rk))"
      by (rule fold_scheduled [OF l _ expand_192_scheduled]) (use assms(2) in simp_all)
    then show ?thesis using 2 by (simp add: setkey_tables_def Let_def schedule_words_def)
  next
    case 3
    have "scheduled 8 key rk (8 * Suc 7) (fold expand_256 [0..<7] (load_key [0..<8] key rk))"
      by (rule fold_scheduled [OF l _ expand_256_scheduled]) (use assms(2) in simp_all)
    then show ?thesis using 3 by (simp add: setkey_tables_def Let_def schedule_words_def)
  qed
qed

section \<open>The instructions compute the same schedule\<close>

lemma spread_eq:
  "spread (a, b, c, d) (x, x, x, x) =
     (a XOR x, b XOR (a XOR x), c XOR (b XOR (a XOR x)), d XOR (c XOR (b XOR (a XOR x))))"
  unfolding spread_def pxor_def pslldq4_def xor4_def Let_def case_prod_conv prod.inject
  by (intro conjI) (simp_all only: xor_ac xor.left_neutral xor.right_neutral)

lemma pshufd_broadcast:
  "pshufd 0xff (a, b, c, d) = (d, d, d, d)" "pshufd 0x55 (a, b, c, d) = (b, b, b, b)" "pshufd 0xaa (a, b, c, d) = (c, c, c, c)"
  by (simp_all add: pshufd_def)

lemma keygen_shuffles:
  "pshufd 0xff (aeskeygenassist rcon (a, b, c, d)) = (let x = sub_rot d XOR rcon in (x, x, x, x))"
  "pshufd 0x55 (aeskeygenassist rcon (a, b, c, d)) = (let x = sub_rot b XOR rcon in (x, x, x, x))"
  "pshufd 0xaa (aeskeygenassist rcon (a, b, c, d)) = (let x = sub_word d in (x, x, x, x))"
  unfolding aeskeygenassist_def case_prod_conv pshufd_broadcast Let_def sub_rot_eq sub_word_eq by (rule refl)+

lemma scheduled_put_words:
  assumes "scheduled nk key rk0 c rk" and "c + length ws \<le> length rk0" and "\<And>t. t < length ws \<Longrightarrow> ws ! t = fips_word nk key (c + t)"
  shows "scheduled nk key rk0 (c + length ws) (put_words ws c rk)"
  using assms
proof (induction ws arbitrary: c rk)
  case Nil
  then show ?case by simp
next
  case (Cons w ws)
  have "scheduled nk key rk0 (Suc c) (rk[c := w])"
    using Cons.prems(2) Cons.prems(3) [of 0] by (intro scheduled_put [OF Cons.prems(1)]) auto
  from Cons.IH [OF this] Cons.prems(2) Cons.prems(3) [of "Suc t" for t] show ?case by simp
qed

definition fips4 :: "nat \<Rightarrow> u8 list \<Rightarrow> nat \<Rightarrow> xmm" where
  "fips4 nk key c = (fips_word nk key c, fips_word nk key (c + 1), fips_word nk key (c + 2), fips_word nk key (c + 3))"

lemma nth4: "t < length [a, b, c, d] \<Longrightarrow> f 0 = a \<Longrightarrow> f 1 = b \<Longrightarrow> f 2 = c \<Longrightarrow> f 3 = d \<Longrightarrow> [a, b, c, d] ! t = f t"
  by (auto simp: less_Suc_eq numeral_2_eq_2 numeral_3_eq_3)

lemma store_xmm_scheduled:
  assumes "scheduled nk key rk0 c rk" and "c + 4 \<le> length rk0" and "e = c + 4"
  shows "scheduled nk key rk0 e (store_xmm (fips4 nk key c) c rk)"
proof -
  let ?ws = "[fips_word nk key c, fips_word nk key (c + 1), fips_word nk key (c + 2), fips_word nk key (c + 3)]"
  have "length ?ws = 4" by simp
  moreover have "?ws ! t = fips_word nk key (c + t)" if "t < length ?ws" for t
    using that by (rule nth4) simp_all
  ultimately show ?thesis
    using scheduled_put_words [OF assms(1), of ?ws] assms(2,3) unfolding store_xmm_def fips4_def case_prod_conv by (simp only:)
qed

lemma store_low_scheduled:
  assumes "scheduled nk key rk0 c rk" and "c + 2 \<le> length rk0" and "e = c + 2" and "d = c + 1"
  shows "scheduled nk key rk0 e (store_low (fips_word nk key c, fips_word nk key d, y, z) c rk)"
proof -
  let ?ws = "[fips_word nk key c, fips_word nk key d]"
  have "length ?ws = 2" by simp
  moreover have "?ws ! t = fips_word nk key (c + t)" if "t < length ?ws" for t
    using that assms(4) by (auto simp: less_Suc_eq)
  ultimately show ?thesis
    using scheduled_put_words [OF assms(1), of ?ws] assms(2,3) unfolding store_low_def case_prod_conv by (simp only:)
qed

lemma fold_map_inv:
  assumes "I 0 st" and "\<And>i st. i < m \<Longrightarrow> I i st \<Longrightarrow> I (Suc i) (f (g i) st)"
  shows "I m (fold f (map g [0..<m]) st)"
  using assms(2)
proof (induction m)
  case 0
  then show ?case using assms(1) by simp
next
  case (Suc m)
  then show ?case by simp
qed

text \<open>Four words of which the last three are plain sums of the word before and the word \<open>nk\<close> before.\<close>

lemma fips_word_sum:
  assumes "d = a + nk" "d = Suc b" "0 < nk" "d mod nk \<noteq> 0" "nk \<le> 6 \<or> d mod nk \<noteq> 4"
  shows "fips_word nk key d = fips_word nk key a XOR fips_word nk key b"
proof -
  have "d - nk = a" "d - 1 = b" using assms by auto
  then show ?thesis using fips_word_other [of nk d key] assms by auto
qed

lemma mod_shift:
  assumes "c mod nk + k < (nk :: nat)"
  shows "(c + k) mod nk = c mod nk + k"
  using mod_less [OF assms] by (simp only: mod_add_left_eq)

lemma spread_fips4:
  assumes "c = a + nk" "4 \<le> nk" "c mod nk + 4 \<le> nk" "nk \<le> 6 \<or> c mod nk = 0 \<or> c mod nk = 4" and "fips_word nk key c = fips_word nk key a XOR x"
  shows "spread (fips4 nk key a) (x, x, x, x) = fips4 nk key c"
proof -
  have m: "(c + 1) mod nk = c mod nk + 1" "(c + 2) mod nk = c mod nk + 2" "(c + 3) mod nk = c mod nk + 3"
    using assms(3) mod_shift [of c nk 1] mod_shift [of c nk 2] mod_shift [of c nk 3] by simp_all
  have "fips_word nk key (c + 1) = fips_word nk key (a + 1) XOR fips_word nk key c"
    by (rule fips_word_sum) (use assms(1-4) m in auto)
  moreover have "fips_word nk key (c + 2) = fips_word nk key (a + 2) XOR fips_word nk key (c + 1)"
    by (rule fips_word_sum) (use assms(1-4) m in auto)
  moreover have "fips_word nk key (c + 3) = fips_word nk key (a + 3) XOR fips_word nk key (c + 2)"
    by (rule fips_word_sum) (use assms(1-4) m in auto)
  ultimately show ?thesis unfolding fips4_def spread_eq assms(5) [symmetric] by simp
qed

lemma fips_word_start:
  assumes "0 < nk" "c = nk * i + nk" "Suc b = c"
  shows "fips_word nk key c = fips_word nk key (nk * i) XOR (sub_rot (fips_word nk key b) XOR RCON ! i)"
proof -
  have "nk * Suc i = c" "nk * Suc i - 1 = b" using assms by auto
  then show ?thesis using fips_word_first [OF assms(1), of key i] by (simp add: xor_ac)
qed

lemma keygen_fips4:
  "pshufd 0xff (aeskeygenassist rcon (fips4 nk key c)) = (let x = sub_rot (fips_word nk key (c + 3)) XOR rcon in (x, x, x, x))"
  "pshufd 0xaa (aeskeygenassist rcon (fips4 nk key c)) = (let x = sub_word (fips_word nk key (c + 3)) in (x, x, x, x))"
  unfolding fips4_def by (rule keygen_shuffles)+

lemma fips_step_128:
  "spread (fips4 4 key (4 * i)) (pshufd 0xff (aeskeygenassist (RCON ! i) (fips4 4 key (4 * i)))) = fips4 4 key (4 * i + 4)"
  unfolding keygen_fips4 Let_def
  by (rule spread_fips4) (auto intro!: fips_word_start)

lemma fips_step_192:
  "spread (fips4 6 key (6 * i)) (pshufd 0x55 (aeskeygenassist (RCON ! i) (u, fips_word 6 key (6 * i + 5), y, z))) = fips4 6 key (6 * i + 6)"
  unfolding keygen_shuffles Let_def
  by (rule spread_fips4) (auto intro!: fips_word_start)

lemma fips_tail_192:
  assumes "c = 6 * i + 6"
  shows "\<exists>y' z'. pxor (pxor (fips_word 6 key (6 * i + 4), fips_word 6 key (6 * i + 5), y, z) (pshufd 0xff (fips4 6 key c)))
       (pslldq4 (fips_word 6 key (6 * i + 4), fips_word 6 key (6 * i + 5), y, z)) =
     (fips_word 6 key (c + 4), fips_word 6 key (c + 5), y', z')"
proof -
  have m: "(c + 4) mod 6 = 4" "(c + 5) mod 6 = 5" unfolding assms by presburger+
  have 1: "fips_word 6 key (c + 4) = fips_word 6 key (6 * i + 4) XOR fips_word 6 key (c + 3)"
    by (rule fips_word_sum) (use m assms in auto)
  have 2: "fips_word 6 key (c + 5) = fips_word 6 key (6 * i + 5) XOR fips_word 6 key (c + 4)"
    by (rule fips_word_sum) (use m assms in auto)
  show ?thesis
    unfolding 2 1 fips4_def pshufd_broadcast pxor_def pslldq4_def xor4_def case_prod_conv prod.inject
    by (simp add: xor_ac)
qed

lemma fips_step_256:
  "spread (fips4 8 key (8 * i)) (pshufd 0xff (aeskeygenassist (RCON ! i) (fips4 8 key (8 * i + 4)))) = fips4 8 key (8 * i + 8)"
  "spread (fips4 8 key (8 * i + 4)) (pshufd 0xaa (aeskeygenassist 0 (fips4 8 key (8 * i + 8)))) = fips4 8 key (8 * i + 12)"
proof -
  show "spread (fips4 8 key (8 * i)) (pshufd 0xff (aeskeygenassist (RCON ! i) (fips4 8 key (8 * i + 4)))) = fips4 8 key (8 * i + 8)"
    unfolding keygen_fips4 Let_def by (rule spread_fips4) (auto intro!: fips_word_start)
  have m: "(8 * i + 12) mod 8 = 4" by presburger
  have "fips_word 8 key (8 * i + 12) = fips_word 8 key (8 * i + 4) XOR sub_word (fips_word 8 key (8 * i + 8 + 3))"
    using fips_word_fourth [of 8 "8 * i + 12" key] m by (simp add: add.commute)
  then show "spread (fips4 8 key (8 * i + 4)) (pshufd 0xaa (aeskeygenassist 0 (fips4 8 key (8 * i + 8)))) = fips4 8 key (8 * i + 12)"
    unfolding keygen_fips4 Let_def by (intro spread_fips4) (use m in auto)
qed

text \<open>The three assembly routines.\<close>

lemma columns_fips4: "4 \<le> nk \<Longrightarrow> columns key = fips4 nk key 0"
  by (simp add: columns_def fips4_def fips_word_key)

lemma aesni_128_scheduled:
  assumes "length rk0 = 68"
  shows "scheduled 4 key rk0 44 (aesni_setkey_enc_128 key rk0)"
proof -
  let ?I = "\<lambda>i (x0, p, rk). x0 = fips4 4 key (4 * i) \<and> p = 4 * i \<and> scheduled 4 key rk0 (4 * i + 4) rk"
  let ?st = "(columns key, 0 :: nat, store_xmm (columns key) 0 rk0)"
  have "scheduled 4 key rk0 0 rk0" by (simp add: scheduled_def)
  from store_xmm_scheduled [OF this _ refl] assms columns_fips4 [of 4 key] have I0: "?I 0 ?st" by simp
  have "?I 10 (fold aux_128 (map ((!) RCON) [0..<10]) ?st)"
  proof (rule fold_map_inv [where I = ?I, OF I0])
    fix i st assume i: "i < (10 :: nat)" and st: "?I i st"
    obtain rk where e: "st = (fips4 4 key (4 * i), 4 * i, rk)" and rk: "scheduled 4 key rk0 (4 * i + 4) rk"
      using st by (cases st) auto
    have "scheduled 4 key rk0 (4 * Suc i + 4) (store_xmm (fips4 4 key (4 * i + 4)) (4 * i + 4) rk)"
      by (rule store_xmm_scheduled [OF rk]) (use i assms in auto)
    moreover have "4 * Suc i = 4 * i + 4" by simp
    ultimately show "?I (Suc i) (aux_128 (RCON ! i) st)"
      unfolding e aux_128_def case_prod_conv Let_def fips_step_128 by (simp only: simp_thms)
  qed
  moreover have "map ((!) RCON) [0..<10] = [0x01, 0x02, 0x04, 0x08, 0x10, 0x20, 0x40, 0x80, 0x1B, 0x36]"
    by (simp add: RCON_def upt_rec)
  ultimately show ?thesis by (auto simp: aesni_setkey_enc_128_def Let_def split_beta)
qed

lemma aesni_192_scheduled:
  assumes "length rk0 = 68"
  shows "scheduled 6 key rk0 54 (aesni_setkey_enc_192 key rk0)"
proof -
  let ?I = "\<lambda>i (x0, x1, p, rk). x0 = fips4 6 key (6 * i) \<and>
      (\<exists>(y :: u32) (z :: u32). x1 = (fips_word 6 key (6 * i + 4), fips_word 6 key (6 * i + 5), y, z)) \<and> p = 6 * i + 6 \<and> scheduled 6 key rk0 (6 * i + 6) rk"
  let ?x1 = "(MBEDTLS_GET_UINT32_LE key 16, MBEDTLS_GET_UINT32_LE key 20, 0, 0)"
  have x1: "?x1 = (fips_word 6 key 4, fips_word 6 key (4 + 1), 0, 0)" by (simp add: fips_word_key)
  let ?st = "(columns key, ?x1, 6 :: nat, store_low ?x1 4 (store_xmm (columns key) 0 rk0))"
  have "scheduled 6 key rk0 0 rk0" by (simp add: scheduled_def)
  from store_xmm_scheduled [OF this _ refl] assms columns_fips4 [of 6 key]
  have "scheduled 6 key rk0 4 (store_xmm (columns key) 0 rk0)" by simp
  then have "scheduled 6 key rk0 6 (store_low ?x1 4 (store_xmm (columns key) 0 rk0))"
    unfolding x1 by (rule store_low_scheduled) (use assms in auto)
  then have I0: "?I 0 ?st" using x1 columns_fips4 [of 6 key] by simp
  have "?I 8 (fold aux_192 (map ((!) RCON) [0..<8]) ?st)"
  proof (rule fold_map_inv [where I = ?I, OF I0])
    fix i st assume i: "i < (8 :: nat)" and st: "?I i st"
    obtain y z rk where e: "st = (fips4 6 key (6 * i), (fips_word 6 key (6 * i + 4), fips_word 6 key (6 * i + 5), y, z), 6 * i + 6, rk)"
      and rk: "scheduled 6 key rk0 (6 * i + 6) rk"
      using st by (cases st) auto
    obtain y' z' where t: "pxor (pxor (fips_word 6 key (6 * i + 4), fips_word 6 key (6 * i + 5), y, z) (pshufd 0xff (fips4 6 key (6 * i + 6))))
       (pslldq4 (fips_word 6 key (6 * i + 4), fips_word 6 key (6 * i + 5), y, z)) =
      (fips_word 6 key (6 * i + 6 + 4), fips_word 6 key (6 * i + 6 + 5), y', z')"
      using fips_tail_192 [OF refl] by blast
    have "scheduled 6 key rk0 (6 * i + 6 + 4) (store_xmm (fips4 6 key (6 * i + 6)) (6 * i + 6) rk)"
      by (rule store_xmm_scheduled [OF rk]) (use i assms in auto)
    then have "scheduled 6 key rk0 (6 * i + 12) (store_low (fips_word 6 key (6 * i + 6 + 4), fips_word 6 key (6 * i + 6 + 5), y', z') (6 * i + 6 + 4)
      (store_xmm (fips4 6 key (6 * i + 6)) (6 * i + 6) rk))"
      by (rule store_low_scheduled) (use i assms in auto)
    moreover have "6 * Suc i = 6 * i + 6" by simp
    ultimately show "?I (Suc i) (aux_192 (RCON ! i) st)"
      unfolding e aux_192_def case_prod_conv Let_def fips_step_192 t
      by (simp add: ac_simps)
  qed
  moreover have "map ((!) RCON) [0..<8] = [0x01, 0x02, 0x04, 0x08, 0x10, 0x20, 0x40, 0x80]"
    by (simp add: RCON_def upt_rec)
  ultimately show ?thesis by (auto simp: aesni_setkey_enc_192_def Let_def split_beta)
qed

lemma aesni_256_scheduled:
  assumes "length rk0 = 68" and "32 \<le> length key"
  shows "scheduled 8 key rk0 64 (aesni_setkey_enc_256 key rk0)"
proof -
  let ?I = "\<lambda>i (x0, x1, p, rk). x0 = fips4 8 key (8 * i) \<and> x1 = fips4 8 key (8 * i + 4) \<and> p = 8 * i + 4 \<and> scheduled 8 key rk0 (8 * i + 8) rk"
  let ?x1 = "columns (drop 16 key)"
  have x1: "?x1 = fips4 8 key (0 + 4)"
    using assms(2) by (simp add: columns_def fips4_def fips_word_key MBEDTLS_GET_UINT32_LE_def)
  let ?st = "(columns key, ?x1, 4 :: nat, store_xmm ?x1 4 (store_xmm (columns key) 0 rk0))"
  have "scheduled 8 key rk0 0 rk0" by (simp add: scheduled_def)
  from store_xmm_scheduled [OF this _ refl] assms columns_fips4 [of 8 key]
  have "scheduled 8 key rk0 (0 + 4) (store_xmm (columns key) 0 rk0)" by simp
  from store_xmm_scheduled [OF this _ refl] assms have I0: "?I 0 ?st" using x1 columns_fips4 [of 8 key] by simp
  have "?I 7 (fold aux_256 (map ((!) RCON) [0..<7]) ?st)"
  proof (rule fold_map_inv [where I = ?I, OF I0])
    fix i st assume i: "i < (7 :: nat)" and st: "?I i st"
    obtain rk where e: "st = (fips4 8 key (8 * i), fips4 8 key (8 * i + 4), 8 * i + 4, rk)" and rk: "scheduled 8 key rk0 (8 * i + 8) rk"
      using st by (cases st) auto
    have "scheduled 8 key rk0 (8 * i + 12) (store_xmm (fips4 8 key (8 * i + 8)) (8 * i + 8) rk)"
      by (rule store_xmm_scheduled [OF rk]) (use i assms in auto)
    then have "scheduled 8 key rk0 (8 * i + 16) (store_xmm (fips4 8 key (8 * i + 12)) (8 * i + 12)
        (store_xmm (fips4 8 key (8 * i + 8)) (8 * i + 8) rk))"
      by (rule store_xmm_scheduled) (use i assms in auto)
    moreover have "8 * Suc i = 8 * i + 8" "8 * i + 4 + 4 = 8 * i + 8" "8 * i + 8 + 4 = 8 * i + 12" "8 * i + 8 + 8 = 8 * i + 16" by simp_all
    ultimately show "?I (Suc i) (aux_256 (RCON ! i) st)"
      unfolding e aux_256_def case_prod_conv Let_def fips_step_256 by (simp only: simp_thms)
  qed
  moreover have "map ((!) RCON) [0..<7] = [0x01, 0x02, 0x04, 0x08, 0x10, 0x20, 0x40]"
    by (simp add: RCON_def upt_rec)
  ultimately show ?thesis by (auto simp: aesni_setkey_enc_256_def Let_def split_beta)
qed

lemma aesni_setkey_tables:
  assumes "keybits \<in> {128, 192, 256}" and "length rk = 68" and "keybits div 8 \<le> length key"
  shows "mbedtls_aesni_setkey_enc key keybits rk = (0, setkey_tables key keybits rk)"
proof -
  consider "keybits = 128" | "keybits = 192" | "keybits = 256" using assms(1) by auto
  then have "scheduled (keybits div 32) key rk (schedule_words keybits) (snd (mbedtls_aesni_setkey_enc key keybits rk))
      \<and> fst (mbedtls_aesni_setkey_enc key keybits rk) = 0"
  proof cases
    case 1
    then show ?thesis using aesni_128_scheduled [OF assms(2), of key] by (simp add: mbedtls_aesni_setkey_enc_def schedule_words_def)
  next
    case 2
    then show ?thesis using aesni_192_scheduled [OF assms(2), of key] by (simp add: mbedtls_aesni_setkey_enc_def schedule_words_def)
  next
    case 3
    then show ?thesis using aesni_256_scheduled [OF assms(2), of key] assms(3) by (simp add: mbedtls_aesni_setkey_enc_def schedule_words_def)
  qed
  with scheduled_unique setkey_tables_scheduled [OF assms(1,2)] show ?thesis by (auto intro: prod_eqI)
qed

section \<open>Instructions and tables give the same results\<close>

lemma aesni_inverse_loop_eq: "aesni_inverse_loop i r fk ik = inverse_loop i r fk ik"
  by (induction i arbitrary: r ik)
    (simp_all add: store_xmm_def load_xmm_def aesimc_def inv_mix_columns_def map4_def words_at_def inv_key_word_eq)

lemma aesni_inverse_tables: "mbedtls_aesni_inverse_key n fk ik = inverse_tables n fk ik"
  by (simp add: mbedtls_aesni_inverse_key_def inverse_tables_def aesni_inverse_loop_eq)

lemma load_xmm_round_key: "load_xmm rk (4 * j) = round_key rk j"
  by (simp add: load_xmm_def round_key_def)

lemma aesni_enc_loop_fips:
  "aesni_enc_loop i rk (4 * Suc j) (fips_rounds j (round_key rk) x) = (4 * Suc (j + i), fips_rounds (j + i) (round_key rk) x)"
proof (induction i arbitrary: j)
  case (Suc i)
  have "4 * Suc j + 4 = 4 * Suc (Suc j)" by simp
  then show ?case using Suc.IH [of "Suc j"]
    by (simp only: aesni_enc_loop.simps load_xmm_round_key aesenc_def fips_rounds.simps [symmetric] add_Suc_right add_Suc)
qed simp

lemma aesni_dec_loop_fips:
  "aesni_dec_loop i rk (4 * Suc j) (fips_inv_rounds j (round_key rk) x) = (4 * Suc (j + i), fips_inv_rounds (j + i) (round_key rk) x)"
proof (induction i arbitrary: j)
  case (Suc i)
  have "4 * Suc j + 4 = 4 * Suc (Suc j)" by simp
  then show ?case using Suc.IH [of "Suc j"]
    by (simp only: aesni_dec_loop.simps load_xmm_round_key aesdec_def fips_inv_rounds.simps [symmetric] add_Suc_right add_Suc)
qed simp

lemma pxor_columns: "pxor (load_xmm rk 0) (columns inp) = xor4 (columns inp) (round_key rk 0)"
  using load_xmm_round_key [of rk 0] by (simp add: pxor_def)

text \<open>A context that a successful key set-up left behind.\<close>

definition keyed :: "aes_context \<Rightarrow> bool" where
  "keyed ctx \<longleftrightarrow> rk_set ctx \<and> nr ctx \<in> {10, 12, 14} \<and> length (buf ctx) = 68"

lemma keyed_nr:
  assumes "keyed ctx"
  shows "even (nat (nr ctx))" "2 \<le> nat (nr ctx)" "2 \<le> nr ctx" "4 * (nat (nr ctx) + 1) \<le> length (buf ctx)" "0 < nat (nr ctx)" "rk_set ctx"
  using assms by (auto simp: keyed_def)

lemma encrypt_fips:
  assumes "keyed ctx" and "16 \<le> length inp"
  shows "mbedtls_internal_aes_encrypt ctx inp = Some (0, store_block (fips_cipher (nat (nr ctx)) (round_key (buf ctx)) (columns inp)))"
  using assms(2) keyed_nr [OF assms(1)]
  by (simp add: mbedtls_internal_aes_encrypt_def load_block_columns encrypt_words_fips)

lemma decrypt_fips:
  assumes "keyed ctx" and "16 \<le> length inp"
  shows "mbedtls_internal_aes_decrypt ctx inp = Some (0, store_block (fips_eq_inv_cipher (nat (nr ctx)) (round_key (buf ctx)) (columns inp)))"
  using assms(2) keyed_nr [OF assms(1)]
  by (simp add: mbedtls_internal_aes_decrypt_def load_block_columns decrypt_words_fips)

lemma aes_support [simp]: "has_aesni 0x02000000" "\<not> has_aesni 0"
  by (simp_all add: mbedtls_aesni_has_support_def MBEDTLS_AESNI_AES_def)

lemma aesni_crypt_unsupported: "\<not> has_aesni cpuid \<Longrightarrow> mbedtls_aesni_crypt_ecb cpuid ctx mode inp = None"
  by (simp add: mbedtls_aesni_crypt_ecb_def)

lemma aesni_crypt_fips:
  assumes "keyed ctx" and "16 \<le> length inp" and "has_aesni cpuid"
  shows "mbedtls_aesni_crypt_ecb cpuid ctx mode inp =
    Some (0, store_block ((if mode \<noteq> 0 then fips_cipher else fips_eq_inv_cipher) (nat (nr ctx)) (round_key (buf ctx)) (columns inp)))"
proof -
  let ?n = "nat (nr ctx)" and ?rk = "buf ctx"
  note k = keyed_nr [OF assms(1)]
  have n: "Suc (?n - 1) = ?n" using k by simp
  have "aesni_enc_loop (?n - 1) ?rk 4 (pxor (load_xmm ?rk 0) (columns inp)) = (4 * ?n, fips_rounds (?n - 1) (round_key ?rk) (columns inp))"
    using aesni_enc_loop_fips [of "?n - 1" ?rk 0 "columns inp"] n by (simp add: pxor_columns)
  moreover have "aesni_dec_loop (?n - 1) ?rk 4 (pxor (load_xmm ?rk 0) (columns inp)) = (4 * ?n, fips_inv_rounds (?n - 1) (round_key ?rk) (columns inp))"
    using aesni_dec_loop_fips [of "?n - 1" ?rk 0 "columns inp"] n by (simp add: pxor_columns)
  ultimately show ?thesis
    using k assms(2,3)
    by (simp add: mbedtls_aesni_crypt_ecb_def Let_def load_xmm_round_key aesenclast_def aesdeclast_def fips_cipher_def fips_eq_inv_cipher_def)
qed

lemma crypt_ecb_fips:
  assumes "keyed ctx" and "16 \<le> length inp" and "mode \<in> {MBEDTLS_AES_ENCRYPT, MBEDTLS_AES_DECRYPT}"
  shows "mbedtls_aes_crypt_ecb cpuid ctx mode inp =
    Some (0, store_block ((if mode = MBEDTLS_AES_ENCRYPT then fips_cipher else fips_eq_inv_cipher) (nat (nr ctx)) (round_key (buf ctx)) (columns inp)))"
  using assms(3) encrypt_fips [OF assms(1,2)] decrypt_fips [OF assms(1,2)] aesni_crypt_fips [OF assms(1,2), of cpuid mode]
  by (auto simp: mbedtls_aes_crypt_ecb_def MBEDTLS_AES_ENCRYPT_def MBEDTLS_AES_DECRYPT_def)

section \<open>Key set-up\<close>

lemma rounds_of_cases: "rounds_of keybits = Some n \<longleftrightarrow> (keybits, n) \<in> {(128, 10), (192, 12), (256, 14)}"
  by (auto simp: rounds_of_def)

lemma setkey_enc_eval:
  assumes "rounds_of keybits = Some n" and "keybits div 8 \<le> length key" and "length (buf ctx) = 68"
  shows "mbedtls_aes_setkey_enc cpuid key keybits ctx =
    Some (0, ctx\<lparr>nr := n, rk_set := True, buf := setkey_tables key keybits (buf ctx)\<rparr>)"
proof -
  have "keybits \<in> {128, 192, 256}" using assms(1) by (auto simp: rounds_of_cases)
  from aesni_setkey_tables [OF this assms(3,2)] show ?thesis
    using assms by (simp add: mbedtls_aes_setkey_enc_def Let_def)
qed

lemma setkey_tables_length: "rounds_of keybits = Some n \<Longrightarrow> length rk = 68 \<Longrightarrow> length (setkey_tables key keybits rk) = 68"
  using setkey_tables_scheduled [of keybits rk key] by (auto simp: rounds_of_cases scheduled_def)

lemma schedule_words_rounds: "rounds_of keybits = Some n \<Longrightarrow> 4 * (nat n + 1) \<le> schedule_words keybits \<and> schedule_words keybits \<le> 68"
  by (auto simp: rounds_of_cases schedule_words_def)

definition key_schedule :: "nat \<Rightarrow> u8 list \<Rightarrow> nat \<Rightarrow> block4" where
  "key_schedule nk key j = fips4 nk key (4 * j)"

lemma fips_cipher_cong:
  assumes "\<And>j. j \<le> n \<Longrightarrow> k j = k' j" and "0 < n"
  shows "fips_cipher n k x = fips_cipher n k' x"
proof -
  have "fips_rounds i k x = fips_rounds i k' x" if "i \<le> n" for i
    using that assms(1) by (induction i) auto
  then show ?thesis using assms by (simp add: fips_cipher_def)
qed

lemma setkey_enc_schedule:
  assumes "rounds_of keybits = Some n" and "length rk = 68" and "j \<le> nat n"
  shows "round_key (setkey_tables key keybits rk) j = key_schedule (keybits div 32) key j"
proof -
  have k: "keybits \<in> {128, 192, 256}" using assms(1) by (auto simp: rounds_of_cases)
  have "4 * j + 3 < schedule_words keybits" "4 * j + 3 < 68" using schedule_words_rounds [OF assms(1)] assms(3) by auto
  then show ?thesis
    using scheduled_nth [OF setkey_tables_scheduled [OF k assms(2), of key]] assms(2)
    by (auto simp: round_key_def key_schedule_def fips4_def)
qed

lemma setkey_dec_eval:
  assumes "rounds_of keybits = Some n" and "keybits div 8 \<le> length key"
  shows "mbedtls_aes_setkey_dec cpuid key keybits ctx =
    Some (0, ctx\<lparr>nr := n, rk_set := True, buf := inverse_tables (nat n) (setkey_tables key keybits (replicate 68 0)) (buf ctx)\<rparr>)"
  using setkey_enc_eval [OF assms, of mbedtls_aes_init cpuid]
  by (simp add: mbedtls_aes_setkey_dec_def Let_def mbedtls_aes_init_def aesni_inverse_tables)

text \<open>A context for encryption and one for decryption under the same key.\<close>

definition key_pair :: "aes_context \<Rightarrow> aes_context \<Rightarrow> bool" where
  "key_pair e d \<longleftrightarrow> keyed e \<and> keyed d \<and> nr e = nr d \<and> inverse_keys (nat (nr e)) (round_key (buf e)) (round_key (buf d))"

lemma setkey_pair:
  assumes "rounds_of keybits = Some n" and "keybits div 8 \<le> length key" and "length (buf ctx) = 68" "length (buf cty) = 68"
  obtains e d where "mbedtls_aes_setkey_enc c1 key keybits ctx = Some (0, e)" "mbedtls_aes_setkey_dec c2 key keybits cty = Some (0, d)"
    "key_pair e d" "nr e = n" "\<And>j. j \<le> nat n \<Longrightarrow> round_key (buf e) j = key_schedule (keybits div 32) key j"
proof -
  let ?e = "ctx\<lparr>nr := n, rk_set := True, buf := setkey_tables key keybits (buf ctx)\<rparr>"
  let ?sk = "setkey_tables key keybits (replicate 68 0)"
  let ?d = "cty\<lparr>nr := n, rk_set := True, buf := inverse_tables (nat n) ?sk (buf cty)\<rparr>"
  have n: "n \<in> {10, 12, 14}" using assms(1) by (auto simp: rounds_of_cases)
  have rk: "round_key (setkey_tables key keybits (buf ctx)) j = round_key ?sk j" if "j \<le> nat n" for j
    using setkey_enc_schedule [OF assms(1) _ that] assms(3) by simp
  have "0 < nat n" "4 * (nat n + 1) \<le> length (buf cty)" using n assms(4) by auto
  note inv = inverse_tables_keys [OF this, of ?sk]
  have "inverse_keys (nat n) (round_key (setkey_tables key keybits (buf ctx))) (round_key (buf ?d))"
    using inv(1) rk by (auto simp: inverse_keys_def)
  then have "key_pair ?e ?d"
    using n inv(2) assms(4) setkey_tables_length [OF assms(1,3)] by (auto simp: key_pair_def keyed_def)
  then show ?thesis
    using that [of ?e ?d] setkey_enc_eval [OF assms(1-3)] setkey_dec_eval [OF assms(1,2)] setkey_enc_schedule [OF assms(1,3)] by simp
qed

text \<open>Encryption of a block as a function of the context.\<close>

definition block_enc :: "aes_context \<Rightarrow> u8 list \<Rightarrow> u8 list" where
  "block_enc ctx inp = store_block (fips_cipher (nat (nr ctx)) (round_key (buf ctx)) (columns inp))"

definition block_dec :: "aes_context \<Rightarrow> u8 list \<Rightarrow> u8 list" where
  "block_dec ctx inp = store_block (fips_eq_inv_cipher (nat (nr ctx)) (round_key (buf ctx)) (columns inp))"

lemma crypt_ecb_enc: "keyed ctx \<Longrightarrow> 16 \<le> length inp \<Longrightarrow> mbedtls_aes_crypt_ecb cpuid ctx MBEDTLS_AES_ENCRYPT inp = Some (0, block_enc ctx inp)"
  by (simp add: crypt_ecb_fips block_enc_def)

lemma crypt_ecb_dec: "keyed ctx \<Longrightarrow> 16 \<le> length inp \<Longrightarrow> mbedtls_aes_crypt_ecb cpuid ctx MBEDTLS_AES_DECRYPT inp = Some (0, block_dec ctx inp)"
  by (simp add: crypt_ecb_fips block_dec_def MBEDTLS_AES_ENCRYPT_def MBEDTLS_AES_DECRYPT_def)

lemma length_block [simp]: "length (block_enc ctx inp) = 16" "length (block_dec ctx inp) = 16"
  by (simp_all add: block_enc_def block_dec_def)

lemma block_dec_enc: "key_pair e d \<Longrightarrow> length inp = 16 \<Longrightarrow> block_dec d (block_enc e inp) = inp"
  using keyed_nr [of d] fips_inverse_cipher [of "nat (nr e)" "round_key (buf e)" "round_key (buf d)" "columns inp"]
  by (auto simp: block_enc_def block_dec_def key_pair_def columns_store store_columns)

section \<open>Properties\<close>

text \<open>C6: block encryption computes FIPS-197: after a key set-up that returned 0, encrypting a block returns 0 and
  the cipher of the standard, with the round keys of the standard's key expansion, applied to the
  block; for the three key sizes, with or without the AES instructions in either call.\<close>
theorem encrypt_computes_fips:
  assumes "mbedtls_aes_setkey_enc c1 key keybits ctx = Some (0, e)" and "length (buf ctx) = 68" and "length inp = 16"
  shows "\<exists>n. rounds_of keybits = Some n \<and> mbedtls_aes_crypt_ecb c2 e MBEDTLS_AES_ENCRYPT inp =
    Some (0, store_block (fips_cipher (nat n) (key_schedule (keybits div 32) key) (columns inp)))"
proof -
  obtain n where n: "rounds_of keybits = Some n" "keybits div 8 \<le> length key"
    using assms(1) by (auto simp: mbedtls_aes_setkey_enc_def MBEDTLS_ERR_AES_INVALID_KEY_LENGTH_def split: option.splits if_splits)
  obtain d where k: "key_pair e d" "nr e = n" "\<And>j. j \<le> nat n \<Longrightarrow> round_key (buf e) j = key_schedule (keybits div 32) key j"
    using setkey_pair [OF n assms(2,2), of c1 0] assms(1) by (metis option.inject prod.inject)
  have "0 < nat n" using n(1) by (auto simp: rounds_of_cases)
  then show ?thesis
    using n(1) k crypt_ecb_enc [of e inp c2] assms(3) fips_cipher_cong [of "nat n" "round_key (buf e)" "key_schedule (keybits div 32) key"]
    by (simp add: block_enc_def key_pair_def)
qed

definition demo_key :: "u8 list" where
  "demo_key = map of_nat [0..<32]"

lemma length_demo_key [simp]: "length demo_key = 32"
  by (simp add: demo_key_def)

lemma demo_pair:
  assumes "keybits \<in> {128, 192, 256}"
  shows "\<exists>e d. mbedtls_aes_setkey_enc c1 demo_key keybits mbedtls_aes_init = Some (0, e) \<and>
    mbedtls_aes_setkey_dec c2 demo_key keybits mbedtls_aes_init = Some (0, d) \<and> key_pair e d"
proof -
  obtain n where n: "rounds_of keybits = Some n" using assms by (auto simp: rounds_of_def)
  have "keybits div 8 \<le> length demo_key" "length (buf mbedtls_aes_init) = 68" using assms by (auto simp: mbedtls_aes_init_def)
  from setkey_pair [OF n this(1) this(2,2), of c1 c2] show ?thesis by metis
qed

theorem encrypt_computes_fips_witness:
  "\<exists>e n. mbedtls_aes_setkey_enc 0 demo_key 256 mbedtls_aes_init = Some (0, e) \<and> rounds_of 256 = Some n \<and>
     mbedtls_aes_crypt_ecb 0x02000000 e MBEDTLS_AES_ENCRYPT (replicate 16 1) =
       Some (0, store_block (fips_cipher (nat n) (key_schedule 8 demo_key) (columns (replicate 16 1))))"
proof -
  obtain e where e: "mbedtls_aes_setkey_enc 0 demo_key 256 mbedtls_aes_init = Some (0, e)" using demo_pair [of 256] by blast
  have "length (buf mbedtls_aes_init) = 68" "length (replicate 16 (1 :: u8)) = 16" by (simp_all add: mbedtls_aes_init_def)
  from encrypt_computes_fips [OF e this] e show ?thesis by auto
qed

text \<open>C7: decryption inverts encryption: with the contexts that the two key set-ups make of one key, decrypting
  an encrypted block gives the block back, whether the AES instructions or the tables are used in any of
  the four calls.\<close>
theorem decrypt_encrypt:
  assumes "keybits \<in> {128, 192, 256}" and "keybits div 8 \<le> length key" and "length (buf ctx) = 68" "length (buf cty) = 68"
    and "length inp = 16"
  shows "\<exists>e d ct. mbedtls_aes_setkey_enc c1 key keybits ctx = Some (0, e) \<and> mbedtls_aes_setkey_dec c2 key keybits cty = Some (0, d) \<and>
    mbedtls_aes_crypt_ecb c3 e MBEDTLS_AES_ENCRYPT inp = Some (0, ct) \<and>
    mbedtls_aes_crypt_ecb c4 d MBEDTLS_AES_DECRYPT ct = Some (0, inp)"
proof -
  obtain n where n: "rounds_of keybits = Some n" using assms(1) by (auto simp: rounds_of_def)
  obtain e d where ed: "mbedtls_aes_setkey_enc c1 key keybits ctx = Some (0, e)" "mbedtls_aes_setkey_dec c2 key keybits cty = Some (0, d)"
    "key_pair e d" using setkey_pair [OF n assms(2-4), of c1 c2] by metis
  then show ?thesis
    using crypt_ecb_enc [of e inp c3] crypt_ecb_dec [of d "block_enc e inp" c4] block_dec_enc [OF ed(3) assms(5)] assms(5)
    by (auto simp: key_pair_def)
qed

theorem decrypt_encrypt_witness:
  "\<exists>e d ct. mbedtls_aes_setkey_enc 0 demo_key 192 mbedtls_aes_init = Some (0, e) \<and>
    mbedtls_aes_setkey_dec 0x02000000 demo_key 192 mbedtls_aes_init = Some (0, d) \<and>
    mbedtls_aes_crypt_ecb 0 e MBEDTLS_AES_ENCRYPT (replicate 16 7) = Some (0, ct) \<and>
    mbedtls_aes_crypt_ecb 0x02000000 d MBEDTLS_AES_DECRYPT ct = Some (0, replicate 16 7)"
  by (rule decrypt_encrypt) (simp_all add: mbedtls_aes_init_def)

text \<open>C8: the assembly for processors with AES instructions computes what the tables compute: the same expanded
  key for each of the key sizes, the same decryption key and, for a keyed context, the same blocks. On a
  processor without the instructions the block function does not return.\<close>
theorem aesni_equals_tables:
  assumes "keybits \<in> {128, 192, 256}" and "keybits div 8 \<le> length key" and "length rk = 68" and "keyed ctx" and "16 \<le> length inp"
  shows "mbedtls_aesni_setkey_enc key keybits rk = (0, setkey_tables key keybits rk) \<and>
    mbedtls_aesni_inverse_key n rk ik = inverse_tables n rk ik \<and>
    mbedtls_aesni_crypt_ecb cpuid ctx MBEDTLS_AES_ENCRYPT inp =
      (if has_aesni cpuid then mbedtls_internal_aes_encrypt ctx inp else None) \<and>
    mbedtls_aesni_crypt_ecb cpuid ctx MBEDTLS_AES_DECRYPT inp =
      (if has_aesni cpuid then mbedtls_internal_aes_decrypt ctx inp else None)"
  using aesni_setkey_tables [OF assms(1,3,2)] aesni_inverse_tables [of n rk ik] aesni_crypt_fips [OF assms(4,5), of cpuid]
    aesni_crypt_unsupported [of cpuid ctx] encrypt_fips [OF assms(4,5)] decrypt_fips [OF assms(4,5)]
  by (simp add: MBEDTLS_AES_ENCRYPT_def MBEDTLS_AES_DECRYPT_def)

theorem aesni_equals_tables_witness:
  "\<exists>ctx. keyed ctx \<and> mbedtls_aesni_setkey_enc demo_key 128 (replicate 68 0) = (0, setkey_tables demo_key 128 (replicate 68 0)) \<and>
    mbedtls_aesni_inverse_key 10 (replicate 68 0) [] = inverse_tables 10 (replicate 68 0) [] \<and>
    mbedtls_aesni_crypt_ecb 0x02000000 ctx MBEDTLS_AES_ENCRYPT (replicate 16 1) = mbedtls_internal_aes_encrypt ctx (replicate 16 1) \<and>
    mbedtls_aesni_crypt_ecb 0x02000000 ctx MBEDTLS_AES_DECRYPT (replicate 16 1) = mbedtls_internal_aes_decrypt ctx (replicate 16 1)"
proof -
  obtain e where "keyed e" using demo_pair [of 128 0 0] by (auto simp: key_pair_def)
  moreover have "(128 :: nat) \<in> {128, 192, 256}" "128 div 8 \<le> length demo_key" "length (replicate 68 (0 :: u32)) = 68"
    "16 \<le> length (replicate 16 (1 :: u8))" by simp_all
  ultimately show ?thesis using aesni_equals_tables [where keybits = 128 and key = demo_key and rk = "replicate 68 0" and ctx = e and
      inp = "replicate 16 1" and n = 10 and ik = "[]" and cpuid = "0x02000000"] by (metis aes_support(1))
qed

text \<open>A key of any other size is refused with the documented error, without a change of the context for
  encryption, and for decryption with only the pointer to the round keys set.\<close>
theorem bad_key_size_refused:
  assumes "keybits \<notin> {128, 192, 256}"
  shows "mbedtls_aes_setkey_enc cpuid key keybits ctx = Some (MBEDTLS_ERR_AES_INVALID_KEY_LENGTH, ctx) \<and>
    mbedtls_aes_setkey_dec cpuid key keybits ctx = Some (MBEDTLS_ERR_AES_INVALID_KEY_LENGTH, ctx\<lparr>rk_set := True\<rparr>)"
  using assms by (simp add: mbedtls_aes_setkey_enc_def mbedtls_aes_setkey_dec_def rounds_of_def MBEDTLS_ERR_AES_INVALID_KEY_LENGTH_def Let_def)

theorem bad_key_size_refused_witness:
  "mbedtls_aes_setkey_enc 0 demo_key 160 mbedtls_aes_init = Some (MBEDTLS_ERR_AES_INVALID_KEY_LENGTH, mbedtls_aes_init) \<and>
    mbedtls_aes_setkey_dec 0 demo_key 160 mbedtls_aes_init = Some (MBEDTLS_ERR_AES_INVALID_KEY_LENGTH, mbedtls_aes_init\<lparr>rk_set := True\<rparr>)"
  by (rule bad_key_size_refused) simp

end
