(* ===== verification/AES_Modes.thy ===== *)
theory AES_Modes
  imports AES_NI
begin

unbundle bit_operations_syntax

text \<open>
  The modes of operation of \<^verbatim>\<open>src/mbedtls-3.1.0/library/aes.c\<close>: CBC, XTS with ciphertext stealing, CFB128, CFB8, OFB and
  CTR, over the block function of theory \<open>AES_NI\<close>. Buffers are lists of bytes; the output buffer does not
  overlap the input. A function returns the status, the updated IV, offset and counter, and the bytes it
  wrote; \<open>None\<close> is an access outside a buffer or through a null pointer.
\<close>

section \<open>The modes\<close>

definition xor_bytes :: "u8 list \<Rightarrow> u8 list \<Rightarrow> u8 list" where
  "xor_bytes xs ys = map2 (XOR) xs ys"

subsection \<open>CBC\<close>

fun cbc_decrypt_loop :: "u32 \<Rightarrow> aes_context \<Rightarrow> nat \<Rightarrow> u8 list \<Rightarrow> u8 list \<Rightarrow> u8 list \<Rightarrow> (int \<times> u8 list \<times> u8 list) option" where
  "cbc_decrypt_loop cpuid ctx 0 iv input out = Some (0, iv, out)"
| "cbc_decrypt_loop cpuid ctx (Suc k) iv input out =
     (let temp = take 16 input in
      case mbedtls_aes_crypt_ecb cpuid ctx MBEDTLS_AES_DECRYPT input of
        None \<Rightarrow> None
      | Some (ret, blk) \<Rightarrow>
          if ret \<noteq> 0 then Some (ret, iv, out)
          else cbc_decrypt_loop cpuid ctx k temp (drop 16 input) (out @ xor_bytes blk iv))"

fun cbc_encrypt_loop :: "u32 \<Rightarrow> aes_context \<Rightarrow> int \<Rightarrow> nat \<Rightarrow> u8 list \<Rightarrow> u8 list \<Rightarrow> u8 list \<Rightarrow> (int \<times> u8 list \<times> u8 list) option" where
  "cbc_encrypt_loop cpuid ctx mode 0 iv input out = Some (0, iv, out)"
| "cbc_encrypt_loop cpuid ctx mode (Suc k) iv input out =
     (case mbedtls_aes_crypt_ecb cpuid ctx mode (xor_bytes (take 16 input) iv) of
        None \<Rightarrow> None
      | Some (ret, blk) \<Rightarrow>
          if ret \<noteq> 0 then Some (ret, iv, out)
          else cbc_encrypt_loop cpuid ctx mode k blk (drop 16 input) (out @ blk))"

definition mbedtls_aes_crypt_cbc ::
  "u32 \<Rightarrow> aes_context \<Rightarrow> int \<Rightarrow> nat \<Rightarrow> u8 list \<Rightarrow> u8 list \<Rightarrow> (int \<times> u8 list \<times> u8 list) option" where
  "mbedtls_aes_crypt_cbc cpuid ctx mode len iv input =
     (if len mod 16 \<noteq> 0 then Some (MBEDTLS_ERR_AES_INVALID_INPUT_LENGTH, iv, [])
      else if length input < len \<or> length iv \<noteq> 16 then None
      else if mode = MBEDTLS_AES_DECRYPT then cbc_decrypt_loop cpuid ctx (len div 16) iv input []
      else cbc_encrypt_loop cpuid ctx mode (len div 16) iv input [])"

subsection \<open>XTS\<close>

record aes_xts_context =
  crypt :: aes_context
  tweak :: aes_context

definition mbedtls_aes_xts_init :: aes_xts_context where
  "mbedtls_aes_xts_init = \<lparr>crypt = mbedtls_aes_init, tweak = mbedtls_aes_init\<rparr>"

definition mbedtls_aes_xts_free :: "aes_xts_context \<Rightarrow> aes_xts_context" where
  "mbedtls_aes_xts_free ctx = \<lparr>crypt = mbedtls_aes_free (crypt ctx), tweak = mbedtls_aes_free (tweak ctx)\<rparr>"

definition mbedtls_aes_xts_decode_keys :: "u8 list \<Rightarrow> nat \<Rightarrow> int + (u8 list \<times> nat \<times> u8 list \<times> nat)" where
  "mbedtls_aes_xts_decode_keys key keybits =
     (let half_keybits = keybits div 2; half_keybytes = half_keybits div 8 in
      if keybits = 256 \<or> keybits = 512 then Inr (key, half_keybits, drop half_keybytes key, half_keybits)
      else Inl MBEDTLS_ERR_AES_INVALID_KEY_LENGTH)"

definition mbedtls_aes_xts_setkey_enc :: "u32 \<Rightarrow> u8 list \<Rightarrow> nat \<Rightarrow> aes_xts_context \<Rightarrow> (int \<times> aes_xts_context) option" where
  "mbedtls_aes_xts_setkey_enc cpuid key keybits ctx =
     (case mbedtls_aes_xts_decode_keys key keybits of
        Inl ret \<Rightarrow> Some (ret, ctx)
      | Inr (key1, key1bits, key2, key2bits) \<Rightarrow>
          (case mbedtls_aes_setkey_enc cpuid key2 key2bits (tweak ctx) of
             None \<Rightarrow> None
           | Some (ret, t) \<Rightarrow>
               if ret \<noteq> 0 then Some (ret, ctx\<lparr>tweak := t\<rparr>)
               else map_option (\<lambda>(ret, c). (ret, ctx\<lparr>tweak := t, crypt := c\<rparr>)) (mbedtls_aes_setkey_enc cpuid key1 key1bits (crypt ctx))))"

definition mbedtls_aes_xts_setkey_dec :: "u32 \<Rightarrow> u8 list \<Rightarrow> nat \<Rightarrow> aes_xts_context \<Rightarrow> (int \<times> aes_xts_context) option" where
  "mbedtls_aes_xts_setkey_dec cpuid key keybits ctx =
     (case mbedtls_aes_xts_decode_keys key keybits of
        Inl ret \<Rightarrow> Some (ret, ctx)
      | Inr (key1, key1bits, key2, key2bits) \<Rightarrow>
          (case mbedtls_aes_setkey_enc cpuid key2 key2bits (tweak ctx) of
             None \<Rightarrow> None
           | Some (ret, t) \<Rightarrow>
               if ret \<noteq> 0 then Some (ret, ctx\<lparr>tweak := t\<rparr>)
               else map_option (\<lambda>(ret, c). (ret, ctx\<lparr>tweak := t, crypt := c\<rparr>)) (mbedtls_aes_setkey_dec cpuid key1 key1bits (crypt ctx))))"

definition MBEDTLS_GET_UINT64_LE :: "u8 list \<Rightarrow> nat \<Rightarrow> u64" where
  "MBEDTLS_GET_UINT64_LE data offset =
     push_bit 56 (ucast (data ! (offset + 7))) OR push_bit 48 (ucast (data ! (offset + 6))) OR
     push_bit 40 (ucast (data ! (offset + 5))) OR push_bit 32 (ucast (data ! (offset + 4))) OR
     push_bit 24 (ucast (data ! (offset + 3))) OR push_bit 16 (ucast (data ! (offset + 2))) OR
     push_bit 8 (ucast (data ! (offset + 1))) OR ucast (data ! offset)"

definition MBEDTLS_PUT_UINT64_LE :: "u64 \<Rightarrow> u8 list" where
  "MBEDTLS_PUT_UINT64_LE n =
     [ucast n, ucast (drop_bit 8 n), ucast (drop_bit 16 n), ucast (drop_bit 24 n),
      ucast (drop_bit 32 n), ucast (drop_bit 40 n), ucast (drop_bit 48 n), ucast (drop_bit 56 n)]"

definition mbedtls_gf128mul_x_ble :: "u8 list \<Rightarrow> u8 list" where
  "mbedtls_gf128mul_x_ble x =
     (let a = MBEDTLS_GET_UINT64_LE x 0; b = MBEDTLS_GET_UINT64_LE x 8;
          ra = push_bit 1 a XOR drop_bit (8 - unat (push_bit 3 (drop_bit 63 b))) 0x0087;
          rb = drop_bit 63 a OR push_bit 1 b in
      MBEDTLS_PUT_UINT64_LE ra @ MBEDTLS_PUT_UINT64_LE rb)"

text \<open>The loop over the full blocks. \<open>prev\<close> is \<^verbatim>\<open>prev_tweak\<close>, \<open>None\<close> while it is uninitialised.\<close>

fun xts_loop :: "u32 \<Rightarrow> aes_context \<Rightarrow> int \<Rightarrow> nat \<Rightarrow> nat \<Rightarrow> u8 list \<Rightarrow> u8 list option \<Rightarrow> u8 list \<Rightarrow> u8 list \<Rightarrow>
    (int \<times> u8 list \<times> u8 list option \<times> u8 list \<times> u8 list) option" where
  "xts_loop cpuid c mode leftover 0 t prev input out = Some (0, t, prev, input, out)"
| "xts_loop cpuid c mode leftover (Suc blocks) t prev input out =
     (let (t, prev) =
        (if leftover \<noteq> 0 \<and> mode = MBEDTLS_AES_DECRYPT \<and> blocks = 0 then (mbedtls_gf128mul_x_ble t, Some t) else (t, prev)) in
      case mbedtls_aes_crypt_ecb cpuid c mode (xor_bytes (take 16 input) t) of
        None \<Rightarrow> None
      | Some (ret, tmp) \<Rightarrow>
          if ret \<noteq> 0 then Some (ret, t, prev, input, out)
          else xts_loop cpuid c mode leftover blocks (mbedtls_gf128mul_x_ble t) prev (drop 16 input) (out @ xor_bytes tmp t))"

text \<open>Ciphertext stealing for the last, partial block.\<close>

definition xts_steal :: "u32 \<Rightarrow> aes_context \<Rightarrow> int \<Rightarrow> nat \<Rightarrow> u8 list \<Rightarrow> u8 list \<Rightarrow> u8 list \<Rightarrow> (int \<times> u8 list) option" where
  "xts_steal cpuid c mode leftover t input out =
     (let before = take (length out - 16) out; prev_output = drop (length out - 16) out;
          output = take leftover prev_output;
          tmp = xor_bytes (take leftover input) t @ xor_bytes (drop leftover prev_output) (drop leftover t) in
      case mbedtls_aes_crypt_ecb cpuid c mode tmp of
        None \<Rightarrow> None
      | Some (ret, tmp) \<Rightarrow>
          if ret \<noteq> 0 then Some (ret, out @ output) else Some (0, before @ xor_bytes tmp t @ output))"

definition mbedtls_aes_crypt_xts :: "u32 \<Rightarrow> aes_xts_context \<Rightarrow> int \<Rightarrow> nat \<Rightarrow> u8 list \<Rightarrow> u8 list \<Rightarrow> (int \<times> u8 list) option" where
  "mbedtls_aes_crypt_xts cpuid ctx mode len data_unit input =
     (let blocks = len div 16; leftover = len mod 16 in
      if len < 16 then Some (MBEDTLS_ERR_AES_INVALID_INPUT_LENGTH, [])
      else if len > 2 ^ 20 * 16 then Some (MBEDTLS_ERR_AES_INVALID_INPUT_LENGTH, [])
      else if length input < len then None
      else case mbedtls_aes_crypt_ecb cpuid (tweak ctx) MBEDTLS_AES_ENCRYPT data_unit of
        None \<Rightarrow> None
      | Some (ret, t) \<Rightarrow>
          if ret \<noteq> 0 then Some (ret, [])
          else (case xts_loop cpuid (crypt ctx) mode leftover blocks t None input [] of
             None \<Rightarrow> None
           | Some (ret, t, prev, input, out) \<Rightarrow>
               if ret \<noteq> 0 then Some (ret, out)
               else if leftover \<noteq> 0
               then (case (if mode = MBEDTLS_AES_DECRYPT then prev else Some t) of
                       None \<Rightarrow> None
                     | Some t \<Rightarrow> xts_steal cpuid (crypt ctx) mode leftover t input out)
               else Some (0, out)))"

subsection \<open>CFB\<close>

text \<open>In CFB128, OFB and CTR the block function runs when the offset is 0.\<close>

fun cfb128_loop :: "u32 \<Rightarrow> aes_context \<Rightarrow> int \<Rightarrow> u8 list \<Rightarrow> nat \<Rightarrow> u8 list \<Rightarrow> u8 list \<Rightarrow> (int \<times> nat \<times> u8 list \<times> u8 list) option" where
  "cfb128_loop cpuid ctx mode iv n [] out = Some (0, n, iv, out)"
| "cfb128_loop cpuid ctx mode iv n (c # input) out =
     (case (if n = 0 then mbedtls_aes_crypt_ecb cpuid ctx MBEDTLS_AES_ENCRYPT iv else Some (0, iv)) of
        None \<Rightarrow> None
      | Some (ret, iv) \<Rightarrow>
          if ret \<noteq> 0 then Some (ret, n, iv, out)
          else let y = c XOR iv ! n; fb = (if mode = MBEDTLS_AES_DECRYPT then c else y) in
            cfb128_loop cpuid ctx mode (iv[n := fb]) ((n + 1) mod 16) input (out @ [y]))"

text \<open>On an error the offset is left as it was.\<close>

definition mbedtls_aes_crypt_cfb128 ::
  "u32 \<Rightarrow> aes_context \<Rightarrow> int \<Rightarrow> nat \<Rightarrow> nat \<Rightarrow> u8 list \<Rightarrow> u8 list \<Rightarrow> (int \<times> nat \<times> u8 list \<times> u8 list) option" where
  "mbedtls_aes_crypt_cfb128 cpuid ctx mode len iv_off iv input =
     (if iv_off > 15 then Some (MBEDTLS_ERR_AES_BAD_INPUT_DATA, iv_off, iv, [])
      else if length input < len \<or> length iv \<noteq> 16 then None
      else map_option (\<lambda>(ret, n, r). if ret \<noteq> 0 then (ret, iv_off, r) else (ret, n, r))
             (cfb128_loop cpuid ctx mode iv iv_off (take len input) []))"

fun cfb8_loop :: "u32 \<Rightarrow> aes_context \<Rightarrow> int \<Rightarrow> u8 list \<Rightarrow> u8 list \<Rightarrow> u8 list \<Rightarrow> (int \<times> u8 list \<times> u8 list) option" where
  "cfb8_loop cpuid ctx mode iv [] out = Some (0, iv, out)"
| "cfb8_loop cpuid ctx mode iv (b # input) out =
     (let ov = iv in
      case mbedtls_aes_crypt_ecb cpuid ctx MBEDTLS_AES_ENCRYPT iv of
        None \<Rightarrow> None
      | Some (ret, iv) \<Rightarrow>
          if ret \<noteq> 0 then Some (ret, iv, out)
          else let c = iv ! 0 XOR b; ov16 = (if mode = MBEDTLS_AES_DECRYPT then b else c) in
            cfb8_loop cpuid ctx mode (tl ov @ [ov16]) input (out @ [c]))"

text \<open>With a mode that is neither constant, the code would feed back an uninitialised byte.\<close>

definition mbedtls_aes_crypt_cfb8 ::
  "u32 \<Rightarrow> aes_context \<Rightarrow> int \<Rightarrow> nat \<Rightarrow> u8 list \<Rightarrow> u8 list \<Rightarrow> (int \<times> u8 list \<times> u8 list) option" where
  "mbedtls_aes_crypt_cfb8 cpuid ctx mode len iv input =
     (if length input < len \<or> length iv \<noteq> 16 \<or> (mode \<noteq> MBEDTLS_AES_ENCRYPT \<and> mode \<noteq> MBEDTLS_AES_DECRYPT \<and> 0 < len) then None
      else cfb8_loop cpuid ctx mode iv (take len input) [])"

subsection \<open>OFB and CTR\<close>

fun ofb_loop :: "u32 \<Rightarrow> aes_context \<Rightarrow> u8 list \<Rightarrow> nat \<Rightarrow> u8 list \<Rightarrow> u8 list \<Rightarrow> (int \<times> nat \<times> u8 list \<times> u8 list) option" where
  "ofb_loop cpuid ctx iv n [] out = Some (0, n, iv, out)"
| "ofb_loop cpuid ctx iv n (c # input) out =
     (case (if n = 0 then mbedtls_aes_crypt_ecb cpuid ctx MBEDTLS_AES_ENCRYPT iv else Some (0, iv)) of
        None \<Rightarrow> None
      | Some (ret, iv) \<Rightarrow>
          if ret \<noteq> 0 then Some (ret, n, iv, out)
          else ofb_loop cpuid ctx iv ((n + 1) mod 16) input (out @ [c XOR iv ! n]))"

definition mbedtls_aes_crypt_ofb ::
  "u32 \<Rightarrow> aes_context \<Rightarrow> nat \<Rightarrow> nat \<Rightarrow> u8 list \<Rightarrow> u8 list \<Rightarrow> (int \<times> nat \<times> u8 list \<times> u8 list) option" where
  "mbedtls_aes_crypt_ofb cpuid ctx len iv_off iv input =
     (if iv_off > 15 then Some (MBEDTLS_ERR_AES_BAD_INPUT_DATA, iv_off, iv, [])
      else if length input < len \<or> length iv \<noteq> 16 then None
      else map_option (\<lambda>(ret, n, r). if ret \<noteq> 0 then (ret, iv_off, r) else (ret, n, r))
             (ofb_loop cpuid ctx iv iv_off (take len input) []))"

text \<open>The increment of the counter, from byte \<open>i - 1\<close> down.\<close>

fun ctr_increment :: "nat \<Rightarrow> u8 list \<Rightarrow> u8 list" where
  "ctr_increment 0 nc = nc"
| "ctr_increment (Suc i) nc = (let nc = nc[i := nc ! i + 1] in if nc ! i \<noteq> 0 then nc else ctr_increment i nc)"

fun ctr_loop :: "u32 \<Rightarrow> aes_context \<Rightarrow> u8 list \<Rightarrow> u8 list \<Rightarrow> nat \<Rightarrow> u8 list \<Rightarrow> u8 list \<Rightarrow>
    (int \<times> nat \<times> u8 list \<times> u8 list \<times> u8 list) option" where
  "ctr_loop cpuid ctx nonce_counter stream_block n [] out = Some (0, n, nonce_counter, stream_block, out)"
| "ctr_loop cpuid ctx nonce_counter stream_block n (c # input) out =
     (case (if n = 0
            then map_option (\<lambda>(ret, sb). (ret, if ret \<noteq> 0 then nonce_counter else ctr_increment 16 nonce_counter, sb))
                   (mbedtls_aes_crypt_ecb cpuid ctx MBEDTLS_AES_ENCRYPT nonce_counter)
            else Some (0, nonce_counter, stream_block)) of
        None \<Rightarrow> None
      | Some (ret, nonce_counter, stream_block) \<Rightarrow>
          if ret \<noteq> 0 then Some (ret, n, nonce_counter, stream_block, out)
          else ctr_loop cpuid ctx nonce_counter stream_block ((n + 1) mod 16) input (out @ [c XOR stream_block ! n]))"

definition mbedtls_aes_crypt_ctr ::
  "u32 \<Rightarrow> aes_context \<Rightarrow> nat \<Rightarrow> nat \<Rightarrow> u8 list \<Rightarrow> u8 list \<Rightarrow> u8 list \<Rightarrow> (int \<times> nat \<times> u8 list \<times> u8 list \<times> u8 list) option" where
  "mbedtls_aes_crypt_ctr cpuid ctx len nc_off nonce_counter stream_block input =
     (if nc_off > 0x0F then Some (MBEDTLS_ERR_AES_BAD_INPUT_DATA, nc_off, nonce_counter, stream_block, [])
      else if length input < len \<or> length nonce_counter \<noteq> 16 \<or> length stream_block \<noteq> 16 then None
      else map_option (\<lambda>(ret, n, r). if ret \<noteq> 0 then (ret, nc_off, r) else (ret, n, r))
             (ctr_loop cpuid ctx nonce_counter stream_block nc_off (take len input) []))"

end
