(* ===== verification/AES_Modes_Correct.thy ===== *)
theory AES_Modes_Correct
  imports AES_Modes
begin

unbundle bit_operations_syntax

text \<open>
  Proofs about the modes of operation. Two locales carry them: \<open>block_cipher\<close>, a pair of block functions of
  which the second inverts the first, for CBC and XTS; and \<open>stream_mode\<close>, a pair of byte-wise steps with a
  common state, for CFB, OFB and CTR. Both are interpreted on the AES code.
\<close>

section \<open>Blocks\<close>

lemma length_xor_bytes [simp]: "length (xor_bytes xs ys) = min (length xs) (length ys)"
  by (simp add: xor_bytes_def)

lemma nth_xor_bytes [simp]: "i < length xs \<Longrightarrow> i < length ys \<Longrightarrow> xor_bytes xs ys ! i = xs ! i XOR ys ! i"
  by (simp add: xor_bytes_def)

lemma xor_bytes_twice [simp]: "length xs = length ys \<Longrightarrow> xor_bytes (xor_bytes xs ys) ys = xs"
  by (rule nth_equalityI) simp_all

lemma xor_bytes_split:
  assumes "length xs \<le> length t" and "length xs + length ys = length t"
  shows "xor_bytes xs t @ xor_bytes ys (drop (length xs) t) = xor_bytes (xs @ ys) t"
  by (rule nth_equalityI) (use assms in \<open>auto simp: nth_append\<close>)

text \<open>The modes as functions of a block function: CBC over \<open>k\<close> blocks, and XTS over \<open>k\<close> blocks from tweak \<open>t\<close>.\<close>

fun cbc_blocks :: "(u8 list \<Rightarrow> u8 list) \<Rightarrow> nat \<Rightarrow> u8 list \<Rightarrow> u8 list \<Rightarrow> u8 list" where
  "cbc_blocks E 0 iv inp = []"
| "cbc_blocks E (Suc k) iv inp = (let c = E (xor_bytes (take 16 inp) iv) in c @ cbc_blocks E k c (drop 16 inp))"

fun cbc_unblocks :: "(u8 list \<Rightarrow> u8 list) \<Rightarrow> nat \<Rightarrow> u8 list \<Rightarrow> u8 list \<Rightarrow> u8 list" where
  "cbc_unblocks D 0 iv inp = []"
| "cbc_unblocks D (Suc k) iv inp = xor_bytes (D (take 16 inp)) iv @ cbc_unblocks D k (take 16 inp) (drop 16 inp)"

definition xts_block :: "(u8 list \<Rightarrow> u8 list) \<Rightarrow> u8 list \<Rightarrow> u8 list \<Rightarrow> u8 list" where
  "xts_block F t b = xor_bytes (F (xor_bytes b t)) t"

fun xts_blocks :: "(u8 list \<Rightarrow> u8 list) \<Rightarrow> nat \<Rightarrow> u8 list \<Rightarrow> u8 list \<Rightarrow> u8 list" where
  "xts_blocks F 0 t inp = []"
| "xts_blocks F (Suc k) t inp = xts_block F t (take 16 inp) @ xts_blocks F k (mbedtls_gf128mul_x_ble t) (drop 16 inp)"

text \<open>
  A data unit as IEEE 1619 describes it. The tweak of block \<open>j\<close> is the \<open>j\<close>-th power of the element \<open>x\<close> times the first
  one. With a partial block at the end, the last two blocks are swapped and the ciphertext of the first of
  them is cut.
\<close>

definition tweak_at :: "u8 list \<Rightarrow> nat \<Rightarrow> u8 list" where
  "tweak_at t j = (mbedtls_gf128mul_x_ble ^^ j) t"

definition xts_unit_enc :: "(u8 list \<Rightarrow> u8 list) \<Rightarrow> u8 list \<Rightarrow> u8 list \<Rightarrow> u8 list" where
  "xts_unit_enc E t p =
     (let m = length p div 16; l = length p mod 16 in
      if l = 0 then xts_blocks E m t p
      else let c = xts_block E (tweak_at t (m - 1)) (take 16 (drop (16 * (m - 1)) p)) in
        xts_blocks E (m - 1) t p @ xts_block E (tweak_at t m) (drop (16 * m) p @ drop l c) @ take l c)"

definition xts_unit_dec :: "(u8 list \<Rightarrow> u8 list) \<Rightarrow> u8 list \<Rightarrow> u8 list \<Rightarrow> u8 list" where
  "xts_unit_dec D t c =
     (let m = length c div 16; l = length c mod 16 in
      if l = 0 then xts_blocks D m t c
      else let p = xts_block D (tweak_at t m) (take 16 (drop (16 * (m - 1)) c)) in
        xts_blocks D (m - 1) t c @ xts_block D (tweak_at t (m - 1)) (drop (16 * m) c @ drop l p) @ take l p)"

lemma length_gf128mul [simp]: "length (mbedtls_gf128mul_x_ble t) = 16"
  by (simp add: mbedtls_gf128mul_x_ble_def Let_def MBEDTLS_PUT_UINT64_LE_def)

lemma length_tweak_at [simp]: "length t = 16 \<Longrightarrow> length (tweak_at t j) = 16"
  by (cases j) (simp_all add: tweak_at_def)

lemma tweak_at_0 [simp]: "tweak_at t 0 = t"
  by (simp add: tweak_at_def)

lemma tweak_at_gf: "tweak_at (mbedtls_gf128mul_x_ble t) j = tweak_at t (Suc j)"
  by (simp add: tweak_at_def funpow_swap1)

lemma tweak_at_Suc: "mbedtls_gf128mul_x_ble (tweak_at t j) = tweak_at t (Suc j)"
  by (simp add: tweak_at_def)

locale block_cipher =
  fixes enc dec :: "u8 list \<Rightarrow> u8 list"
  assumes length_enc [simp]: "length (enc b) = 16"
    and length_dec [simp]: "length (dec b) = 16"
    and dec_enc [simp]: "length b = 16 \<Longrightarrow> dec (enc b) = b"
begin

lemma cbc_round:
  "length inp = 16 * k \<Longrightarrow> length iv = 16 \<Longrightarrow> cbc_unblocks dec k iv (cbc_blocks enc k iv inp) = inp"
proof (induction k arbitrary: iv inp)
  case (Suc k)
  have "length (take 16 inp) = 16" "length (drop 16 inp) = 16 * k" using Suc.prems by simp_all
  with Suc show ?case by (simp add: Let_def)
qed simp

lemma length_xts_block [simp]: "length t = 16 \<Longrightarrow> length (xts_block enc t b) = 16" "length t = 16 \<Longrightarrow> length (xts_block dec t b) = 16"
  by (simp_all add: xts_block_def)

lemma length_xts_blocks [simp]:
  "length t = 16 \<Longrightarrow> length (xts_blocks enc k t inp) = 16 * k" "length t = 16 \<Longrightarrow> length (xts_blocks dec k t inp) = 16 * k"
  by (induction k arbitrary: t inp) simp_all

lemma xts_block_round [simp]: "length t = 16 \<Longrightarrow> length b = 16 \<Longrightarrow> xts_block dec t (xts_block enc t b) = b"
  by (simp add: xts_block_def)

lemma xts_blocks_round:
  "16 * k \<le> length inp \<Longrightarrow> length t = 16 \<Longrightarrow> xts_blocks dec k t (xts_blocks enc k t inp @ rest) = take (16 * k) inp"
proof (induction k arbitrary: t inp)
  case (Suc k)
  have 1: "length (take 16 inp) = 16" "16 * k \<le> length (drop 16 inp)" using Suc.prems by simp_all
  have "take (16 * Suc k) inp = take 16 inp @ take (16 * k) (drop 16 inp)" by (simp add: take_add)
  with Suc.IH [OF 1(2), of "mbedtls_gf128mul_x_ble t"] Suc.prems 1 show ?case by simp
qed simp

lemma xts_unit_round:
  assumes "16 \<le> length p" and "length t = 16"
  shows "length (xts_unit_enc enc t p) = length p" and "xts_unit_dec dec t (xts_unit_enc enc t p) = p"
proof -
  define m l where "m = length p div 16" and "l = length p mod 16"
  have len: "length p = 16 * m + l" "l < 16" "0 < m" using assms(1) by (auto simp: m_def l_def)
  define c where "c = xts_block enc (tweak_at t (m - 1)) (take 16 (drop (16 * (m - 1)) p))"
  define q where "q = drop (16 * m) p @ drop l c"
  have c: "length c = 16" and q: "length q = 16" using assms(2) len by (simp_all add: c_def q_def)
  have blk: "length (take 16 (drop (16 * (m - 1)) p)) = 16" using len by (cases m) auto
  have inv: "xts_block dec (tweak_at t (m - 1)) c = take 16 (drop (16 * (m - 1)) p)"
    unfolding c_def using assms(2) blk by (intro xts_block_round) simp_all
  have unit: "xts_unit_enc enc t p = (if l = 0 then xts_blocks enc m t p
      else xts_blocks enc (m - 1) t p @ xts_block enc (tweak_at t m) q @ take l c)"
    by (simp add: xts_unit_enc_def Let_def m_def l_def c_def q_def)
  have m1: "16 * (m - 1) + 16 = 16 * m" using len by (cases m) auto
  show 1: "length (xts_unit_enc enc t p) = length p"
    using len c m1 assms(2) by (auto simp: unit)
  show "xts_unit_dec dec t (xts_unit_enc enc t p) = p"
  proof (cases "l = 0")
    case True
    then have "xts_unit_dec dec t (xts_unit_enc enc t p) = xts_blocks dec m t (xts_blocks enc m t p @ [])"
      using 1 by (simp add: xts_unit_dec_def Let_def m_def [symmetric] l_def [symmetric] unit)
    then show ?thesis using xts_blocks_round [of m p t "[]"] len assms(2) True by simp
  next
    case False
    let ?a = "xts_blocks enc (m - 1) t p" and ?b = "xts_block enc (tweak_at t m) q"
    let ?e = "?a @ ?b @ take l c"
    have e: "xts_unit_enc enc t p = ?e" using False unit by simp
    have la: "length ?a = 16 * (m - 1)" "length ?b = 16" using assms(2) by simp_all
    have b: "take 16 (drop (16 * (m - 1)) ?e) = ?b" "drop (16 * m) ?e = take l c"
      using la m1 [symmetric] by simp_all
    have ml: "length ?e div 16 = m" "length ?e mod 16 = l" using 1 unfolding e by (simp_all add: m_def l_def)
    have bb: "xts_block dec (tweak_at t m) ?b = q" using q assms(2) by simp
    have lq: "drop l q = drop l c" "take l q = drop (16 * m) p" using len by (simp_all add: q_def)
    have "xts_unit_dec dec t ?e = xts_blocks dec (m - 1) t ?e @ xts_block dec (tweak_at t (m - 1)) (take l c @ drop l q) @ take l q"
      using False unfolding xts_unit_dec_def Let_def ml b bb by simp
    also have "\<dots> = take (16 * (m - 1)) p @ take 16 (drop (16 * (m - 1)) p) @ drop (16 * m) p"
      using len assms(2) inv unfolding lq by (simp add: xts_blocks_round)
    also have "\<dots> = p"
      using take_add [of "16 * (m - 1)" 16 p] append_take_drop_id [of "16 * m" p] unfolding m1 by simp
    finally show ?thesis using e by simp
  qed
qed

end

section \<open>CBC and XTS run the block functions\<close>

text \<open>Interpretation on the AES contexts that the key set-up produces.\<close>

lemma aes_block_cipher: "key_pair e d \<Longrightarrow> block_cipher (block_enc e) (block_dec d)"
  by unfold_locales (simp_all add: block_dec_enc)

text \<open>A block is read from the first 16 bytes of a buffer.\<close>

lemma columns_take: "columns (take 16 inp) = columns inp" if "16 \<le> length inp"
  using that by (simp add: columns_def GET_le32)

lemma block_take: "16 \<le> length inp \<Longrightarrow> block_enc c (take 16 inp) = block_enc c inp" "16 \<le> length inp \<Longrightarrow> block_dec c (take 16 inp) = block_dec c inp"
  by (simp_all add: block_enc_def block_dec_def columns_take)

definition last_block :: "u8 list \<Rightarrow> u8 list \<Rightarrow> u8 list" where
  "last_block iv xs = (if xs = [] then iv else drop (length xs - 16) xs)"

lemma last_block_append: "length c = 16 \<Longrightarrow> length xs = 16 * k \<Longrightarrow> last_block iv (c @ xs) = last_block c xs"
  by (cases k) (auto simp: last_block_def)

lemma length_cbc_blocks: "length (cbc_blocks (block_enc ctx) k iv inp) = 16 * k"
  by (induction k arbitrary: iv inp) (simp_all add: Let_def)

lemma cbc_encrypt_loop_eq:
  assumes "keyed ctx"
  shows "16 * k \<le> length inp \<Longrightarrow> length iv = 16 \<Longrightarrow>
    cbc_encrypt_loop cpuid ctx MBEDTLS_AES_ENCRYPT k iv inp out =
      (let r = cbc_blocks (block_enc ctx) k iv inp in Some (0, last_block iv r, out @ r))"
proof (induction k arbitrary: iv inp out)
  case 0
  then show ?case by (simp add: last_block_def)
next
  case (Suc k)
  then have "16 * k \<le> length (drop 16 inp)" "16 \<le> length (xor_bytes (take 16 inp) iv)" by simp_all
  with Suc.IH [OF this(1), of "block_enc ctx (xor_bytes (take 16 inp) iv)"] show ?case
    by (simp add: Let_def crypt_ecb_enc [OF assms] last_block_append [OF _ length_cbc_blocks])
qed

lemma cbc_decrypt_loop_eq:
  assumes "keyed ctx"
  shows "16 * k \<le> length inp \<Longrightarrow> length iv = 16 \<Longrightarrow>
    cbc_decrypt_loop cpuid ctx k iv inp out =
      Some (0, last_block iv (take (16 * k) inp), out @ cbc_unblocks (block_dec ctx) k iv inp)"
proof (induction k arbitrary: iv inp out)
  case 0
  then show ?case by (simp add: last_block_def)
next
  case (Suc k)
  then have 1: "16 * k \<le> length (drop 16 inp)" "length (take 16 inp) = 16" by simp_all
  have "take (16 * Suc k) inp = take 16 inp @ take (16 * k) (drop 16 inp)" by (simp add: take_add)
  then show ?case
    using Suc.IH [OF 1] Suc.prems 1
    by (simp add: Let_def crypt_ecb_dec [OF assms] last_block_append [of _ _ k] block_take del: take_drop)
qed

lemma cbc_encrypt_eval:
  assumes "keyed ctx" and "length inp = 16 * k" and "length iv = 16"
  shows "mbedtls_aes_crypt_cbc cpuid ctx MBEDTLS_AES_ENCRYPT (length inp) iv inp =
    (let r = cbc_blocks (block_enc ctx) k iv inp in Some (0, last_block iv r, r))"
  using assms cbc_encrypt_loop_eq [OF assms(1), of k inp iv cpuid "[]"]
  by (simp add: mbedtls_aes_crypt_cbc_def MBEDTLS_AES_ENCRYPT_def MBEDTLS_AES_DECRYPT_def)

lemma cbc_decrypt_eval:
  assumes "keyed ctx" and "length inp = 16 * k" and "length iv = 16"
  shows "mbedtls_aes_crypt_cbc cpuid ctx MBEDTLS_AES_DECRYPT (length inp) iv inp =
    Some (0, last_block iv inp, cbc_unblocks (block_dec ctx) k iv inp)"
  using assms cbc_decrypt_loop_eq [OF assms(1), of k inp iv cpuid "[]"]
  by (simp add: mbedtls_aes_crypt_cbc_def)

text \<open>The block function of a mode.\<close>

definition block_of :: "int \<Rightarrow> aes_context \<Rightarrow> u8 list \<Rightarrow> u8 list" where
  "block_of mode c = (if mode = MBEDTLS_AES_ENCRYPT then block_enc c else block_dec c)"

lemma crypt_ecb_block:
  "keyed c \<Longrightarrow> mode \<in> {MBEDTLS_AES_ENCRYPT, MBEDTLS_AES_DECRYPT} \<Longrightarrow> 16 \<le> length inp \<Longrightarrow>
     mbedtls_aes_crypt_ecb cpuid c mode inp = Some (0, block_of mode c inp)"
  by (auto simp: block_of_def crypt_ecb_enc crypt_ecb_dec)

lemma length_block_of [simp]: "length (block_of mode c inp) = 16"
  by (simp add: block_of_def)

text \<open>Without stealing, and the last block of a decryption that steals.\<close>

lemma xts_loop_plain:
  assumes "keyed c" and "mode \<in> {MBEDTLS_AES_ENCRYPT, MBEDTLS_AES_DECRYPT}" and "l = 0 \<or> mode \<noteq> MBEDTLS_AES_DECRYPT"
  shows "16 * k \<le> length inp \<Longrightarrow> length t = 16 \<Longrightarrow>
    xts_loop cpuid c mode l k t prev inp out =
      Some (0, tweak_at t k, prev, drop (16 * k) inp, out @ xts_blocks (block_of mode c) k t inp)"
proof (induction k arbitrary: t inp out)
  case (Suc k)
  then have "16 * k \<le> length (drop 16 inp)" "16 \<le> length (xor_bytes (take 16 inp) t)" by simp_all
  with Suc.IH [OF this(1), of "mbedtls_gf128mul_x_ble t"] assms(3) show ?case
    by (auto simp: crypt_ecb_block [OF assms(1,2)] xts_block_def tweak_at_gf add.commute)
qed simp

lemma xts_loop_steal:
  assumes "keyed c" and "0 < l" and "mode = MBEDTLS_AES_DECRYPT"
  shows "16 * Suc k \<le> length inp \<Longrightarrow> length t = 16 \<Longrightarrow>
    xts_loop cpuid c mode l (Suc k) t prev inp out =
      Some (0, tweak_at t (k + 2), Some (tweak_at t k), drop (16 * Suc k) inp,
            out @ xts_blocks (block_dec c) k t inp @ xts_block (block_dec c) (tweak_at t (Suc k)) (take 16 (drop (16 * k) inp)))"
proof (induction k arbitrary: t inp out)
  case 0
  then have "16 \<le> length (xor_bytes (take 16 inp) (mbedtls_gf128mul_x_ble t))" by simp
  then show ?case
    using assms by (simp add: crypt_ecb_dec [OF assms(1)] xts_block_def tweak_at_def)
next
  case (Suc k)
  then have "16 * Suc k \<le> length (drop 16 inp)" "16 \<le> length (xor_bytes (take 16 inp) t)" by simp_all
  with Suc.IH [OF this(1), of "mbedtls_gf128mul_x_ble t"] assms(2,3) show ?case
    by (simp add: crypt_ecb_dec [OF assms(1)] xts_block_def tweak_at_gf add.commute xts_loop.simps(2) [of _ _ _ _ "Suc k"]
        del: xts_loop.simps)
qed

text \<open>The whole functions are the standard's, on a data unit.\<close>

definition unit_len :: "nat \<Rightarrow> bool" where
  "unit_len n \<longleftrightarrow> 16 \<le> n \<and> n \<le> 2 ^ 20 * 16"

lemma xts_steal_eval:
  assumes "keyed c" and "mode \<in> {MBEDTLS_AES_ENCRYPT, MBEDTLS_AES_DECRYPT}" and "length t = 16" "length rest = l" "l < 16" "length b = 16"
  shows "xts_steal cpuid c mode l t rest (out @ b) = Some (0, out @ xts_block (block_of mode c) t (rest @ drop l b) @ take l b)"
proof -
  have "xor_bytes rest t @ xor_bytes (drop l b) (drop l t) = xor_bytes (rest @ drop l b) t"
    using xor_bytes_split [of rest t "drop l b"] assms by simp
  then show ?thesis
    using assms by (simp add: xts_steal_def Let_def crypt_ecb_block [OF assms(1,2)] xts_block_def)
qed

lemma xts_blocks_snoc:
  "xts_blocks E (Suc j) t inp = xts_blocks E j t inp @ xts_block E (tweak_at t j) (take 16 (drop (16 * j) inp))"
proof (induction j arbitrary: t inp)
  case (Suc j)
  have "xts_blocks E (Suc (Suc j)) t inp = xts_block E t (take 16 inp) @ xts_blocks E (Suc j) (mbedtls_gf128mul_x_ble t) (drop 16 inp)"
    by simp
  also note Suc.IH
  finally show ?case by (simp add: tweak_at_gf add.commute)
qed simp

lemma xts_encrypt_eval:
  assumes "keyed (crypt ctx)" "keyed (tweak ctx)" and "unit_len (length inp)" and "length du = 16"
  shows "mbedtls_aes_crypt_xts cpuid ctx MBEDTLS_AES_ENCRYPT (length inp) du inp =
    Some (0, xts_unit_enc (block_enc (crypt ctx)) (block_enc (tweak ctx) du) inp)"
proof -
  let ?E = "block_enc (crypt ctx)" and ?t = "block_enc (tweak ctx) du"
  define m l where "m = length inp div 16" and "l = length inp mod 16"
  have len: "length inp = 16 * m + l" "l < 16" "0 < m" using assms(3) by (auto simp: m_def l_def unit_len_def)
  have m: "MBEDTLS_AES_ENCRYPT \<in> {MBEDTLS_AES_ENCRYPT, MBEDTLS_AES_DECRYPT}" "MBEDTLS_AES_ENCRYPT \<noteq> MBEDTLS_AES_DECRYPT"
    by (auto simp: MBEDTLS_AES_ENCRYPT_def MBEDTLS_AES_DECRYPT_def)
  have loop: "xts_loop cpuid (crypt ctx) MBEDTLS_AES_ENCRYPT l m ?t None inp [] =
      Some (0, tweak_at ?t m, None, drop (16 * m) inp, xts_blocks ?E m ?t inp)"
    using xts_loop_plain [OF assms(1) m(1), of l m inp ?t cpuid None "[]"] m(2) len by (simp add: block_of_def)
  obtain j where j: "m = Suc j" using len by (cases m) auto
  let ?b = "xts_block ?E (tweak_at ?t j) (take 16 (drop (16 * j) inp))"
  have "xts_steal cpuid (crypt ctx) MBEDTLS_AES_ENCRYPT l (tweak_at ?t m) (drop (16 * m) inp) (xts_blocks ?E m ?t inp) =
      Some (0, xts_blocks ?E j ?t inp @ xts_block ?E (tweak_at ?t m) (drop (16 * m) inp @ drop l ?b) @ take l ?b)"
    using xts_steal_eval [OF assms(1) m(1), of "tweak_at ?t m" "drop (16 * m) inp" l ?b cpuid "xts_blocks ?E j ?t inp"] len
    by (simp add: block_of_def xts_block_def xts_blocks_snoc j del: xts_blocks.simps)
  moreover have "m - 1 = j" using j by simp
  ultimately show ?thesis
    using assms(2-4) loop m(2)
    by (simp add: mbedtls_aes_crypt_xts_def unit_len_def m_def [symmetric] l_def [symmetric] crypt_ecb_enc xts_unit_enc_def Let_def)
qed

lemma xts_decrypt_eval:
  assumes "keyed (crypt ctx)" "keyed (tweak ctx)" and "unit_len (length inp)" and "length du = 16"
  shows "mbedtls_aes_crypt_xts cpuid ctx MBEDTLS_AES_DECRYPT (length inp) du inp =
    Some (0, xts_unit_dec (block_dec (crypt ctx)) (block_enc (tweak ctx) du) inp)"
proof -
  let ?D = "block_dec (crypt ctx)" and ?t = "block_enc (tweak ctx) du"
  define m l where "m = length inp div 16" and "l = length inp mod 16"
  have len: "length inp = 16 * m + l" "l < 16" "0 < m" using assms(3) by (auto simp: m_def l_def unit_len_def)
  have m: "MBEDTLS_AES_DECRYPT \<in> {MBEDTLS_AES_ENCRYPT, MBEDTLS_AES_DECRYPT}" "MBEDTLS_AES_DECRYPT \<noteq> MBEDTLS_AES_ENCRYPT"
    by (auto simp: MBEDTLS_AES_ENCRYPT_def MBEDTLS_AES_DECRYPT_def)
  have le: "16 * m \<le> length inp" using len by simp
  obtain j where j: "m = Suc j" using len by (cases m) auto
  show ?thesis
  proof (cases "l = 0")
    case True
    then show ?thesis
      using xts_loop_plain [OF assms(1) m(1), of l m inp ?t cpuid None "[]"] m(2) le assms(2-4)
      by (simp add: mbedtls_aes_crypt_xts_def unit_len_def m_def [symmetric] l_def [symmetric] crypt_ecb_enc
          xts_unit_dec_def Let_def block_of_def)
  next
    case False
    let ?b = "xts_block ?D (tweak_at ?t m) (take 16 (drop (16 * j) inp))"
    have "xts_loop cpuid (crypt ctx) MBEDTLS_AES_DECRYPT l m ?t None inp [] =
        Some (0, tweak_at ?t (j + 2), Some (tweak_at ?t j), drop (16 * m) inp, xts_blocks ?D j ?t inp @ ?b)"
      using xts_loop_steal [OF assms(1), of l MBEDTLS_AES_DECRYPT j inp ?t cpuid None "[]"] False len unfolding j by simp
    moreover have "xts_steal cpuid (crypt ctx) MBEDTLS_AES_DECRYPT l (tweak_at ?t j) (drop (16 * m) inp) (xts_blocks ?D j ?t inp @ ?b) =
        Some (0, xts_blocks ?D j ?t inp @ xts_block ?D (tweak_at ?t j) (drop (16 * m) inp @ drop l ?b) @ take l ?b)"
      using xts_steal_eval [OF assms(1) m(1), of "tweak_at ?t j" "drop (16 * m) inp" l ?b] m(2) len by (simp add: block_of_def xts_block_def)
    moreover have "m - 1 = j" using j by simp
    ultimately show ?thesis
      using assms(2-4) False
      by (simp add: mbedtls_aes_crypt_xts_def unit_len_def m_def [symmetric] l_def [symmetric] crypt_ecb_enc xts_unit_dec_def Let_def)
  qed
qed

lemma xts_setkey_pair:
  assumes "keybits = 256 \<or> keybits = 512" and "keybits div 8 \<le> length key"
    and "length (buf (crypt ctx)) = 68" "length (buf (tweak ctx)) = 68" "length (buf (crypt cty)) = 68" "length (buf (tweak cty)) = 68"
  obtains e d where "mbedtls_aes_xts_setkey_enc c1 key keybits ctx = Some (0, e)" "mbedtls_aes_xts_setkey_dec c2 key keybits cty = Some (0, d)"
    "key_pair (crypt e) (crypt d)" "keyed (tweak e)" "keyed (tweak d)" "block_enc (tweak e) = block_enc (tweak d)"
proof -
  obtain n where n: "rounds_of (keybits div 2) = Some n" using assms(1) by (auto simp: rounds_of_def)
  have k1: "keybits div 2 div 8 \<le> length key" and k2: "keybits div 2 div 8 \<le> length (drop (keybits div 2 div 8) key)"
    using assms(1,2) by auto
  obtain e d where ed: "mbedtls_aes_setkey_enc c1 key (keybits div 2) (crypt ctx) = Some (0, e)"
      "mbedtls_aes_setkey_dec c2 key (keybits div 2) (crypt cty) = Some (0, d)" "key_pair e d"
    using setkey_pair [OF n k1 assms(3,5)] by metis
  let ?key2 = "drop (keybits div 2 div 8) key"
  obtain t where t: "mbedtls_aes_setkey_enc c1 ?key2 (keybits div 2) (tweak ctx) = Some (0, t)" "keyed t" "nr t = n"
      "\<And>j. j \<le> nat n \<Longrightarrow> round_key (buf t) j = key_schedule (keybits div 2 div 32) ?key2 j"
    using setkey_pair [OF n k2 assms(4,4)] unfolding key_pair_def by metis
  obtain u where u: "mbedtls_aes_setkey_enc c2 ?key2 (keybits div 2) (tweak cty) = Some (0, u)" "keyed u" "nr u = n"
      "\<And>j. j \<le> nat n \<Longrightarrow> round_key (buf u) j = key_schedule (keybits div 2 div 32) ?key2 j"
    using setkey_pair [OF n k2 assms(6,6)] unfolding key_pair_def by metis
  have "block_enc t = block_enc u"
    using t(3,4) u(3,4) keyed_nr(5) [OF t(2)] fips_cipher_cong [of "nat n" "round_key (buf t)" "round_key (buf u)"]
    by (intro ext) (simp add: block_enc_def)
  then show ?thesis
    using that [of "ctx\<lparr>tweak := t, crypt := e\<rparr>" "cty\<lparr>tweak := u, crypt := d\<rparr>"] ed t(1,2) u(1,2) assms(1)
    by (simp add: mbedtls_aes_xts_setkey_enc_def mbedtls_aes_xts_setkey_dec_def mbedtls_aes_xts_decode_keys_def Let_def)
qed

section \<open>Tweaks are multiplied in the field\<close>

text \<open>
  A block as a polynomial over the field with two elements, the little-endian number of its bytes, and
  the product with \<open>x\<close> modulo \<open>x\<^sup>128 + x\<^sup>7 + x\<^sup>2 + x + 1\<close>.
\<close>

definition poly128 :: "u8 list \<Rightarrow> 128 word" where
  "poly128 bs = (ucast (MBEDTLS_GET_UINT64_LE bs 0) :: 128 word) OR push_bit 64 (ucast (MBEDTLS_GET_UINT64_LE bs 8))"

definition times_x :: "128 word \<Rightarrow> 128 word" where
  "times_x p = push_bit 1 p XOR (if bit p 127 then 0x87 else 0)"

lemma byte_bit: "bit (push_bit k (ucast (ucast (drop_bit k a) :: u8)) :: u64) n \<longleftrightarrow> k \<le> n \<and> n < k + 8 \<and> n < 64 \<and> bit (a :: u64) n"
  by (auto simp: bit_simps dest: bit_imp_le_length)

lemma GET_PUT:
  "MBEDTLS_GET_UINT64_LE (MBEDTLS_PUT_UINT64_LE a @ MBEDTLS_PUT_UINT64_LE b) 0 = a" (is ?lo)
  "MBEDTLS_GET_UINT64_LE (MBEDTLS_PUT_UINT64_LE a @ MBEDTLS_PUT_UINT64_LE b) 8 = b" (is ?hi)
proof -
  have all: "push_bit 56 (ucast (ucast (drop_bit 56 w) :: u8)) OR push_bit 48 (ucast (ucast (drop_bit 48 w) :: u8)) OR
      push_bit 40 (ucast (ucast (drop_bit 40 w) :: u8)) OR push_bit 32 (ucast (ucast (drop_bit 32 w) :: u8)) OR
      push_bit 24 (ucast (ucast (drop_bit 24 w) :: u8)) OR push_bit 16 (ucast (ucast (drop_bit 16 w) :: u8)) OR
      push_bit 8 (ucast (ucast (drop_bit 8 w) :: u8)) OR push_bit 0 (ucast (ucast (drop_bit 0 w) :: u8)) = (w :: u64)"
    for w
    by (rule bit_word_eqI) (unfold bit_or_iff byte_bit, auto)
  show ?lo ?hi
    using all [of a] all [of b] by (simp_all add: MBEDTLS_GET_UINT64_LE_def MBEDTLS_PUT_UINT64_LE_def nth_append del: push_bit_of_1)
qed

lemma carry_mask: "drop_bit (8 - unat (push_bit 3 (drop_bit 63 b))) 0x0087 = (if bit (b :: u64) 63 then 0x87 else 0 :: u64)"
proof -
  have "drop_bit 63 b = (if bit b 63 then 1 else 0)"
  proof (rule bit_word_eqI)
    fix n assume "n < LENGTH(64)"
    show "bit (drop_bit 63 b) n = bit (if bit b 63 then 1 else 0 :: u64) n"
      using bit_imp_le_length [of b "63 + n"] by (cases n) (auto simp: bit_simps)
  qed
  then show ?thesis by simp
qed

lemma times_x_halves:
  fixes a b :: u64 and m :: u64
  shows "ucast (push_bit 1 a XOR m) OR push_bit 64 (ucast (drop_bit 63 a OR push_bit 1 b)) =
    push_bit 1 (ucast a OR push_bit 64 (ucast b)) XOR (ucast m :: 128 word)"
proof (rule bit_word_eqI)
  fix n assume "n < LENGTH(128)"
  then consider "n < 64" | "n = 64" | "64 < n" "n < 128" by fastforce
  then show "bit (ucast (push_bit 1 a XOR m) OR push_bit 64 (ucast (drop_bit 63 a OR push_bit 1 b)) :: 128 word) n =
    bit (push_bit 1 (ucast a OR push_bit 64 (ucast b)) XOR (ucast m :: 128 word)) n"
    by cases (unfold bit_or_iff bit_xor_iff bit_push_bit_iff bit_drop_bit_eq bit_unsigned_iff comp_apply,
        auto dest: bit_imp_le_length)
qed

lemma gf128mul_times_x: "poly128 (mbedtls_gf128mul_x_ble t) = times_x (poly128 t)"
proof -
  let ?a = "MBEDTLS_GET_UINT64_LE t 0" and ?b = "MBEDTLS_GET_UINT64_LE t 8"
  let ?m = "(if bit ?b 63 then 0x87 else 0) :: u64"
  have "poly128 (mbedtls_gf128mul_x_ble t) = ucast (push_bit 1 ?a XOR ?m) OR push_bit 64 (ucast (drop_bit 63 ?a OR push_bit 1 ?b))"
    unfolding poly128_def mbedtls_gf128mul_x_ble_def Let_def carry_mask GET_PUT by (rule refl)
  also have "\<dots> = push_bit 1 (poly128 t) XOR ucast ?m" unfolding times_x_halves poly128_def by (rule refl)
  also have "bit (poly128 t) 127 = bit ?b 63" by (auto simp: poly128_def bit_simps dest: bit_imp_le_length)
  then have "(ucast ?m :: 128 word) = (if bit (poly128 t) 127 then 0x87 else 0)" by simp
  finally show ?thesis by (simp add: times_x_def)
qed

section \<open>Byte streams\<close>

fun run :: "('s \<Rightarrow> u8 \<Rightarrow> u8 \<times> 's) \<Rightarrow> 's \<Rightarrow> u8 list \<Rightarrow> u8 list \<times> 's" where
  "run f s [] = ([], s)"
| "run f s (x # xs) = (let (y, s) = f s x; (ys, s) = run f s xs in (y # ys, s))"

lemma run_append: "run f s (xs @ ys) = (let (us, s) = run f s xs; (vs, s) = run f s ys in (us @ vs, s))"
  by (induction xs arbitrary: s) (auto simp: split_beta Let_def)

lemma length_run [simp]: "length (fst (run f s xs)) = length xs"
  by (induction xs arbitrary: s) (auto simp: split_beta Let_def)

locale stream_mode =
  fixes estep dstep :: "'s \<Rightarrow> u8 \<Rightarrow> u8 \<times> 's"
  assumes step_round: "dstep s (fst (estep s x)) = (x, snd (estep s x))"
begin

lemma stream_round: "run dstep s (fst (run estep s xs)) = (xs, snd (run estep s xs))"
  by (induction xs arbitrary: s) (auto simp: split_beta Let_def step_round)

lemma stream_chunks:
  assumes "run estep s xs = (us, s1)" and "run estep s1 ys = (vs, s2)"
  shows "run dstep s (us @ vs) = (xs @ ys, s2)"
  using stream_round [of s "xs @ ys"] assms by (simp add: run_append)

end

text \<open>The steps of the modes, over a block function.\<close>

definition refill :: "(u8 list \<Rightarrow> u8 list) \<Rightarrow> nat \<Rightarrow> u8 list \<Rightarrow> u8 list" where
  "refill E n iv = (if n = 0 then E iv else iv)"

definition cfb128_step :: "(u8 list \<Rightarrow> u8 list) \<Rightarrow> bool \<Rightarrow> u8 list \<times> nat \<Rightarrow> u8 \<Rightarrow> u8 \<times> u8 list \<times> nat" where
  "cfb128_step E decrypting = (\<lambda>(iv, n) c.
     let iv = refill E n iv; y = c XOR iv ! n in (y, iv[n := if decrypting then c else y], (n + 1) mod 16))"

definition cfb8_step :: "(u8 list \<Rightarrow> u8 list) \<Rightarrow> bool \<Rightarrow> u8 list \<Rightarrow> u8 \<Rightarrow> u8 \<times> u8 list" where
  "cfb8_step E decrypting iv b = (let c = E iv ! 0 XOR b in (c, tl iv @ [if decrypting then b else c]))"

definition ofb_step :: "(u8 list \<Rightarrow> u8 list) \<Rightarrow> u8 list \<times> nat \<Rightarrow> u8 \<Rightarrow> u8 \<times> u8 list \<times> nat" where
  "ofb_step E = (\<lambda>(iv, n) c. let iv = refill E n iv in (c XOR iv ! n, iv, (n + 1) mod 16))"

definition ctr_step :: "(u8 list \<Rightarrow> u8 list) \<Rightarrow> u8 list \<times> u8 list \<times> nat \<Rightarrow> u8 \<Rightarrow> u8 \<times> u8 list \<times> u8 list \<times> nat" where
  "ctr_step E = (\<lambda>(nc, sb, n) c.
     let sb' = (if n = 0 then E nc else sb); nc' = (if n = 0 then ctr_increment 16 nc else nc) in
     (c XOR sb' ! n, nc', sb', (n + 1) mod 16))"

interpretation cfb: stream_mode "cfb128_step E False" "cfb128_step E True" for E
  by unfold_locales (auto simp: cfb128_step_def Let_def split_beta)

interpretation cfb_byte: stream_mode "cfb8_step E False" "cfb8_step E True" for E
  by unfold_locales (auto simp: cfb8_step_def Let_def)

interpretation ofb: stream_mode "ofb_step E" "ofb_step E" for E
  by unfold_locales (auto simp: ofb_step_def Let_def split_beta)

interpretation ctr: stream_mode "ctr_step E" "ctr_step E" for E
  by unfold_locales (auto simp: ctr_step_def Let_def split_beta)

section \<open>The stream modes run their steps\<close>

lemma cfb128_loop_eq:
  assumes "keyed ctx"
  shows "length iv = 16 \<Longrightarrow> n < 16 \<Longrightarrow> cfb128_loop cpuid ctx mode iv n xs out =
    (let (ys, iv, n) = run (cfb128_step (block_enc ctx) (mode = MBEDTLS_AES_DECRYPT)) (iv, n) xs in Some (0, n, iv, out @ ys))"
proof (induction xs arbitrary: iv n out)
  case (Cons c xs)
  have "length (refill (block_enc ctx) n iv) = 16" using Cons.prems by (simp add: refill_def)
  with Cons show ?case
    by (auto simp: Let_def split_beta cfb128_step_def crypt_ecb_enc [OF assms] refill_def)
qed simp

lemma cfb8_loop_eq:
  assumes "keyed ctx"
  shows "length iv = 16 \<Longrightarrow> cfb8_loop cpuid ctx mode iv xs out =
    (let (ys, iv) = run (cfb8_step (block_enc ctx) (mode = MBEDTLS_AES_DECRYPT)) iv xs in Some (0, iv, out @ ys))"
proof (induction xs arbitrary: iv out)
  case (Cons c xs)
  then show ?case by (auto simp: Let_def split_beta cfb8_step_def crypt_ecb_enc [OF assms])
qed simp

lemma ofb_loop_eq:
  assumes "keyed ctx"
  shows "length iv = 16 \<Longrightarrow> n < 16 \<Longrightarrow> ofb_loop cpuid ctx iv n xs out =
    (let (ys, iv, n) = run (ofb_step (block_enc ctx)) (iv, n) xs in Some (0, n, iv, out @ ys))"
proof (induction xs arbitrary: iv n out)
  case (Cons c xs)
  then show ?case by (auto simp: Let_def split_beta ofb_step_def crypt_ecb_enc [OF assms] refill_def)
qed simp

lemma length_ctr_increment [simp]: "length (ctr_increment i nc) = length nc"
  by (induction i arbitrary: nc) (simp_all add: Let_def)

lemma ctr_loop_eq:
  assumes "keyed ctx"
  shows "length nc = 16 \<Longrightarrow> length sb = 16 \<Longrightarrow> n < 16 \<Longrightarrow> ctr_loop cpuid ctx nc sb n xs out =
    (let (ys, nc, sb, n) = run (ctr_step (block_enc ctx)) (nc, sb, n) xs in Some (0, n, nc, sb, out @ ys))"
proof (induction xs arbitrary: nc sb n out)
  case (Cons c xs)
  then show ?case by (auto simp: Let_def split_beta ctr_step_def crypt_ecb_enc [OF assms])
qed simp

lemma crypt_cfb128_eval:
  assumes "keyed ctx" "length iv = 16" "n < 16"
  shows "mbedtls_aes_crypt_cfb128 cpuid ctx mode (length xs) n iv xs =
    (let (ys, iv', n') = run (cfb128_step (block_enc ctx) (mode = MBEDTLS_AES_DECRYPT)) (iv, n) xs in Some (0, n', iv', ys))"
  using assms by (simp add: mbedtls_aes_crypt_cfb128_def cfb128_loop_eq Let_def split_beta)

lemma crypt_cfb8_eval:
  assumes "keyed ctx" "length iv = 16" "mode \<in> {MBEDTLS_AES_ENCRYPT, MBEDTLS_AES_DECRYPT}"
  shows "mbedtls_aes_crypt_cfb8 cpuid ctx mode (length xs) iv xs =
    (let (ys, iv') = run (cfb8_step (block_enc ctx) (mode = MBEDTLS_AES_DECRYPT)) iv xs in Some (0, iv', ys))"
  using assms by (auto simp: mbedtls_aes_crypt_cfb8_def cfb8_loop_eq Let_def split_beta)

lemma crypt_ofb_eval:
  assumes "keyed ctx" "length iv = 16" "n < 16"
  shows "mbedtls_aes_crypt_ofb cpuid ctx (length xs) n iv xs =
    (let (ys, iv', n') = run (ofb_step (block_enc ctx)) (iv, n) xs in Some (0, n', iv', ys))"
  using assms by (simp add: mbedtls_aes_crypt_ofb_def ofb_loop_eq Let_def split_beta)

lemma crypt_ctr_eval:
  assumes "keyed ctx" "length nc = 16" "length sb = 16" "n < 16"
  shows "mbedtls_aes_crypt_ctr cpuid ctx (length xs) n nc sb xs =
    (let (ys, nc', sb', n') = run (ctr_step (block_enc ctx)) (nc, sb, n) xs in Some (0, n', nc', sb', ys))"
  using assms by (simp add: mbedtls_aes_crypt_ctr_def ctr_loop_eq Let_def split_beta)

section \<open>The key stream of CTR\<close>

definition be_val :: "u8 list \<Rightarrow> nat" where
  "be_val bs = foldl (\<lambda>v b. 256 * v + unat b) 0 bs"

lemma be_val_snoc [simp]: "be_val (bs @ [b]) = 256 * be_val bs + unat b"
  by (simp add: be_val_def)

lemma digit_inj: "256 * x + a = 256 * y + b \<Longrightarrow> a < 256 \<Longrightarrow> b < (256 :: nat) \<Longrightarrow> x = y \<and> a = b"
proof -
  assume e: "256 * x + a = 256 * y + b" and "a < 256" "b < 256"
  then have "x = y" using div_mult_self4 [of 256 x a] div_mult_self4 [of 256 y b] by simp
  with e show ?thesis by simp
qed

lemma be_val_less: "be_val bs < 256 ^ length bs"
proof (induction bs rule: rev_induct)
  case (snoc b bs)
  have "256 * be_val bs + unat b < 256 * (be_val bs + 1)" using byte_index [of b] by simp
  also have "\<dots> \<le> 256 * 256 ^ length bs" using snoc by (intro mult_le_mono2) simp
  finally show ?case by simp
qed (simp add: be_val_def)

lemma be_val_inj: "length as = length bs \<Longrightarrow> be_val as = be_val bs \<Longrightarrow> as = bs"
proof (induction "as" arbitrary: bs rule: rev_induct)
  case (snoc a as)
  obtain b bs' where bs: "bs = bs' @ [b]" using snoc.prems(1) by (cases bs rule: rev_cases) auto
  have "unat a < 256" "unat b < 256" by (rule byte_index)+
  moreover have "256 * be_val as + unat a = 256 * be_val bs' + unat b" using snoc.prems(2) by (simp add: bs)
  ultimately have "be_val as = be_val bs'" "unat a = unat b" using digit_inj by blast+
  then show ?case using snoc.IH [of bs'] snoc.prems(1) by (simp add: bs word_unat_eq_iff)
qed simp

lemma ctr_increment_append: "i \<le> length xs \<Longrightarrow> ctr_increment i (xs @ ys) = ctr_increment i xs @ ys"
  by (induction i arbitrary: xs) (simp_all add: Let_def nth_append list_update_append)

lemma ctr_increment_val: "length nc = n \<Longrightarrow> be_val (ctr_increment n nc) = (be_val nc + 1) mod 256 ^ n"
proof (induction n arbitrary: nc)
  case (Suc n)
  obtain xs b where nc: "nc = xs @ [b]" "length xs = n" using Suc.prems by (cases nc rule: rev_cases) auto
  note b = byte_index [of b]
  show ?case
  proof (cases "b + 1 = 0")
    case True
    then have "unat (b + 1) = 0" by simp
    then have "(unat b + 1) mod 256 = 0" by (simp add: unat_word_ariths)
    then have "unat b = 255" using b by (cases "unat b = 255") auto
    then have "(be_val nc + 1) mod 256 ^ Suc n = 256 * ((be_val xs + 1) mod 256 ^ n)"
      by (simp add: nc(1) mod_mult_mult1 [symmetric])
    then show ?thesis
      using True Suc.IH [OF nc(2)] nc by (simp add: Let_def nth_append list_update_append ctr_increment_append)
  next
    case False
    have "unat b \<noteq> unat (255 :: u8)" using False unfolding word_unat_eq_iff [symmetric] by auto
    then have u: "unat (b + 1) = unat b + 1" using b by (intro unat_inc) simp
    have "256 * be_val xs + unat (b + 1) < 256 ^ Suc n" using be_val_less [of "xs @ [b + 1]"] nc(2) by simp
    then show ?thesis using False nc u by (simp add: Let_def nth_append list_update_append)
  qed
qed (simp add: be_val_def)

definition counter_at :: "u8 list \<Rightarrow> nat \<Rightarrow> u8 list" where
  "counter_at nc k = (ctr_increment 16 ^^ k) nc"

lemma length_counter_at [simp]: "length (counter_at nc k) = length nc"
  by (induction k) (simp_all add: counter_at_def)

lemma counter_at_val: "length nc = 16 \<Longrightarrow> be_val (counter_at nc k) = (be_val nc + k) mod 2 ^ 128"
proof (induction k)
  case 0
  then show ?case using be_val_less [of nc] by (simp add: counter_at_def)
next
  case (Suc k)
  have "be_val (counter_at nc (Suc k)) = (be_val (counter_at nc k) + 1) mod 256 ^ 16"
    using ctr_increment_val [of "counter_at nc k" 16] Suc.prems by (simp add: counter_at_def [of _ "Suc k"] counter_at_def [symmetric])
  also have "(256 :: nat) ^ 16 = 2 ^ 128" by simp
  finally show ?case using Suc by (simp add: mod_Suc_eq)
qed

lemma counters_distinct:
  assumes "length nc = 16" and "i < j" and "j < i + 2 ^ 128"
  shows "counter_at nc i \<noteq> counter_at nc j"
proof
  assume "counter_at nc i = counter_at nc j"
  then have "(be_val nc + i) mod 2 ^ 128 = (be_val nc + j) mod 2 ^ 128"
    using counter_at_val [OF assms(1)] by metis
  then have "2 ^ 128 dvd (be_val nc + j) - (be_val nc + i)" using assms(2) by (intro mod_eq_dvd_iff_nat [THEN iffD1]) auto
  then have "2 ^ 128 dvd j - i" by simp
  moreover have "0 < j - i" "j - i < 2 ^ 128" using assms(2,3) by linarith+
  ultimately show False by (meson nat_dvd_not_less)
qed

lemma block_count:
  assumes "r < (16 :: nat)"
  shows "(16 * q + r + 15) div 16 = (if r = 0 then q else Suc q)" "r \<noteq> 0 \<Longrightarrow> (16 * q + r - 1) div 16 = q"
proof -
  have "(16 * q + r + 15) div 16 = Suc q" "(16 * q + r - 1) div 16 = q" if "r \<noteq> 0"
  proof -
    have e: "16 * q + r + 15 = 16 * Suc q + (r - 1)" "16 * q + r - 1 = 16 * q + (r - 1)" using that by auto
    show "(16 * q + r + 15) div 16 = Suc q" unfolding e using assms by (subst div_mult_self4) auto
    show "(16 * q + r - 1) div 16 = q" unfolding e using assms by (subst div_mult_self4) auto
  qed
  then show "(16 * q + r + 15) div 16 = (if r = 0 then q else Suc q)" "r \<noteq> 0 \<Longrightarrow> (16 * q + r - 1) div 16 = q"
    by simp_all
qed

lemma ctr_stream:
  "run (ctr_step E) (nc, sb, 0) xs =
     (map (\<lambda>i. xs ! i XOR E (counter_at nc (i div 16)) ! (i mod 16)) [0..<length xs],
      counter_at nc ((length xs + 15) div 16), if xs = [] then sb else E (counter_at nc ((length xs - 1) div 16)), length xs mod 16)"
proof (induction xs rule: rev_induct)
  case Nil
  then show ?case by (simp add: counter_at_def)
next
  case (snoc x xs)
  let ?n = "length xs"
  have m: "map (\<lambda>i. (xs @ [x]) ! i XOR E (counter_at nc (i div 16)) ! (i mod 16)) [0..<Suc ?n] =
      map (\<lambda>i. xs ! i XOR E (counter_at nc (i div 16)) ! (i mod 16)) [0..<?n] @ [x XOR E (counter_at nc (?n div 16)) ! (?n mod 16)]"
    by (simp add: nth_append)
  obtain q r where n: "?n = 16 * q + r" "r < 16" by (metis mod_less_divisor mult_div_mod_eq zero_less_numeral)
  have dm: "?n div 16 = q" "?n mod 16 = r" "(?n + 15) div 16 = (if r = 0 then q else Suc q)" "(Suc ?n + 15) div 16 = Suc q"
    "Suc ?n mod 16 = (r + 1) mod 16" "r \<noteq> 0 \<Longrightarrow> (?n - 1) div 16 = q"
    using n block_count [OF n(2)] by (simp_all add: mod_Suc_eq)
  show ?case
  proof (cases "r = 0")
    case True
    then show ?thesis
      unfolding run_append snoc.IH m length_append_singleton dm
      by (simp add: ctr_step_def dm counter_at_def Let_def)
  next
    case False
    then have "xs \<noteq> []" using n by auto
    with False dm(6) [OF False] show ?thesis
      unfolding run_append snoc.IH m length_append_singleton dm(1-5)
      by (simp add: ctr_step_def dm(1-5) Let_def)
  qed
qed

section \<open>Interpretation on the code's key set-up\<close>

text \<open>The contexts that a key set-up leaves in a fresh context, for every key.\<close>

definition enc_context :: "nat \<Rightarrow> u8 list \<Rightarrow> aes_context" where
  "enc_context keybits key =
     \<lparr>nr = (case rounds_of keybits of None \<Rightarrow> 14 | Some n \<Rightarrow> n), rk_set = True, buf = setkey_tables key keybits (replicate 68 0)\<rparr>"

definition dec_context :: "nat \<Rightarrow> u8 list \<Rightarrow> aes_context" where
  "dec_context keybits key =
     (enc_context keybits key)\<lparr>buf := inverse_tables (nat (nr (enc_context keybits key))) (buf (enc_context keybits key)) (replicate 68 0)\<rparr>"

lemma length_setkey_tables: "length (setkey_tables key keybits rk) = length rk"
proof -
  have f: "(\<And>i r. length (f i r) = length r) \<Longrightarrow> length (fold f is rk') = length rk'" for f "is" and rk' :: "u32 list"
    by (induction "is" arbitrary: rk') simp_all
  have l: "length (load_key is key rk') = length rk'" for "is" rk' by (induction "is" arbitrary: rk') simp_all
  show ?thesis
    by (simp add: setkey_tables_def Let_def f l expand_128_def expand_192_def expand_256_def set_xor_def)
qed

lemma context_pair: "key_pair (enc_context keybits key) (dec_context keybits key)"
proof -
  let ?n = "nat (nr (enc_context keybits key))"
  have n: "nr (enc_context keybits key) \<in> {10, 12, 14}" by (auto simp: enc_context_def rounds_of_def)
  then have "0 < ?n" "4 * (?n + 1) \<le> length (replicate 68 (0 :: u32))" by auto
  note i = inverse_tables_keys [OF this, of "buf (enc_context keybits key)"]
  show ?thesis
    using n i by (simp add: key_pair_def keyed_def dec_context_def) (simp add: enc_context_def length_setkey_tables)
qed

interpretation aes: block_cipher "block_enc (enc_context keybits key)" "block_dec (dec_context keybits key)" for keybits key
  by (rule aes_block_cipher [OF context_pair])

section \<open>Properties\<close>

text \<open>CBC: decrypting what was encrypted under the same key and IV gives the message back, and both
  directions leave the last ciphertext block in the IV, so that a message may be processed in pieces.\<close>
theorem cbc_roundtrip:
  assumes "key_pair e d" and "length msg = 16 * k" and "length iv = 16"
  shows "\<exists>iv' ct. mbedtls_aes_crypt_cbc c1 e MBEDTLS_AES_ENCRYPT (length msg) iv msg = Some (0, iv', ct) \<and> length ct = length msg \<and>
    iv' = last_block iv ct \<and> mbedtls_aes_crypt_cbc c2 d MBEDTLS_AES_DECRYPT (length ct) iv ct = Some (0, iv', msg)"
proof -
  have k: "keyed e" "keyed d" using assms(1) by (auto simp: key_pair_def)
  let ?ct = "cbc_blocks (block_enc e) k iv msg"
  have "cbc_unblocks (block_dec d) k iv ?ct = msg"
    by (rule block_cipher.cbc_round [OF aes_block_cipher [OF assms(1)] assms(2,3)])
  then show ?thesis
    using cbc_encrypt_eval [OF k(1) assms(2,3), of c1] cbc_decrypt_eval [OF k(2) length_cbc_blocks [of e k iv msg] assms(3), of c2]
    by (simp add: length_cbc_blocks assms(2) Let_def)
qed

theorem cbc_roundtrip_witness:
  "\<exists>iv' ct. mbedtls_aes_crypt_cbc 0 (enc_context 128 demo_key) MBEDTLS_AES_ENCRYPT (length (replicate 48 (5 :: u8))) (replicate 16 1) (replicate 48 5) = Some (0, iv', ct) \<and>
    length ct = length (replicate 48 (5 :: u8)) \<and> iv' = last_block (replicate 16 1) ct \<and>
    mbedtls_aes_crypt_cbc 0 (dec_context 128 demo_key) MBEDTLS_AES_DECRYPT (length ct) (replicate 16 1) ct = Some (0, iv', replicate 48 5)"
  by (rule cbc_roundtrip [OF context_pair, of _ 3]) simp_all

text \<open>C35: XTS: decrypting an encrypted data unit of 16 bytes to 16 MiB, of any length, gives the unit back, with
  the contexts of the two XTS key set-ups; the ciphertext, stealing included, is as long as the unit.\<close>
theorem xts_roundtrip:
  assumes "keybits = 256 \<or> keybits = 512" and "keybits div 8 \<le> length key" and "unit_len (length msg)" and "length du = 16"
  shows "\<exists>e d ct. mbedtls_aes_xts_setkey_enc c1 key keybits mbedtls_aes_xts_init = Some (0, e) \<and>
    mbedtls_aes_xts_setkey_dec c2 key keybits mbedtls_aes_xts_init = Some (0, d) \<and>
    mbedtls_aes_crypt_xts c3 e MBEDTLS_AES_ENCRYPT (length msg) du msg = Some (0, ct) \<and> length ct = length msg \<and>
    mbedtls_aes_crypt_xts c4 d MBEDTLS_AES_DECRYPT (length ct) du ct = Some (0, msg)"
proof -
  have "length (buf (crypt mbedtls_aes_xts_init)) = 68" "length (buf (tweak mbedtls_aes_xts_init)) = 68"
    by (simp_all add: mbedtls_aes_xts_init_def mbedtls_aes_init_def)
  from xts_setkey_pair [OF assms(1,2) this this, of c1 c2] obtain e d where
    ed: "mbedtls_aes_xts_setkey_enc c1 key keybits mbedtls_aes_xts_init = Some (0, e)"
      "mbedtls_aes_xts_setkey_dec c2 key keybits mbedtls_aes_xts_init = Some (0, d)"
      "key_pair (crypt e) (crypt d)" "keyed (tweak e)" "keyed (tweak d)" "block_enc (tweak e) = block_enc (tweak d)" by metis
  have k: "keyed (crypt e)" "keyed (crypt d)" using ed(3) by (auto simp: key_pair_def)
  let ?t = "block_enc (tweak e) du"
  let ?ct = "xts_unit_enc (block_enc (crypt e)) ?t msg"
  have "16 \<le> length msg" using assms(3) by (simp add: unit_len_def)
  note r = block_cipher.xts_unit_round [OF aes_block_cipher [OF ed(3)] this, of ?t]
  show ?thesis
    using ed r xts_encrypt_eval [OF k(1) ed(4) assms(3,4), of c3] xts_decrypt_eval [OF k(2) ed(5) _ assms(4), of ?ct c4] assms(3) by auto
qed

theorem xts_roundtrip_witness:
  "\<exists>e d ct. mbedtls_aes_xts_setkey_enc 0 demo_key 256 mbedtls_aes_xts_init = Some (0, e) \<and>
    mbedtls_aes_xts_setkey_dec 0 demo_key 256 mbedtls_aes_xts_init = Some (0, d) \<and>
    mbedtls_aes_crypt_xts 0 e MBEDTLS_AES_ENCRYPT (length (replicate 37 (9 :: u8))) (replicate 16 2) (replicate 37 9) = Some (0, ct) \<and>
    length ct = length (replicate 37 (9 :: u8)) \<and>
    mbedtls_aes_crypt_xts 0 d MBEDTLS_AES_DECRYPT (length ct) (replicate 16 2) ct = Some (0, replicate 37 9)"
  by (rule xts_roundtrip) (simp_all add: unit_len_def)

text \<open>The tweak update is multiplication by \<open>x\<close> in the field with \<open>2\<^sup>128\<close> elements that XTS uses, on the
  little-endian number of the tweak.\<close>
theorem tweak_update_times_x: "poly128 (mbedtls_gf128mul_x_ble t) = times_x (poly128 t)"
  by (rule gf128mul_times_x)

text \<open>CFB128: decryption inverts encryption from every offset, ends with the same IV and offset, and a message
  may be encrypted in two pieces and decrypted in one.\<close>
theorem cfb128_roundtrip:
  assumes "keyed ctx" and "length iv = 16" and "n < 16"
  shows "\<exists>n1 iv1 n2 iv2 ct1 ct2. mbedtls_aes_crypt_cfb128 c1 ctx MBEDTLS_AES_ENCRYPT (length m1) n iv m1 = Some (0, n1, iv1, ct1) \<and>
    mbedtls_aes_crypt_cfb128 c1 ctx MBEDTLS_AES_ENCRYPT (length m2) n1 iv1 m2 = Some (0, n2, iv2, ct2) \<and>
    mbedtls_aes_crypt_cfb128 c2 ctx MBEDTLS_AES_DECRYPT (length (ct1 @ ct2)) n iv (ct1 @ ct2) = Some (0, n2, iv2, m1 @ m2)"
proof -
  let ?E = "cfb128_step (block_enc ctx) False" and ?D = "cfb128_step (block_enc ctx) True"
  have state: "length (fst (snd (run ?E (iv, n) xs))) = 16 \<and> snd (snd (run ?E (iv, n) xs)) < 16" if "length iv = 16" "n < 16" for iv n xs
    using that
  proof (induction xs arbitrary: iv n)
    case (Cons x xs)
    show ?case using Cons.IH [of "fst (snd (?E (iv, n) x))" "snd (snd (?E (iv, n) x))"] Cons.prems
      by (simp add: cfb128_step_def Let_def split_beta refill_def)
  qed simp
  obtain ct1 iv1 n1 where r1: "run ?E (iv, n) m1 = (ct1, iv1, n1)" by (metis prod.collapse)
  obtain ct2 iv2 n2 where r2: "run ?E (iv1, n1) m2 = (ct2, iv2, n2)" by (metis prod.collapse)
  have s1: "length iv1 = 16" "n1 < 16" using state [OF assms(2,3), of m1] r1 by auto
  have "run ?D (iv, n) (ct1 @ ct2) = (m1 @ m2, iv2, n2)" by (rule cfb.stream_chunks [OF r1 r2])
  moreover have "MBEDTLS_AES_ENCRYPT \<noteq> MBEDTLS_AES_DECRYPT" by (simp add: MBEDTLS_AES_ENCRYPT_def MBEDTLS_AES_DECRYPT_def)
  ultimately show ?thesis
    using crypt_cfb128_eval [OF assms, of c1 MBEDTLS_AES_ENCRYPT m1] crypt_cfb128_eval [OF assms(1) s1, of c1 MBEDTLS_AES_ENCRYPT m2]
      crypt_cfb128_eval [OF assms, of c2 MBEDTLS_AES_DECRYPT "ct1 @ ct2"] r1 r2 by simp
qed

lemma keyed_enc_context: "keyed (enc_context keybits key)"
  using context_pair [of keybits key] by (simp add: key_pair_def)

theorem cfb128_roundtrip_witness:
  "\<exists>n1 iv1 n2 iv2 ct1 ct2. mbedtls_aes_crypt_cfb128 0 (enc_context 128 demo_key) MBEDTLS_AES_ENCRYPT (length [1, 2, 3 :: u8]) 15 (replicate 16 4) [1, 2, 3] = Some (0, n1, iv1, ct1) \<and>
    mbedtls_aes_crypt_cfb128 0 (enc_context 128 demo_key) MBEDTLS_AES_ENCRYPT (length [5 :: u8]) n1 iv1 [5] = Some (0, n2, iv2, ct2) \<and>
    mbedtls_aes_crypt_cfb128 0 (enc_context 128 demo_key) MBEDTLS_AES_DECRYPT (length (ct1 @ ct2)) 15 (replicate 16 4) (ct1 @ ct2) = Some (0, n2, iv2, [1, 2, 3] @ [5])"
  by (rule cfb128_roundtrip [OF keyed_enc_context]) simp_all

text \<open>CFB8: decryption inverts encryption and ends with the same IV.\<close>
theorem cfb8_roundtrip:
  assumes "keyed ctx" and "length iv = 16"
  shows "\<exists>iv' ct. mbedtls_aes_crypt_cfb8 c1 ctx MBEDTLS_AES_ENCRYPT (length msg) iv msg = Some (0, iv', ct) \<and>
    mbedtls_aes_crypt_cfb8 c2 ctx MBEDTLS_AES_DECRYPT (length ct) iv ct = Some (0, iv', msg)"
  using crypt_cfb8_eval [OF assms, of MBEDTLS_AES_ENCRYPT c1 msg]
    crypt_cfb8_eval [OF assms, of MBEDTLS_AES_DECRYPT c2 "fst (run (cfb8_step (block_enc ctx) False) iv msg)"]
    cfb_byte.stream_round [of "block_enc ctx" iv msg]
  by (simp add: MBEDTLS_AES_ENCRYPT_def MBEDTLS_AES_DECRYPT_def split_beta Let_def)

theorem cfb8_roundtrip_witness:
  "\<exists>iv' ct. mbedtls_aes_crypt_cfb8 0 (enc_context 128 demo_key) MBEDTLS_AES_ENCRYPT (length [1, 2 :: u8]) (replicate 16 4) [1, 2] = Some (0, iv', ct) \<and>
    mbedtls_aes_crypt_cfb8 0 (enc_context 128 demo_key) MBEDTLS_AES_DECRYPT (length ct) (replicate 16 4) ct = Some (0, iv', [1, 2])"
  by (rule cfb8_roundtrip [OF keyed_enc_context]) simp

text \<open>OFB: the function is its own inverse from every offset.\<close>
theorem ofb_roundtrip:
  assumes "keyed ctx" and "length iv = 16" and "n < 16"
  shows "\<exists>n' iv' ct. mbedtls_aes_crypt_ofb c1 ctx (length msg) n iv msg = Some (0, n', iv', ct) \<and>
    mbedtls_aes_crypt_ofb c2 ctx (length ct) n iv ct = Some (0, n', iv', msg)"
  using crypt_ofb_eval [OF assms, of c1 msg] crypt_ofb_eval [OF assms, of c2 "fst (run (ofb_step (block_enc ctx)) (iv, n) msg)"]
    ofb.stream_round [of "block_enc ctx" "(iv, n)" msg]
  by (simp add: split_beta Let_def)

theorem ofb_roundtrip_witness:
  "\<exists>n' iv' ct. mbedtls_aes_crypt_ofb 0 (enc_context 192 demo_key) (length [1, 2 :: u8]) 0 (replicate 16 4) [1, 2] = Some (0, n', iv', ct) \<and>
    mbedtls_aes_crypt_ofb 0 (enc_context 192 demo_key) (length ct) 0 (replicate 16 4) ct = Some (0, n', iv', [1, 2])"
  by (rule ofb_roundtrip [OF keyed_enc_context]) simp_all

text \<open>C36: CTR: byte \<open>i\<close> of the output is byte \<open>i\<close> of the input combined with byte \<open>i mod 16\<close> of the encrypted counter
  block \<open>i div 16\<close>, where counter block \<open>k\<close> is the big-endian number of the nonce plus \<open>k\<close> modulo \<open>2\<^sup>128\<close>.\<close>
theorem ctr_keystream:
  assumes "keyed ctx" and "length nc = 16" and "length sb = 16"
  shows "\<exists>n' nc' sb' out. mbedtls_aes_crypt_ctr cpuid ctx (length msg) 0 nc sb msg = Some (0, n', nc', sb', out) \<and> length out = length msg \<and>
    (\<forall>i<length msg. out ! i = msg ! i XOR block_enc ctx (counter_at nc (i div 16)) ! (i mod 16)) \<and>
    (\<forall>k. be_val (counter_at nc k) = (be_val nc + k) mod 2 ^ 128)"
  using crypt_ctr_eval [OF assms, of 0 cpuid msg] counter_at_val [OF assms(2)] by (simp add: ctr_stream)

theorem ctr_keystream_witness:
  "\<exists>n' nc' sb' out. mbedtls_aes_crypt_ctr 0 (enc_context 256 demo_key) (length [1, 2, 3 :: u8]) 0 (replicate 16 255) (replicate 16 0) [1, 2, 3] =
      Some (0, n', nc', sb', out) \<and> length out = length [1, 2, 3 :: u8] \<and>
    (\<forall>i<length [1, 2, 3 :: u8]. out ! i = [1, 2, 3] ! i XOR block_enc (enc_context 256 demo_key) (counter_at (replicate 16 255) (i div 16)) ! (i mod 16)) \<and>
    (\<forall>k. be_val (counter_at (replicate 16 255) k) = (be_val (replicate 16 255) + k) mod 2 ^ 128)"
  by (rule ctr_keystream [OF keyed_enc_context]) simp_all

text \<open>The counter blocks of one nonce are pairwise different over \<open>2\<^sup>128\<close> blocks, so that no block of the key
  stream repeats within them.\<close>
theorem ctr_counters_distinct:
  assumes "length nc = 16" and "i < j" and "j < i + 2 ^ 128"
  shows "counter_at nc i \<noteq> counter_at nc j"
  by (rule counters_distinct [OF assms])

theorem ctr_counters_distinct_witness: "counter_at (replicate 16 255) 3 \<noteq> counter_at (replicate 16 255) 70"
  by (rule ctr_counters_distinct) simp_all

text \<open>Input lengths and offsets outside the documented ranges are refused with the documented errors, and
  nothing is written.\<close>
theorem bad_lengths_refused:
  "(len mod 16 \<noteq> 0 \<longrightarrow> mbedtls_aes_crypt_cbc cpuid ctx mode len iv inp = Some (MBEDTLS_ERR_AES_INVALID_INPUT_LENGTH, iv, [])) \<and>
   (\<not> unit_len len \<longrightarrow> mbedtls_aes_crypt_xts cpuid xctx mode len du inp = Some (MBEDTLS_ERR_AES_INVALID_INPUT_LENGTH, [])) \<and>
   (15 < n \<longrightarrow> mbedtls_aes_crypt_cfb128 cpuid ctx mode len n iv inp = Some (MBEDTLS_ERR_AES_BAD_INPUT_DATA, n, iv, []) \<and>
     mbedtls_aes_crypt_ofb cpuid ctx len n iv inp = Some (MBEDTLS_ERR_AES_BAD_INPUT_DATA, n, iv, []) \<and>
     mbedtls_aes_crypt_ctr cpuid ctx len n nc sb inp = Some (MBEDTLS_ERR_AES_BAD_INPUT_DATA, n, nc, sb, []))"
  by (auto simp: mbedtls_aes_crypt_cbc_def mbedtls_aes_crypt_xts_def mbedtls_aes_crypt_cfb128_def mbedtls_aes_crypt_ofb_def
      mbedtls_aes_crypt_ctr_def unit_len_def Let_def)

theorem bad_lengths_refused_witness:
  "mbedtls_aes_crypt_cbc 0 mbedtls_aes_init 1 17 (replicate 16 0) [] = Some (MBEDTLS_ERR_AES_INVALID_INPUT_LENGTH, replicate 16 0, []) \<and>
   mbedtls_aes_crypt_xts 0 mbedtls_aes_xts_init 1 15 [] [] = Some (MBEDTLS_ERR_AES_INVALID_INPUT_LENGTH, []) \<and>
   mbedtls_aes_crypt_ofb 0 mbedtls_aes_init 1 16 [] [] = Some (MBEDTLS_ERR_AES_BAD_INPUT_DATA, 16, [], [])"
  using bad_lengths_refused [of 17 0 mbedtls_aes_init 1 "replicate 16 0" "[]"] bad_lengths_refused [of 15 0 _ 1 _ "[]" mbedtls_aes_xts_init "[]"]
    bad_lengths_refused [of 1 0 mbedtls_aes_init _ "[]" "[]" _ _ 16]
  by (simp add: unit_len_def)

end
