(* ===== verification/Cache_Wrapper.thy ===== *)
theory Cache_Wrapper
  imports Cache_Dump AES_Modes_Correct
begin

unbundle bit_operations_syntax

text \<open>
  The encrypting front end of the store, \<^verbatim>\<open>src/src/cache_wrapper.c\<close>: requests arrive encrypted block by
  block under a fixed key, and replies leave encrypted under the same key.

  The loop counters are of the type \<^verbatim>\<open>char\<close>, signed and of 8 bits: a \<^typ>\<open>8 word\<close> read with \<open>sint\<close>. The two
  message buffers are uninitialised; what they hold at first is an argument, as is the address of the
  request buffer, and the feature word of the processor: the code runs the AES instructions without asking
  whether there are any. \<open>None\<close> is an access outside a buffer or an illegal instruction.
\<close>

section \<open>The front end\<close>

record wrapper_state = cache_state +
  encctx :: aes_context
  decctx :: aes_context

definition wrapper_key :: "u8 list" where
  "wrapper_key = ascii ''1234567890abcdef'' @ [0]"

text \<open>The status of the key set-ups is ignored by the code.\<close>

definition wrapper_init :: "u32 \<Rightarrow> os \<Rightarrow> 'a wrapper_state_scheme \<Rightarrow> 'a wrapper_state_scheme option" where
  "wrapper_init cpuid os s = do {
     s \<leftarrow> cache_init os s;
     (ret, e) \<leftarrow> mbedtls_aes_setkey_enc cpuid wrapper_key 128 mbedtls_aes_init;
     (ret, d) \<leftarrow> mbedtls_aes_setkey_dec cpuid wrapper_key 128 mbedtls_aes_init;
     Some (s\<lparr>encctx := e, decctx := d\<rparr>)
   }"

definition MAX_MSG_SIZE :: nat where "MAX_MSG_SIZE = 256"

definition put_block :: "nat \<Rightarrow> u8 list \<Rightarrow> u8 list \<Rightarrow> u8 list option" where
  "put_block i blk xs = (if i + length blk \<le> length xs then Some (take i xs @ blk @ drop (i + length blk) xs) else None)"

partial_function (option) decrypt_loop ::
    "u32 \<Rightarrow> aes_context \<Rightarrow> u8 list \<Rightarrow> u32 \<Rightarrow> u8 \<Rightarrow> u8 list \<Rightarrow> (int \<times> u8 list) option" where
  "decrypt_loop cpuid ctx enc_req enc_len bytes_dec dec_req =
     (if sint enc_len > sint bytes_dec
      then if sint bytes_dec < 0 then None
      else do {
        (ret, blk) \<leftarrow> mbedtls_aesni_crypt_ecb cpuid ctx MBEDTLS_AES_DECRYPT (drop (nat (sint bytes_dec)) enc_req);
        if ret \<noteq> 0 then Some (- 1, dec_req)
        else do {
          dec_req \<leftarrow> put_block (nat (sint bytes_dec)) blk dec_req;
          decrypt_loop cpuid ctx enc_req enc_len (bytes_dec + 16) dec_req
        }
      }
      else Some (0, dec_req))"

text \<open>The loop condition compares a \<^verbatim>\<open>char\<close> with a \<^verbatim>\<open>size_t\<close>: both sides are converted to 64 unsigned bits.\<close>

partial_function (option) encrypt_loop ::
    "u32 \<Rightarrow> aes_context \<Rightarrow> u8 list \<Rightarrow> u32 \<Rightarrow> u8 \<Rightarrow> u8 list \<Rightarrow> (int \<times> u8 list) option" where
  "encrypt_loop cpuid ctx dec_rep valn bytes_enc enc_rep =
     (if (scast bytes_enc :: u64) < scast valn + 4
      then if sint bytes_enc < 0 then None
      else do {
        (ret, blk) \<leftarrow> mbedtls_aesni_crypt_ecb cpuid ctx MBEDTLS_AES_ENCRYPT (drop (nat (sint bytes_enc)) dec_rep);
        if ret \<noteq> 0 then Some (- 1, enc_rep)
        else do {
          enc_rep \<leftarrow> put_block (nat (sint bytes_enc)) blk enc_rep;
          encrypt_loop cpuid ctx dec_rep valn (bytes_enc + 16) enc_rep
        }
      }
      else Some (0, enc_rep))"

text \<open>The key that \<open>cache_get\<close> is given: the request buffer from its fifth byte on.\<close>

definition request_key :: "ptr \<Rightarrow> u8 list \<Rightarrow> cbuf" where
  "request_key addr dec_req = mk_buf (addr + 4) (drop 4 dec_req)"

definition cache_get_wrapper ::
    "u32 \<Rightarrow> ptr \<Rightarrow> u8 list \<Rightarrow> u8 list \<Rightarrow> u8 list \<Rightarrow> u32 \<Rightarrow> u8 list \<Rightarrow> u32 \<Rightarrow> 'a wrapper_state_scheme \<Rightarrow> (int \<times> u8 list) option" where
  "cache_get_wrapper cpuid addr dec_req dec_rep enc_req enc_len enc_rep max_enc_repn s = do {
     (ret, dec_req) \<leftarrow> decrypt_loop cpuid (decctx s) enc_req enc_len 0 dec_req;
     if ret \<noteq> 0 then Some (- 1, enc_rep)
     else do {
       (valn, rep) \<leftarrow> cache_get (request_key addr dec_req) (MBEDTLS_GET_UINT32_LE dec_req 0) (drop 4 dec_rep) (of_nat (MAX_MSG_SIZE - 4)) s;
       if valn = - 1 then Some (- 1, enc_rep)
       else encrypt_loop cpuid (encctx s) (MBEDTLS_PUT_UINT32_LE valn @ rep) valn 0 enc_rep
     }
   }"

definition wrapper_free :: "'a wrapper_state_scheme \<Rightarrow> 'a wrapper_state_scheme" where
  "wrapper_free s = s\<lparr>encctx := mbedtls_aes_free (encctx s), decctx := mbedtls_aes_free (decctx s)\<rparr>"

section \<open>Blocks\<close>

fun ecb_blocks :: "(u8 list \<Rightarrow> u8 list) \<Rightarrow> nat \<Rightarrow> u8 list \<Rightarrow> u8 list" where
  "ecb_blocks F 0 xs = []"
| "ecb_blocks F (Suc k) xs = F (take 16 xs) @ ecb_blocks F k (drop 16 xs)"

context block_cipher
begin

lemma length_ecb [simp]: "length (ecb_blocks enc k xs) = 16 * k" "length (ecb_blocks dec k xs) = 16 * k"
  by (induction k arbitrary: xs) simp_all

lemma ecb_round: "16 * k \<le> length xs \<Longrightarrow> ecb_blocks dec k (ecb_blocks enc k xs @ ys) = take (16 * k) xs"
proof (induction k arbitrary: xs)
  case (Suc k)
  then have "length (take 16 xs) = 16" "16 * k \<le> length (drop 16 xs)" by simp_all
  moreover have "take (16 * Suc k) xs = take 16 xs @ take (16 * k) (drop 16 xs)" by (simp add: take_add)
  ultimately show ?case using Suc.IH by simp
qed simp

end

lemma length_ecb_blocks: "(\<And>xs. length (F xs) = 16) \<Longrightarrow> length (ecb_blocks F k xs) = 16 * k"
  by (induction k arbitrary: xs) simp_all

text \<open>The counters up to 112 are what they count; at 128 a counter becomes negative.\<close>

lemma sint_counter: "j \<le> 7 \<Longrightarrow> sint (of_nat (16 * j) :: u8) = 16 * int j"
proof -
  assume "j \<le> 7"
  then have "j \<in> {0, 1, 2, 3, 4, 5, 6, 7}" by auto
  then show ?thesis by (elim insertE emptyE) simp_all
qed

lemma counter_Suc: "(of_nat (16 * j) :: u8) + 16 = of_nat (16 * Suc j)"
  by simp

definition blocks_of :: "nat \<Rightarrow> nat" where
  "blocks_of n = (n + 15) div 16"

lemma blocks_of_less: "16 * j < n \<longleftrightarrow> j < blocks_of n"
proof -
  have "j < blocks_of n \<longleftrightarrow> Suc j * 16 \<le> n + 15" unfolding blocks_of_def Suc_le_eq [symmetric] by (rule less_eq_div_iff_mult_less_eq) simp
  then show ?thesis by auto
qed

lemma drop_16: "drop 16 (drop (16 * j) xs) = drop (16 * Suc j) xs"
  by simp

lemma decrypt_loop_blocks:
  assumes ctx: "keyed ctx" and ni: "has_aesni cpuid" and n: "sint enc_len = int n" "n \<le> 112" and len: "length dec_req = 256" "16 * blocks_of n \<le> length enc_req"
    and j: "j \<le> blocks_of n"
  shows "decrypt_loop cpuid ctx enc_req enc_len (of_nat (16 * j)) dec_req =
    Some (0, take (16 * j) dec_req @ ecb_blocks (block_dec ctx) (blocks_of n - j) (drop (16 * j) enc_req) @ drop (16 * blocks_of n) dec_req)"
  using len j
proof (induction "blocks_of n - j" arbitrary: j dec_req)
  case 0
  then have "j = blocks_of n" by simp
  moreover have "blocks_of n \<le> 7" using n(2) by (simp add: blocks_of_def)
  ultimately show ?case
    using blocks_of_less [of j n] n(1) by (subst decrypt_loop.simps) (simp add: sint_counter del: of_nat_mult)
next
  case (Suc x)
  have j: "j < blocks_of n" and m: "blocks_of n \<le> 7" using Suc.hyps(2) n(2) by (simp_all add: blocks_of_def)
  let ?c = "of_nat (16 * j) :: u8" and ?blk = "block_dec ctx (take 16 (drop (16 * j) enc_req))"
  have c: "sint ?c = 16 * int j" using j m by (intro sint_counter) simp
  have blk: "mbedtls_aesni_crypt_ecb cpuid ctx MBEDTLS_AES_DECRYPT (drop (16 * j) enc_req) = Some (0, ?blk)"
    using aesni_crypt_fips [OF ctx _ ni, of "drop (16 * j) enc_req" MBEDTLS_AES_DECRYPT] Suc.prems(2) j
    by (simp add: MBEDTLS_AES_DECRYPT_def block_dec_def columns_take)
  let ?d = "take (16 * j) dec_req @ ?blk @ drop (16 * j + 16) dec_req"
  have put: "put_block (16 * j) ?blk dec_req = Some ?d" using Suc.prems(1) j m by (simp add: put_block_def)
  have step: "decrypt_loop cpuid ctx enc_req enc_len ?c dec_req = decrypt_loop cpuid ctx enc_req enc_len (of_nat (16 * Suc j)) ?d"
    using blocks_of_less [of j n] j n(1) c blk put
    by (subst decrypt_loop.simps) (simp add: counter_Suc nat_mult_distrib del: of_nat_mult of_nat_Suc mult_Suc_right)
  have "length ?d = 256" using Suc.prems(1) j m by simp
  from Suc.hyps(1) [of "Suc j" ?d] this Suc.hyps(2) Suc.prems j
  have rest: "decrypt_loop cpuid ctx enc_req enc_len (of_nat (16 * Suc j)) ?d =
      Some (0, take (16 * Suc j) ?d @ ecb_blocks (block_dec ctx) x (drop (16 * Suc j) enc_req) @ drop (16 * blocks_of n) ?d)"
    by (metis Suc_diff_Suc Suc_inject Suc_leI)
  have cut: "take (16 * Suc j) ?d = take (16 * j) dec_req @ ?blk" "drop (16 * blocks_of n) ?d = drop (16 * blocks_of n) dec_req"
    using Suc.prems(1) j m by simp_all
  show ?case unfolding step rest cut Suc.hyps(2) [symmetric] ecb_blocks.simps drop_16 append_assoc by (rule refl)
qed


text \<open>The reply takes as many blocks as its length needs, but never more than eight.\<close>

definition reply_blocks :: "nat \<Rightarrow> nat" where
  "reply_blocks n = min 8 (blocks_of (n + 4))"

lemma encrypt_condition:
  assumes "j \<le> 8" and "unat (valn :: u32) < 2 ^ 31"
  shows "(scast (of_nat (16 * j) :: u8) :: u64) < scast valn + 4 \<longleftrightarrow> j < reply_blocks (unat valn)"
proof -
  have v: "unat (scast valn + 4 :: u64) = unat valn + 4"
    using assms(2) unat_scast_u64 [OF assms(2)] by (simp add: unat_word_ariths)
  show ?thesis
  proof (cases "j = 8")
    case True
    have "unat (scast (of_nat (16 * 8) :: u8) :: u64) = 2 ^ 64 - 128" by simp
    then show ?thesis using True v assms(2) by (simp add: word_less_nat_alt reply_blocks_def)
  next
    case False
    then have "j \<in> {0, 1, 2, 3, 4, 5, 6, 7}" using assms(1) by auto
    then have "unat (scast (of_nat (16 * j) :: u8) :: u64) = 16 * j" by (elim insertE emptyE) simp_all
    then show ?thesis using False v assms(1) blocks_of_less [of j "unat valn + 4"] by (auto simp: word_less_nat_alt reply_blocks_def)
  qed
qed

lemma encrypt_loop_blocks:
  assumes ctx: "keyed ctx" and ni: "has_aesni cpuid" and n: "unat valn < 2 ^ 31" "m = reply_blocks (unat valn)" and len: "16 * m \<le> length enc_rep" "16 * m \<le> length dec_rep"
    and j: "j \<le> m"
  shows "encrypt_loop cpuid ctx dec_rep valn (of_nat (16 * j)) enc_rep =
    Some (0, take (16 * j) enc_rep @ ecb_blocks (block_enc ctx) (m - j) (drop (16 * j) dec_rep) @ drop (16 * m) enc_rep)"
  using len(1) j
proof (induction "m - j" arbitrary: j enc_rep)
  case 0
  then have "j = m" by simp
  moreover have "m \<le> 8" using n(2) by (simp add: reply_blocks_def)
  ultimately show ?case
    using encrypt_condition [of j valn] n by (subst encrypt_loop.simps) (simp del: of_nat_mult)
next
  case (Suc x)
  have j: "j < m" using Suc.hyps(2) by simp
  have m: "m \<le> 8" using n(2) by (simp add: reply_blocks_def)
  let ?c = "of_nat (16 * j) :: u8" and ?blk = "block_enc ctx (take 16 (drop (16 * j) dec_rep))"
  have c: "sint ?c = 16 * int j" using j m by (intro sint_counter) simp
  have blk: "mbedtls_aesni_crypt_ecb cpuid ctx MBEDTLS_AES_ENCRYPT (drop (16 * j) dec_rep) = Some (0, ?blk)"
    using aesni_crypt_fips [OF ctx _ ni, of "drop (16 * j) dec_rep" MBEDTLS_AES_ENCRYPT] len(2) j
    by (simp add: MBEDTLS_AES_ENCRYPT_def block_enc_def columns_take)
  let ?d = "take (16 * j) enc_rep @ ?blk @ drop (16 * j + 16) enc_rep"
  have put: "put_block (16 * j) ?blk enc_rep = Some ?d" using Suc.prems(1) j m by (simp add: put_block_def)
  have step: "encrypt_loop cpuid ctx dec_rep valn ?c enc_rep = encrypt_loop cpuid ctx dec_rep valn (of_nat (16 * Suc j)) ?d"
    using encrypt_condition [of j valn] j m n c blk put
    by (subst encrypt_loop.simps) (simp add: counter_Suc nat_mult_distrib del: of_nat_mult of_nat_Suc mult_Suc_right)
  have "16 * m \<le> length ?d" using Suc.prems(1) j m by simp
  from Suc.hyps(1) [of "Suc j" ?d] this Suc.hyps(2) Suc.prems j
  have rest: "encrypt_loop cpuid ctx dec_rep valn (of_nat (16 * Suc j)) ?d =
      Some (0, take (16 * Suc j) ?d @ ecb_blocks (block_enc ctx) x (drop (16 * Suc j) dec_rep) @ drop (16 * m) ?d)"
    by (metis Suc_diff_Suc Suc_inject Suc_leI)
  have cut: "take (16 * Suc j) ?d = take (16 * j) enc_rep @ ?blk" "drop (16 * m) ?d = drop (16 * m) enc_rep"
    using Suc.prems(1) j m by simp_all
  show ?case unfolding step rest cut Suc.hyps(2) [symmetric] ecb_blocks.simps drop_16 append_assoc by (rule refl)
qed

lemma length_PUT: "length (MBEDTLS_PUT_UINT32_LE w) = 4"
  by (simp add: MBEDTLS_PUT_UINT32_LE_def)

section \<open>The front end on top of the store\<close>

definition wrapper_inv :: "'a wrapper_state_scheme \<Rightarrow> bool" where
  "wrapper_inv s \<longleftrightarrow> cache_inv s \<and> key_pair (encctx s) (decctx s)"

lemma cache_contexts [simp]:
  "cache_inv (s\<lparr>encctx := e, decctx := d\<rparr>) = cache_inv s" "cache_abs (s\<lparr>encctx := e, decctx := d\<rparr>) = cache_abs s"
  by (simp_all add: cache_inv_def store_wf_def slabs_wf_def cache_abs_def cache_map_def fun_eq_iff split: option.split)

lemma wrapper_key_length: "length wrapper_key = 17"
  by (simp add: wrapper_key_def ascii_def)

lemma wrapper_init_ok:
  assumes "heap s = Map.empty" and "mmap_ok os" and "realloc_ok os" and "calloc_ok os"
  shows "\<exists>s'. wrapper_init cpuid os s = Some s' \<and> wrapper_inv s' \<and> cache_abs s' = kv_init"
proof -
  obtain s1 where s1: "cache_init os s = Some s1" "cache_inv s1" "cache_abs s1 = kv_init"
    using cache_init_refine [OF assms] by blast
  have "rounds_of 128 = Some 10" "128 div 8 \<le> length wrapper_key" "length (buf mbedtls_aes_init) = 68"
    by (simp_all add: rounds_of_def wrapper_key_length mbedtls_aes_init_def)
  from setkey_pair [OF this(1,2,3,3), of cpuid cpuid] obtain e d where
    "mbedtls_aes_setkey_enc cpuid wrapper_key 128 mbedtls_aes_init = Some (0, e)"
    "mbedtls_aes_setkey_dec cpuid wrapper_key 128 mbedtls_aes_init = Some (0, d)" "key_pair e d" by metis
  with s1 show ?thesis by (simp add: wrapper_init_def wrapper_inv_def)
qed

text \<open>A request in plain text: the length of the key, the key, and padding to full blocks.\<close>

definition request_of :: "u8 list \<Rightarrow> nat \<Rightarrow> bytes \<Rightarrow> bool" where
  "request_of p m k \<longleftrightarrow> length p = 16 * m \<and> m \<le> 7 \<and> 4 + length k \<le> length p \<and>
     take 4 p = MBEDTLS_PUT_UINT32_LE (of_nat (length k)) \<and> take (length k) (drop 4 p) = k"

lemma request_length_field:
  assumes "request_of p m k"
  shows "MBEDTLS_GET_UINT32_LE (p @ xs) 0 = of_nat (length k)"
proof -
  have "length p \<ge> 4" using assms by (simp add: request_of_def)
  then obtain a b c d q where p: "p = a # b # c # d # q" by (auto simp: eval_nat_numeral Suc_le_length_iff)
  then have "[a, b, c, d] = MBEDTLS_PUT_UINT32_LE (of_nat (length k))" using assms by (simp add: request_of_def eval_nat_numeral)
  then show ?thesis by (simp add: p GET_le32 MBEDTLS_PUT_UINT32_LE_def)
qed

lemma request_is_key:
  assumes "request_of p m k" and "length (p @ xs) = 256"
  shows "is_key (request_key addr (p @ xs)) (of_nat (length k)) k"
proof -
  have l: "length k \<le> 108" "length k \<le> length (drop 4 (p @ xs))" using assms by (auto simp: request_of_def)
  have "take (length k) (drop 4 (p @ xs)) = k" using assms(1) by (auto simp: request_of_def)
  then show ?thesis
    using l by (simp add: is_key_def request_key_def unat_of_nat_less buf_bytes_mk_buf del: drop_append)
qed

lemma decrypted_request:
  assumes kp: "key_pair e d" and ni: "has_aesni cpuid" and p: "request_of p m k" and enc: "take (16 * m) enc_req = ecb_blocks (block_enc e) m p"
    and len: "16 * m \<le> length enc_req" "length dec_req = 256"
  shows "decrypt_loop cpuid d enc_req (of_nat (16 * m)) 0 dec_req = Some (0, p @ drop (16 * m) dec_req)"
proof -
  have m: "m \<le> 7" "length p = 16 * m" using p by (auto simp: request_of_def)
  have b: "blocks_of (16 * m) = m" by (simp add: blocks_of_def)
  have n: "sint (of_nat (16 * m) :: u32) = int (16 * m)" 
    using m unat_of_nat_less [of "16 * m", where 'a = 32] by (subst sint_small) (simp_all del: of_nat_mult)
  have "keyed d" using kp by (simp add: key_pair_def)
  from decrypt_loop_blocks [OF this ni n _ len(2), of enc_req 0] m len(1)
  have "decrypt_loop cpuid d enc_req (of_nat (16 * m)) 0 dec_req = Some (0, ecb_blocks (block_dec d) m enc_req @ drop (16 * m) dec_req)"
    by (simp add: b)
  moreover have "ecb_blocks (block_dec d) m enc_req = p"
    using block_cipher.ecb_round [OF aes_block_cipher [OF kp], of m p "drop (16 * m) enc_req"] m
    unfolding enc [symmetric] by simp
  ultimately show ?thesis by simp
qed

lemma wrapper_get:
  assumes inv: "wrapper_inv s" and ni: "has_aesni cpuid" and p: "request_of p m k" and enc: "take (16 * m) enc_req = ecb_blocks (block_enc (encctx s)) m p"
    and len: "16 * m \<le> length enc_req" "length dec_req = 256" "length dec_rep = 256" "128 \<le> length enc_rep"
  shows "cache_get_wrapper cpuid addr dec_req dec_rep enc_req (of_nat (16 * m)) enc_rep maxn s =
    (case cache_map s k of
       None \<Rightarrow> Some (- 1, enc_rep)
     | Some v \<Rightarrow> let n = min (length v) 251; r = reply_blocks n in
         Some (0, ecb_blocks (block_enc (encctx s)) r (MBEDTLS_PUT_UINT32_LE (of_nat n) @ take n v @ 0 # drop (5 + n) dec_rep) @ drop (16 * r) enc_rep))"
proof -
  let ?d = "p @ drop (16 * m) dec_req"
  have kp: "key_pair (encctx s) (decctx s)" and ci: "cache_inv s" and ke: "keyed (encctx s)"
    using inv by (auto simp: wrapper_inv_def key_pair_def)
  note dec = decrypted_request [OF kp ni p enc len(1,2)]
  have "length ?d = 256" using p len(2) by (auto simp: request_of_def)
  note key = request_is_key [OF p this, of addr] and field = request_length_field [OF p, of "drop (16 * m) dec_req"]
  have get: "cache_get (request_key addr ?d) (of_nat (length k)) (drop 4 dec_rep) (of_nat (MAX_MSG_SIZE - 4)) s =
      Some (kv_get k 252 (drop 4 dec_rep) (cache_abs s))"
    using cache_get_refine [OF ci key, of 252 "drop 4 dec_rep"] len(3) by (simp add: MAX_MSG_SIZE_def)
  show ?thesis
  proof (cases "cache_map s k")
    case None
    then show ?thesis by (simp add: cache_get_wrapper_def dec field get kv_get_def cache_abs_def del: of_nat_mult)
  next
    case (Some v)
    define n where "n = min (length v) 251"
    have n: "n \<le> 251" by (simp add: n_def)
    have u: "unat (of_nat n :: u32) = n" using n by (intro unat_of_nat_less) simp
    have ne: "(of_nat n :: u32) \<noteq> - 1"
    proof
      assume "(of_nat n :: u32) = - 1"
      then have "n = unat (- 1 :: u32)" using u by metis
      then show False using n by (simp add: unsigned_minus_1_eq_mask mask_eq_exp_minus_1)
    qed
    let ?rep = "MBEDTLS_PUT_UINT32_LE (of_nat n) @ take n v @ 0 # drop (5 + n) dec_rep"
    have "length ?rep = 256" using n len(3) by (simp add: MBEDTLS_PUT_UINT32_LE_def n_def)
    moreover have "reply_blocks n \<le> 8" by (simp add: reply_blocks_def)
    ultimately have "encrypt_loop cpuid (encctx s) ?rep (of_nat n) 0 enc_rep =
        Some (0, ecb_blocks (block_enc (encctx s)) (reply_blocks n) ?rep @ drop (16 * reply_blocks n) enc_rep)"
      using encrypt_loop_blocks [OF ke ni, of "of_nat n" "reply_blocks n" enc_rep ?rep 0] u n len(4) by simp
    then show ?thesis
      using Some ne by (simp add: cache_get_wrapper_def dec field get kv_get_def cache_abs_def Let_def n_def [symmetric] add.commute del: of_nat_mult)
  qed
qed

text \<open>The operations of the store keep the contexts.\<close>

lemma more_upd [simp]:
  "cache_state.more (s\<lparr>heap := h\<rparr>) = cache_state.more s" "cache_state.more (s\<lparr>slabclass := c\<rparr>) = cache_state.more s"
  "cache_state.more (s\<lparr>hashtable := t\<rparr>) = cache_state.more s"
  by (cases s; simp)+

named_theorems more_frame "operations that keep what is not the store's"

lemma upd_item_more [more_frame]: "upd_item p f s = Some s' \<Longrightarrow> cache_state.more s' = cache_state.more s"
  by (auto simp: upd_item_def split: option.splits)

lemma upd_class_more [more_frame]: "upd_class c f s = Some s' \<Longrightarrow> cache_state.more s' = cache_state.more s"
  by (auto simp: upd_class_def split: if_splits)

lemma set_bucket_more [more_frame]: "set_bucket b p s = Some s' \<Longrightarrow> cache_state.more s' = cache_state.more s"
  by (auto simp: set_bucket_def split: if_splits)

lemma slabs_alloc_more [more_frame]: "slabs_alloc n s = Some (p, s') \<Longrightarrow> cache_state.more s' = cache_state.more s"
  by (auto simp: slabs_alloc_def Let_def bind_eq_Some_conv split: if_splits dest!: more_frame)

lemma slabs_free_more [more_frame]: "slabs_free p s = Some s' \<Longrightarrow> cache_state.more s' = cache_state.more s"
  by (auto simp: slabs_free_def Let_def bind_eq_Some_conv split: if_splits dest!: more_frame)

lemma item_alloc_more [more_frame]: "item_alloc key nkey v nval s = Some (p, s') \<Longrightarrow> cache_state.more s' = cache_state.more s"
  by (auto simp: item_alloc_def bind_eq_Some_conv split: if_splits dest!: more_frame)

lemma unlink_here_more [more_frame]: "unlink_here b p i s = Some s' \<Longrightarrow> cache_state.more s' = cache_state.more s"
  by (auto simp: unlink_here_def bind_eq_Some_conv split: if_splits dest!: more_frame)

lemma item_unlink_loop_more: "item_unlink_loop key nkey b p s = Some r \<Longrightarrow> cache_state.more (snd r) = cache_state.more s"
proof (induction rule: item_unlink_loop.raw_induct [rotated, consumes 1, case_names step])
  case (step f key nkey b p s r)
  from step(2) show ?case
    by (auto simp: bind_eq_Some_conv split: if_splits dest: more_frame intro: step(1))
qed

lemma item_unlink_more [more_frame]: "item_unlink key nkey hv s = Some (q, s') \<Longrightarrow> cache_state.more s' = cache_state.more s"
  by (auto simp: item_unlink_def bind_eq_Some_conv dest!: item_unlink_loop_more)

lemma link_item_more [more_frame]: "link_item b p s = Some (c, s') \<Longrightarrow> cache_state.more s' = cache_state.more s"
  by (auto simp: link_item_def bind_eq_Some_conv split: if_splits dest!: more_frame)

lemma cache_set_more:
  assumes "cache_set key nkey v nval s = Some (c, s')"
  shows "cache_state.more s' = cache_state.more s"
proof -
  obtain hv it s1 s2 it' s3 where "item_unlink key nkey hv s = Some (it, s1)"
    "(if it \<noteq> NULL then slabs_free it s1 else Some s1) = Some s2" "item_alloc key nkey v nval s2 = Some (it', s3)"
    "(if it' = NULL then Some (- 1, s3) else link_item (bucket_index hv) it' s3) = Some (c, s')"
    using assms unfolding cache_set_link bind_eq_Some_conv case_prod_unfold by (metis prod.collapse)
  then show ?thesis by (auto split: if_splits dest!: more_frame)
qed

lemma more_contexts: "cache_state.more s' = cache_state.more s \<Longrightarrow> encctx s' = encctx s \<and> decctx s' = decctx s"
  by (cases s; cases s') simp

lemma cache_set_contexts: "cache_set key nkey v nval s = Some (c, s') \<Longrightarrow> encctx s' = encctx s \<and> decctx s' = decctx s"
  by (rule more_contexts [OF cache_set_more])

lemma wrapper_set:
  assumes "wrapper_inv s" and "set_args key nkey val nval k v"
  shows "\<exists>r s'. cache_set key nkey val nval s = Some (r, s') \<and> wrapper_inv s' \<and> encctx s' = encctx s \<and>
    (let (ok, a) = kv_set k v (cache_abs s) in r = (if ok then 0 else - 1) \<and> cache_abs s' = a)"
proof -
  obtain r s' where "cache_set key nkey val nval s = Some (r, s')" "cache_inv s'"
    "let (ok, a) = kv_set k v (cache_abs s) in r = (if ok then 0 else - 1) \<and> cache_abs s' = a"
    using cache_set_refine [of s key nkey val nval k v] assms by (auto simp: wrapper_inv_def)
  with cache_set_contexts [OF this(1)] assms(1) show ?thesis by (auto simp: wrapper_inv_def)
qed

section \<open>Requests that the front end does not survive\<close>

lemma decrypt_loop_long:
  assumes n: "112 < sint enc_len"
  shows "j \<le> 8 \<Longrightarrow> decrypt_loop cpuid ctx enc_req enc_len (of_nat (16 * j)) dec_req = None"
proof (induction "8 - j" arbitrary: j dec_req)
  case 0
  then have "j = 8" by simp
  moreover have "sint (of_nat (16 * 8) :: u8) = - 128" by simp
  ultimately show ?case using n by (subst decrypt_loop.simps) (simp del: of_nat_mult)
next
  case (Suc x)
  have j: "j \<le> 7" "x = 8 - Suc j" "Suc j \<le> 8" using Suc.hyps(2) by auto
  have IH: "decrypt_loop cpuid ctx enc_req enc_len (of_nat (16 * j) + 16) d = None" for d
    unfolding counter_Suc by (rule Suc.hyps(1) [OF j(2,3)])
  have ret: "ret = 0" if "mbedtls_aesni_crypt_ecb cpuid ctx md xs = Some (ret, b)" for md xs ret b
    using that by (auto simp: mbedtls_aesni_crypt_ecb_def Let_def split: if_splits prod.splits)
  have c: "sint (of_nat (16 * j) :: u8) = 16 * int j" "16 * int j < sint enc_len" "nat (16 * int j) = 16 * j"
    using sint_counter [OF j(1)] n j(1) by (simp_all del: of_nat_mult)
  show ?case
  proof (cases "mbedtls_aesni_crypt_ecb cpuid ctx MBEDTLS_AES_DECRYPT (drop (16 * j) enc_req)")
    case None
    then show ?thesis using c by (subst decrypt_loop.simps) (simp del: of_nat_mult)
  next
    case (Some r)
    obtain blk where "r = (0, blk)" using ret Some by (cases r) auto
    then show ?thesis
      using Some c IH by (subst decrypt_loop.simps) (cases "put_block (16 * j) blk dec_req"; simp del: of_nat_mult)
  qed
qed

text \<open>Without the AES instructions a request that is not empty stops the program.\<close>

lemma wrapper_needs_aesni:
  assumes "\<not> has_aesni cpuid" and "0 < sint enc_len"
  shows "cache_get_wrapper cpuid addr dec_req dec_rep enc_req enc_len enc_rep maxn s = None"
proof -
  have "decrypt_loop cpuid (decctx s) enc_req enc_len 0 dec_req = None"
    using assms by (subst decrypt_loop.simps) (simp add: aesni_crypt_unsupported)
  then show ?thesis by (simp add: cache_get_wrapper_def)
qed

section \<open>Properties\<close>

text \<open>C5: on a processor with the AES instructions, in every state of the front end's invariant and with message buffers of 256
  bytes and a reply buffer of at least 128, the front end answers correctly: for a request of at most seven
  blocks that was encrypted with the front end's key, the reply, decrypted, starts with the length of the value
  that the store has for the key, or 251 if the value is longer, and that many bytes of the value, as far as
  they fit into eight blocks: a value of at most 124 bytes arrives whole, and of a longer one the first 124
  bytes. For an unknown key the front end returns -1 and writes nothing.\<close>
theorem wrapper_answers:
  assumes "wrapper_inv s" and "has_aesni cpuid" and "request_of p m k" and "take (16 * m) enc_req = ecb_blocks (block_enc (encctx s)) m p"
    and "16 * m \<le> length enc_req" "length dec_req = 256" "length dec_rep = 256" "128 \<le> length enc_rep"
  shows "case cache_map s k of
      None \<Rightarrow> cache_get_wrapper cpuid addr dec_req dec_rep enc_req (of_nat (16 * m)) enc_rep maxn s = Some (- 1, enc_rep)
    | Some v \<Rightarrow> \<exists>rep. cache_get_wrapper cpuid addr dec_req dec_rep enc_req (of_nat (16 * m)) enc_rep maxn s = Some (0, rep) \<and>
        length rep = length enc_rep \<and>
        take (4 + min (length v) 124) (ecb_blocks (block_dec (decctx s)) (blocks_of (4 + min (length v) 124)) rep) =
          MBEDTLS_PUT_UINT32_LE (of_nat (min (length v) 251)) @ take 124 v"
proof (cases "cache_map s k")
  case None
  then show ?thesis using wrapper_get [OF assms] by simp
next
  case (Some v)
  have kp: "key_pair (encctx s) (decctx s)" using assms(1) by (simp add: wrapper_inv_def)
  let ?n = "min (length v) 251" and ?c = "min (length v) 124"
  let ?r = "blocks_of (4 + ?c)"
  let ?plain = "MBEDTLS_PUT_UINT32_LE (of_nat ?n) @ take ?n v @ 0 # drop (5 + ?n) dec_rep"
  have r: "reply_blocks ?n = ?r" "?r \<le> 8" by (auto simp: reply_blocks_def blocks_of_def add.commute min_def)
  have lp: "length ?plain = 256" using assms(7) by (simp add: MBEDTLS_PUT_UINT32_LE_def)
  let ?rep = "ecb_blocks (block_enc (encctx s)) ?r ?plain @ drop (16 * ?r) enc_rep"
  have "cache_get_wrapper cpuid addr dec_req dec_rep enc_req (of_nat (16 * m)) enc_rep maxn s = Some (0, ?rep)"
    using wrapper_get [OF assms, of addr maxn] Some r(1) by (simp add: Let_def)
  moreover have "ecb_blocks (block_dec (decctx s)) ?r ?rep = take (16 * ?r) ?plain"
    using lp r(2) by (intro block_cipher.ecb_round [OF aes_block_cipher [OF kp]]) simp
  moreover have "4 + ?c \<le> 16 * ?r" using blocks_of_less [of ?r "4 + ?c"] by simp
  then have "take (4 + ?c) (take (16 * ?r) ?plain) = take (4 + ?c) ?plain" unfolding take_take by (simp only: min_absorb1)
  moreover have "take (4 + ?c) ?plain = MBEDTLS_PUT_UINT32_LE (of_nat ?n) @ take 124 v"
    by (cases "length v \<le> 124") (simp_all add: length_PUT)
  moreover have "length ?rep = length enc_rep" using r(2) assms(8) by (simp add: length_ecb_blocks)
  ultimately show ?thesis unfolding Some option.case by metis
qed

definition blank_wrapper :: wrapper_state where
  "blank_wrapper = \<lparr>slabclass = [], heap = Map.empty, hashtable = [], encctx = mbedtls_aes_init, decctx = mbedtls_aes_init\<rparr>"

definition demo_request :: "u8 list" where
  "demo_request = [1, 0, 0, 0, 107] @ replicate 11 0"

lemma demo_request_of: "request_of demo_request 1 [107]"
  by (simp add: request_of_def demo_request_def MBEDTLS_PUT_UINT32_LE_def MBEDTLS_BYTE_0_def MBEDTLS_BYTE_1_def MBEDTLS_BYTE_2_def MBEDTLS_BYTE_3_def)

lemma demo_wrapper: "\<exists>s s' :: wrapper_state. wrapper_init 0x02000000 demo_os blank_wrapper = Some s \<and>
    cache_set (mk_buf 0x2000 [107, 0]) 1 (mk_buf 0x3000 [118, 0]) 1 s = Some (0, s') \<and> wrapper_inv s' \<and> cache_map s' [107] = Some [118]"
proof -
  obtain s :: wrapper_state where s: "wrapper_init 0x02000000 demo_os blank_wrapper = Some s" "wrapper_inv s" "cache_abs s = kv_init"
    using wrapper_init_ok [OF _ demo_os_ok, of blank_wrapper "0x02000000"] by (auto simp: blank_wrapper_def)
  have ok: "fst (kv_set [107] [118] kv_init)"
    by (rule kv_set_ok [OF kv_wf_init]) (simp_all add: pair_class_small kv_init_def)
  then have "kv_map (snd (kv_set [107] [118] kv_init)) [107] = Some [118]" by (simp add: kv_set_map)
  moreover obtain s' where "cache_set (mk_buf 0x2000 [107, 0]) 1 (mk_buf 0x3000 [118, 0]) 1 s = Some (0, s')" "wrapper_inv s'"
    "cache_abs s' = snd (kv_set [107] [118] kv_init)"
    using wrapper_set [OF s(2) demo_set_args] s(3) ok by (auto simp: split_beta Let_def)
  moreover have "kv_map (cache_abs s') = cache_map s'" by (simp add: cache_abs_def)
  ultimately show ?thesis using s(1) by metis
qed

theorem wrapper_answers_witness:
  "\<exists>s s' :: wrapper_state. wrapper_init 0x02000000 demo_os blank_wrapper = Some s \<and>
     cache_set (mk_buf 0x2000 [107, 0]) 1 (mk_buf 0x3000 [118, 0]) 1 s = Some (0, s') \<and>
     (\<exists>rep. cache_get_wrapper 0x02000000 0x4000 (replicate 256 0) (replicate 256 0) (block_enc (encctx s') demo_request) 16 (replicate 128 0) 256 s' = Some (0, rep) \<and>
        take 5 (block_dec (decctx s') rep) = [1, 0, 0, 0, 118])"
proof -
  obtain s s' :: wrapper_state where s: "wrapper_init 0x02000000 demo_os blank_wrapper = Some s"
    "cache_set (mk_buf 0x2000 [107, 0]) 1 (mk_buf 0x3000 [118, 0]) 1 s = Some (0, s')" and i: "wrapper_inv s'" "cache_map s' [107] = Some [118]"
    using demo_wrapper by blast
  have "take 16 demo_request = demo_request" by (simp add: demo_request_def)
  then have e: "take (16 * 1) (block_enc (encctx s') demo_request) = ecb_blocks (block_enc (encctx s')) 1 demo_request" by simp
  obtain rep where "cache_get_wrapper 0x02000000 0x4000 (replicate 256 0) (replicate 256 0) (block_enc (encctx s') demo_request) 16 (replicate 128 0) 256 s' = Some (0, rep)"
    "length rep = 128" "take 5 (ecb_blocks (block_dec (decctx s')) (blocks_of 5) rep) = MBEDTLS_PUT_UINT32_LE 1 @ [118]"
    using wrapper_answers [OF i(1) aes_support(1) demo_request_of e, where dec_req = "replicate 256 0" and dec_rep = "replicate 256 0" and
        enc_rep = "replicate 128 0" and addr = "0x4000" and maxn = "256"] i(2) by auto
  moreover have "blocks_of 5 = Suc 0" by (simp add: blocks_of_def)
  ultimately show ?thesis using s by (auto simp: MBEDTLS_PUT_UINT32_LE_def MBEDTLS_BYTE_0_def MBEDTLS_BYTE_1_def MBEDTLS_BYTE_2_def MBEDTLS_BYTE_3_def block_take)
qed

text \<open>C38: the front end is not safe against long requests: for a length of more than 112 bytes its signed 8-bit
  counter passes 127, and it goes on decrypting in front of the buffers (without the AES instructions it stops
  before that).\<close>
theorem long_request_faults:
  assumes "112 < sint enc_len"
  shows "cache_get_wrapper cpuid addr dec_req dec_rep enc_req enc_len enc_rep maxn s = None"
  using decrypt_loop_long [OF assms, of 0] by (simp add: cache_get_wrapper_def)

theorem long_request_faults_witness:
  "\<forall>(s :: wrapper_state). cache_get_wrapper 0x02000000 0 (replicate 256 0) (replicate 256 0) (replicate 256 0) 128 (replicate 256 0) 256 s = None"
  by (rule allI, rule long_request_faults) simp

text \<open>C39: the front end trusts the key length inside the request: a request whose length field is negative or
  more than 252 makes the store read past the request buffer.\<close>
theorem forged_length_faults:
  assumes "decrypt_loop cpuid (decctx s) enc_req enc_len 0 dec_req = Some (0, plain)" and "length plain = 256"
    and "252 < unat (scast (MBEDTLS_GET_UINT32_LE plain 0) :: u64)"
  shows "cache_get_wrapper cpuid addr dec_req dec_rep enc_req enc_len enc_rep maxn s = None"
  using assms by (simp add: cache_get_wrapper_def cache_get_def hash_def request_key_def)

theorem forged_length_faults_witness:
  "\<forall>s :: wrapper_state. cache_get_wrapper 0x02000000 0 (replicate 256 255) (replicate 256 0) [] 0 (replicate 256 0) 256 s = None"
proof
  fix s :: wrapper_state
  have "decrypt_loop 0x02000000 (decctx s) [] 0 0 (replicate 256 255) = Some (0, replicate 256 255)" by (subst decrypt_loop.simps) simp
  moreover have "MBEDTLS_GET_UINT32_LE (replicate 256 255) 0 = - 1"
    by (simp add: MBEDTLS_GET_UINT32_LE_def)
  then have "252 < unat (scast (MBEDTLS_GET_UINT32_LE (replicate 256 255) 0) :: u64)"
    by (simp only:) (simp add: unsigned_minus_1_eq_mask mask_eq_exp_minus_1)
  ultimately show "cache_get_wrapper 0x02000000 0 (replicate 256 255) (replicate 256 0) [] 0 (replicate 256 0) 256 s = None"
    by (rule forged_length_faults [OF _ length_replicate])
qed

end
