(* ===== verification/Workload.thy ===== *)
theory Workload
  imports Cache_Wrapper Trace "HOL-Library.Signed_Division"
begin

text \<open>
  The workload driver, \<^verbatim>\<open>src/src/main.c\<close>: it fills the store with numbered keys and then asks for
  each of them through the encrypting front end, pass after pass.

  What main finds on its stack, and where, is a record \<open>main_frame\<close>: the addresses of the key buffer and
  of the value literal, the first contents of the uninitialised variables, and for each call of the
  front end (by pass and item) the address and contents of that call's buffers. The two assembly lines
  that mark the passes for the tracing tool are markers in the result. \<open>None\<close> is a failed assertion, a
  signed overflow, an access outside an object or an illegal instruction.
\<close>

section \<open>Keys\<close>

definition ALPHABETSIZE :: int where "ALPHABETSIZE = 26 + 26 + 10 + 2"

definition NCHARS :: nat where "NCHARS = 5"

definition whichchar :: "u32 \<Rightarrow> u8" where
  "whichchar i =
     (if i < 26 then ucast (65 + i)
      else if i < 26 + 26 then ucast (97 + (i - 26))
      else if i < 26 + 26 + 10 then ucast (48 + (i - (26 + 26)))
      else if i < of_int ALPHABETSIZE then ucast (58 + (i - (26 + 26 + 10)))
      else 0)"

record cachekey_t =
  ck_len :: u32
  ck_keybuf :: "u8 list"

fun make_key_loop :: "nat \<Rightarrow> nat \<Rightarrow> u32 \<Rightarrow> u8 list \<Rightarrow> u32 \<times> u8 list" where
  "make_key_loop 0 j intkey keybuf = (intkey, keybuf)"
| "make_key_loop (Suc n) j intkey keybuf =
     make_key_loop n (Suc j) (of_int (sint intkey sdiv ALPHABETSIZE))
       (keybuf[j := whichchar (of_int (sint intkey smod ALPHABETSIZE))])"

definition make_key :: "u32 \<Rightarrow> cachekey_t \<Rightarrow> cachekey_t option" where
  "make_key intkey key =
     (let (intkey, keybuf) = make_key_loop NCHARS 0 intkey (ck_keybuf key) in
      if intkey \<noteq> 0 then None
      else Some (key\<lparr>ck_len := of_nat NCHARS, ck_keybuf := keybuf[NCHARS := 0]\<rparr>))"

text \<open>The packed struct as bytes.\<close>

definition cachekey_bytes :: "cachekey_t \<Rightarrow> u8 list" where
  "cachekey_bytes key = MBEDTLS_PUT_UINT32_LE (ck_len key) @ ck_keybuf key"

partial_function (option) encrypt_key_loop ::
    "u32 \<Rightarrow> aes_context \<Rightarrow> cachekey_t \<Rightarrow> u32 \<Rightarrow> u32 \<Rightarrow> u8 list \<Rightarrow> (u32 \<times> u8 list) option" where
  "encrypt_key_loop cpuid ctx key remaining enclen out =
     (if 0 <s remaining
      then do {
        (ret, blk) \<leftarrow> mbedtls_aes_crypt_ecb cpuid ctx MBEDTLS_AES_ENCRYPT (drop (unat enclen) (cachekey_bytes key));
        if ret \<noteq> 0 then Some (- 1, out)
        else do {
          out \<leftarrow> put_block (unat enclen) blk out;
          encrypt_key_loop cpuid ctx key (remaining - 16) (enclen + 16) out
        }
      }
      else Some (enclen, out))"

definition encrypt_key :: "u32 \<Rightarrow> aes_context \<Rightarrow> cachekey_t \<Rightarrow> u8 list \<Rightarrow> (u32 \<times> u8 list) option" where
  "encrypt_key cpuid ctx key out = encrypt_key_loop cpuid ctx key (ucast ((scast (ck_len key) :: u64) + 4)) 0 out"

section \<open>The main program\<close>

record main_frame =
  key_addr :: ptr
  value_addr :: ptr
  key0 :: cachekey_t
  enckeybuf0 :: "u8 list"
  encvalbuf0 :: "u8 list"
  call_frame :: "u32 \<Rightarrow> u32 \<Rightarrow> ptr \<times> u8 list \<times> u8 list"

definition set_value :: "u8 list" where
  "set_value = ascii ''hell1hell2hell3hell4hell5'' @ [0]"

partial_function (option) set_loop ::
    "main_frame \<Rightarrow> u32 \<Rightarrow> u32 \<Rightarrow> cachekey_t \<Rightarrow> 'a wrapper_state_scheme \<Rightarrow> (cachekey_t \<times> 'a wrapper_state_scheme) option" where
  "set_loop fr nitems i key s =
     (if i < nitems
      then do {
        key \<leftarrow> make_key i key;
        (r, s) \<leftarrow> cache_set (mk_buf (key_addr fr) (ck_keybuf key)) (of_nat NCHARS) (mk_buf (value_addr fr) set_value) 25 s;
        if r <s 0 then None
        else do {
          i \<leftarrow> int_inc i;
          set_loop fr nitems i key s
        }
      }
      else Some (key, s))"

partial_function (option) get_loop ::
    "u32 \<Rightarrow> main_frame \<Rightarrow> u32 \<Rightarrow> u32 \<Rightarrow> u32 \<Rightarrow> u8 list \<Rightarrow> u8 list \<Rightarrow> 'a wrapper_state_scheme \<Rightarrow> (u8 list \<times> u8 list) option" where
  "get_loop cpuid fr nitems j i enckeybuf encvalbuf s =
     (if i < nitems
      then do {
        key \<leftarrow> make_key i \<lparr>ck_len = 0, ck_keybuf = replicate 60 0\<rparr>;
        (enclen, enckeybuf) \<leftarrow> encrypt_key cpuid (encctx s) key enckeybuf;
        let (addr, dec_req, dec_rep) = call_frame fr j i;
        (ret, encvalbuf) \<leftarrow> cache_get_wrapper cpuid addr dec_req dec_rep enckeybuf enclen encvalbuf 256 s;
        i \<leftarrow> int_inc i;
        get_loop cpuid fr nitems j i enckeybuf encvalbuf s
      }
      else Some (enckeybuf, encvalbuf))"

partial_function (option) pass_loop ::
    "u32 \<Rightarrow> main_frame \<Rightarrow> u32 \<Rightarrow> u32 \<Rightarrow> u32 \<Rightarrow> u8 list \<Rightarrow> u8 list \<Rightarrow> marker list \<Rightarrow> 'a wrapper_state_scheme \<Rightarrow> marker list option" where
  "pass_loop cpuid fr npasses nitems j enckeybuf encvalbuf marks s =
     (if j < npasses
      then do {
        (enckeybuf, encvalbuf) \<leftarrow> get_loop cpuid fr nitems j 0 enckeybuf encvalbuf s;
        let marks = marks @ [Repstart, Repend];
        j \<leftarrow> int_inc j;
        pass_loop cpuid fr npasses nitems j enckeybuf encvalbuf marks s
      }
      else Some marks)"

definition usage :: "string \<Rightarrow> string" where
  "usage prog = ''Usage: '' @ prog @ '' <npasses> <nitems>'' @ [newline] @
     ''npasses: Number of passes of get calls'' @ [newline] @ ''nitems: Number of items to access'' @ [newline]"

text \<open>The result: the exit status, the printed text, the markers and the state at the end.\<close>

definition workload_main ::
    "u32 \<Rightarrow> os \<Rightarrow> main_frame \<Rightarrow> string list \<Rightarrow> 'a wrapper_state_scheme \<Rightarrow> (int \<times> string \<times> marker list \<times> 'a wrapper_state_scheme) option" where
  "workload_main cpuid os fr argv s =
     (if length argv \<noteq> 3 then (if argv = [] then None else Some (1, usage (argv ! 0), [], s))
      else do {
        let npasses = ucast (strtoul 10 (argv ! 1));
        let nitems = ucast (strtoul 10 (argv ! 2));
        s \<leftarrow> wrapper_init cpuid os s;
        (key, s) \<leftarrow> set_loop fr nitems 0 (key0 fr) s;
        marks \<leftarrow> pass_loop cpuid fr npasses nitems 0 (enckeybuf0 fr) (encvalbuf0 fr) [] s;
        Some (0, [], marks, wrapper_free s)
      })"

section \<open>The keys\<close>

definition char_of_digit :: "nat \<Rightarrow> nat" where
  "char_of_digit d = (if d < 26 then 65 + d else if d < 52 then 71 + d else d - 4)"

lemma whichchar_digit:
  assumes "d < 64"
  shows "unat (whichchar (of_nat d)) = char_of_digit d"
proof -
  have u: "unat (of_nat d :: u32) = d" using assms by (intro unat_of_nat_less) simp
  have s: "unat (ucast x :: u8) = unat x" if "unat x < 256" for x :: u32
    using that by (simp add: unsigned_ucast_eq take_bit_nat_eq_self)
  consider "d < 26" | "26 \<le> d" "d < 52" | "52 \<le> d" "d < 62" | "62 \<le> d" by linarith
  then show ?thesis
  proof cases
    case 1
    then show ?thesis using u s [of "65 + of_nat d"] by (simp add: whichchar_def char_of_digit_def word_less_nat_alt unat_word_ariths)
  next
    case 2
    then show ?thesis using u s [of "97 + (of_nat d - 26)"] assms
      by (simp add: whichchar_def char_of_digit_def word_less_nat_alt word_le_nat_alt unat_word_ariths unat_sub)
  next
    case 3
    then show ?thesis using u s [of "48 + (of_nat d - 52)"] assms
      by (simp add: whichchar_def char_of_digit_def word_less_nat_alt word_le_nat_alt unat_word_ariths unat_sub)
  next
    case 4
    then show ?thesis using u s [of "58 + (of_nat d - 62)"] assms
      by (simp add: whichchar_def char_of_digit_def ALPHABETSIZE_def word_less_nat_alt word_le_nat_alt unat_word_ariths unat_sub)
  qed
qed

lemma char_of_digit_inj: "d < 64 \<Longrightarrow> e < 64 \<Longrightarrow> char_of_digit d = char_of_digit e \<Longrightarrow> d = e"
  by (auto simp: char_of_digit_def split: if_splits)

lemma whichchar_inj: "d < 64 \<Longrightarrow> e < 64 \<Longrightarrow> whichchar (of_nat d) = whichchar (of_nat e) \<Longrightarrow> d = e"
  by (metis whichchar_digit char_of_digit_inj)

text \<open>The key of item \<open>i\<close>: its digits to the base 64, the last one first.\<close>

fun key_digits :: "nat \<Rightarrow> nat \<Rightarrow> u8 list" where
  "key_digits 0 i = []"
| "key_digits (Suc n) i = whichchar (of_nat (i mod 64)) # key_digits n (i div 64)"

definition key_of :: "nat \<Rightarrow> bytes" where
  "key_of i = key_digits NCHARS i"

lemma length_key_digits [simp]: "length (key_digits n i) = n"
  by (induction n arbitrary: i) simp_all

lemma length_key_of [simp]: "length (key_of i) = 5"
  by (simp add: key_of_def NCHARS_def)

lemma key_digits_inj: "i < 64 ^ n \<Longrightarrow> j < 64 ^ n \<Longrightarrow> key_digits n i = key_digits n j \<Longrightarrow> i = j"
proof (induction n arbitrary: i j)
  case (Suc n)
  have "i mod 64 = j mod 64" using Suc.prems(3) by (intro whichchar_inj) simp_all
  moreover have "i div 64 = j div 64"
    using Suc.prems by (intro Suc.IH) (simp_all add: less_mult_imp_div_less mult.commute)
  ultimately show ?case by (metis div_mult_mod_eq)
qed simp

lemma key_of_inj: "i < 2 ^ 30 \<Longrightarrow> j < 2 ^ 30 \<Longrightarrow> key_of i = key_of j \<Longrightarrow> i = j"
  unfolding key_of_def by (rule key_digits_inj) (simp_all add: NCHARS_def)

lemma digit_step:
  assumes "unat i < 2 ^ 31"
  shows "(of_int (sint (i :: u32) sdiv ALPHABETSIZE) :: u32) = of_nat (unat i div 64)"
    "(of_int (sint i smod ALPHABETSIZE) :: u32) = of_nat (unat i mod 64)"
proof -
  have "int n sdiv 64 = int (n div 64)" "int n smod 64 = int (n mod 64)" for n
    by (cases "n = 0"; simp add: signed_divide_int_def signed_modulo_int_def zdiv_int zmod_int)+
  moreover have "sint i = int (unat i)" using assms by (simp add: sint_small)
  ultimately have "sint i sdiv ALPHABETSIZE = int (unat i div 64)" "sint i smod ALPHABETSIZE = int (unat i mod 64)"
    unfolding ALPHABETSIZE_def by (simp_all del: of_nat_unat)
  then show "(of_int (sint i sdiv ALPHABETSIZE) :: u32) = of_nat (unat i div 64)"
    "(of_int (sint i smod ALPHABETSIZE) :: u32) = of_nat (unat i mod 64)" by (simp_all only: of_int_of_nat_eq)
qed

lemma make_key_loop_digits:
  "i < 2 ^ 31 \<Longrightarrow> j + n \<le> length kb \<Longrightarrow>
     make_key_loop n j (of_nat i) kb = (of_nat (i div 64 ^ n), take j kb @ key_digits n i @ drop (j + n) kb)"
proof (induction n arbitrary: i j kb)
  case (Suc n)
  have u: "unat (of_nat i :: u32) = i" using Suc.prems(1) by (intro unat_of_nat_less) simp
  let ?kb = "kb[j := whichchar (of_nat (i mod 64))]"
  have "make_key_loop (Suc n) j (of_nat i) kb = make_key_loop n (Suc j) (of_nat (i div 64)) ?kb"
    using digit_step [of "of_nat i"] Suc.prems(1) u by simp
  also have "\<dots> = (of_nat (i div 64 div 64 ^ n), take (Suc j) ?kb @ key_digits n (i div 64) @ drop (Suc j + n) ?kb)"
    using Suc.prems by (intro Suc.IH) auto
  also have "take (Suc j) ?kb = take j kb @ [whichchar (of_nat (i mod 64))]"
    using Suc.prems(2) by (simp add: take_Suc_conv_app_nth)
  finally show ?case using Suc.prems by (simp add: div_mult2_eq)
qed simp

lemma make_key_digits:
  assumes "unat i < 2 ^ 31" and "length (ck_keybuf key) = 60"
  shows "make_key i key = (if unat i < 2 ^ 30
     then Some (key\<lparr>ck_len := 5, ck_keybuf := key_of (unat i) @ 0 # drop 6 (ck_keybuf key)\<rparr>) else None)"
proof -
  have l: "make_key_loop NCHARS 0 i (ck_keybuf key) = (of_nat (unat i div 2 ^ 30), key_of (unat i) @ drop 5 (ck_keybuf key))"
    using make_key_loop_digits [of "unat i" 0 NCHARS "ck_keybuf key"] assms by (simp add: key_of_def NCHARS_def)
  have "unat (of_nat (unat i div 2 ^ 30) :: u32) = unat i div 2 ^ 30"
    using assms(1) by (intro unat_of_nat_less) (simp add: less_mult_imp_div_less)
  then have z: "(of_nat (unat i div 2 ^ 30) :: u32) = 0 \<longleftrightarrow> unat i < 2 ^ 30"
    by (metis div_eq_0_iff unat_eq_0 power_eq_0_iff zero_neq_numeral)
  have "(key_of (unat i) @ drop 5 (ck_keybuf key))[NCHARS := 0] = key_of (unat i) @ 0 # drop 6 (ck_keybuf key)"
    using assms(2) by (simp add: list_update_append NCHARS_def Cons_nth_drop_Suc [of 5, symmetric])
  then show ?thesis using l z by (simp add: make_key_def NCHARS_def)
qed

section \<open>Filling the store\<close>

definition item_value_bytes :: bytes where
  "item_value_bytes = ascii ''hell1hell2hell3hell4hell5''"

lemma length_item_value: "length item_value_bytes = 25" "length set_value = 26" "take 25 set_value = item_value_bytes"
  by (simp_all add: item_value_bytes_def set_value_def ascii_def)

text \<open>The contents of the store after the first \<open>n\<close> keys.\<close>

definition loaded :: "nat \<Rightarrow> bytes \<rightharpoonup> bytes" where
  "loaded n k = (if k \<in> key_of ` {..<n} then Some item_value_bytes else None)"

lemma dom_loaded: "dom (loaded n) = key_of ` {..<n}"
  by (auto simp: loaded_def split: if_splits)

lemma card_keys: "n \<le> 2 ^ 30 \<Longrightarrow> card (key_of ` {..<n}) = n"
  by (subst card_image) (auto intro!: inj_onI key_of_inj)

lemma loaded_Suc: "loaded (Suc n) = (loaded n)(key_of n \<mapsto> item_value_bytes)"
  by (auto simp: loaded_def lessThan_Suc)

lemma loaded_class: "pair_class (key_of i) item_value_bytes = 1"
  by (rule pair_class_small) (simp add: length_item_value)

lemma loaded_new: "n < 2 ^ 30 \<Longrightarrow> loaded n (key_of n) = None"
proof -
  assume n: "n < 2 ^ 30"
  have "key_of n \<noteq> key_of i" if "i < n" for i
    using that key_of_inj [of n i] n by (metis order.strict_trans less_irrefl)
  then have "key_of n \<notin> key_of ` {..<n}" by auto
  then show ?thesis by (simp add: loaded_def)
qed

definition filled :: "nat \<Rightarrow> 'a wrapper_state_scheme \<Rightarrow> bool" where
  "filled n s \<longleftrightarrow> wrapper_inv s \<and> kv_wf pool (cache_abs s) \<and> kv_map (cache_abs s) = loaded n"

lemma key_set_args:
  assumes "length xs = 54"
  shows "set_args (mk_buf a (key_of i @ 0 # xs)) (of_nat NCHARS) (mk_buf b set_value) 25 (key_of i) item_value_bytes"
  using assms by (simp add: set_args_def buf_bytes_mk_buf length_item_value NCHARS_def sizeof_item_def)

lemma set_next_item:
  assumes "filled n s" and "n < 524288" and "length xs = 54"
  shows "\<exists>s'. cache_set (mk_buf a (key_of n @ 0 # xs)) (of_nat NCHARS) (mk_buf b set_value) 25 s = Some (0, s') \<and>
    filled (Suc n) s' \<and> encctx s' = encctx s"
proof -
  have f: "wrapper_inv s" "kv_wf pool (cache_abs s)" "kv_map (cache_abs s) = loaded n" using assms(1) by (auto simp: filled_def)
  have "card (insert (key_of n) (dom (kv_map (cache_abs s)))) \<le> Suc n"
    unfolding f(3) dom_loaded using card_keys [of n] assms(2) by (intro card_insert_le_m1) simp_all
  then have ok: "fst (kv_set (key_of n) item_value_bytes (cache_abs s))"
    using assms(2) by (intro kv_set_ok [OF f(2) loaded_class]) simp
  obtain s' where s': "cache_set (mk_buf a (key_of n @ 0 # xs)) (of_nat NCHARS) (mk_buf b set_value) 25 s = Some (0, s')"
    "wrapper_inv s'" "encctx s' = encctx s" "cache_abs s' = snd (kv_set (key_of n) item_value_bytes (cache_abs s))"
    using wrapper_set [OF f(1) key_set_args [OF assms(3)], of a n b] ok by (auto simp: split_beta Let_def)
  moreover have "kv_map (cache_abs s') = loaded (Suc n)" using s'(4) ok f(3) by (simp add: kv_set_map loaded_Suc)
  moreover have "kv_wf pool (cache_abs s')" unfolding s'(4) by (rule kv_set_wf [OF f(2)])
  ultimately show ?thesis by (auto simp: filled_def)
qed

lemma full_store_rejects:
  assumes "filled 524288 s" and "length xs = 54"
  shows "\<exists>s'. cache_set (mk_buf a (key_of 524288 @ 0 # xs)) (of_nat NCHARS) (mk_buf b set_value) 25 s = Some (- 1, s')"
proof -
  have f: "wrapper_inv s" "kv_wf pool (cache_abs s)" "kv_map (cache_abs s) = loaded 524288" using assms(1) by (auto simp: filled_def)
  have "used_keys (cache_abs s) 1 = key_of ` {..<524288}"
    using loaded_class by (auto simp: used_keys_def f(3) loaded_def split: if_splits)
  then have "card (used_keys (cache_abs s) 1) = 524288" using card_keys [of 524288] by simp
  moreover have "kv_map (cache_abs s) (key_of 524288) = None" unfolding f(3) by (rule loaded_new) simp
  ultimately have "kv_set (key_of 524288) item_value_bytes (cache_abs s) = (False, cache_abs s)"
    by (intro kv_set_full [OF f(2) loaded_class])
  then show ?thesis using wrapper_set [OF f(1) key_set_args [OF assms(2)], of a 524288 b] by auto
qed

lemma int_inc_next: "unat i < 2 ^ 31 - 1 \<Longrightarrow> int_inc i = Some (i + 1) \<and> unat (i + 1) = Suc (unat i)"
proof -
  assume i: "unat i < 2 ^ 31 - 1"
  then have "i \<noteq> 0x7fffffff" by auto
  moreover have "unat (i + 1) = Suc (unat i)" using i by (simp add: unat_word_ariths)
  ultimately show ?thesis by (simp add: int_inc_def)
qed

lemma set_loop_step:
  assumes "filled (unat i) s" and "unat i < 524288" and "i < nitems" and "length (ck_keybuf key) = 60"
  shows "\<exists>key' s'. set_loop fr nitems i key s = set_loop fr nitems (i + 1) key' s' \<and> length (ck_keybuf key') = 60 \<and>
    filled (unat (i + 1)) s' \<and> encctx s' = encctx s"
proof -
  let ?key = "key\<lparr>ck_len := 5, ck_keybuf := key_of (unat i) @ 0 # drop 6 (ck_keybuf key)\<rparr>"
  have mk: "make_key i key = Some ?key" using make_key_digits [of i key] assms(2,4) by simp
  obtain s' where s': "cache_set (mk_buf (key_addr fr) (ck_keybuf ?key)) (of_nat NCHARS) (mk_buf (value_addr fr) set_value) 25 s = Some (0, s')"
    "filled (Suc (unat i)) s'" "encctx s' = encctx s"
    using set_next_item [OF assms(1,2), of "drop 6 (ck_keybuf key)"] assms(4) by auto
  have inc: "int_inc i = Some (i + 1)" "unat (i + 1) = Suc (unat i)" using int_inc_next [of i] assms(2) by auto
  have "set_loop fr nitems i key s = set_loop fr nitems (i + 1) ?key s'"
    using assms(3) mk s'(1) inc(1) by (subst set_loop.simps) simp
  moreover have "length (ck_keybuf ?key) = 60" using assms(4) by simp
  ultimately show ?thesis using s'(2,3) unfolding inc(2) by blast
qed

lemma set_loop_fills:
  assumes "filled (unat i) s" and "unat i \<le> unat nitems" and "unat nitems \<le> 524288" and "length (ck_keybuf key) = 60"
  shows "\<exists>key' s'. set_loop fr nitems i key s = Some (key', s') \<and> filled (unat nitems) s' \<and> encctx s' = encctx s"
  using assms
proof (induction "unat nitems - unat i" arbitrary: i key s)
  case 0
  then show ?case by (subst set_loop.simps) (auto simp: word_less_nat_alt)
next
  case (Suc d)
  then have i: "i < nitems" "unat i < 524288" by (auto simp: word_less_nat_alt)
  have n: "unat (i + 1) = Suc (unat i)" using int_inc_next [of i] i(2) by simp
  obtain key' s' where s': "set_loop fr nitems i key s = set_loop fr nitems (i + 1) key' s'" "length (ck_keybuf key') = 60"
    "filled (unat (i + 1)) s'" "encctx s' = encctx s" using set_loop_step [OF Suc.prems(1) i(2,1) Suc.prems(4)] by blast
  show ?case using Suc.hyps(1) [of "i + 1" s' key'] s' Suc.hyps(2) Suc.prems(2,3) n by auto
qed

lemma set_loop_overfull:
  assumes "filled (unat i) s" and "unat i \<le> 524288" and "524288 < unat nitems" and "length (ck_keybuf key) = 60"
  shows "set_loop fr nitems i key s = None"
  using assms
proof (induction "524288 - unat i" arbitrary: i key s)
  case 0
  then have i: "unat i = 524288" "i < nitems" by (auto simp: word_less_nat_alt)
  let ?key = "key\<lparr>ck_len := 5, ck_keybuf := key_of (unat i) @ 0 # drop 6 (ck_keybuf key)\<rparr>"
  have mk: "make_key i key = Some ?key" using make_key_digits [of i key] i(1) 0(5) by simp
  obtain s' where "cache_set (mk_buf (key_addr fr) (ck_keybuf ?key)) (of_nat NCHARS) (mk_buf (value_addr fr) set_value) 25 s = Some (- 1, s')"
    using full_store_rejects [of s "drop 6 (ck_keybuf key)"] 0(2,5) i(1) by auto
  then show ?case using i(2) mk by (subst set_loop.simps) simp
next
  case (Suc d)
  then have i: "i < nitems" "unat i < 524288" by (auto simp: word_less_nat_alt)
  have n: "unat (i + 1) = Suc (unat i)" using int_inc_next [of i] i(2) by simp
  obtain key' s' where s': "set_loop fr nitems i key s = set_loop fr nitems (i + 1) key' s'" "length (ck_keybuf key') = 60"
    "filled (unat (i + 1)) s'" using set_loop_step [OF Suc.prems(1) i(2,1) Suc.prems(4)] by blast
  show ?case using Suc.hyps(1) [of "i + 1" s' key'] s' Suc.hyps(2) Suc.prems(3) n by auto
qed

section \<open>Asking for the items\<close>

definition frame_ok :: "main_frame \<Rightarrow> bool" where
  "frame_ok fr \<longleftrightarrow> length (ck_keybuf (key0 fr)) = 60 \<and> length (enckeybuf0 fr) = 256 \<and> length (encvalbuf0 fr) = 256 \<and>
     (\<forall>j i. case call_frame fr j i of (a, q, p) \<Rightarrow> length q = 256 \<and> length p = 256)"

definition item_key_t :: "nat \<Rightarrow> cachekey_t" where
  "item_key_t i = \<lparr>ck_len = 5, ck_keybuf = key_of i @ replicate 55 0\<rparr>"

lemma item_key_made: "unat i < 2 ^ 30 \<Longrightarrow> make_key i \<lparr>ck_len = 0, ck_keybuf = replicate 60 0\<rparr> = Some (item_key_t (unat i))"
proof -
  have "0 # replicate 54 (0 :: u8) = replicate 55 0" by (subst replicate_Suc [symmetric]) simp
  then show "unat i < 2 ^ 30 \<Longrightarrow> make_key i \<lparr>ck_len = 0, ck_keybuf = replicate 60 0\<rparr> = Some (item_key_t (unat i))"
    by (simp add: make_key_digits item_key_t_def)
qed

definition item_request :: "nat \<Rightarrow> u8 list" where
  "item_request i = take 16 (cachekey_bytes (item_key_t i))"

lemma item_request_of: "request_of (item_request i) 1 (key_of i)"
  by (simp add: request_of_def item_request_def cachekey_bytes_def item_key_t_def length_PUT)

lemma encrypt_item_key:
  assumes "keyed ctx" and "length out = 256"
  shows "encrypt_key cpuid ctx (item_key_t i) out = Some (16, block_enc ctx (item_request i) @ drop 16 out)"
proof -
  let ?b = "cachekey_bytes (item_key_t i)"
  have l: "length ?b = 64" by (simp add: cachekey_bytes_def item_key_t_def length_PUT)
  have blk: "mbedtls_aes_crypt_ecb cpuid ctx MBEDTLS_AES_ENCRYPT ?b = Some (0, block_enc ctx (item_request i))"
    using crypt_ecb_enc [OF assms(1), of ?b cpuid] l by (simp add: item_request_def block_take)
  have "put_block 0 (block_enc ctx (item_request i)) out = Some (block_enc ctx (item_request i) @ drop 16 out)"
    using assms(2) by (simp add: put_block_def)
  moreover have "encrypt_key_loop cpuid ctx (item_key_t i) (- 7) 16 xs = Some (16, xs)" for xs
    by (subst encrypt_key_loop.simps) (simp add: word_sless_alt)
  ultimately have "encrypt_key_loop cpuid ctx (item_key_t i) 9 0 out = Some (16, block_enc ctx (item_request i) @ drop 16 out)"
    using blk by (subst encrypt_key_loop.simps) (simp add: word_sless_alt)
  then show ?thesis by (simp add: encrypt_key_def item_key_t_def)
qed

text \<open>The reply to a request for an item: the length and the value in plain text at the start of two blocks.\<close>

definition item_reply :: "u8 list" where
  "item_reply = MBEDTLS_PUT_UINT32_LE 25 @ item_value_bytes"

lemma item_answered:
  assumes "filled n s" and ni: "has_aesni cpuid" and "i < n" and "length ek = 256" and "length ev = 256" "length dec_req = 256" "length dec_rep = 256"
  shows "\<exists>rep. cache_get_wrapper cpuid addr dec_req dec_rep (block_enc (encctx s) (item_request i) @ drop 16 ek) 16 ev maxn s = Some (0, rep) \<and>
    length rep = 256 \<and> take 29 (ecb_blocks (block_dec (decctx s)) 2 rep) = item_reply"
proof -
  have inv: "wrapper_inv s" and map: "cache_map s = loaded n" using assms(1) by (auto simp: filled_def cache_abs_def)
  have kp: "key_pair (encctx s) (decctx s)" using inv by (simp add: wrapper_inv_def)
  let ?e = "block_enc (encctx s) (item_request i) @ drop 16 ek"
  have "take 16 (item_request i) = item_request i" by (simp add: item_request_def)
  then have enc: "take (16 * 1) ?e = ecb_blocks (block_enc (encctx s)) 1 (item_request i)" by simp
  have v: "cache_map s (key_of i) = Some item_value_bytes" using assms(3) by (auto simp: map loaded_def)
  have r: "reply_blocks 25 = 2" by (simp add: reply_blocks_def blocks_of_def)
  let ?plain = "item_reply @ 0 # drop 30 dec_rep"
  have lp: "length item_reply = 29" "length ?plain = 256" using assms(7) by (simp_all add: item_reply_def length_PUT length_item_value)
  have "cache_get_wrapper cpuid addr dec_req dec_rep ?e 16 ev maxn s = Some (0, ecb_blocks (block_enc (encctx s)) 2 ?plain @ drop 32 ev)"
    using wrapper_get [OF inv ni item_request_of enc, where dec_req = dec_req and dec_rep = dec_rep and enc_rep = ev and addr = addr and maxn = maxn] v r assms(4-7)
    by (simp add: Let_def length_item_value item_reply_def)
  moreover have "ecb_blocks (block_dec (decctx s)) 2 (ecb_blocks (block_enc (encctx s)) 2 ?plain @ drop 32 ev) = take 32 ?plain"
    using block_cipher.ecb_round [OF aes_block_cipher [OF kp], of 2 ?plain "drop 32 ev"] lp by simp
  moreover have "take 29 (take 32 ?plain) = item_reply" using lp by (simp add: min_def)
  moreover have "length (ecb_blocks (block_enc (encctx s)) 2 ?plain @ drop 32 ev) = 256"
    using assms(5) by (simp add: length_ecb_blocks)
  ultimately show ?thesis by metis
qed

lemma get_loop_answers:
  assumes "frame_ok fr" and "filled (unat nitems) s" and "unat nitems \<le> 524288" and "has_aesni cpuid \<or> unat nitems = 0"
    and "length ek = 256" and "length ev = 256" and "unat i \<le> unat nitems"
  shows "\<exists>ek' ev'. get_loop cpuid fr nitems j i ek ev s = Some (ek', ev') \<and> length ek' = 256 \<and> length ev' = 256"
  using assms(5-7)
proof (induction "unat nitems - unat i" arbitrary: i ek ev)
  case 0
  then show ?case by (subst get_loop.simps) (auto simp: word_less_nat_alt)
next
  case (Suc d)
  then have i: "i < nitems" "unat i < unat nitems" "unat i < 524288" using assms(3) by (auto simp: word_less_nat_alt)
  then have ni: "has_aesni cpuid" using assms(4) by simp
  have n: "int_inc i = Some (i + 1)" "unat (i + 1) = Suc (unat i)" using int_inc_next [of i] i(3) by auto
  have ke: "keyed (encctx s)" using assms(2) by (auto simp: filled_def wrapper_inv_def key_pair_def)
  obtain a q p where fr: "call_frame fr j i = (a, q, p)" "length q = 256" "length p = 256"
    using assms(1) by (cases "call_frame fr j i") (auto simp: frame_ok_def split: prod.splits)
  let ?ek = "block_enc (encctx s) (item_request (unat i)) @ drop 16 ek"
  obtain rep where rep: "cache_get_wrapper cpuid a q p ?ek 16 ev 256 s = Some (0, rep)" "length rep = 256"
    using item_answered [OF assms(2) ni i(2), of ek ev q p a 256] Suc.prems fr by auto
  have "get_loop cpuid fr nitems j i ek ev s = get_loop cpuid fr nitems j (i + 1) ?ek rep s"
    using i item_key_made [of i] encrypt_item_key [OF ke, of ek cpuid "unat i"] Suc.prems(1) fr(1) rep(1) n(1)
    by (subst get_loop.simps) simp
  moreover have "length ?ek = 256" using Suc.prems(1) by simp
  ultimately show ?case using Suc.hyps(1) [of "i + 1" ?ek rep] Suc.hyps(2) rep(2) n(2) i(2) by auto
qed

text \<open>Without the AES instructions the first request of a pass stops the program.\<close>

lemma get_loop_stops:
  assumes "frame_ok fr" and "filled (unat nitems) s" and "unat nitems \<le> 524288" and "0 < unat nitems" and "\<not> has_aesni cpuid"
    and "length ek = 256"
  shows "get_loop cpuid fr nitems j 0 ek ev s = None"
proof -
  have ke: "keyed (encctx s)" using assms(2) by (auto simp: filled_def wrapper_inv_def key_pair_def)
  obtain a q p where "call_frame fr j 0 = (a, q, p)" by (cases "call_frame fr j 0")
  moreover have "0 < nitems" using assms(4) by (simp add: word_less_nat_alt)
  ultimately show ?thesis
    using item_key_made [of 0] encrypt_item_key [OF ke assms(6), of cpuid 0] wrapper_needs_aesni [OF assms(5), where s = s and enc_len = 16]
    by (subst get_loop.simps) simp
qed

lemma pass_loop_marks:
  assumes "frame_ok fr" and "filled (unat nitems) s" and "unat nitems \<le> 524288" and "has_aesni cpuid \<or> unat nitems = 0"
    and "unat npasses < 2 ^ 31" and "length ek = 256" and "length ev = 256" and "unat j \<le> unat npasses"
  shows "pass_loop cpuid fr npasses nitems j ek ev marks s =
    Some (marks @ concat (replicate (unat npasses - unat j) [Repstart, Repend]))"
  using assms(6-8)
proof (induction "unat npasses - unat j" arbitrary: j ek ev marks)
  case 0
  then have "\<not> j < npasses" "unat npasses - unat j = 0" by (auto simp: word_less_nat_alt)
  then show ?case by (subst pass_loop.simps) simp
next
  case (Suc d)
  then have j: "j < npasses" "unat j < unat npasses" by (auto simp: word_less_nat_alt)
  have n: "int_inc j = Some (j + 1)" "unat (j + 1) = Suc (unat j)" using int_inc_next [of j] j(2) assms(5) by auto
  obtain ek' ev' where g: "get_loop cpuid fr nitems j 0 ek ev s = Some (ek', ev')" "length ek' = 256" "length ev' = 256"
    using get_loop_answers [OF assms(1-4) Suc.prems(1,2), of 0 j] by auto
  have "unat npasses - unat j = Suc (unat npasses - unat (j + 1))" using j(2) n(2) by simp
  moreover have "pass_loop cpuid fr npasses nitems (j + 1) ek' ev' (marks @ [Repstart, Repend]) s =
      Some ((marks @ [Repstart, Repend]) @ concat (replicate (unat npasses - unat (j + 1)) [Repstart, Repend]))"
    using Suc.hyps(2) n(2) j(2) g(2,3) by (intro Suc.hyps(1)) auto
  ultimately show ?case using j(1) g(1) n(1) by (subst pass_loop.simps) simp
qed

section \<open>Properties\<close>

lemma init_filled:
  assumes "heap s = Map.empty" and "mmap_ok os" and "realloc_ok os" and "calloc_ok os"
  shows "\<exists>s'. wrapper_init cpuid os s = Some s' \<and> filled 0 s'"
proof -
  have "kv_map kv_init = loaded 0" by (auto simp: kv_init_def loaded_def)
  then show ?thesis using wrapper_init_ok [OF assms, of cpuid] kv_wf_init by (auto simp: filled_def)
qed

definition demo_frame :: main_frame where
  "demo_frame = \<lparr>key_addr = 0x2004, value_addr = 0x3000, key0 = \<lparr>ck_len = 0, ck_keybuf = replicate 60 7\<rparr>,
     enckeybuf0 = replicate 256 0, encvalbuf0 = replicate 256 0, call_frame = (\<lambda>_ _. (0x4000, replicate 256 1, replicate 256 2))\<rparr>"

lemma demo_frame_ok: "frame_ok demo_frame"
  by (simp add: frame_ok_def demo_frame_def)

lemma blank_wrapper_heap: "heap blank_wrapper = Map.empty"
  by (simp add: blank_wrapper_def)

text \<open>The keys of the workload are pairwise different for item numbers below \<open>2\<^sup>30\<close>, the range in which the assertion
  of \<open>make_key\<close> holds.\<close>
theorem make_key_distinct:
  assumes "make_key i a = Some ki" and "make_key j b = Some kj" and "unat i < 2 ^ 31" "unat j < 2 ^ 31"
    and "length (ck_keybuf a) = 60" "length (ck_keybuf b) = 60" and "take NCHARS (ck_keybuf ki) = take NCHARS (ck_keybuf kj)"
  shows "i = j"
proof -
  have *: "unat n < 2 ^ 30 \<and> take NCHARS (ck_keybuf k) = key_of (unat n)"
    if "make_key n c = Some k" "unat n < 2 ^ 31" "length (ck_keybuf c) = 60" for n c k
    using that make_key_digits [of n c] by (auto simp: NCHARS_def split: if_splits)
  have "unat i = unat j" using * [OF assms(1,3,5)] * [OF assms(2,4,6)] assms(7) by (intro key_of_inj) auto
  then show ?thesis by (simp add: word_unat_eq_iff)
qed

theorem make_key_distinct_witness:
  "\<exists>ki kj. make_key 3 (key0 demo_frame) = Some ki \<and> make_key 70 (key0 demo_frame) = Some kj \<and>
     take NCHARS (ck_keybuf ki) \<noteq> take NCHARS (ck_keybuf kj)"
proof -
  have l: "length (ck_keybuf (key0 demo_frame)) = 60" by (simp add: demo_frame_def)
  obtain ki kj where k: "make_key 3 (key0 demo_frame) = Some ki" "make_key 70 (key0 demo_frame) = Some kj"
    using make_key_digits [OF _ l, of 3] make_key_digits [OF _ l, of 70] by simp
  then show ?thesis using make_key_distinct [OF k _ _ l l] by auto
qed

text \<open>C26: the workload on a machine that has the memory, with stack buffers of their declared sizes, for up to 524288 items and fewer than \<open>2\<^sup>31\<close> passes (the
  pass counter is a signed int): main initialises and sets every item; if the processor has the AES
  instructions, or if there is nothing to ask for, it asks for every item in every pass, marks every pass, and
  returns 0, and no assertion fails and no buffer is left; on a processor without them the first request stops
  it with an illegal instruction.\<close>
theorem workload_succeeds:
  assumes "heap s = Map.empty" and "mmap_ok os" and "realloc_ok os" and "calloc_ok os" and "frame_ok fr"
    and "npasses = ucast (strtoul 10 a)" and "unat (npasses :: u32) < 2 ^ 31"
    and "nitems = ucast (strtoul 10 b)" and "unat (nitems :: u32) \<le> 524288"
  shows "if has_aesni cpuid \<or> npasses = 0 \<or> nitems = 0
    then \<exists>s'. workload_main cpuid os fr [prog, a, b] s = Some (0, [], concat (replicate (unat npasses) [Repstart, Repend]), s')
    else workload_main cpuid os fr [prog, a, b] s = None"
proof -
  obtain s1 where s1: "wrapper_init cpuid os s = Some s1" "filled 0 s1" using init_filled [OF assms(1-4)] by blast
  obtain key s2 where s2: "set_loop fr nitems 0 (key0 fr) s1 = Some (key, s2)" "filled (unat nitems) s2"
    using set_loop_fills [of 0 s1 nitems "key0 fr" fr] s1(2) assms(5,9) by (auto simp: frame_ok_def)
  have len: "length (enckeybuf0 fr) = 256" "length (encvalbuf0 fr) = 256" using assms(5) by (auto simp: frame_ok_def)
  let ?run = "pass_loop cpuid fr npasses nitems 0 (enckeybuf0 fr) (encvalbuf0 fr) [] s2"
  have main: "workload_main cpuid os fr [prog, a, b] s = map_option (\<lambda>marks. (0, [], marks, wrapper_free s2)) ?run"
    using s1(1) s2(1) by (cases ?run) (simp_all add: workload_main_def assms(6,8) [symmetric])
  consider "npasses = 0" | "has_aesni cpuid \<or> unat nitems = 0" | "npasses \<noteq> 0" "\<not> has_aesni cpuid" "0 < unat nitems" by auto
  then show ?thesis
  proof cases
    case 1
    then have "?run = Some []" by (subst pass_loop.simps) simp
    with 1 show ?thesis by (simp add: main)
  next
    case 2
    from pass_loop_marks [OF assms(5) s2(2) assms(9) 2 assms(7) len, of 0 "[]"] 2 show ?thesis
      by (auto simp: main unat_eq_0)
  next
    case 3
    have "?run = None"
      using get_loop_stops [OF assms(5) s2(2) assms(9) 3(3,2) len(1)] 3(1) by (subst pass_loop.simps) (simp add: word_neq_0_conv)
    with 3 show ?thesis by (auto simp: main unat_gt_0)
  qed
qed

theorem workload_succeeds_witness:
  "(\<exists>s'. workload_main 0x02000000 demo_os demo_frame [''prog'', ''2'', ''5''] blank_wrapper = Some (0, [], [Repstart, Repend, Repstart, Repend], s')) \<and>
   workload_main 0 demo_os demo_frame [''prog'', ''2'', ''5''] blank_wrapper = None"
proof -
  have "strtoul 10 ''2'' = 2" "strtoul 10 ''5'' = 5" by (simp_all add: strtoul_def sign_of_def strip_0x_def isspace_def is_digit_def digit_val_def digits_value_def)
  moreover have two: "replicate 2 x = [x, x]" for x :: "marker list" by (simp add: numeral_2_eq_2)
  ultimately show ?thesis
    using workload_succeeds [OF blank_wrapper_heap demo_os_ok demo_frame_ok refl _ refl, of "''2''" "''5''" "0x02000000" "''prog''"]
      workload_succeeds [OF blank_wrapper_heap demo_os_ok demo_frame_ok refl _ refl, of "''2''" "''5''" 0 "''prog''"] by (simp add: two)
qed

text \<open>With more than 524288 items the assertion after \<open>cache_set\<close> fails: the store is full.\<close>
theorem workload_overload:
  assumes "heap s = Map.empty" and "mmap_ok os" and "realloc_ok os" and "calloc_ok os" and "frame_ok fr"
    and "524288 < unat (ucast (strtoul 10 b) :: u32)"
  shows "workload_main cpuid os fr [prog, a, b] s = None"
proof -
  obtain s1 where s1: "wrapper_init cpuid os s = Some s1" "filled 0 s1" using init_filled [OF assms(1-4)] by blast
  have "set_loop fr (ucast (strtoul 10 b)) 0 (key0 fr) s1 = None"
    using set_loop_overfull [of 0 s1 "ucast (strtoul 10 b)" "key0 fr" fr] s1(2) assms(5,6) by (simp add: frame_ok_def)
  then show ?thesis using s1(1) by (simp add: workload_main_def)
qed

theorem workload_overload_witness:
  "workload_main 0 demo_os demo_frame [''prog'', ''1'', ''524289''] blank_wrapper = None"
proof -
  have "strtoul 10 ''524289'' = 524289" by (simp add: strtoul_def sign_of_def strip_0x_def isspace_def is_digit_def digit_val_def digits_value_def)
  then show ?thesis by (intro workload_overload) (simp_all add: demo_os_ok demo_frame_ok blank_wrapper_heap)
qed

text \<open>C27: every item, of up to 524288, that the workload sets is found again through the front end, on a machine that has the
  memory and the AES instructions and with stack buffers of their declared sizes: the request that the driver encrypts for an item is answered with 0, and the reply
  decrypts to the length and the value.\<close>
theorem workload_items_answered:
  assumes "heap s = Map.empty" and "mmap_ok os" and "realloc_ok os" and "calloc_ok os" and "frame_ok fr" and "has_aesni cpuid"
    and "unat nitems \<le> 524288" and "i < nitems"
  shows "\<exists>s1 key s2 k e rep. wrapper_init cpuid os s = Some s1 \<and> set_loop fr nitems 0 (key0 fr) s1 = Some (key, s2) \<and>
    make_key i \<lparr>ck_len = 0, ck_keybuf = replicate 60 0\<rparr> = Some k \<and>
    encrypt_key cpuid (encctx s2) k (enckeybuf0 fr) = Some (16, e) \<and>
    (let (addr, dec_req, dec_rep) = call_frame fr j i in
       cache_get_wrapper cpuid addr dec_req dec_rep e 16 (encvalbuf0 fr) 256 s2 = Some (0, rep)) \<and>
    take 29 (ecb_blocks (block_dec (decctx s2)) 2 rep) = item_reply"
proof -
  obtain s1 where s1: "wrapper_init cpuid os s = Some s1" "filled 0 s1" using init_filled [OF assms(1-4)] by blast
  obtain key s2 where s2: "set_loop fr nitems 0 (key0 fr) s1 = Some (key, s2)" "filled (unat nitems) s2"
    using set_loop_fills [of 0 s1 nitems "key0 fr" fr] s1(2) assms(5,7) by (auto simp: frame_ok_def)
  have i: "unat i < unat nitems" "unat i < 2 ^ 30" using assms(7,8) by (auto simp: word_less_nat_alt)
  have ke: "keyed (encctx s2)" using s2(2) by (auto simp: filled_def wrapper_inv_def key_pair_def)
  obtain a q p where fr: "call_frame fr j i = (a, q, p)" "length q = 256" "length p = 256" and
    len: "length (enckeybuf0 fr) = 256" "length (encvalbuf0 fr) = 256"
    using assms(5) by (cases "call_frame fr j i") (auto simp: frame_ok_def split: prod.splits)
  obtain rep where "cache_get_wrapper cpuid a q p (block_enc (encctx s2) (item_request (unat i)) @ drop 16 (enckeybuf0 fr)) 16 (encvalbuf0 fr) 256 s2 = Some (0, rep)"
    "take 29 (ecb_blocks (block_dec (decctx s2)) 2 rep) = item_reply"
    using item_answered [OF s2(2) assms(6) i(1) len fr(2,3), of a 256] by blast
  then show ?thesis
    using s1(1) s2(1) item_key_made [OF i(2)] encrypt_item_key [OF ke len(1), of cpuid "unat i"] fr(1) by auto
qed

theorem workload_items_answered_witness:
  "\<exists>s1 key s2 k e rep. wrapper_init 0x02000000 demo_os blank_wrapper = Some s1 \<and> set_loop demo_frame 5 0 (key0 demo_frame) s1 = Some (key, s2) \<and>
    make_key 3 \<lparr>ck_len = 0, ck_keybuf = replicate 60 0\<rparr> = Some k \<and>
    encrypt_key 0x02000000 (encctx s2) k (enckeybuf0 demo_frame) = Some (16, e) \<and>
    (let (addr, dec_req, dec_rep) = call_frame demo_frame 0 3 in
       cache_get_wrapper 0x02000000 addr dec_req dec_rep e 16 (encvalbuf0 demo_frame) 256 s2 = Some (0, rep)) \<and>
    take 29 (ecb_blocks (block_dec (decctx s2)) 2 rep) = item_reply"
  by (rule workload_items_answered) (simp_all add: demo_os_ok demo_frame_ok blank_wrapper_heap)

end
