(* ===== verification/Memtrace.thy ===== *)
theory Memtrace
  imports Trace
begin

text \<open>
  The memory tracing tool, \<^verbatim>\<open>src/memtrace/pintool/memtrace.cpp\<close>: what it inserts into the traced program,
  the functions that run there, and the log it writes.

  The Pin framework calls the inserted functions in the order of insertion; it and the traced program
  are a list of \<open>pin_event\<close>s: executed instructions with their operands, and the entry and exit of
  routines. The array of accesses is the list of its used entries, the log file is the text written to
  it. \<open>None\<close> is a write outside an array.
\<close>

section \<open>The log\<close>

definition LOGBUFSIZE :: nat where "LOGBUFSIZE = 8192"
definition N_ACCESSES :: nat where "N_ACCESSES = 30000000"

definition nul :: char where "nul = CHR 0x00"

record tracer =
  PinLog :: string
  PinLogBuf :: string
  PinLogBufSize :: nat
  accesses :: "event list"
  AccessTrackingOn :: bool
  icount :: u64
  dcount :: u64

text \<open>\<^verbatim>\<open>snprintf\<close> writes at most \<open>sz - 1\<close> characters and a terminator; the C string of an array ends before its first one.\<close>

definition snprintf_at :: "nat \<Rightarrow> nat \<Rightarrow> string \<Rightarrow> string \<Rightarrow> string option" where
  "snprintf_at off sz text b =
     (let w = take (sz - 1) text @ [nul] in
      if off + length w \<le> length b then Some (take off b @ w @ drop (off + length w) b) else None)"

definition c_string :: "string \<Rightarrow> string" where
  "c_string b = takeWhile (\<lambda>c. c \<noteq> nul) b"

definition write_log :: "tracer \<Rightarrow> tracer" where
  "write_log t = t\<lparr>PinLog := PinLog t @ c_string (PinLogBuf t), PinLogBuf := (PinLogBuf t)[0 := nul], PinLogBufSize := 0\<rparr>"

definition flush_one :: "event \<Rightarrow> tracer \<Rightarrow> tracer option" where
  "flush_one e t = do {
     b \<leftarrow> snprintf_at (PinLogBufSize t) 100 (print_event e) (PinLogBuf t);
     let t = t\<lparr>PinLogBuf := b, PinLogBufSize := PinLogBufSize t + length (print_event e)\<rparr>;
     Some (if PinLogBufSize t > 5 * LOGBUFSIZE div 6 then write_log t else t)
   }"

fun flush_loop :: "event list \<Rightarrow> tracer \<Rightarrow> tracer option" where
  "flush_loop [] t = Some t"
| "flush_loop (e # es) t = do { t \<leftarrow> flush_one e t; flush_loop es t }"

definition flush_accesses :: "tracer \<Rightarrow> tracer option" where
  "flush_accesses t = do { t \<leftarrow> flush_loop (accesses t) t; Some (t\<lparr>accesses := []\<rparr>) }"

section \<open>The functions that run in the traced program\<close>

definition add_access :: "event \<Rightarrow> tracer \<Rightarrow> tracer option" where
  "add_access e t =
     (if N_ACCESSES \<le> length (accesses t) then None
      else let t = t\<lparr>accesses := accesses t @ [e]\<rparr> in
        if length (accesses t) = N_ACCESSES then flush_accesses t else Some t)"

definition SetTrigger :: "bool \<Rightarrow> tracer \<Rightarrow> tracer" where
  "SetTrigger activate t = t\<lparr>AccessTrackingOn := activate\<rparr>"

definition DoAccessAccounting :: "string \<Rightarrow> u64 \<Rightarrow> u64 \<Rightarrow> u32 \<Rightarrow> bool \<Rightarrow> tracer \<Rightarrow> tracer option" where
  "DoAccessAccounting rtn ip p sz load t =
     (if \<not> AccessTrackingOn t then Some t
      else add_access (Access ip rtn p (unat sz) load) (t\<lparr>dcount := dcount t + 1\<rparr>))"

definition PrintMarker :: "string \<Rightarrow> u64 \<Rightarrow> marker \<Rightarrow> tracer \<Rightarrow> tracer option" where
  "PrintMarker rtn ip m t = add_access (Mark ip rtn m) t"

definition CountInst :: "tracer \<Rightarrow> tracer" where
  "CountInst t = (if \<not> AccessTrackingOn t then t else t\<lparr>icount := icount t + 1\<rparr>)"

section \<open>What is inserted\<close>

datatype callback = Count_inst | Access_cb string u64 u64 u32 bool | Marker_cb string u64 marker | Trigger bool

datatype opcode = VERR | VERW | Other

record ins =
  ins_rtn :: "string option"
  ins_ip :: u64
  ins_opcode :: opcode
  ins_read :: bool
  ins_read2 :: bool
  ins_write :: bool
  read_ea :: u64
  read2_ea :: u64
  write_ea :: u64
  read_size :: u32
  write_size :: u32

definition InstrumentAccess :: "ins \<Rightarrow> callback list" where
  "InstrumentAccess i =
     (let rtn = (case ins_rtn i of None \<Rightarrow> ''Anon'' | Some n \<Rightarrow> n); ip = ins_ip i in
      Count_inst #
      (if ins_opcode i = VERR then [Marker_cb rtn ip Repstart]
       else if ins_opcode i = VERW then [Marker_cb rtn ip Repend]
       else if \<not> (ins_read i \<or> ins_write i) then []
       else (if ins_read i
             then Access_cb rtn ip (read_ea i) (read_size i) True #
                  (if ins_read2 i then [Access_cb rtn ip (read2_ea i) (read_size i) True] else [])
             else []) @
            (if ins_write i then [Access_cb rtn ip (write_ea i) (write_size i) False] else [])))"

datatype pin_event = Exec ins | Enter string u64 | Leave string u64

fun ImageLoad :: "pin_event \<Rightarrow> callback list" where
  "ImageLoad (Exec i) = []"
| "ImageLoad (Enter rtn ip) =
     (if rtn = ''cache_get_wrapper'' then [Trigger True] else []) @
     (if rtn = ''cache_get'' then [Marker_cb ''cache_get'' ip Switch_cache] else [])"
| "ImageLoad (Leave rtn ip) =
     (if rtn = ''cache_get_wrapper'' then [Trigger False] else []) @
     (if rtn = ''cache_get'' then [Marker_cb ''cache_get'' ip Switch_wrapper] else [])"

fun callbacks_of :: "pin_event \<Rightarrow> callback list" where
  "callbacks_of (Exec i) = InstrumentAccess i"
| "callbacks_of e = ImageLoad e"

fun run_callback :: "callback \<Rightarrow> tracer \<Rightarrow> tracer option" where
  "run_callback Count_inst t = Some (CountInst t)"
| "run_callback (Access_cb rtn ip p sz load) t = DoAccessAccounting rtn ip p sz load t"
| "run_callback (Marker_cb rtn ip m) t = PrintMarker rtn ip m t"
| "run_callback (Trigger b) t = Some (SetTrigger b t)"

fun run_callbacks :: "callback list \<Rightarrow> tracer \<Rightarrow> tracer option" where
  "run_callbacks [] t = Some t"
| "run_callbacks (c # cs) t = do { t \<leftarrow> run_callback c t; run_callbacks cs t }"

section \<open>Start and end\<close>

definition tracer_init :: tracer where
  "tracer_init = \<lparr>PinLog = [], PinLogBuf = replicate LOGBUFSIZE nul, PinLogBufSize = 0, accesses = [],
     AccessTrackingOn = False, icount = 0, dcount = 0\<rparr>"

definition Fini :: "tracer \<Rightarrow> (string \<times> tracer) option" where
  "Fini t = do {
     t \<leftarrow> flush_accesses t;
     let t = write_log t;
     Some (digits 10 (unat (icount t)) @ '' instructions '' @ [newline] @
           digits 10 (unat (dcount t)) @ '' accesses '' @ [newline], t)
   }"

definition trace_program :: "pin_event list \<Rightarrow> (string \<times> tracer) option" where
  "trace_program es = do {
     t \<leftarrow> run_callbacks (concat (map callbacks_of es)) tracer_init;
     Fini t
   }"

section \<open>Nothing is lost\<close>

text \<open>The events that a sequence of calls records, given whether tracking is on at its start.\<close>

fun recorded :: "bool \<Rightarrow> callback list \<Rightarrow> event list" where
  "recorded on [] = []"
| "recorded on (Count_inst # cs) = recorded on cs"
| "recorded on (Access_cb rtn ip p sz load # cs) = (if on then [Access ip rtn p (unat sz) load] else []) @ recorded on cs"
| "recorded on (Marker_cb rtn ip m # cs) = Mark ip rtn m # recorded on cs"
| "recorded on (Trigger b # cs) = recorded b cs"

text \<open>A line that \<^verbatim>\<open>snprintf\<close> does not cut.\<close>

definition short :: "event \<Rightarrow> bool" where
  "short e \<longleftrightarrow> length (print_event e) < 100 \<and> nul \<notin> set (print_event e)"

definition pending :: "tracer \<Rightarrow> string" where
  "pending t = take (PinLogBufSize t) (PinLogBuf t)"

definition log_ok :: "tracer \<Rightarrow> bool" where
  "log_ok t \<longleftrightarrow> length (PinLogBuf t) = LOGBUFSIZE \<and> PinLogBufSize t \<le> 5 * LOGBUFSIZE div 6 \<and>
     nul \<notin> set (pending t) \<and> PinLogBuf t ! PinLogBufSize t = nul"

lemma c_string_prefix: "nul \<notin> set p \<Longrightarrow> c_string (p @ nul # q) = p"
  by (induction p) (auto simp: c_string_def)

lemma log_ok_string:
  assumes "log_ok t"
  shows "c_string (PinLogBuf t) = pending t"
proof -
  have "PinLogBufSize t < length (PinLogBuf t)" using assms by (simp add: log_ok_def LOGBUFSIZE_def)
  then have "PinLogBuf t = pending t @ nul # drop (Suc (PinLogBufSize t)) (PinLogBuf t)"
    using assms id_take_nth_drop [of "PinLogBufSize t" "PinLogBuf t"] by (simp add: log_ok_def pending_def)
  then show ?thesis using c_string_prefix assms by (metis log_ok_def)
qed

lemma write_log_ok:
  assumes "c_string (PinLogBuf t) = p" and "length (PinLogBuf t) = LOGBUFSIZE"
  shows "log_ok (write_log t)" "PinLog (write_log t) = PinLog t @ p" "pending (write_log t) = []"
  using assms by (simp_all add: write_log_def log_ok_def pending_def LOGBUFSIZE_def)

lemma flush_one_ok:
  assumes ok: "log_ok t" and e: "short e"
  shows "\<exists>t'. flush_one e t = Some t' \<and> log_ok t' \<and> PinLog t' @ pending t' = PinLog t @ pending t @ print_event e \<and>
    accesses t' = accesses t \<and> AccessTrackingOn t' = AccessTrackingOn t \<and> icount t' = icount t \<and> dcount t' = dcount t"
proof -
  let ?n = "PinLogBufSize t" and ?x = "print_event e"
  let ?b = "take ?n (PinLogBuf t) @ (?x @ [nul]) @ drop (?n + length (?x @ [nul])) (PinLogBuf t)"
  have len: "length (PinLogBuf t) = 8192" "?n \<le> 6826" "nul \<notin> set (pending t)" "length ?x < 100" "nul \<notin> set ?x"
    using ok e by (auto simp: log_ok_def short_def LOGBUFSIZE_def)
  have w: "snprintf_at ?n 100 ?x (PinLogBuf t) = Some ?b" using len by (simp add: snprintf_at_def Let_def)
  let ?t = "t\<lparr>PinLogBuf := ?b, PinLogBufSize := ?n + length ?x\<rparr>"
  have b: "?b = (pending t @ ?x) @ nul # drop (?n + length (?x @ [nul])) (PinLogBuf t)" by (simp add: pending_def)
  have lb: "length ?b = 8192" "length (pending t) = ?n" using len by (simp_all add: pending_def)
  show ?thesis
  proof (cases "?n + length ?x > 6826")
    case True
    have "c_string ?b = pending t @ ?x" unfolding b by (rule c_string_prefix) (use len(3,5) in simp)
    then have "c_string (PinLogBuf ?t) = pending t @ ?x" by simp
    note wl = write_log_ok [OF this]
    have "flush_one e t = Some (write_log ?t)" using True w by (simp add: flush_one_def Let_def LOGBUFSIZE_def)
    then show ?thesis using wl lb(1) by (simp add: write_log_def LOGBUFSIZE_def)
  next
    case False
    have p: "pending ?t = pending t @ ?x" using lb(2) by (simp add: pending_def)
    have "?b ! (?n + length ?x) = nul" unfolding b using lb(2) by (simp add: nth_append)
    then have "log_ok ?t" using p len lb(1) False by (simp add: log_ok_def LOGBUFSIZE_def)
    moreover have "flush_one e t = Some ?t" using False w by (simp add: flush_one_def Let_def LOGBUFSIZE_def)
    ultimately show ?thesis using p by simp
  qed
qed

lemma flush_loop_ok:
  assumes "log_ok t" and "list_all short es"
  shows "\<exists>t'. flush_loop es t = Some t' \<and> log_ok t' \<and> PinLog t' @ pending t' = PinLog t @ pending t @ concat (map print_event es) \<and>
    accesses t' = accesses t \<and> AccessTrackingOn t' = AccessTrackingOn t \<and> icount t' = icount t \<and> dcount t' = dcount t"
  using assms
proof (induction es arbitrary: t)
  case (Cons e es)
  obtain t1 where t1: "flush_one e t = Some t1" "log_ok t1" "PinLog t1 @ pending t1 = PinLog t @ pending t @ print_event e"
    "accesses t1 = accesses t" "AccessTrackingOn t1 = AccessTrackingOn t" "icount t1 = icount t" "dcount t1 = dcount t"
    using flush_one_ok [of t e] Cons.prems by auto
  have "PinLog t1 @ pending t1 @ x = PinLog t @ pending t @ print_event e @ x" for x using t1(3) by (metis append_assoc)
  then show ?case using Cons.IH [OF t1(2)] Cons.prems(2) t1 by auto
qed simp

text \<open>The text that has been recorded so far: written, waiting in the buffer, and waiting as accesses.\<close>

definition recorded_text :: "tracer \<Rightarrow> string" where
  "recorded_text t = PinLog t @ pending t @ concat (map print_event (accesses t))"

definition tracer_ok :: "tracer \<Rightarrow> bool" where
  "tracer_ok t \<longleftrightarrow> log_ok t \<and> list_all short (accesses t) \<and> length (accesses t) < N_ACCESSES"

lemma flush_accesses_ok:
  assumes "log_ok t" and "list_all short (accesses t)"
  shows "\<exists>t'. flush_accesses t = Some t' \<and> tracer_ok t' \<and> recorded_text t' = recorded_text t \<and> accesses t' = [] \<and>
    AccessTrackingOn t' = AccessTrackingOn t \<and> icount t' = icount t \<and> dcount t' = dcount t"
proof -
  obtain t1 where "flush_loop (accesses t) t = Some t1" "log_ok t1"
    "PinLog t1 @ pending t1 = PinLog t @ pending t @ concat (map print_event (accesses t))"
    "AccessTrackingOn t1 = AccessTrackingOn t" "icount t1 = icount t" "dcount t1 = dcount t"
    using flush_loop_ok [OF assms] by blast
  then show ?thesis
    by (auto simp: flush_accesses_def tracer_ok_def recorded_text_def log_ok_def pending_def N_ACCESSES_def)
qed

lemma add_access_ok:
  assumes "tracer_ok t" and "short e"
  shows "\<exists>t'. add_access e t = Some t' \<and> tracer_ok t' \<and> recorded_text t' = recorded_text t @ print_event e \<and>
    AccessTrackingOn t' = AccessTrackingOn t \<and> icount t' = icount t \<and> dcount t' = dcount t"
proof -
  let ?t = "t\<lparr>accesses := accesses t @ [e]\<rparr>"
  have ok: "log_ok ?t" "list_all short (accesses ?t)" "recorded_text ?t = recorded_text t @ print_event e" "\<not> N_ACCESSES \<le> length (accesses t)"
    using assms by (auto simp: tracer_ok_def log_ok_def pending_def recorded_text_def)
  show ?thesis
  proof (cases "length (accesses ?t) = N_ACCESSES")
    case True
    then show ?thesis using flush_accesses_ok [OF ok(1,2)] ok(3,4) by (auto simp: add_access_def Let_def)
  next
    case False
    then have "tracer_ok ?t" using ok by (simp add: tracer_ok_def)
    then show ?thesis using False ok(3,4) by (simp add: add_access_def Let_def)
  qed
qed

text \<open>The counters: executed instructions and accesses while tracking is on.\<close>

fun tracked :: "bool \<Rightarrow> callback list \<Rightarrow> nat \<times> nat" where
  "tracked on [] = (0, 0)"
| "tracked on (Count_inst # cs) = (let (i, d) = tracked on cs in (if on then Suc i else i, d))"
| "tracked on (Access_cb rtn ip p sz load # cs) = (let (i, d) = tracked on cs in (i, if on then Suc d else d))"
| "tracked on (Marker_cb rtn ip m # cs) = tracked on cs"
| "tracked on (Trigger b # cs) = tracked b cs"

lemma run_callback_ok:
  assumes "tracer_ok t" and "list_all short (recorded (AccessTrackingOn t) [c])"
  shows "\<exists>t'. run_callback c t = Some t' \<and> tracer_ok t' \<and>
    recorded_text t' = recorded_text t @ concat (map print_event (recorded (AccessTrackingOn t) [c])) \<and>
    AccessTrackingOn t' = (case c of Trigger b \<Rightarrow> b | _ \<Rightarrow> AccessTrackingOn t) \<and>
    icount t' = icount t + of_nat (fst (tracked (AccessTrackingOn t) [c])) \<and>
    dcount t' = dcount t + of_nat (snd (tracked (AccessTrackingOn t) [c]))"
proof (cases c)
  case Count_inst
  then show ?thesis using assms by (simp add: CountInst_def tracer_ok_def log_ok_def pending_def recorded_text_def)
next
  case (Access_cb rtn ip p sz load)
  let ?t = "t\<lparr>dcount := dcount t + 1\<rparr>"
  have "tracer_ok ?t" "recorded_text ?t = recorded_text t"
    using assms(1) by (simp_all add: tracer_ok_def log_ok_def pending_def recorded_text_def)
  then show ?thesis
    using add_access_ok [of ?t "Access ip rtn p (unat sz) load"] assms Access_cb by (auto simp: DoAccessAccounting_def)
next
  case (Marker_cb rtn ip m)
  then show ?thesis using add_access_ok [OF assms(1), of "Mark ip rtn m"] assms(2) by (auto simp: PrintMarker_def)
next
  case (Trigger b)
  then show ?thesis using assms by (simp add: SetTrigger_def tracer_ok_def log_ok_def pending_def recorded_text_def)
qed

lemma recorded_Cons: "recorded on (c # cs) = recorded on [c] @ recorded (case c of Trigger b \<Rightarrow> b | _ \<Rightarrow> on) cs"
  by (cases c) simp_all

lemma tracked_Cons:
  "tracked on (c # cs) = (fst (tracked on [c]) + fst (tracked (case c of Trigger b \<Rightarrow> b | _ \<Rightarrow> on) cs),
     snd (tracked on [c]) + snd (tracked (case c of Trigger b \<Rightarrow> b | _ \<Rightarrow> on) cs))"
  by (cases c) (simp_all add: split_beta)

lemma run_callbacks_ok:
  assumes "tracer_ok t" and "list_all short (recorded (AccessTrackingOn t) cs)"
  shows "\<exists>t'. run_callbacks cs t = Some t' \<and> tracer_ok t' \<and>
    recorded_text t' = recorded_text t @ concat (map print_event (recorded (AccessTrackingOn t) cs)) \<and>
    icount t' = icount t + of_nat (fst (tracked (AccessTrackingOn t) cs)) \<and>
    dcount t' = dcount t + of_nat (snd (tracked (AccessTrackingOn t) cs))"
  using assms
proof (induction cs arbitrary: t)
  case (Cons c cs)
  let ?on = "AccessTrackingOn t"
  have "list_all short (recorded ?on [c])" "list_all short (recorded (case c of Trigger b \<Rightarrow> b | _ \<Rightarrow> ?on) cs)"
    using Cons.prems(2) recorded_Cons [of ?on c cs] by simp_all
  moreover from this(1) obtain t1 where t1: "run_callback c t = Some t1" "tracer_ok t1"
    "recorded_text t1 = recorded_text t @ concat (map print_event (recorded ?on [c]))"
    "AccessTrackingOn t1 = (case c of Trigger b \<Rightarrow> b | _ \<Rightarrow> ?on)"
    "icount t1 = icount t + of_nat (fst (tracked ?on [c]))" "dcount t1 = dcount t + of_nat (snd (tracked ?on [c]))"
    using run_callback_ok [OF Cons.prems(1)] by blast
  ultimately obtain t' where "run_callbacks cs t1 = Some t'" "tracer_ok t'"
    "recorded_text t' = recorded_text t1 @ concat (map print_event (recorded (AccessTrackingOn t1) cs))"
    "icount t' = icount t1 + of_nat (fst (tracked (AccessTrackingOn t1) cs))"
    "dcount t' = dcount t1 + of_nat (snd (tracked (AccessTrackingOn t1) cs))"
    using Cons.IH [OF t1(2)] by auto
  with t1 show ?case
    using recorded_Cons [of ?on c cs] tracked_Cons [of ?on c cs] by (simp add: add.assoc)
qed simp

definition program_events :: "pin_event list \<Rightarrow> event list" where
  "program_events es = recorded False (concat (map callbacks_of es))"

lemma trace_program_ok:
  assumes "list_all short (program_events es)"
  shows "\<exists>out t. trace_program es = Some (out, t) \<and> PinLog t = concat (map print_event (program_events es)) \<and>
    icount t = of_nat (fst (tracked False (concat (map callbacks_of es)))) \<and>
    dcount t = of_nat (snd (tracked False (concat (map callbacks_of es))))"
proof -
  have "tracer_ok tracer_init" "recorded_text tracer_init = []" "AccessTrackingOn tracer_init = False" "icount tracer_init = 0" "dcount tracer_init = 0"
    by (simp_all add: tracer_ok_def log_ok_def pending_def recorded_text_def tracer_init_def LOGBUFSIZE_def N_ACCESSES_def)
  with run_callbacks_ok [of tracer_init "concat (map callbacks_of es)"] assms obtain t where t:
    "run_callbacks (concat (map callbacks_of es)) tracer_init = Some t" "tracer_ok t"
    "recorded_text t = concat (map print_event (program_events es))"
    "icount t = of_nat (fst (tracked False (concat (map callbacks_of es))))"
    "dcount t = of_nat (snd (tracked False (concat (map callbacks_of es))))"
    by (auto simp: program_events_def)
  obtain t1 where t1: "flush_accesses t = Some t1" "tracer_ok t1" "recorded_text t1 = recorded_text t" "accesses t1 = []"
    "icount t1 = icount t" "dcount t1 = dcount t"
    using flush_accesses_ok [of t] t(2) by (auto simp: tracer_ok_def)
  have "PinLog (write_log t1) = concat (map print_event (program_events es))"
    using log_ok_string [of t1] t1(2-4) t(3) by (simp add: write_log_def tracer_ok_def recorded_text_def)
  then show ?thesis using t t1 by (auto simp: trace_program_def Fini_def write_log_def)
qed

section \<open>Properties\<close>

text \<open>C28: the log is complete, for a program whose recorded events all print as lines of fewer than 100 characters without
  a NUL character (longer ones, from long routine names, lose text): the tool writes no array outside its bounds,
  and its log file is the text of the recorded events in order, however the buffers are flushed: the
  markers of the passes and of the compartment switches always, the accesses of the instructions that
  run while \<open>cache_get_wrapper\<close> is active; the counts of instructions and accesses are those of that time.\<close>
theorem trace_log_complete:
  assumes "list_all short (program_events es)"
  shows "\<exists>out t. trace_program es = Some (out, t) \<and> PinLog t = concat (map print_event (program_events es)) \<and>
    icount t = of_nat (fst (tracked False (concat (map callbacks_of es)))) \<and>
    dcount t = of_nat (snd (tracked False (concat (map callbacks_of es))))"
  by (rule trace_program_ok [OF assms])

definition demo_ins :: ins where
  "demo_ins = \<lparr>ins_rtn = Some ''f'', ins_ip = 0x401000, ins_opcode = Other, ins_read = True, ins_read2 = False, ins_write = True,
     read_ea = 0x7fff0000, read2_ea = 0, write_ea = 0x7fff0008, read_size = 8, write_size = 8\<rparr>"

definition demo_run :: "pin_event list" where
  "demo_run = [Exec demo_ins, Enter ''cache_get_wrapper'' 0x402000, Exec demo_ins, Leave ''cache_get_wrapper'' 0x402000]"

lemma demo_run_events: "program_events demo_run = [Access 0x401000 ''f'' 0x7fff0000 8 True, Access 0x401000 ''f'' 0x7fff0008 8 False]"
  by (simp add: program_events_def demo_run_def demo_ins_def InstrumentAccess_def Let_def)

lemma short_intro:
  assumes "length rtn \<le> 40" and "nul \<notin> set rtn"
  shows "short (Mark ip rtn m)" "sz < 2 ^ 31 \<Longrightarrow> short (Access ip rtn p sz load)"
proof -
  have n: "nul \<notin> set (digits b k)" if "2 \<le> b" "b \<le> 16" for b k
  proof -
    have "\<not> is_digit b nul" by (simp add: is_digit_def digit_val_def nul_def)
    then show ?thesis using digits_ok(1) [of b k] that by (auto simp: list_all_iff)
  qed
  have h: "nul \<notin> set (pad0 12 (digits 16 k))" "nul \<notin> set (pad0 2 (digits 10 k))" for k
    using n [of 16 k] n [of 10 k] by (auto simp: pad0_def nul_def)
  have m: "nul \<notin> set (marker_name m)" "length (marker_name m) \<le> 14" for m by (cases m; simp add: nul_def)+
  show "short (Mark ip rtn m)"
    using assms h(1) m [of m] hex12_length [of ip] by (auto simp: short_def print_event_def hex12_def nul_def newline_def)
  show "short (Access ip rtn p sz load)" if "sz < 2 ^ 31"
    using assms h m hex12_length [of ip] hex12_length [of p] dec2_length [OF that]
    by (auto simp: short_def print_event_def hex12_def dec2_small [OF that] nul_def newline_def)
qed

lemma demo_run_short: "list_all short (program_events demo_run)"
  unfolding demo_run_events by (simp, intro conjI; rule short_intro) (simp_all add: nul_def)

theorem trace_log_complete_witness:
  "\<exists>out t. trace_program demo_run = Some (out, t) \<and> icount t = 1 \<and> dcount t = 2 \<and>
     PinLog t = print_event (Access 0x401000 ''f'' 0x7fff0000 8 True) @ print_event (Access 0x401000 ''f'' 0x7fff0008 8 False)"
proof -
  have "tracked False (concat (map callbacks_of demo_run)) = (1, 2)"
    by (simp add: demo_run_def demo_ins_def InstrumentAccess_def Let_def)
  then show ?thesis using trace_log_complete [OF demo_run_short] by (auto simp: demo_run_events)
qed

text \<open>From the traced program to the simulator: reading the log that the tool wrote has the effect of the
  recorded events, one by one, on the simulated caches and TLBs.\<close>
theorem traced_program_simulated:
  assumes "list_all short (program_events es)" and "list_all printable (program_events es)"
  shows "\<exists>out t. trace_program es = Some (out, t) \<and> (\<forall>r. read_trace (PinLog t) r = run_events (program_events es) r)"
  using trace_program_ok [OF assms(1)] read_printed_trace [OF assms(2)] by auto

theorem traced_program_simulated_witness:
  "\<exists>out t. trace_program demo_run = Some (out, t) \<and> (\<forall>r. read_trace (PinLog t) r = run_events (program_events demo_run) r)"
  by (rule traced_program_simulated [OF demo_run_short]) (simp add: demo_run_events blank_def newline_def)

end
