(* ===== verification/Simulator.thy ===== *)
theory Simulator
  imports Memtrace
begin

unbundle bit_operations_syntax

text \<open>
  The simulator as a process: \<^verbatim>\<open>main\<close> of \<^verbatim>\<open>src/tracing/main.c\<close> with its arguments, its timer, the file it reads and
  the text it prints, and \<^verbatim>\<open>account_final\<close> of \<^verbatim>\<open>tlbcache.c\<close> as the text it prints.

  What the system calls return and the contents of the files are an argument. The result is the exit
  status and the standard output. The timer's signals run an empty handler and have no effect.
\<close>

section \<open>Printing\<close>

definition print_int :: "int \<Rightarrow> string" where
  "print_int n = (if n < 0 then ''-'' @ digits 10 (nat (- n)) else digits 10 (nat n))"

text \<open>\<^verbatim>\<open>%15"PRIu64"\<close>.\<close>

definition print_u64_15 :: "u64 \<Rightarrow> string" where
  "print_u64_15 w = (let ds = digits 10 (unat w) in replicate (15 - length ds) blank @ ds)"

text \<open>The access counter is unsigned and printed with \<^verbatim>\<open>%ld\<close>. The column of a counter ends with a blank.\<close>

definition misses_line :: "sim \<Rightarrow> string" where
  "misses_line s = concat (map (\<lambda>w. print_u64_15 w @ [blank])
     [l1i_tlb_misses s, l1d_tlb_misses s, l2_stlb_misses s, l1i_misses s, l1d_misses s, llc_misses s])"

definition account_final_text :: "sim \<Rightarrow> string" where
  "account_final_text s = ''data access count: '' @ print_int (sint (data_counter s)) @ [newline] @ misses_line s @ [newline]"

section \<open>The process\<close>

record sim_env =
  timer_create_ret :: int
  timer_settime_ret :: int
  sigaction_ret :: int
  file_contents :: "string \<Rightarrow> string option"

text \<open>\<open>Some\<close>: the process ends here.\<close>

definition timer_setup :: "sim_env \<Rightarrow> (int \<times> string) option" where
  "timer_setup env =
     (if timer_create_ret env \<noteq> 0 then Some (- 1, ''ERROR: timer_create'')
      else if timer_settime_ret env = - 1 then Some (- 1, ''ERROR: timer_settime'')
      else if sigaction_ret env = - 1 then Some (- 1, ''ERROR: sigaction'')
      else None)"

text \<open>Reading from a file that could not be opened is a use of a null pointer.\<close>

definition simulator_main :: "sim_env \<Rightarrow> string list \<Rightarrow> int \<Rightarrow> sim \<Rightarrow> (int \<times> string) option" where
  "simulator_main env argv reps0 s =
     (if length argv \<noteq> 2
      then if argv = [] then None else Some (1, ''Usage: '' @ hd argv @ '' <tracefile>'' @ [newline])
      else
        case timer_setup env of
          Some r \<Rightarrow> Some r
        | None \<Rightarrow> do {
            r \<leftarrow> trace_start reps0 s;
            trace \<leftarrow> file_contents env (argv ! 1);
            r \<leftarrow> read_trace trace r;
            Some (1, ''Rounds total: '' @ print_int (reps r) @ '', warmup: '' @ print_int WARMUP_REPS @ [newline] @
              account_final_text (rd_sim r))
          })"

section \<open>Reading the report\<close>

lemma strtok_blanks: "strtok_all (replicate k blank @ s) = strtok_all s"
proof -
  have "dropWhile (\<lambda>c. c = blank) (replicate k blank @ s) = dropWhile (\<lambda>c. c = blank) s" by (induction k) simp_all
  then show ?thesis by (subst (1 2) strtok_all.simps) simp
qed

lemma digits_no_blank: "blank \<notin> set (digits 10 n)"
proof
  assume "blank \<in> set (digits 10 n)"
  with digits_ok(1) [of 10 n] have "is_digit 10 blank" by (simp add: list_all_iff)
  then show False by (simp add: is_digit_def digit_val_def blank_def)
qed

lemma strtok_columns: "strtok_all (concat (map (\<lambda>w. print_u64_15 w @ [blank]) ws)) = map (\<lambda>w. digits 10 (unat w)) ws"
proof (induction ws)
  case Nil
  show ?case by (subst strtok_all.simps) simp
next
  case (Cons w ws)
  then show ?case
    using strtok_cons [OF digits_ok(3) digits_no_blank, of "unat w"]
    by (simp add: print_u64_15_def Let_def strtok_blanks)
qed

lemma strtoul_decimal: "strtoul 10 (digits 10 (unat w)) = w"
  using strtoul_digits [of 10 "digits 10 (unat w)" "[]"] digits_ok [of 10 "unat w"] unsigned_less [of w] by simp

lemma misses_line_read: "map (strtoul 10) (strtok_all (misses_line s)) =
    [l1i_tlb_misses s, l1d_tlb_misses s, l2_stlb_misses s, l1i_misses s, l1d_misses s, llc_misses s]"
  unfolding misses_line_def strtok_columns by (simp add: strtoul_decimal)

section \<open>Properties\<close>

text \<open>The report for a reader that has read the trace.\<close>

definition sim_report :: "reader \<Rightarrow> string" where
  "sim_report r = ''Rounds total: '' @ print_int (reps r) @ '', warmup: '' @ print_int WARMUP_REPS @ [newline] @ account_final_text (rd_sim r)"

text \<open>C29: the whole measurement, for a traced program whose repetitions and compartment switches alternate, whose accesses
  within repetitions go to user memory, and whose recorded events print as lines of fewer than 100 characters
  with no NUL in them, no blank or line end in a routine name and sizes below \<open>2\<^sup>31\<close>; with fewer than \<open>2\<^sup>31\<close> repetitions
  and a timer that can be set up. Such a program leaves a log which the simulator, started on it, reads to its
  end. It exits with status 1 after printing the number of repetitions, counted from the value that the
  uninitialised counter had, the number of data accesses, which are exactly those inside a repetition after the
  one that ends the warm-up, and the miss counters of the simulated events, which are read back from the printed
  columns.\<close>
theorem simulator_reports:
  assumes "list_all short (program_events es)" and "list_all printable (program_events es)" and "trace_ok False False (program_events es)"
    and "reps0 + int (rounds (program_events es)) < 2 ^ 31" and "timer_setup env = None"
  shows "\<exists>out t r0 r. trace_program es = Some (out, t) \<and> trace_start reps0 s = Some r0 \<and> run_events (program_events es) r0 = Some r \<and>
    reps r = reps0 + int (rounds (program_events es)) \<and>
    data_counter (rd_sim r) = data_counter s + of_nat (measured reps0 (program_events es)) \<and>
    simulator_main (env\<lparr>file_contents := (file_contents env)(f := Some (PinLog t))\<rparr>) [prog, f] reps0 s = Some (1, sim_report r) \<and>
    map (strtoul 10) (strtok_all (misses_line (rd_sim r))) = tl (account_final (rd_sim r))"
proof -
  obtain out t where t: "trace_program es = Some (out, t)" "PinLog t = concat (map print_event (program_events es))"
    using trace_program_ok [OF assms(1)] by auto
  obtain r0 where r0: "trace_start reps0 s = Some r0" "reader_ok False False r0" "reps r0 = reps0" "warmup (rd_sim r0)"
    "account_final (rd_sim r0) = account_final s" by (rule trace_start_ok)
  have "reps r0 + int (rounds (program_events es)) < 2 ^ 31" using assms(4) r0(3) by simp
  from run_events_ok [OF assms(3) r0(2) this] obtain r where r: "run_events (program_events es) r0 = Some r"
    "reps r = reps0 + int (rounds (program_events es))" using r0(3) by auto
  have "data_counter (rd_sim r) = data_counter s + of_nat (measured reps0 (program_events es))"
    using run_events_measured [OF r(1)] r0(2-5) by (simp add: reader_ok_def account_final_def)
  moreover have "timer_setup (env\<lparr>file_contents := m\<rparr>) = None" for m using assms(5) by (simp add: timer_setup_def split: if_splits)
  then have "simulator_main (env\<lparr>file_contents := (file_contents env)(f := Some (PinLog t))\<rparr>) [prog, f] reps0 s = Some (1, sim_report r)"
    using r0(1) r(1) t(2) by (simp add: simulator_main_def read_printed_trace [OF assms(2)] sim_report_def)
  moreover have "map (strtoul 10) (strtok_all (misses_line (rd_sim r))) = tl (account_final (rd_sim r))"
    unfolding misses_line_read by (simp add: account_final_def)
  ultimately show ?thesis using t(1) r0(1) r by blast
qed

definition demo_env :: sim_env where
  "demo_env = \<lparr>timer_create_ret = 0, timer_settime_ret = 0, sigaction_ret = 0, file_contents = (\<lambda>f. None)\<rparr>"

text \<open>Three repetitions of a request with one instruction that reads and writes memory.\<close>

definition demo_mark :: "opcode \<Rightarrow> pin_event" where
  "demo_mark m = Exec (demo_ins\<lparr>ins_rtn := Some ''main'', ins_opcode := m\<rparr>)"

definition demo_rep :: "pin_event list" where
  "demo_rep = [demo_mark VERR, Enter ''cache_get_wrapper'' 0x402000, Enter ''cache_get'' 0x403000, Exec demo_ins,
     Leave ''cache_get'' 0x403000, Leave ''cache_get_wrapper'' 0x402000, demo_mark VERW]"

definition demo_rep_events :: "event list" where
  "demo_rep_events = [Mark 0x401000 ''main'' Repstart, Mark 0x403000 ''cache_get'' Switch_cache, Access 0x401000 ''f'' 0x7fff0000 8 True,
     Access 0x401000 ''f'' 0x7fff0008 8 False, Mark 0x403000 ''cache_get'' Switch_wrapper, Mark 0x401000 ''main'' Repend]"

lemma demo_reps_events: "program_events (demo_rep @ demo_rep @ demo_rep) = demo_rep_events @ demo_rep_events @ demo_rep_events"
  by (simp add: program_events_def demo_rep_def demo_rep_events_def demo_mark_def demo_ins_def InstrumentAccess_def Let_def)

lemma demo_rep_short: "list_all short demo_rep_events"
  unfolding demo_rep_events_def by (simp, intro conjI; rule short_intro) (simp_all add: nul_def)

theorem simulator_reports_witness:
  "\<forall>s. \<exists>out t r. trace_program (demo_rep @ demo_rep @ demo_rep) = Some (out, t) \<and> reps r = 3 \<and> data_counter (rd_sim r) = data_counter s + 2 \<and>
    simulator_main (demo_env\<lparr>file_contents := (file_contents demo_env)(''log'' := Some (PinLog t))\<rparr>) [''main'', ''log''] 0 s = Some (1, sim_report r)"
proof
  fix s
  let ?es = "program_events (demo_rep @ demo_rep @ demo_rep)"
  have es: "list_all short ?es" "list_all printable ?es" "trace_ok False False ?es" "0 + int (rounds ?es) < 2 ^ 31" "timer_setup demo_env = None"
    "rounds ?es = 3"
    using demo_rep_short
    by (simp_all add: demo_reps_events demo_rep_events_def blank_def newline_def rounds_def timer_setup_def demo_env_def user_access_def)
  have two: "measured 0 ?es = 2"
    by (simp add: demo_reps_events demo_rep_events_def measured_def WARMUP_REPS_def numeral_2_eq_2)
  from simulator_reports [OF es(1-5), where f = "''log''" and prog = "''main''" and s = s] es(6) two
  show "\<exists>out t r. trace_program (demo_rep @ demo_rep @ demo_rep) = Some (out, t) \<and> reps r = 3 \<and> data_counter (rd_sim r) = data_counter s + 2 \<and>
    simulator_main (demo_env\<lparr>file_contents := (file_contents demo_env)(''log'' := Some (PinLog t))\<rparr>) [''main'', ''log''] 0 s = Some (1, sim_report r)"
    by fastforce
qed

text \<open>A trace file that cannot be opened is not noticed: whatever the timers do, the simulator either stopped before it
  or reads through a null pointer.\<close>
theorem missing_trace_faults:
  "file_contents env f = None \<Longrightarrow> simulator_main env [prog, f] reps0 s = timer_setup env"
proof -
  assume "file_contents env f = None"
  moreover obtain r where "trace_start reps0 s = Some r" by (rule trace_start_ok)
  ultimately show ?thesis by (simp add: simulator_main_def split: option.split)
qed

end
