(* ===== verification/GCM_Field.thy ===== *)
theory GCM_Field
  imports AES_NI
begin

unbundle bit_operations_syntax

text \<open>
  Multiplication in the field of GCM: the tables of \<^verbatim>\<open>gcm.c\<close> (\<^verbatim>\<open>gcm_gen_table\<close>, \<^verbatim>\<open>gcm_mult\<close>) and the
  carry-less multiplication of \<^verbatim>\<open>aesni.c\<close> (\<^verbatim>\<open>mbedtls_aesni_gcm_mult\<close>), both proved equal to the bit by
  bit multiplication of the standard (NIST SP 800-38D).

  An \<^verbatim>\<open>xmm\<close> register is a \<^typ>\<open>128 word\<close> here. A field element is a \<^typ>\<open>128 word\<close> too, with its bit
  127 as the coefficient of \<open>P\<^sup>0\<close>.
\<close>

type_synonym u128 = "128 word"

section \<open>Multiplication with tables\<close>

definition MBEDTLS_GET_UINT32_BE :: "u8 list \<Rightarrow> nat \<Rightarrow> u32" where
  "MBEDTLS_GET_UINT32_BE data offset =
     push_bit 24 (ucast (data ! offset)) OR push_bit 16 (ucast (data ! (offset + 1))) OR
     push_bit 8 (ucast (data ! (offset + 2))) OR ucast (data ! (offset + 3))"

definition MBEDTLS_PUT_UINT32_BE :: "u32 \<Rightarrow> u8 list" where
  "MBEDTLS_PUT_UINT32_BE n = [MBEDTLS_BYTE_3 n, MBEDTLS_BYTE_2 n, MBEDTLS_BYTE_1 n, MBEDTLS_BYTE_0 n]"

text \<open>The two halves of a block as numbers, and back.\<close>

definition get_half :: "u8 list \<Rightarrow> nat \<Rightarrow> u64" where
  "get_half h off = (let hi = ucast (MBEDTLS_GET_UINT32_BE h off) :: u64; lo = ucast (MBEDTLS_GET_UINT32_BE h (off + 4)) in
     push_bit 32 hi OR lo)"

definition put_half :: "u64 \<Rightarrow> u8 list" where
  "put_half z = MBEDTLS_PUT_UINT32_BE (ucast (drop_bit 32 z)) @ MBEDTLS_PUT_UINT32_BE (ucast z)"

definition gen_shift :: "u64 \<times> u64 \<Rightarrow> u64 \<times> u64" where
  "gen_shift = (\<lambda>(vh, vl).
     let T = ucast (vl AND 1) * 0xe1000000 :: u32 in
     (drop_bit 1 vh XOR push_bit 32 (ucast T), push_bit 63 vh OR drop_bit 1 vl))"

text \<open>The loop over 4, 2, 1, and the loop over 2, 4, 8 with its inner loop.\<close>

definition gen_powers_body :: "nat \<Rightarrow> (u64 \<times> u64) \<times> u64 list \<times> u64 list \<Rightarrow> (u64 \<times> u64) \<times> u64 list \<times> u64 list" where
  "gen_powers_body i = (\<lambda>(v, HH, HL). let v = gen_shift v in (v, HH[i := fst v], HL[i := snd v]))"

definition gen_sums_body :: "nat \<Rightarrow> u64 list \<times> u64 list \<Rightarrow> u64 list \<times> u64 list" where
  "gen_sums_body i = (\<lambda>(HH, HL).
     let vh = HH ! i; vl = HL ! i in
     fold (\<lambda>j (HH, HL). (HH[i + j := vh XOR HH ! j], HL[i + j := vl XOR HL ! j])) [1..<i] (HH, HL))"

definition gen_tables :: "u64 \<Rightarrow> u64 \<Rightarrow> u64 list \<Rightarrow> u64 list \<Rightarrow> u64 list \<times> u64 list" where
  "gen_tables vh vl HH HL =
     (let HH = HH[0 := 0]; HL = HL[0 := 0]; (v, HH, HL) = fold gen_powers_body [4, 2, 1] ((vh, vl), HH, HL) in
      fold gen_sums_body [2, 4, 8] (HH, HL))"

definition last4 :: "u64 list" where
  "last4 = [0x0000, 0x1c20, 0x3840, 0x2460,
    0x7080, 0x6ca0, 0x48c0, 0x54e0,
    0xe100, 0xfd20, 0xd940, 0xc560,
    0x9180, 0x8da0, 0xa9c0, 0xb5e0]"

definition mult_nibble :: "u64 list \<Rightarrow> u64 list \<Rightarrow> u8 \<Rightarrow> u64 \<times> u64 \<Rightarrow> u64 \<times> u64" where
  "mult_nibble HH HL nib = (\<lambda>(zh, zl).
     let rm = ucast zl AND 0xf :: u8; zl = push_bit 60 zh OR drop_bit 4 zl; zh = drop_bit 4 zh;
         zh = zh XOR push_bit 48 (last4 ! unat rm) in
     (zh XOR HH ! unat nib, zl XOR HL ! unat nib))"

text \<open>The loop over the bytes, from 15 down to 0; \<open>n\<close> counts what is left.\<close>

fun mult_loop :: "u64 list \<Rightarrow> u64 list \<Rightarrow> u8 list \<Rightarrow> nat \<Rightarrow> u64 \<times> u64 \<Rightarrow> u64 \<times> u64" where
  "mult_loop HH HL x 0 z = z"
| "mult_loop HH HL x (Suc i) z =
     (let lo = x ! i AND 0xf; hi = drop_bit 4 (x ! i) AND 0xf;
          z = (if i \<noteq> 15 then mult_nibble HH HL lo z else z) in
      mult_loop HH HL x i (mult_nibble HH HL hi z))"

definition mult_tables :: "u64 list \<Rightarrow> u64 list \<Rightarrow> u8 list \<Rightarrow> u8 list" where
  "mult_tables HH HL x =
     (let lo = x ! 15 AND 0xf; (zh, zl) = mult_loop HH HL x 16 (HH ! unat lo, HL ! unat lo) in
      put_half zh @ put_half zl)"

section \<open>Multiplication with carry-less products\<close>

definition clmul64 :: "u64 \<Rightarrow> u64 \<Rightarrow> u128" where
  "clmul64 a b = fold (\<lambda>i z. z XOR (if bit b i then push_bit i (ucast a) else 0)) [0..<64] 0"

definition lane_lo :: "u128 \<Rightarrow> u64" where "lane_lo w = ucast w"
definition lane_hi :: "u128 \<Rightarrow> u64" where "lane_hi w = ucast (drop_bit 64 w)"

definition lanes :: "u64 \<Rightarrow> u64 \<Rightarrow> u128" where
  "lanes h l = push_bit 64 (ucast h) OR ucast l"

text \<open>The instruction: bit 0 of the immediate chooses the half of the destination, bit 4 that of the source.\<close>

definition pclmulqdq :: "nat \<Rightarrow> u128 \<Rightarrow> u128 \<Rightarrow> u128" where
  "pclmulqdq imm src dst =
     clmul64 (if bit imm 0 then lane_hi dst else lane_lo dst) (if bit imm 4 then lane_hi src else lane_lo src)"

definition psllq :: "nat \<Rightarrow> u128 \<Rightarrow> u128" where
  "psllq k w = lanes (push_bit k (lane_hi w)) (push_bit k (lane_lo w))"

definition psrlq :: "nat \<Rightarrow> u128 \<Rightarrow> u128" where
  "psrlq k w = lanes (drop_bit k (lane_hi w)) (drop_bit k (lane_lo w))"

definition pslldq8 :: "u128 \<Rightarrow> u128" where "pslldq8 w = push_bit 64 w"
definition psrldq8 :: "u128 \<Rightarrow> u128" where "psrldq8 w = drop_bit 64 w"

definition clmul_product :: "u128 \<Rightarrow> u128 \<Rightarrow> u128 \<times> u128" where
  "clmul_product xmm0 xmm1 =
     (let xmm2 = xmm1; xmm3 = xmm1; xmm4 = xmm1;
          xmm1 = pclmulqdq 0x00 xmm0 xmm1; xmm2 = pclmulqdq 0x11 xmm0 xmm2;
          xmm3 = pclmulqdq 0x10 xmm0 xmm3; xmm4 = pclmulqdq 0x01 xmm0 xmm4;
          xmm4 = xmm4 XOR xmm3; xmm3 = xmm4; xmm4 = psrldq8 xmm4; xmm3 = pslldq8 xmm3;
          xmm2 = xmm2 XOR xmm4; xmm1 = xmm1 XOR xmm3 in
      (xmm2, xmm1))"

definition clmul_shift :: "u128 \<times> u128 \<Rightarrow> u128 \<times> u128" where
  "clmul_shift = (\<lambda>(xmm2, xmm1).
     let xmm3 = xmm1; xmm4 = xmm2; xmm1 = psllq 1 xmm1; xmm2 = psllq 1 xmm2;
         xmm3 = psrlq 63 xmm3; xmm4 = psrlq 63 xmm4; xmm5 = xmm3;
         xmm3 = pslldq8 xmm3; xmm4 = pslldq8 xmm4; xmm5 = psrldq8 xmm5;
         xmm1 = xmm1 OR xmm3; xmm2 = xmm2 OR xmm4; xmm2 = xmm2 OR xmm5 in
     (xmm2, xmm1))"

definition clmul_reduce :: "u128 \<times> u128 \<Rightarrow> u128" where
  "clmul_reduce = (\<lambda>(xmm2, xmm1).
     let xmm3 = psllq 63 xmm1; xmm4 = psllq 62 xmm1; xmm5 = psllq 57 xmm1;
         xmm3 = xmm3 XOR xmm4; xmm3 = xmm3 XOR xmm5; xmm3 = pslldq8 xmm3; xmm1 = xmm1 XOR xmm3;
         xmm0 = psrlq 1 xmm1; xmm4 = psrlq 2 xmm1; xmm5 = psrlq 7 xmm1;
         xmm0 = xmm0 XOR xmm4; xmm0 = xmm0 XOR xmm5;
         xmm3 = psllq 63 xmm1; xmm4 = psllq 62 xmm1; xmm5 = psllq 57 xmm1;
         xmm3 = xmm3 XOR xmm4; xmm3 = xmm3 XOR xmm5; xmm3 = psrldq8 xmm3; xmm0 = xmm0 XOR xmm3;
         xmm0 = xmm0 XOR xmm1; xmm0 = xmm0 XOR xmm2 in
     xmm0)"

text \<open>Loads and stores are little-endian.\<close>

definition load128 :: "u8 list \<Rightarrow> u128" where
  "load128 xs = fold (\<lambda>i z. z OR push_bit (8 * i) (ucast (xs ! i))) [0..<16] 0"

definition store128 :: "u128 \<Rightarrow> u8 list" where
  "store128 w = map (\<lambda>i. ucast (drop_bit (8 * i) w)) [0..<16]"

definition mbedtls_aesni_gcm_mult :: "u8 list \<Rightarrow> u8 list \<Rightarrow> u8 list" where
  "mbedtls_aesni_gcm_mult a b =
     (let aa = map (\<lambda>i. a ! (15 - i)) [0..<16]; bb = map (\<lambda>i. b ! (15 - i)) [0..<16];
          cc = store128 (clmul_reduce (clmul_shift (clmul_product (load128 aa) (load128 bb)))) in
      map (\<lambda>i. cc ! (15 - i)) [0..<16])"

section \<open>The field multiplication of the standard\<close>

definition gcm_R :: u128 where
  "gcm_R = push_bit 120 0xe1"

definition mulP :: "u128 \<Rightarrow> u128" where
  "mulP v = drop_bit 1 v XOR (if bit v 0 then gcm_R else 0)"

text \<open>Algorithm 1 of the standard, over the bits of the first factor, that of \<open>P\<^sup>0\<close> first.\<close>

fun nist_mult :: "bool list \<Rightarrow> u128 \<Rightarrow> u128 \<Rightarrow> u128" where
  "nist_mult [] z v = z"
| "nist_mult (b # bs) z v = nist_mult bs (if b then z XOR v else z) (mulP v)"

fun gmul_bits :: "bool list \<Rightarrow> u128 \<Rightarrow> u128" where
  "gmul_bits [] v = 0"
| "gmul_bits (b # bs) v = (if b then v else 0) XOR mulP (gmul_bits bs v)"

lemma mulP_xor: "mulP (a XOR b) = mulP a XOR mulP b"
  by (cases "bit a 0"; cases "bit b 0") (simp_all add: mulP_def bit_simps ac_simps)

lemma mulP_0 [simp]: "mulP 0 = 0"
  by (simp add: mulP_def)

lemma mulP_even: "\<not> bit v 0 \<Longrightarrow> mulP v = drop_bit 1 v"
  by (simp add: mulP_def)

lemma gmul_bits_mulP: "gmul_bits bs (mulP v) = mulP (gmul_bits bs v)"
  by (induction bs) (simp_all add: mulP_xor)

lemma gmul_bits_xor: "gmul_bits bs (u XOR v) = gmul_bits bs u XOR gmul_bits bs v"
  by (induction bs) (simp_all add: mulP_xor xor.assoc xor.left_commute)

lemma gmul_bits_0 [simp]: "gmul_bits bs 0 = 0"
  by (induction bs) simp_all

lemma nist_mult_gmul: "nist_mult bs z v = z XOR gmul_bits bs v"
  by (induction bs arbitrary: z v) (simp_all add: gmul_bits_mulP xor.assoc)

lemma gmul_bits_commute: "gmul_bits bs (gmul_bits cs v) = gmul_bits cs (gmul_bits bs v)"
  by (induction bs) (simp_all add: gmul_bits_mulP gmul_bits_xor)

text \<open>The bits of a field element, and the product of two.\<close>

definition bits128 :: "u128 \<Rightarrow> bool list" where
  "bits128 v = map (\<lambda>i. bit v (127 - i)) [0..<128]"

definition gmul :: "u128 \<Rightarrow> u128 \<Rightarrow> u128" where
  "gmul x y = nist_mult (bits128 x) 0 y"

definition field_one :: u128 where
  "field_one = push_bit 127 1"

lemma bit_field_one: "bit field_one n \<longleftrightarrow> n = 127"
  unfolding field_one_def bit_push_bit_iff bit_1_iff by auto

lemma gmul_suffix: "j \<le> 128 \<Longrightarrow> gmul_bits (map (\<lambda>i. bit v (127 - i)) [128 - j..<128]) field_one = push_bit (128 - j) (take_bit j v)"
proof (induction j)
  case (Suc j)
  have l: "[128 - Suc j..<128] = (127 - j) # [128 - j..<128]" using Suc.prems by (subst upt_conv_Cons) (auto simp: Suc_diff_le [symmetric])
  let ?w = "push_bit (128 - j) (take_bit j v)"
  have "\<not> bit ?w 0" using Suc.prems by (simp add: bit_simps)
  then have "gmul_bits (map (\<lambda>i. bit v (127 - i)) [128 - Suc j..<128]) field_one = (if bit v j then field_one else 0) XOR drop_bit 1 ?w"
    unfolding l using Suc by (simp add: mulP_even)
  also have "\<dots> = push_bit (128 - Suc j) (take_bit (Suc j) v)"
  proof (rule bit_eqI)
    fix n assume "possible_bit TYPE(u128) n"
    then have n: "n < 128" by simp
    show "bit ((if bit v j then field_one else 0) XOR drop_bit 1 ?w) n = bit (push_bit (128 - Suc j) (take_bit (Suc j) v)) n"
    proof (cases "n = 127")
      case True
      then have "n - (128 - Suc j) = j" using Suc.prems by simp
      then show ?thesis using True Suc.prems by (simp add: bit_field_one bit_simps)
    next
      case False
      have "Suc n - (128 - j) = n - (128 - Suc j)" "128 - j \<le> Suc n \<longleftrightarrow> 128 - Suc j \<le> n" "128 - Suc j \<le> n \<Longrightarrow> n - (128 - Suc j) < j"
        using Suc.prems n False by auto
      then show ?thesis using False n by (auto simp: bit_field_one bit_simps)
    qed
  qed
  finally show ?case .
qed simp

lemma gmul_one: "gmul_bits (bits128 v) field_one = v"
  using gmul_suffix [of 128 v] by (simp add: bits128_def take_bit_word_eq_self)

lemma gmul_commute: "gmul x y = gmul y x"
proof -
  have "gmul_bits (bits128 x) y = gmul_bits (bits128 x) (gmul_bits (bits128 y) field_one)" by (simp add: gmul_one)
  also have "\<dots> = gmul_bits (bits128 y) x" unfolding gmul_bits_commute [of "bits128 x"] by (simp add: gmul_one)
  finally show ?thesis by (simp add: gmul_def nist_mult_gmul)
qed

section \<open>The tables\<close>

lemma bit_lanes: "bit (lanes h l) n \<longleftrightarrow> (if n < 64 then bit l n else n < 128 \<and> bit h (n - 64))"
  by (auto simp: lanes_def bit_simps dest: bit_imp_le_length)

lemma lanes_xor: "lanes (a XOR c) (b XOR d) = lanes a b XOR lanes c d"
  by (rule bit_eqI) (auto simp: bit_lanes bit_simps)

lemma lanes_0 [simp]: "lanes 0 0 = 0"
  by (simp add: lanes_def)

lemma gcm_R_lanes: "gcm_R = lanes 0xe100000000000000 0"
  by (simp add: gcm_R_def lanes_def)

lemma gen_shift_mulP: "lanes (fst (gen_shift (vh, vl))) (snd (gen_shift (vh, vl))) = mulP (lanes vh vl)"
proof -
  have a: "vl AND 1 = (if bit vl 0 then 1 else 0)" by (simp add: and_one_eq bit_0 odd_iff_mod_2_eq_one)
  have T: "push_bit 32 (ucast (ucast (vl AND 1) * 0xe1000000 :: u32)) = (if bit vl 0 then 0xe100000000000000 else (0 :: u64))"
    unfolding a by simp
  have s: "lanes (drop_bit 1 vh) (push_bit 63 vh OR drop_bit 1 vl) = drop_bit 1 (lanes vh vl)"
  proof (rule bit_eqI)
    fix n assume "possible_bit TYPE(u128) n"
    then consider "n < 63" | "n = 63" | "64 \<le> n" "n < 128" by force
    then show "bit (lanes (drop_bit 1 vh) (push_bit 63 vh OR drop_bit 1 vl)) n = bit (drop_bit 1 (lanes vh vl)) n"
    proof cases
      case 3
      then have "n - 63 = Suc (n - 64)" by simp
      then show ?thesis using 3 by (auto simp: bit_lanes bit_simps dest: bit_imp_le_length)
    qed (auto simp: bit_lanes bit_simps dest: bit_imp_le_length)
  qed
  have b: "bit (lanes vh vl) 0 = bit vl 0" by (simp add: bit_lanes)
  show ?thesis
    unfolding gen_shift_def mulP_def b s [symmetric] gcm_R_lanes
    by (simp add: Let_def T lanes_xor [symmetric] flip: lanes_0)
qed

lemma bit_gcm_R: "\<not> bit gcm_R 0" "\<not> bit (drop_bit 1 gcm_R) 0" "\<not> bit (drop_bit 2 gcm_R) 0"
  by (simp_all add: gcm_R_def bit_simps)

definition c_if :: "bool \<Rightarrow> u128 \<Rightarrow> u128" where
  "c_if b v = (if b then v else 0)"

lemma mulP4: "mulP (mulP (mulP (mulP z))) =
    drop_bit 4 z XOR (c_if (bit z 0) (drop_bit 3 gcm_R) XOR c_if (bit z 1) (drop_bit 2 gcm_R) XOR
      c_if (bit z 2) (drop_bit 1 gcm_R) XOR c_if (bit z 3) gcm_R)"
proof -
  have step: "mulP (drop_bit k z XOR c) = drop_bit (Suc k) z XOR (drop_bit 1 c XOR c_if (bit z k) gcm_R)" if "\<not> bit c 0" for k c
    using that by (auto simp: mulP_def c_if_def bit_simps xor.assoc)
  define c1 where "c1 = c_if (bit z 0) gcm_R"
  define c2 where "c2 = drop_bit 1 c1 XOR c_if (bit z 1) gcm_R"
  define c3 where "c3 = drop_bit 1 c2 XOR c_if (bit z 2) gcm_R"
  have nb: "\<not> bit c1 0" "\<not> bit c2 0" "\<not> bit c3 0"
    using bit_gcm_R by (auto simp: c1_def c2_def c3_def c_if_def bit_simps numeral_2_eq_2)
  have "mulP z = drop_bit 1 z XOR c1" by (simp add: mulP_def c1_def c_if_def)
  then have "mulP (mulP (mulP (mulP z))) = drop_bit (Suc (Suc (Suc 1))) z XOR (drop_bit 1 c3 XOR c_if (bit z (Suc (Suc 1))) gcm_R)"
    using step [OF nb(1), of 1] step [OF nb(2), of "Suc 1"] step [OF nb(3), of "Suc (Suc 1)"] by (simp add: c2_def c3_def numeral_2_eq_2)
  moreover have "drop_bit 1 c3 = c_if (bit z 0) (drop_bit 3 gcm_R) XOR c_if (bit z 1) (drop_bit 2 gcm_R) XOR c_if (bit z 2) (drop_bit 1 gcm_R)"
    by (simp add: c1_def c2_def c3_def c_if_def numeral_2_eq_2 numeral_3_eq_3 xor.assoc)
  moreover have "Suc (Suc (Suc 1)) = 4" "Suc (Suc 1) = 3" by simp_all
  ultimately show ?thesis by (simp only: xor.assoc)
qed

definition nibble_value :: "bool \<Rightarrow> bool \<Rightarrow> bool \<Rightarrow> bool \<Rightarrow> nat" where
  "nibble_value b3 b2 b1 b0 = of_bool b0 + 2 * of_bool b1 + 4 * of_bool b2 + 8 * of_bool b3"

lemma take_bit_4_nat: "take_bit 4 (n :: nat) = nibble_value (bit n 3) (bit n 2) (bit n 1) (bit n 0)"
proof -
  have four: "(4 :: nat) = Suc (Suc (Suc (Suc 0)))" and three: "(3 :: nat) = Suc (Suc (Suc 0))" and two: "(2 :: nat) = Suc (Suc 0)"
    by simp_all
  have p: "(2 :: nat) ^ Suc (Suc (Suc 0)) = 8" "(2 :: nat) ^ Suc (Suc 0) = 4" by simp_all
  show ?thesis
    unfolding four take_bit_Suc_from_most nibble_value_def p unfolding three two One_nat_def by simp
qed

lemma unat_nibble: "unat (w AND 0xf) = nibble_value (bit w 3) (bit w 2) (bit w 1) (bit (w :: u8) 0)"
proof -
  have "w AND 0xf = take_bit 4 w" by (simp add: take_bit_eq_mask mask_numeral)
  moreover have "unat (take_bit 4 w) = take_bit 4 (unat w)" by (simp add: unsigned_take_bit_eq)
  ultimately show ?thesis by (simp add: take_bit_4_nat bit_unsigned_iff)
qed

lemma last4_R:
  "lanes (push_bit 48 (last4 ! nibble_value b3 b2 b1 b0)) 0 =
    c_if b0 (drop_bit 3 gcm_R) XOR c_if b1 (drop_bit 2 gcm_R) XOR c_if b2 (drop_bit 1 gcm_R) XOR c_if b3 gcm_R"
  by (cases b3; cases b2; cases b1; cases b0) (simp_all add: nibble_value_def last4_def lanes_def c_if_def gcm_R_def)

lemma mult_nibble_mulP:
  "case mult_nibble HH HL nib (zh, zl) of (zh', zl') \<Rightarrow>
     lanes zh' zl' = mulP (mulP (mulP (mulP (lanes zh zl)))) XOR lanes (HH ! unat nib) (HL ! unat nib)"
proof -
  let ?z = "lanes zh zl" and ?r = "ucast zl AND 0xf :: u8"
  have b: "bit (ucast zl :: u8) k = bit ?z k" if "k < 4" for k using that by (simp add: bit_simps bit_lanes)
  have r: "unat ?r = nibble_value (bit ?z 3) (bit ?z 2) (bit ?z 1) (bit ?z 0)" by (simp add: unat_nibble b)
  have s: "lanes (drop_bit 4 zh) (push_bit 60 zh OR drop_bit 4 zl) = drop_bit 4 ?z"
  proof (rule bit_eqI)
    fix n assume "possible_bit TYPE(u128) n"
    then consider "n < 60" | "60 \<le> n" "n < 64" | "64 \<le> n" "n < 128" by force
    then show "bit (lanes (drop_bit 4 zh) (push_bit 60 zh OR drop_bit 4 zl)) n = bit (drop_bit 4 ?z) n"
    proof cases
      case 2
      then have "4 + n - 64 = n - 60" by simp
      then show ?thesis using 2 by (auto simp: bit_lanes bit_simps dest: bit_imp_le_length)
    next
      case 3
      then have "4 + (n - 64) = 4 + n - 64" by simp
      then show ?thesis using 3 by (auto simp: bit_lanes bit_simps dest: bit_imp_le_length)
    qed (auto simp: bit_lanes bit_simps)
  qed
  show ?thesis
    unfolding mulP4 s [symmetric] last4_R [symmetric] r [symmetric]
    by (simp add: mult_nibble_def Let_def lanes_xor [symmetric])
qed

text \<open>What a table holds for a nibble: the sum of the multiples that its bits choose.\<close>

definition nibble_mul :: "bool \<Rightarrow> bool \<Rightarrow> bool \<Rightarrow> bool \<Rightarrow> u128 \<Rightarrow> u128" where
  "nibble_mul b3 b2 b1 b0 v = c_if b3 v XOR mulP (c_if b2 v XOR mulP (c_if b1 v XOR mulP (c_if b0 v)))"

definition tables_for :: "u128 \<Rightarrow> u64 list \<Rightarrow> u64 list \<Rightarrow> bool" where
  "tables_for v HH HL \<longleftrightarrow> (\<forall>b3 b2 b1 b0. lanes (HH ! nibble_value b3 b2 b1 b0) (HL ! nibble_value b3 b2 b1 b0) = nibble_mul b3 b2 b1 b0 v)"

lemma gmul_nibble: "gmul_bits (b3 # b2 # b1 # b0 # bs) v = nibble_mul b3 b2 b1 b0 v XOR mulP (mulP (mulP (mulP (gmul_bits bs v))))"
  by (simp add: nibble_mul_def c_if_def mulP_xor xor.assoc)

definition byte_bits :: "u8 \<Rightarrow> bool list" where
  "byte_bits b = [bit b 7, bit b 6, bit b 5, bit b 4, bit b 3, bit b 2, bit b 1, bit b 0]"

definition block_bits :: "u8 list \<Rightarrow> bool list" where
  "block_bits x = concat (map byte_bits x)"

definition low_nibble :: "u8 \<Rightarrow> u128 \<Rightarrow> u128" where
  "low_nibble w v = nibble_mul (bit w 3) (bit w 2) (bit w 1) (bit w 0) v"

lemma mult_nibble_table:
  assumes "tables_for v HH HL" and "mult_nibble HH HL (w AND 0xf) (zh, zl) = (zh', zl')"
  shows "lanes zh' zl' = mulP (mulP (mulP (mulP (lanes zh zl)))) XOR low_nibble w v"
  using mult_nibble_mulP [where HH = HH and HL = HL and nib = "w AND 0xf" and zh = zh and zl = zl] assms
  by (simp add: unat_nibble tables_for_def low_nibble_def)

lemma gmul_byte:
  "gmul_bits (byte_bits w @ bs) v = low_nibble (drop_bit 4 w) v XOR mulP (mulP (mulP (mulP (low_nibble w v XOR mulP (mulP (mulP (mulP (gmul_bits bs v))))))))"
  by (simp add: byte_bits_def gmul_nibble low_nibble_def bit_simps del: gmul_bits.simps(2))

text \<open>The value of the accumulator before byte \<open>i\<close>.\<close>

definition mult_inv :: "u128 \<Rightarrow> u8 list \<Rightarrow> nat \<Rightarrow> u64 \<times> u64 \<Rightarrow> bool" where
  "mult_inv v x i z \<longleftrightarrow>
     (if i = 16 then lanes (fst z) (snd z) = low_nibble (x ! 15) v
      else lanes (fst z) (snd z) = gmul_bits (block_bits (drop i x)) v)"

lemma mult_loop_step:
  assumes t: "tables_for v HH HL" and i: "Suc i \<le> 16" "length x = 16" and z: "mult_inv v x (Suc i) z"
  shows "\<exists>z'. mult_loop HH HL x (Suc i) z = mult_loop HH HL x i z' \<and> mult_inv v x i z'"
proof -
  let ?w = "x ! i" and ?rest = "gmul_bits (block_bits (drop (Suc i) x)) v"
  obtain zh1 zl1 where z1: "(if i \<noteq> 15 then mult_nibble HH HL (?w AND 0xf) z else z) = (zh1, zl1)" by (metis surj_pair)
  obtain zh2 zl2 where z2: "mult_nibble HH HL (drop_bit 4 ?w AND 0xf) (zh1, zl1) = (zh2, zl2)" by (metis surj_pair)
  have l1: "lanes zh1 zl1 = low_nibble ?w v XOR mulP (mulP (mulP (mulP ?rest)))"
  proof (cases "i = 15")
    case True
    then show ?thesis using z z1 i(2) by (simp add: mult_inv_def block_bits_def)
  next
    case False
    then show ?thesis
      using z z1 mult_nibble_table [OF t, of ?w "fst z" "snd z" zh1 zl1] by (simp add: mult_inv_def xor.commute)
  qed
  have "drop i x = ?w # drop (Suc i) x" using i by (simp add: Cons_nth_drop_Suc)
  then have "lanes zh2 zl2 = gmul_bits (block_bits (drop i x)) v"
    using mult_nibble_table [OF t z2] l1 by (simp add: block_bits_def gmul_byte xor.commute)
  moreover have "mult_loop HH HL x (Suc i) z = mult_loop HH HL x i (zh2, zl2)" using z1 z2 by (simp add: Let_def)
  ultimately show ?thesis using i(1) by (auto simp: mult_inv_def)
qed

lemma mult_loop_gmul:
  assumes "tables_for v HH HL" and "length x = 16"
  shows "i \<le> 16 \<Longrightarrow> mult_inv v x i z \<Longrightarrow> mult_inv v x 0 (mult_loop HH HL x i z)"
proof (induction i arbitrary: z)
  case (Suc i)
  then show ?case using mult_loop_step [OF assms(1) Suc.prems(1) assms(2) Suc.prems(2)] by auto
qed simp

lemma mult_tables_gmul:
  assumes "tables_for v HH HL" and "length x = 16"
  shows "\<exists>zh zl. mult_tables HH HL x = put_half zh @ put_half zl \<and> lanes zh zl = gmul_bits (block_bits x) v"
proof -
  let ?lo = "x ! 15 AND 0xf"
  have "mult_inv v x 16 (HH ! unat ?lo, HL ! unat ?lo)"
    using assms(1) by (simp add: mult_inv_def low_nibble_def unat_nibble tables_for_def)
  then have "mult_inv v x 0 (mult_loop HH HL x 16 (HH ! unat ?lo, HL ! unat ?lo))" by (intro mult_loop_gmul [OF assms]) simp_all
  then show ?thesis by (cases "mult_loop HH HL x 16 (HH ! unat ?lo, HL ! unat ?lo)") (auto simp: mult_tables_def Let_def mult_inv_def)
qed

section \<open>The tables are generated for the key\<close>

lemma list16_eq: "length xs = 16 \<Longrightarrow> xs = [xs ! 0, xs ! 1, xs ! 2, xs ! 3, xs ! 4, xs ! 5, xs ! 6, xs ! 7, xs ! 8, xs ! 9, xs ! 10, xs ! 11, xs ! 12, xs ! 13, xs ! 14, xs ! 15]"
  by (intro nth_equalityI) (auto simp: less_Suc_eq numeral_eq_Suc)

lemma gen_tables_correct:
  assumes len: "length HH = 16" "length HL = 16" and h: "HH ! 8 = vh" "HL ! 8 = vl"
  shows "case gen_tables vh vl HH HL of (HH', HL') \<Rightarrow> tables_for (lanes vh vl) HH' HL' \<and> length HH' = 16 \<and> length HL' = 16 \<and> HH' ! 8 = vh \<and> HL' ! 8 = vl"
proof -
  obtain ah al where a: "gen_shift (vh, vl) = (ah, al)" by fastforce
  obtain bh bl where b: "gen_shift (ah, al) = (bh, bl)" by fastforce
  obtain ch cl where c: "gen_shift (bh, bl) = (ch, cl)" by fastforce
  have l: "lanes ah al = mulP (lanes vh vl)" "lanes bh bl = mulP (lanes ah al)" "lanes ch cl = mulP (lanes bh bl)"
    using gen_shift_mulP [of vh vl] gen_shift_mulP [of ah al] gen_shift_mulP [of bh bl] a b c by simp_all
  let ?tab = "\<lambda>v a b c :: u64. [0, c, b, b XOR c, a, a XOR c, a XOR b, a XOR (b XOR c), v, v XOR c, v XOR b, v XOR (b XOR c), v XOR a, v XOR (a XOR c), v XOR (a XOR b), v XOR (a XOR (b XOR c))]"
  have g: "gen_tables vh vl HH HL = (?tab vh ah bh ch, ?tab vl al bl cl)"
    using h by (subst list16_eq [OF len(1)], subst list16_eq [OF len(2)])
      (simp add: gen_tables_def gen_powers_body_def gen_sums_body_def Let_def a b c upt_rec numeral_nat)
  have "tables_for (lanes vh vl) (?tab vh ah bh ch) (?tab vl al bl cl)"
    unfolding tables_for_def nibble_mul_def c_if_def
  proof (intro allI)
    fix b3 b2 b1 b0
    show "lanes (?tab vh ah bh ch ! nibble_value b3 b2 b1 b0) (?tab vl al bl cl ! nibble_value b3 b2 b1 b0) =
      (if b3 then lanes vh vl else 0) XOR mulP ((if b2 then lanes vh vl else 0) XOR mulP ((if b1 then lanes vh vl else 0) XOR mulP (if b0 then lanes vh vl else 0)))"
      by (cases b3; cases b2; cases b1; cases b0) (simp_all add: nibble_value_def lanes_xor l mulP_xor)
  qed
  then show ?thesis unfolding g by simp
qed

section \<open>Blocks as field elements\<close>

lemma byte_of_bits: "bit (ucast (b :: u8) :: 'a::len word) n \<longleftrightarrow> n < LENGTH('a) \<and> n < 8 \<and> bit b n"
  by (auto simp: bit_simps dest: bit_imp_le_length)

lemma div_mod_8: "b < 8 \<Longrightarrow> (8 * a + b) div 8 = a \<and> (8 * a + b) mod 8 = (b :: nat)"
  by simp

lemma bit_load_part:
  assumes "k \<le> 16"
  shows "bit (fold (\<lambda>i z. z OR push_bit (8 * i) (ucast (ys ! i))) [0..<k] (0 :: u128)) n \<longleftrightarrow> n < 8 * k \<and> bit ((ys ! (n div 8)) :: u8) (n mod 8)"
  using assms
proof (induction k)
  case (Suc k)
  have "8 * k \<le> n \<and> n < 128 \<and> bit (ys ! k) (n - 8 * k) \<longleftrightarrow> 8 * k \<le> n \<and> n < 8 * k + 8 \<and> bit (ys ! (n div 8)) (n mod 8)"
  proof (cases "8 * k \<le> n \<and> n < 8 * k + 8")
    case True
    then have "n = 8 * k + (n - 8 * k)" "n - 8 * k < 8" by linarith+
    then have "n div 8 = k" "n mod 8 = n - 8 * k" using div_mod_8 [of "n - 8 * k" k] by metis+
    then show ?thesis using True Suc.prems by auto
  next
    case False
    then have "8 * k \<le> n \<Longrightarrow> \<not> bit (ys ! k) (n - 8 * k)" using bit_imp_le_length [of "ys ! k" "n - 8 * k"] by auto
    then show ?thesis using False by auto
  qed
  then show ?case using Suc by (auto simp: bit_simps byte_of_bits)
qed simp

lemma bit_load128: "bit (load128 ys) n \<longleftrightarrow> n < 128 \<and> bit (ys ! (n div 8)) (n mod 8)"
  using bit_load_part [of 16 ys n] by (simp add: load128_def)

lemma load_store128: "load128 (store128 w) = w"
proof (rule bit_eqI)
  fix n assume "possible_bit TYPE(u128) n"
  then have n: "n < 128" "n div 8 < 16" by (simp_all add: less_mult_imp_div_less)
  then have "bit (load128 (store128 w)) n = bit w (8 * (n div 8) + n mod 8)"
    by (auto simp: bit_load128 store128_def bit_simps)
  then show "bit (load128 (store128 w)) n = bit w n" by simp
qed

lemma store_load128: "length ys = 16 \<Longrightarrow> store128 (load128 ys) = ys"
proof (rule nth_equalityI)
  fix i assume l: "length ys = 16" and "i < length (store128 (load128 ys))"
  then have i: "i < 16" by (simp add: store128_def)
  show "store128 (load128 ys) ! i = ys ! i"
  proof (rule bit_eqI)
    fix n assume "possible_bit TYPE(u8) n"
    then have n: "n < 8" "8 * i + n < 128" using i by simp_all
    then have "(8 * i + n) div 8 = i" "(8 * i + n) mod 8 = n" by simp_all
    then show "bit (store128 (load128 ys) ! i) n = bit (ys ! i) n"
      using n i by (simp add: store128_def bit_simps bit_load128)
  qed
qed (simp add: store128_def)

definition block_elem :: "u8 list \<Rightarrow> u128" where
  "block_elem x = load128 (rev x)"

definition elem_block :: "u128 \<Rightarrow> u8 list" where
  "elem_block w = rev (store128 w)"

lemma length_elem_block [simp]: "length (elem_block w) = 16"
  by (simp add: elem_block_def store128_def)

lemma elem_block_elem [simp]: "block_elem (elem_block w) = w" "length x = 16 \<Longrightarrow> elem_block (block_elem x) = x"
  by (simp_all add: block_elem_def elem_block_def load_store128 store_load128)

lemma bit_block_elem: "length x = 16 \<Longrightarrow> bit (block_elem x) n \<longleftrightarrow> n < 128 \<and> bit (x ! (15 - n div 8)) (n mod 8)"
proof -
  assume "length x = 16"
  moreover have "n < 128 \<Longrightarrow> n div 8 < 16" by (simp add: less_mult_imp_div_less)
  ultimately show ?thesis by (auto simp: block_elem_def bit_load128 rev_nth)
qed

lemma length_byte_bits: "length (byte_bits b) = 8"
  by (simp add: byte_bits_def)

lemma nth_block_bits: "n < 8 * length x \<Longrightarrow> block_bits x ! n = bit (x ! (n div 8)) (7 - n mod 8)"
proof (induction x arbitrary: n)
  case (Cons b x)
  show ?case
  proof (cases "n < 8")
    case True
    then have "n \<in> {0, 1, 2, 3, 4, 5, 6, 7}" by auto
    then show ?thesis by (elim insertE emptyE) (simp_all add: block_bits_def byte_bits_def)
  next
    case False
    then have "n div 8 = Suc ((n - 8) div 8)" "n mod 8 = (n - 8) mod 8" by (simp_all add: le_div_geq le_mod_geq)
    moreover have "block_bits (b # x) ! n = block_bits x ! (n - 8)" using False by (simp add: block_bits_def nth_append length_byte_bits)
    ultimately show ?thesis using Cons False by simp
  qed
qed simp

lemma length_block_bits: "length (block_bits x) = 8 * length x"
  by (induction x) (simp_all add: block_bits_def byte_bits_def)

lemma block_bits_elem: "length x = 16 \<Longrightarrow> bits128 (block_elem x) = block_bits x"
proof (rule nth_equalityI)
  fix n assume l: "length x = 16" and "n < length (bits128 (block_elem x))"
  then have n: "n < 128" by (simp add: bits128_def)
  have d: "(127 - n) div 8 = 15 - n div 8" "(127 - n) mod 8 = 7 - n mod 8"
  proof -
    have "127 - n = 8 * (15 - n div 8) + (7 - n mod 8)" "7 - n mod 8 < 8"
      using n mult_div_mod_eq [of 8 n] by (simp_all add: diff_mult_distrib2 less_mult_imp_div_less)
    then show "(127 - n) div 8 = 15 - n div 8" "(127 - n) mod 8 = 7 - n mod 8"
      using div_mod_8 [of "7 - n mod 8" "15 - n div 8"] by simp_all
  qed
  have "15 - (15 - n div 8) = n div 8" using n by (simp add: less_mult_imp_div_less Suc_leI flip: less_Suc_eq_le)
  then show "bits128 (block_elem x) ! n = block_bits x ! n"
    using n l d by (simp add: bits128_def bit_block_elem nth_block_bits less_imp_diff_less)
qed (simp add: bits128_def length_block_bits)

lemma GET_BE_le32: "MBEDTLS_GET_UINT32_BE x off = le32 (x ! (off + 3)) (x ! (off + 2)) (x ! (off + 1)) (x ! off)"
  by (simp add: MBEDTLS_GET_UINT32_BE_def le32_def ac_simps)

lemma block_byte_cases: "n < 32 \<Longrightarrow> n div 8 = 0 \<and> n mod 8 = n \<and> n < 8 \<or> n div 8 = 1 \<and> n mod 8 = n - 8 \<and> 8 \<le> n \<and> n < 16 \<or>
    n div 8 = 2 \<and> n mod 8 = n - 16 \<and> 16 \<le> n \<and> n < 24 \<or> n div 8 = 3 \<and> n mod 8 = n - 24 \<and> 24 \<le> (n :: nat)"
proof -
  assume "n < 32"
  then consider "n < 8" | "8 \<le> n" "n < 16" | "16 \<le> n" "n < 24" | "24 \<le> n" by linarith
  then show ?thesis
  proof cases
    case 2
    then show ?thesis using div_mod_8 [of "n - 8" 1] by simp
  next
    case 3
    then show ?thesis using div_mod_8 [of "n - 16" 2] by simp
  next
    case 4
    then show ?thesis using div_mod_8 [of "n - 24" 3] \<open>n < 32\<close> by simp
  qed simp
qed

lemma bit_GET_BE: "bit (MBEDTLS_GET_UINT32_BE x off) n \<longleftrightarrow> n < 32 \<and> bit (x ! (off + 3 - n div 8)) (n mod 8)"
proof (cases "n < 32")
  case True
  from block_byte_cases [OF this] show ?thesis
    using True by (elim disjE conjE) (simp_all add: GET_BE_le32 bit_le32)
next
  case False
  then show ?thesis by (simp add: GET_BE_le32 bit_le32)
qed

lemma bit_get_half: "bit (get_half x off) n \<longleftrightarrow> n < 64 \<and> bit (x ! (off + 7 - n div 8)) (n mod 8)"
proof (cases "n < 32")
  case True
  then have "off + 4 + 3 - n div 8 = off + 7 - n div 8" by simp
  then show ?thesis using True by (simp add: get_half_def Let_def bit_simps bit_GET_BE)
next
  case False
  then have "n = 8 * 4 + (n - 32)" by simp
  then have "n div 8 = 4 + (n - 32) div 8" "n mod 8 = (n - 32) mod 8"
    by (metis div_mult_self4 zero_neq_numeral, metis mod_mult_self4)
  then show ?thesis using False by (auto simp: get_half_def Let_def bit_simps bit_GET_BE add.commute [of off])
qed

lemma halves_elem: "length x = 16 \<Longrightarrow> lanes (get_half x 0) (get_half x 8) = block_elem x"
proof (rule bit_eqI)
  fix n assume l: "length x = 16" and "possible_bit TYPE(u128) n"
  then have n: "n < 128" by simp
  show "bit (lanes (get_half x 0) (get_half x 8)) n = bit (block_elem x) n"
  proof (cases "n < 64")
    case True
    then show ?thesis using l n by (simp add: bit_lanes bit_get_half bit_block_elem)
  next
    case False
    have "n = 8 * 8 + (n - 64)" using False by simp
    then have "n div 8 = 8 + (n - 64) div 8" "n mod 8 = (n - 64) mod 8"
      by (metis div_mult_self4 zero_neq_numeral, metis mod_mult_self4)
    moreover have "n - 64 < 64" using n by linarith
    ultimately show ?thesis using False l n by (simp add: bit_lanes bit_get_half bit_block_elem)
  qed
qed

lemma get_half_put: "get_half (put_half zh @ xs) 0 = zh" "get_half (put_half zh @ put_half zl) 8 = zl"
proof -
  have *: "push_bit 32 (ucast (ucast (drop_bit 32 z) :: u32)) OR ucast (ucast z :: u32) = z" for z :: u64
    by (rule bit_eqI) (auto simp: bit_simps)
  show "get_half (put_half zh @ xs) 0 = zh" "get_half (put_half zh @ put_half zl) 8 = zl"
    by (simp_all add: get_half_def Let_def GET_BE_le32 put_half_def MBEDTLS_PUT_UINT32_BE_def *)
qed

lemma length_put_half [simp]: "length (put_half z) = 8"
  by (simp add: put_half_def MBEDTLS_PUT_UINT32_BE_def)

lemma put_halves_block: "put_half zh @ put_half zl = elem_block (lanes zh zl)"
proof -
  have "block_elem (put_half zh @ put_half zl) = lanes zh zl"
    using halves_elem [of "put_half zh @ put_half zl"] by (simp add: get_half_put)
  then show ?thesis using elem_block_elem(2) [of "put_half zh @ put_half zl"] by simp
qed

lemma mult_tables_correct:
  assumes "tables_for v HH HL" and "length x = 16"
  shows "mult_tables HH HL x = elem_block (gmul (block_elem x) v)"
  using mult_tables_gmul [OF assms] by (auto simp: put_halves_block gmul_def nist_mult_gmul block_bits_elem [OF assms(2)])

end
