(* ===== verification/GCM_Clmul.thy ===== *)
theory GCM_Clmul
  imports GCM_Field
begin

unbundle bit_operations_syntax

text \<open>
  The assembly of \<^verbatim>\<open>mbedtls_aesni_gcm_mult\<close> is the multiplication of the standard: the four products of halves
  make the product without carries, the shift by one bit puts it into the bit order of GCM, and the two
  folds with shifts by 63, 62 and 57 are the reduction modulo the polynomial of the field.
\<close>

section \<open>Carry-less multiplication\<close>

definition xorsum :: "(nat \<Rightarrow> 'a::len word) \<Rightarrow> nat \<Rightarrow> 'a word" where
  "xorsum f n = fold (\<lambda>i z. z XOR f i) [0..<n] 0"

lemma xorsum_simps [simp]: "xorsum f 0 = 0" "xorsum f (Suc n) = xorsum f n XOR f n"
  by (simp_all add: xorsum_def)

lemma xorsum_hom:
  assumes "h 0 = 0" and "\<And>a b. h (a XOR b) = h a XOR h b"
  shows "h (xorsum f n) = xorsum (\<lambda>i. h (f i)) n"
  by (induction n) (simp_all add: assms)

lemma xorsum_cong: "(\<And>i. i < n \<Longrightarrow> f i = g i) \<Longrightarrow> xorsum f n = xorsum g n"
  by (induction n) simp_all

lemma xorsum_add: "xorsum f (m + n) = xorsum f m XOR xorsum (\<lambda>i. f (m + i)) n"
  by (induction n) (simp_all add: xor.assoc)

lemma xorsum_xor: "xorsum (\<lambda>i. f i XOR g i) n = xorsum f n XOR xorsum g n"
  by (induction n) (simp_all add: ac_simps)

type_synonym u256 = "256 word"

text \<open>The product of two polynomials, the bits of the first factor choosing shifts of the second.\<close>

definition clmul :: "u128 \<Rightarrow> u128 \<Rightarrow> u256" where
  "clmul a b = xorsum (\<lambda>i. if bit a i then push_bit i (ucast b) else 0) 128"

definition w256 :: "u128 \<times> u128 \<Rightarrow> u256" where
  "w256 x = push_bit 128 (ucast (fst x)) OR ucast (snd x)"

lemma bit_w256: "bit (w256 (h, l)) n \<longleftrightarrow> (if n < 128 then bit l n else n < 256 \<and> bit h (n - 128))"
  by (auto simp: w256_def bit_simps dest: bit_imp_le_length)

lemma clmul64_wide: "(ucast (clmul64 x y) :: u256) = xorsum (\<lambda>i. if bit y i then push_bit i (ucast x) else 0) 64"
proof -
  have "(ucast (clmul64 x y) :: u256) = xorsum (\<lambda>i. ucast (if bit y i then push_bit i (ucast x :: u128) else 0)) 64"
    unfolding clmul64_def xorsum_def [symmetric] by (rule xorsum_hom) (auto intro!: bit_eqI simp: bit_simps)
  also have "\<dots> = xorsum (\<lambda>i. if bit y i then push_bit i (ucast x) else 0) 64"
  proof (rule xorsum_cong)
    fix i :: nat assume "i < 64"
    then have "(ucast (push_bit i (ucast x :: u128)) :: u256) = push_bit i (ucast x)"
    proof (intro bit_eqI)
      fix n
      have "n - i < 64" if "bit x (n - i)" using bit_imp_le_length [OF that] by simp
      then show "bit (ucast (push_bit i (ucast x :: u128)) :: u256) n = bit (push_bit i (ucast x) :: u256) n"
        using \<open>i < 64\<close> by (auto simp: bit_simps)
    qed
    then show "ucast (if bit y i then push_bit i (ucast x :: u128) else 0) = (if bit y i then push_bit i (ucast x) else (0 :: u256))" by simp
  qed
  finally show ?thesis .
qed

lemma wide_halves: "(ucast b :: u256) = push_bit 64 (ucast (lane_hi b)) XOR ucast (lane_lo b)"
  by (rule bit_eqI) (auto simp: lane_hi_def lane_lo_def bit_simps dest: bit_imp_le_length)

lemma clmul_half:
  "xorsum (\<lambda>i. if bit y i then push_bit i (ucast b :: u256) else 0) 64 =
     push_bit 64 (ucast (clmul64 (lane_hi b) y)) XOR ucast (clmul64 (lane_lo b) y)"
proof -
  have "xorsum (\<lambda>i. if bit y i then push_bit i (ucast b :: u256) else 0) 64 =
      xorsum (\<lambda>i. push_bit 64 (if bit y i then push_bit i (ucast (lane_hi b)) else 0) XOR (if bit y i then push_bit i (ucast (lane_lo b)) else 0)) 64"
    by (rule xorsum_cong) (simp add: wide_halves [of b] push_bit_xor push_bit_push_bit add.commute)
  also have "\<dots> = push_bit 64 (ucast (clmul64 (lane_hi b) y)) XOR ucast (clmul64 (lane_lo b) y)"
    unfolding xorsum_xor clmul64_wide by (subst xorsum_hom [where h = "push_bit 64"]) simp_all
  finally show ?thesis .
qed

lemma clmul_parts:
  "clmul a b = push_bit 64 (ucast (clmul64 (lane_hi b) (lane_lo a))) XOR ucast (clmul64 (lane_lo b) (lane_lo a)) XOR
     push_bit 64 (push_bit 64 (ucast (clmul64 (lane_hi b) (lane_hi a))) XOR ucast (clmul64 (lane_lo b) (lane_hi a)))"
proof -
  have "clmul a b = xorsum (\<lambda>i. if bit a i then push_bit i (ucast b) else 0) 64 XOR
      xorsum (\<lambda>i. if bit a (64 + i) then push_bit (64 + i) (ucast b) else 0) 64"
    unfolding clmul_def using xorsum_add [of "\<lambda>i. if bit a i then push_bit i (ucast b) else (0 :: u256)" 64 64] by simp
  also have "xorsum (\<lambda>i. if bit a i then push_bit i (ucast b) else (0 :: u256)) 64 = xorsum (\<lambda>i. if bit (lane_lo a) i then push_bit i (ucast b) else 0) 64"
    by (rule xorsum_cong) (simp add: lane_lo_def bit_simps)
  also have "xorsum (\<lambda>i. if bit a (64 + i) then push_bit (64 + i) (ucast b) else (0 :: u256)) 64 =
      push_bit 64 (xorsum (\<lambda>i. if bit (lane_hi a) i then push_bit i (ucast b) else 0) 64)"
    by (subst xorsum_hom [where h = "push_bit 64"])
      (auto intro!: xorsum_cong simp: lane_hi_def bit_simps push_bit_push_bit)
  finally show ?thesis unfolding clmul_half by (simp only: xor.assoc)
qed

lemma clmul_product_correct: "w256 (clmul_product a b) = clmul a b"
proof -
  define p q r t where pqrt: "p = clmul64 (lane_lo b) (lane_lo a)" "q = clmul64 (lane_hi b) (lane_hi a)"
    "r = clmul64 (lane_lo b) (lane_hi a)" "t = clmul64 (lane_hi b) (lane_lo a)"
  have prod: "clmul_product a b = (q XOR drop_bit 64 (t XOR r), p XOR push_bit 64 (t XOR r))"
    by (simp add: clmul_product_def pclmulqdq_def psrldq8_def pslldq8_def Let_def pqrt bit_0)
  have "bit (push_bit 64 (ucast w :: u256)) n \<longleftrightarrow> (if n < 128 then bit (push_bit 64 w) n else n < 256 \<and> bit (drop_bit 64 w) (n - 128))" for w :: u128 and n
    by (auto simp: bit_simps dest: bit_imp_le_length)
  then have m: "push_bit 64 (ucast w :: u256) = w256 (drop_bit 64 w, push_bit 64 w)" for w :: u128
    by (auto intro!: bit_eqI simp: bit_w256)
  have x: "w256 (h XOR h', l XOR l') = w256 (h, l) XOR w256 (h', l')" for h h' l l'
    by (rule bit_eqI) (auto simp: bit_w256 bit_simps)
  have e: "(ucast p :: u256) = w256 (0, p)" "push_bit 128 (ucast q :: u256) = w256 (q, 0)" by (simp_all add: w256_def)
  have "clmul a b = push_bit 64 (ucast (t XOR r)) XOR ucast p XOR push_bit 128 (ucast q)"
    unfolding clmul_parts pqrt [symmetric] by (simp add: push_bit_xor push_bit_push_bit unsigned_xor_eq ac_simps)
  also have "\<dots> = w256 (q XOR drop_bit 64 (t XOR r), p XOR push_bit 64 (t XOR r))"
    unfolding m e x [symmetric] by (simp add: ac_simps)
  finally show ?thesis by (simp add: prod)
qed

lemma bit_psllq: "bit (psllq k w) n \<longleftrightarrow> n < 128 \<and> bit w (n - k) \<and> (if n < 64 then k \<le> n else 64 + k \<le> n)"
  by (auto simp: psllq_def bit_lanes lane_lo_def lane_hi_def bit_simps)

lemma bit_psrlq: "bit (psrlq k w) n \<longleftrightarrow> bit w (n + k) \<and> (if n < 64 then n + k < 64 else n < 128)"
  by (auto simp: psrlq_def bit_lanes lane_lo_def lane_hi_def bit_simps add.commute dest: bit_imp_le_length)

lemma clmul_shift_correct: "w256 (clmul_shift x) = push_bit 1 (w256 x)"
proof -
  obtain h l where x: "x = (h, l)" by (cases x)
  have l': "snd (clmul_shift (h, l)) = push_bit 1 l"
  proof (rule bit_eqI)
    fix n assume "possible_bit TYPE(u128) n"
    then consider "n < 64" | "n = 64" | "64 < n" "n < 128" by force
    then show "bit (snd (clmul_shift (h, l))) n = bit (push_bit 1 l) n"
      unfolding bit_push_bit_iff by cases (auto simp: clmul_shift_def Let_def pslldq8_def bit_psllq bit_psrlq bit_simps)
  qed
  have h': "fst (clmul_shift (h, l)) = push_bit 1 h OR (if bit l 127 then 1 else 0)"
  proof (rule bit_eqI)
    fix n assume "possible_bit TYPE(u128) n"
    then consider "n = 0" | "0 < n" "n < 64" | "n = 64" | "64 < n" "n < 128" by force
    then show "bit (fst (clmul_shift (h, l))) n = bit (push_bit 1 h OR (if bit l 127 then 1 else 0)) n"
      using bit_imp_le_length [of l "127 + n"] unfolding bit_push_bit_iff bit_or_iff by cases (auto simp: clmul_shift_def Let_def pslldq8_def psrldq8_def bit_psllq bit_psrlq bit_simps)
  qed
  have cs: "clmul_shift (h, l) = (push_bit 1 h OR (if bit l 127 then 1 else 0), push_bit 1 l)"
    using l' h' by (simp only: prod_eq_iff fst_conv snd_conv)
  show ?thesis
  proof (rule bit_eqI)
    fix n assume "possible_bit TYPE(u256) n"
    then consider "n < 128" | "n = 128" | "128 < n" "n < 256" by force
    then show "bit (w256 (clmul_shift x)) n = bit (push_bit 1 (w256 x)) n"
      unfolding x cs bit_push_bit_iff bit_w256 bit_or_iff
    proof cases
      case 3
      then have "n - 128 - 1 = n - 1 - 128" "n - 128 \<noteq> 0" "n - 128 < 128" by linarith+
      then show "(if n < 128 then 1 \<le> n \<and> possible_bit TYPE(u128) n \<and> bit l (n - 1)
          else n < 256 \<and> (1 \<le> n - 128 \<and> possible_bit TYPE(u128) (n - 128) \<and> bit h (n - 128 - 1) \<or> bit (if bit l 127 then 1 else 0 :: u128) (n - 128))) =
        (1 \<le> n \<and> possible_bit TYPE(u256) n \<and> (if n - 1 < 128 then bit l (n - 1) else n - 1 < 256 \<and> bit h (n - 1 - 128)))"
        using 3 by (auto simp: bit_1_iff)
    qed (auto simp: bit_1_iff)
  qed
qed

section \<open>Reduction\<close>

definition foldP :: "u128 \<Rightarrow> u128" where
  "foldP v = v XOR mulP v XOR mulP (mulP v) XOR (mulP ^^ 7) v"

definition spread_low :: "u128 \<Rightarrow> u128" where
  "spread_low v = v XOR push_bit 127 v XOR push_bit 126 v XOR push_bit 121 v"

definition sum_shifts :: "u128 \<Rightarrow> u128" where
  "sum_shifts d = d XOR drop_bit 1 d XOR drop_bit 2 d XOR drop_bit 7 d"

lemma psrlq_psllq: "0 < k \<Longrightarrow> k < 64 \<Longrightarrow> psrlq k d XOR psrldq8 (psllq (64 - k) d) = drop_bit k d"
proof (rule bit_eqI)
  fix n assume k: "0 < k" "k < 64" and "possible_bit TYPE(u128) n"
  then have n: "n < 128" by simp
  have "64 + n - (64 - k) = n + k" using k by simp
  then show "bit (psrlq k d XOR psrldq8 (psllq (64 - k) d)) n = bit (drop_bit k d) n"
    using n k by (auto simp: bit_psrlq bit_psllq psrldq8_def bit_simps add.commute dest: bit_imp_le_length)
qed

lemma pslldq8_psllq: "k < 64 \<Longrightarrow> pslldq8 (psllq k w) = push_bit (64 + k) w"
  by (rule bit_eqI) (auto simp: pslldq8_def bit_psllq bit_simps)

lemma clmul_reduce_shifts: "clmul_reduce (h, l) = h XOR sum_shifts (spread_low l)"
proof -
  have d: "l XOR pslldq8 (psllq 63 l XOR psllq 62 l XOR psllq 57 l) = spread_low l"
    using pslldq8_psllq [of 63 l] pslldq8_psllq [of 62 l] pslldq8_psllq [of 57 l] by (simp add: pslldq8_def push_bit_xor spread_low_def xor.assoc)
  define s where "s = spread_low l"
  have "clmul_reduce (h, l) = h XOR (s XOR ((psrlq 1 s XOR psrlq 2 s XOR psrlq 7 s) XOR psrldq8 (psllq 63 s XOR psllq 62 s XOR psllq 57 s)))"
    unfolding s_def d [symmetric] by (simp add: clmul_reduce_def Let_def ac_simps)
  also have "psrldq8 (psllq 63 s XOR psllq 62 s XOR psllq 57 s) = psrldq8 (psllq 63 s) XOR psrldq8 (psllq 62 s) XOR psrldq8 (psllq 57 s)"
    by (simp add: psrldq8_def)
  also have "(psrlq 1 s XOR psrlq 2 s XOR psrlq 7 s) XOR (psrldq8 (psllq 63 s) XOR psrldq8 (psllq 62 s) XOR psrldq8 (psllq 57 s)) =
      drop_bit 1 s XOR drop_bit 2 s XOR drop_bit 7 s"
  proof -
    have "drop_bit 1 s = psrlq 1 s XOR psrldq8 (psllq 63 s)" "drop_bit 2 s = psrlq 2 s XOR psrldq8 (psllq 62 s)"
      "drop_bit 7 s = psrlq 7 s XOR psrldq8 (psllq 57 s)"
      using psrlq_psllq [of 1 s] psrlq_psllq [of 2 s] psrlq_psllq [of 7 s] by simp_all
    then show ?thesis by (simp only: ac_simps)
  qed
  finally show ?thesis by (simp add: s_def sum_shifts_def xor.assoc)
qed

lemma mulP_pow_xor: "(mulP ^^ k) (a XOR b) = (mulP ^^ k) a XOR (mulP ^^ k) b"
  by (induction k) (simp_all add: mulP_xor)

lemma mulP_pow_0 [simp]: "(mulP ^^ k) 0 = 0"
  by (induction k) simp_all

lemma mulP_pow_swap: "(mulP ^^ k) (mulP v) = mulP ((mulP ^^ k) v)"
  by (simp add: funpow_swap1)

lemma mulP_pow_drop: "\<not> (\<exists>i<k. bit v i) \<Longrightarrow> (mulP ^^ k) v = drop_bit k v"
proof (induction k)
  case (Suc k)
  then have "(mulP ^^ k) v = drop_bit k v" "\<not> bit (drop_bit k v) 0" by (auto simp: bit_simps)
  then show ?case by (simp add: mulP_even)
qed simp

lemma foldP_xor: "foldP (a XOR b) = foldP a XOR foldP b"
  unfolding foldP_def mulP_xor mulP_pow_xor by (simp only: ac_simps)

lemma shifts_xor: "sum_shifts (spread_low (a XOR b)) = sum_shifts (spread_low a) XOR sum_shifts (spread_low b)"
  unfolding sum_shifts_def spread_low_def push_bit_xor drop_bit_xor by (simp only: ac_simps)

lemma fold_zero: "foldP 0 = 0" "sum_shifts (spread_low 0) = 0"
  by (simp_all add: foldP_def sum_shifts_def spread_low_def)

lemma mulP_7: "(mulP ^^ 7) v = mulP (mulP (mulP (mulP (mulP (mulP (mulP v))))))"
  by (simp add: numeral_eq_Suc)

lemma foldP_basis: "i < 7 \<Longrightarrow> foldP (push_bit i 1) = sum_shifts (spread_low (push_bit i 1))"
proof -
  assume "i < 7"
  then have "i \<in> {0, 1, 2, 3, 4, 5, 6}" by auto
  then show ?thesis
    by (elim insertE emptyE) (simp_all add: foldP_def sum_shifts_def spread_low_def mulP_7 mulP_def gcm_R_def)
qed

lemma foldP_shifts: "foldP v = sum_shifts (spread_low v)"
proof -
  define u where "u n = xorsum (\<lambda>i. if bit v i then push_bit i (1 :: u128) else 0) n" for n
  have un: "foldP (u n) = sum_shifts (spread_low (u n))" if "n \<le> 7" for n
    using that
  proof (induction n)
    case 0
    then show ?case by (simp add: u_def fold_zero)
  next
    case (Suc n)
    then show ?case using foldP_basis [of n] by (simp add: u_def foldP_xor shifts_xor fold_zero)
  qed
  have bu: "bit (u n) i \<longleftrightarrow> i < n \<and> bit v i" for n i
    by (induction n) (auto simp: u_def bit_simps less_Suc_eq dest: bit_imp_le_length)
  define r where "r = v XOR u 7"
  have br: "\<not> bit r i" if "i < 7" for i using that by (simp add: r_def bit_simps bu)
  have d: "(mulP ^^ k) r = drop_bit k r" if "k \<le> 7" for k using that br by (intro mulP_pow_drop) auto
  have "push_bit k r = 0" if "121 \<le> k" for k
    using that br by (intro bit_eqI) (auto simp: bit_simps)
  then have "spread_low r = r" by (simp add: spread_low_def)
  then have "foldP r = sum_shifts (spread_low r)"
    using d [of 1] d [of 2] d [of 7] by (simp add: foldP_def sum_shifts_def numeral_2_eq_2)
  moreover have "v = r XOR u 7" by (simp add: r_def xor.assoc)
  ultimately show ?thesis using un [of 7] foldP_xor [of r "u 7"] shifts_xor [of r "u 7"] by simp
qed

lemma mulP_pow_one: "j \<le> 127 \<Longrightarrow> (mulP ^^ j) field_one = push_bit (127 - j) 1"
proof (induction j)
  case (Suc j)
  then have "\<not> bit (push_bit (127 - j) 1 :: u128) 0" by (simp add: bit_simps)
  moreover have "drop_bit 1 (push_bit (127 - j) 1 :: u128) = push_bit (127 - Suc j) 1"
  proof (rule bit_eqI)
    fix n show "bit (drop_bit 1 (push_bit (127 - j) 1 :: u128)) n = bit (push_bit (127 - Suc j) 1 :: u128) n"
      unfolding bit_drop_bit_eq comp_def bit_push_bit_iff bit_1_iff using Suc.prems by auto
  qed
  ultimately show ?case using Suc by (simp add: mulP_even)
qed (simp add: field_one_def)

lemma P128: "(mulP ^^ 128) field_one = gcm_R" "foldP field_one = gcm_R"
proof -
  have "(128::nat) = Suc 127" by simp
  then have "(mulP ^^ 128) field_one = mulP ((mulP ^^ 127) field_one)" by (simp only: funpow.simps comp_apply)
  also have "\<dots> = mulP 1" by (simp add: mulP_pow_one)
  also have "\<dots> = gcm_R" by (simp add: mulP_def)
  finally show "(mulP ^^ 128) field_one = gcm_R" .
  show "foldP field_one = gcm_R" by (simp add: foldP_def mulP_7 mulP_def field_one_def gcm_R_def)
qed

lemma gmul_bits_pow: "gmul_bits bs ((mulP ^^ k) v) = (mulP ^^ k) (gmul_bits bs v)"
  by (induction k) (simp_all add: gmul_bits_mulP)

lemma foldP_P128: "foldP v = (mulP ^^ 128) v"
proof -
  have "gmul_bits bs (foldP w) = foldP (gmul_bits bs w)" for bs w
    by (simp add: foldP_def gmul_bits_xor gmul_bits_mulP gmul_bits_pow)
  then have "foldP v = gmul_bits (bits128 v) gcm_R" by (metis gmul_one P128(2))
  moreover have "(mulP ^^ 128) v = gmul_bits (bits128 v) gcm_R" by (metis gmul_one gmul_bits_pow P128(1))
  ultimately show ?thesis by simp
qed

text \<open>The remainder of a product that is shifted by one bit.\<close>

definition red256 :: "u256 \<Rightarrow> u128" where
  "red256 w = ucast (drop_bit 128 w) XOR (mulP ^^ 128) (ucast w)"

lemma red256_xor: "red256 (a XOR b) = red256 a XOR red256 b"
proof -
  have "(ucast (a XOR b) :: u128) = ucast a XOR ucast b" "(ucast (drop_bit 128 (a XOR b)) :: u128) = ucast (drop_bit 128 a) XOR ucast (drop_bit 128 b)"
    by (auto intro!: bit_eqI simp: bit_simps)
  then show ?thesis by (simp add: red256_def mulP_pow_xor ac_simps)
qed

lemma clmul_reduce_red256: "clmul_reduce (h, l) = red256 (w256 (h, l))"
proof -
  have "(ucast (w256 (h, l)) :: u128) = l" "(ucast (drop_bit 128 (w256 (h, l))) :: u128) = h"
    by (auto intro!: bit_eqI simp: bit_simps bit_w256 add.commute)
  then show ?thesis by (simp add: clmul_reduce_shifts red256_def flip: foldP_shifts foldP_P128)
qed

lemma push_high_half:
  "(ucast (drop_bit 128 (push_bit 1 w)) :: u128) = push_bit 1 (ucast (drop_bit 128 w)) XOR c_if (bit (w :: u256) 127) 1"
  (is "?lhs = ?rhs")
proof (rule bit_eqI)
  fix n assume "possible_bit TYPE(u128) n"
  then consider "n = 0" | "0 < n" "n < 128" by force
  then show "bit ?lhs n = bit ?rhs n"
  proof cases
    case 1
    then show ?thesis
      unfolding bit_xor_iff bit_ucast_iff bit_drop_bit_eq comp_def bit_push_bit_iff by (auto simp: c_if_def bit_1_iff)
  next
    case 2
    then have "128 + n - 1 = 128 + (n - 1)" "bit (c_if (bit w 127) 1 :: u128) n = False" by (simp_all add: c_if_def bit_1_iff)
    then show ?thesis using 2
      unfolding bit_xor_iff bit_ucast_iff bit_drop_bit_eq comp_def bit_push_bit_iff by auto
  qed
qed

lemma mulP_push_low_half: "mulP (ucast (push_bit 1 w)) = ucast w XOR c_if (bit (w :: u256) 127) field_one"
proof -
  have e: "\<not> bit (ucast (push_bit 1 w) :: u128) 0" unfolding bit_ucast_iff bit_push_bit_iff by simp
  show ?thesis unfolding mulP_even [OF e]
  proof (rule bit_eqI)
    fix n assume "possible_bit TYPE(u128) n"
    then have n: "n < 128" by simp
    show "bit (drop_bit 1 (ucast (push_bit 1 w) :: u128)) n = bit (ucast w XOR c_if (bit w 127) field_one) n"
      unfolding bit_xor_iff bit_ucast_iff bit_drop_bit_eq comp_def bit_push_bit_iff
      using n by (cases "n = 127") (auto simp: c_if_def bit_field_one)
  qed
qed

lemma mulP_push:
  assumes "\<not> bit h 127"
  shows "mulP (push_bit 1 h XOR c_if b 1) = h XOR c_if b gcm_R"
proof -
  have "\<not> bit (push_bit 1 h) 0" unfolding bit_push_bit_iff by simp
  moreover have "drop_bit 1 (push_bit 1 h) = h"
  proof (rule bit_eqI)
    fix n assume "possible_bit TYPE(u128) n"
    then show "bit (drop_bit 1 (push_bit 1 h)) n = bit h n"
      unfolding bit_drop_bit_eq comp_def bit_push_bit_iff using assms by (cases "n = 127") auto
  qed
  ultimately have "mulP (push_bit 1 h) = h" by (metis mulP_even)
  moreover have "mulP (c_if b 1) = c_if b gcm_R" by (simp add: c_if_def mulP_def)
  ultimately show ?thesis by (simp only: mulP_xor)
qed

lemma red256_shift:
  assumes "\<not> bit w 255"
  shows "red256 w = mulP (red256 (push_bit 1 w))"
proof -
  define h l where hl: "h = (ucast (drop_bit 128 w) :: u128)" "l = (ucast w :: u128)"
  have h: "\<not> bit h 127" using assms by (simp add: hl bit_simps)
  have "mulP (red256 (push_bit 1 w)) =
      (h XOR c_if (bit w 127) gcm_R) XOR (mulP ^^ 128) (l XOR c_if (bit w 127) field_one)"
    unfolding red256_def push_high_half hl(1) [symmetric]
    by (subst mulP_xor) (simp only: mulP_push [OF h] mulP_pow_swap [symmetric] mulP_push_low_half hl(2))
  also have "\<dots> = red256 w" by (simp add: red256_def mulP_pow_xor c_if_def P128(1) ac_simps flip: hl)
  finally show ?thesis by simp
qed

lemma red256_power: "n \<le> 127 \<Longrightarrow> red256 (push_bit (128 - n) (ucast b)) = (mulP ^^ n) b"
proof (induction n)
  case 0
  have "(ucast (drop_bit 128 (push_bit 128 (ucast b :: u256))) :: u128) = b" "(ucast (push_bit 128 (ucast b :: u256)) :: u128) = 0"
    by (auto intro!: bit_eqI simp: bit_simps)
  then show ?case by (simp add: red256_def)
next
  case (Suc n)
  have "\<not> bit (push_bit (128 - Suc n) (ucast b :: u256)) 255"
    using Suc.prems by (auto simp: bit_push_bit_iff bit_ucast_iff dest: bit_imp_le_length)
  from red256_shift [OF this]
  have "red256 (push_bit (128 - Suc n) (ucast b)) = mulP (red256 (push_bit (Suc (128 - Suc n)) (ucast b)))"
    by (simp only: push_bit_push_bit plus_1_eq_Suc)
  moreover have "Suc (128 - Suc n) = 128 - n" using Suc.prems by simp
  ultimately have "red256 (push_bit (128 - Suc n) (ucast b)) = mulP (red256 (push_bit (128 - n) (ucast b)))"
    by (simp only:)
  also have "\<dots> = (mulP ^^ Suc n) b" using Suc by simp
  finally show ?case .
qed

lemma gmul_suffix_sum:
  "j \<le> 128 \<Longrightarrow> gmul_bits (map (\<lambda>i. bit a (127 - i)) [128 - j..<128]) b = xorsum (\<lambda>i. if bit a i then (mulP ^^ (j - 1 - i)) b else 0) j"
proof (induction j)
  case (Suc j)
  have l: "[128 - Suc j..<128] = (127 - j) # [128 - j..<128]" using Suc.prems by (subst upt_conv_Cons) (auto simp: Suc_diff_le [symmetric])
  have "mulP (xorsum (\<lambda>i. if bit a i then (mulP ^^ (j - 1 - i)) b else 0) j) = xorsum (\<lambda>i. mulP (if bit a i then (mulP ^^ (j - 1 - i)) b else 0)) j"
    by (rule xorsum_hom) (simp_all add: mulP_xor)
  also have "\<dots> = xorsum (\<lambda>i. if bit a i then (mulP ^^ (Suc j - 1 - i)) b else 0) j"
  proof (rule xorsum_cong)
    fix i assume "i < j"
    then have "Suc j - 1 - i = Suc (j - 1 - i)" by simp
    then show "mulP (if bit a i then (mulP ^^ (j - 1 - i)) b else 0) = (if bit a i then (mulP ^^ (Suc j - 1 - i)) b else 0)" by simp
  qed
  finally show ?case unfolding l using Suc by (simp add: xor.commute)
qed simp

lemma clmul_correct: "clmul_reduce (clmul_shift (clmul_product a b)) = gmul a b"
proof -
  have "clmul_reduce (clmul_shift (clmul_product a b)) = red256 (push_bit 1 (clmul a b))"
    by (metis clmul_reduce_red256 surj_pair clmul_shift_correct clmul_product_correct)
  also have "\<dots> = xorsum (\<lambda>i. red256 (push_bit 1 (if bit a i then push_bit i (ucast b) else 0))) 128"
    unfolding clmul_def by (rule xorsum_hom [where h = "\<lambda>w. red256 (push_bit 1 w)"]) (simp_all only: push_bit_xor red256_xor, simp add: red256_def)
  also have "\<dots> = xorsum (\<lambda>i. if bit a i then (mulP ^^ (128 - 1 - i)) b else 0) 128"
  proof (rule xorsum_cong)
    fix i :: nat assume i: "i < 128"
    then have "red256 (push_bit (Suc i) (ucast b)) = (mulP ^^ (127 - i)) b" using red256_power [of "127 - i" b] by simp
    moreover have "push_bit 1 (push_bit i (ucast b :: u256)) = push_bit (Suc i) (ucast b)" by (simp only: push_bit_push_bit plus_1_eq_Suc)
    ultimately show "red256 (push_bit 1 (if bit a i then push_bit i (ucast b) else 0)) = (if bit a i then (mulP ^^ (128 - 1 - i)) b else 0)"
      by (simp add: red256_def del: push_bit_push_bit)
  qed
  also have "\<dots> = gmul a b" using gmul_suffix_sum [of 128 a b] by (simp add: gmul_def nist_mult_gmul bits128_def)
  finally show ?thesis .
qed

lemma aesni_gcm_mult_correct:
  assumes "length a = 16" and "length b = 16"
  shows "mbedtls_aesni_gcm_mult a b = elem_block (gmul (block_elem a) (block_elem b))"
proof -
  have r: "map (\<lambda>i. x ! (15 - i)) [0..<16] = rev x" if "length x = 16" for x :: "u8 list"
    using that by (intro nth_equalityI) (simp_all add: rev_nth)
  have l: "length (store128 w) = 16" for w by (simp add: store128_def)
  show ?thesis using assms by (simp add: mbedtls_aesni_gcm_mult_def Let_def r clmul_correct block_elem_def elem_block_def l)
qed

end
