(* ===== verification/Cipher.thy ===== *)
theory Cipher
  imports AES_NI
begin

unbundle bit_operations_syntax

text \<open>
  The generic cipher layer of \<^verbatim>\<open>src/mbedtls-3.1.0/library/cipher.c\<close> and \<^verbatim>\<open>cipher_wrap.c\<close>, for the ciphers that GCM
  is built on: AES with one block per call (\<^verbatim>\<open>MBEDTLS_CIPHER_ID_AES\<close>, \<^verbatim>\<open>MBEDTLS_MODE_ECB\<close>). Calls through
  the function table \<^verbatim>\<open>aes_info\<close> are calls of the functions it holds; the fields of the context that other
  modes use (padding functions, buffered input, the iv) stay zero for these ciphers and are left out.
  Whether an allocation succeeds is an argument.
\<close>

record cipher_info_t =
  info_key_bitlen :: nat
  info_name :: string
  info_iv_size :: nat
  info_flags :: nat
  info_block_size :: nat

definition aes_128_ecb_info :: cipher_info_t where
  "aes_128_ecb_info = \<lparr>info_key_bitlen = 128, info_name = ''AES-128-ECB'', info_iv_size = 0, info_flags = 0, info_block_size = 16\<rparr>"

definition aes_192_ecb_info :: cipher_info_t where
  "aes_192_ecb_info = \<lparr>info_key_bitlen = 192, info_name = ''AES-192-ECB'', info_iv_size = 0, info_flags = 0, info_block_size = 16\<rparr>"

definition aes_256_ecb_info :: cipher_info_t where
  "aes_256_ecb_info = \<lparr>info_key_bitlen = 256, info_name = ''AES-256-ECB'', info_iv_size = 0, info_flags = 0, info_block_size = 16\<rparr>"

text \<open>The rows of \<^verbatim>\<open>mbedtls_cipher_definitions\<close> with that cipher and mode.\<close>

definition aes_ecb_definitions :: "cipher_info_t list" where
  "aes_ecb_definitions = [aes_128_ecb_info, aes_192_ecb_info, aes_256_ecb_info]"

definition mbedtls_cipher_info_from_values :: "nat \<Rightarrow> cipher_info_t option" where
  "mbedtls_cipher_info_from_values bits = find (\<lambda>info. info_key_bitlen info = bits) aes_ecb_definitions"

record cipher_context_t =
  cipher_info :: "cipher_info_t option"
  key_bitlen :: nat
  operation :: int
  cipher_ctx :: "aes_context option"

definition MBEDTLS_ENCRYPT :: int where "MBEDTLS_ENCRYPT = 1"
definition MBEDTLS_DECRYPT :: int where "MBEDTLS_DECRYPT = 0"
definition MBEDTLS_ERR_CIPHER_BAD_INPUT_DATA :: int where "MBEDTLS_ERR_CIPHER_BAD_INPUT_DATA = - 0x6100"
definition MBEDTLS_ERR_CIPHER_ALLOC_FAILED :: int where "MBEDTLS_ERR_CIPHER_ALLOC_FAILED = - 0x6180"
definition MBEDTLS_ERR_CIPHER_FULL_BLOCK_EXPECTED :: int where "MBEDTLS_ERR_CIPHER_FULL_BLOCK_EXPECTED = - 0x6280"
definition MBEDTLS_ERR_CIPHER_INVALID_CONTEXT :: int where "MBEDTLS_ERR_CIPHER_INVALID_CONTEXT = - 0x6380"
definition MBEDTLS_CIPHER_VARIABLE_KEY_LEN :: nat where "MBEDTLS_CIPHER_VARIABLE_KEY_LEN = 0x02"

definition mbedtls_cipher_init :: cipher_context_t where
  "mbedtls_cipher_init = \<lparr>cipher_info = None, key_bitlen = 0, operation = 0, cipher_ctx = None\<rparr>"

text \<open>The AES context is wiped and given back to the allocator, then the cipher context is wiped.\<close>

definition mbedtls_cipher_free :: "cipher_context_t \<Rightarrow> cipher_context_t" where
  "mbedtls_cipher_free ctx = mbedtls_cipher_init"

definition aes_ctx_alloc :: "bool \<Rightarrow> aes_context option" where
  "aes_ctx_alloc ok = (if ok then Some mbedtls_aes_init else None)"

text \<open>The padding mode that the code tries to set is refused for a mode other than CBC, and the refusal ignored.\<close>

definition mbedtls_cipher_setup :: "bool \<Rightarrow> cipher_info_t option \<Rightarrow> cipher_context_t \<Rightarrow> int \<times> cipher_context_t" where
  "mbedtls_cipher_setup ok info ctx =
     (case info of
        None \<Rightarrow> (MBEDTLS_ERR_CIPHER_BAD_INPUT_DATA, ctx)
      | Some i \<Rightarrow>
          (case aes_ctx_alloc ok of
             None \<Rightarrow> (MBEDTLS_ERR_CIPHER_ALLOC_FAILED, mbedtls_cipher_init)
           | Some aes \<Rightarrow> (0, mbedtls_cipher_init\<lparr>cipher_ctx := Some aes, cipher_info := Some i\<rparr>)))"

definition mbedtls_cipher_get_block_size :: "cipher_context_t \<Rightarrow> nat" where
  "mbedtls_cipher_get_block_size ctx = (case cipher_info ctx of None \<Rightarrow> 0 | Some i \<Rightarrow> info_block_size i)"

definition aes_setkey_enc_wrap :: "u32 \<Rightarrow> u8 list \<Rightarrow> nat \<Rightarrow> aes_context \<Rightarrow> (int \<times> aes_context) option" where
  "aes_setkey_enc_wrap cpuid key bits aes = mbedtls_aes_setkey_enc cpuid key bits aes"

definition aes_setkey_dec_wrap :: "u32 \<Rightarrow> u8 list \<Rightarrow> nat \<Rightarrow> aes_context \<Rightarrow> (int \<times> aes_context) option" where
  "aes_setkey_dec_wrap cpuid key bits aes = mbedtls_aes_setkey_dec cpuid key bits aes"

definition aes_crypt_ecb_wrap :: "u32 \<Rightarrow> aes_context \<Rightarrow> int \<Rightarrow> u8 list \<Rightarrow> (int \<times> u8 list) option" where
  "aes_crypt_ecb_wrap cpuid aes op inp = mbedtls_aes_crypt_ecb cpuid aes op inp"

definition mbedtls_cipher_setkey :: "u32 \<Rightarrow> u8 list \<Rightarrow> nat \<Rightarrow> int \<Rightarrow> cipher_context_t \<Rightarrow> (int \<times> cipher_context_t) option" where
  "mbedtls_cipher_setkey cpuid key bits op ctx =
     (case cipher_info ctx of
        None \<Rightarrow> Some (MBEDTLS_ERR_CIPHER_BAD_INPUT_DATA, ctx)
      | Some i \<Rightarrow>
          if info_flags i AND MBEDTLS_CIPHER_VARIABLE_KEY_LEN = 0 \<and> info_key_bitlen i \<noteq> bits
          then Some (MBEDTLS_ERR_CIPHER_BAD_INPUT_DATA, ctx)
          else let ctx = ctx\<lparr>key_bitlen := bits, operation := op\<rparr> in
            if op = MBEDTLS_ENCRYPT then do {
              aes \<leftarrow> cipher_ctx ctx;
              (ret, aes) \<leftarrow> aes_setkey_enc_wrap cpuid key bits aes;
              Some (ret, ctx\<lparr>cipher_ctx := Some aes\<rparr>)
            }
            else if op = MBEDTLS_DECRYPT then do {
              aes \<leftarrow> cipher_ctx ctx;
              (ret, aes) \<leftarrow> aes_setkey_dec_wrap cpuid key bits aes;
              Some (ret, ctx\<lparr>cipher_ctx := Some aes\<rparr>)
            }
            else Some (MBEDTLS_ERR_CIPHER_BAD_INPUT_DATA, ctx))"

text \<open>The result is the status and the output: nothing is written when the status is not 0.\<close>

definition mbedtls_cipher_update :: "u32 \<Rightarrow> cipher_context_t \<Rightarrow> u8 list \<Rightarrow> (int \<times> u8 list) option" where
  "mbedtls_cipher_update cpuid ctx inp =
     (if cipher_info ctx = None then Some (MBEDTLS_ERR_CIPHER_BAD_INPUT_DATA, [])
      else let block_size = mbedtls_cipher_get_block_size ctx in
        if block_size = 0 then Some (MBEDTLS_ERR_CIPHER_INVALID_CONTEXT, [])
        else if length inp \<noteq> block_size then Some (MBEDTLS_ERR_CIPHER_FULL_BLOCK_EXPECTED, [])
        else do {
          aes \<leftarrow> cipher_ctx ctx;
          (ret, out) \<leftarrow> aes_crypt_ecb_wrap cpuid aes (operation ctx) inp;
          Some (ret, if ret \<noteq> 0 then [] else out)
        })"

section \<open>A context with a key\<close>

definition cipher_keyed :: "cipher_context_t \<Rightarrow> aes_context \<Rightarrow> bool" where
  "cipher_keyed ctx aes \<longleftrightarrow> mbedtls_cipher_get_block_size ctx = 16 \<and> cipher_info ctx \<noteq> None \<and> operation ctx = MBEDTLS_ENCRYPT \<and>
     cipher_ctx ctx = Some aes \<and> keyed aes"

lemma cipher_update_keyed:
  "cipher_keyed ctx aes \<Longrightarrow> length inp = 16 \<Longrightarrow> mbedtls_cipher_update cpuid ctx inp = Some (0, block_enc aes inp)"
  using crypt_ecb_enc [of aes inp cpuid]
  by (auto simp: cipher_keyed_def mbedtls_cipher_update_def aes_crypt_ecb_wrap_def MBEDTLS_ENCRYPT_def MBEDTLS_AES_ENCRYPT_def)

lemma info_from_values:
  "mbedtls_cipher_info_from_values bits = Some i \<Longrightarrow> info_key_bitlen i = bits \<and> info_block_size i = 16 \<and> bits \<in> {128, 192, 256}"
  "mbedtls_cipher_info_from_values bits = None \<longleftrightarrow> bits \<notin> {128, 192, 256}"
  by (auto simp: mbedtls_cipher_info_from_values_def aes_ecb_definitions_def aes_128_ecb_info_def aes_192_ecb_info_def
      aes_256_ecb_info_def split: if_splits)

lemma cipher_setkey_keyed:
  assumes "mbedtls_cipher_info_from_values bits = Some i" and "bits div 8 \<le> length key"
    and "mbedtls_cipher_setup True (Some i) c0 = (ret, c)"
  obtains c' aes where "mbedtls_cipher_setkey cpuid key bits MBEDTLS_ENCRYPT c = Some (0, c')" "cipher_keyed c' aes"
    "mbedtls_aes_setkey_enc cpuid key bits mbedtls_aes_init = Some (0, aes)"
proof -
  note i = info_from_values(1) [OF assms(1)]
  then obtain n where n: "rounds_of bits = Some n" by (auto simp: rounds_of_def)
  have l: "length (buf mbedtls_aes_init) = 68" by (simp add: mbedtls_aes_init_def)
  obtain aes where aes: "mbedtls_aes_setkey_enc cpuid key bits mbedtls_aes_init = Some (0, aes)" "keyed aes"
    using setkey_pair [OF n assms(2) l l, of cpuid 0] by (metis key_pair_def)
  have "c = mbedtls_cipher_init\<lparr>cipher_ctx := Some mbedtls_aes_init, cipher_info := Some i\<rparr>"
    using assms(3) by (simp add: mbedtls_cipher_setup_def aes_ctx_alloc_def)
  then show ?thesis
    using that i aes by (simp add: mbedtls_cipher_setkey_def aes_setkey_enc_wrap_def cipher_keyed_def mbedtls_cipher_get_block_size_def)
qed

end
