(* ===== verification/GCM.thy ===== *)
theory GCM
  imports Cipher GCM_Clmul
begin

unbundle bit_operations_syntax

text \<open>
  Authenticated encryption, \<^verbatim>\<open>src/mbedtls-3.1.0/library/gcm.c\<close>. Buffers are lists of bytes; the lengths that the
  functions take beside a pointer are the lengths of the lists. The input and output buffers of
  \<^verbatim>\<open>mbedtls_gcm_update\<close> may be one buffer: the distance of the output from the input is an argument, and a
  byte is read before the one it becomes is written, so the values do not depend on it. \<open>None\<close> is the use
  of a cipher that has no key. The two lengths of a context are kept at 64 bits.
\<close>

section \<open>Contexts and keys\<close>

record gcm_context =
  gcm_cipher :: cipher_context_t
  gcm_HL :: "u64 list"
  gcm_HH :: "u64 list"
  gcm_len :: u64
  gcm_add_len :: u64
  base_ectr :: "u8 list"
  gcm_y :: "u8 list"
  gcm_buf :: "u8 list"
  gcm_mode :: int

definition MBEDTLS_GCM_ENCRYPT :: int where "MBEDTLS_GCM_ENCRYPT = 1"
definition MBEDTLS_GCM_DECRYPT :: int where "MBEDTLS_GCM_DECRYPT = 0"
definition MBEDTLS_ERR_GCM_AUTH_FAILED :: int where "MBEDTLS_ERR_GCM_AUTH_FAILED = - 0x0012"
definition MBEDTLS_ERR_GCM_BAD_INPUT :: int where "MBEDTLS_ERR_GCM_BAD_INPUT = - 0x0014"
definition MBEDTLS_ERR_GCM_BUFFER_TOO_SMALL :: int where "MBEDTLS_ERR_GCM_BUFFER_TOO_SMALL = - 0x0016"
definition MBEDTLS_AESNI_CLMUL :: u32 where "MBEDTLS_AESNI_CLMUL = 0x00000002"

definition mbedtls_gcm_init :: gcm_context where
  "mbedtls_gcm_init = \<lparr>gcm_cipher = mbedtls_cipher_init, gcm_HL = replicate 16 0, gcm_HH = replicate 16 0, gcm_len = 0,
     gcm_add_len = 0, base_ectr = replicate 16 0, gcm_y = replicate 16 0, gcm_buf = replicate 16 0, gcm_mode = 0\<rparr>"

definition gcm_gen_table :: "u32 \<Rightarrow> gcm_context \<Rightarrow> (int \<times> gcm_context) option" where
  "gcm_gen_table cpuid ctx = do {
     (ret, h) \<leftarrow> mbedtls_cipher_update cpuid (gcm_cipher ctx) (replicate 16 0);
     if ret \<noteq> 0 then Some (ret, ctx)
     else
       let vh = get_half h 0; vl = get_half h 8;
           ctx = ctx\<lparr>gcm_HL := (gcm_HL ctx)[8 := vl], gcm_HH := (gcm_HH ctx)[8 := vh]\<rparr> in
       if mbedtls_aesni_has_support cpuid MBEDTLS_AESNI_CLMUL then Some (0, ctx)
       else let (HH, HL) = gen_tables vh vl (gcm_HH ctx) (gcm_HL ctx) in Some (0, ctx\<lparr>gcm_HH := HH, gcm_HL := HL\<rparr>)
   }"

text \<open>The cipher is AES, so the block size that the code tests is 16.\<close>

definition mbedtls_gcm_setkey :: "u32 \<Rightarrow> bool \<Rightarrow> u8 list \<Rightarrow> nat \<Rightarrow> gcm_context \<Rightarrow> (int \<times> gcm_context) option" where
  "mbedtls_gcm_setkey cpuid ok key keybits ctx =
     (case mbedtls_cipher_info_from_values keybits of
        None \<Rightarrow> Some (MBEDTLS_ERR_GCM_BAD_INPUT, ctx)
      | Some info \<Rightarrow>
          if info_block_size info \<noteq> 16 then Some (MBEDTLS_ERR_GCM_BAD_INPUT, ctx)
          else
            let (ret, c) = mbedtls_cipher_setup ok (Some info) (mbedtls_cipher_free (gcm_cipher ctx));
                ctx = ctx\<lparr>gcm_cipher := c\<rparr> in
            if ret \<noteq> 0 then Some (ret, ctx)
            else do {
              (ret, c) \<leftarrow> mbedtls_cipher_setkey cpuid key keybits MBEDTLS_ENCRYPT (gcm_cipher ctx);
              let ctx = ctx\<lparr>gcm_cipher := c\<rparr> in
              if ret \<noteq> 0 then Some (ret, ctx) else gcm_gen_table cpuid ctx
            })"

definition gcm_mult :: "u32 \<Rightarrow> gcm_context \<Rightarrow> u8 list \<Rightarrow> u8 list" where
  "gcm_mult cpuid ctx x =
     (if mbedtls_aesni_has_support cpuid MBEDTLS_AESNI_CLMUL
      then mbedtls_aesni_gcm_mult x (put_half (gcm_HH ctx ! 8) @ put_half (gcm_HL ctx ! 8))
      else mult_tables (gcm_HH ctx) (gcm_HL ctx) x)"

definition mbedtls_gcm_free :: "gcm_context \<Rightarrow> gcm_context" where
  "mbedtls_gcm_free ctx = mbedtls_gcm_init"

section \<open>The start of a message\<close>

text \<open>The loops that add bytes to a block from \<open>off\<close> on.\<close>

fun xor_into :: "nat \<Rightarrow> u8 list \<Rightarrow> u8 list \<Rightarrow> u8 list" where
  "xor_into off [] b = b"
| "xor_into off (p # ps) b = xor_into (Suc off) ps (b[off := b ! off XOR p])"

text \<open>The loop over the blocks of the iv; the last block may be a part of one.\<close>

function gcm_iv_loop :: "u32 \<Rightarrow> gcm_context \<Rightarrow> u8 list \<Rightarrow> u8 list \<Rightarrow> u8 list" where
  "gcm_iv_loop cpuid ctx iv y =
     (if iv = [] then y
      else let use_len = (if length iv < 16 then length iv else 16);
               y = gcm_mult cpuid ctx (xor_into 0 (take use_len iv) y) in
           gcm_iv_loop cpuid ctx (drop use_len iv) y)"
  by pat_completeness auto
termination
  by (relation "measure (\<lambda>(cpuid, ctx, iv, y). length iv)") auto

declare gcm_iv_loop.simps [simp del]

definition MBEDTLS_PUT_UINT64_BE :: "u64 \<Rightarrow> u8 list" where
  "MBEDTLS_PUT_UINT64_BE n = map (\<lambda>i. ucast (drop_bit (8 * i) n)) [7, 6, 5, 4, 3, 2, 1, 0]"

definition mbedtls_gcm_starts :: "u32 \<Rightarrow> int \<Rightarrow> u8 list \<Rightarrow> gcm_context \<Rightarrow> (int \<times> gcm_context) option" where
  "mbedtls_gcm_starts cpuid mode iv ctx =
     (if length iv = 0 \<or> length iv div 2 ^ 61 \<noteq> 0 then Some (MBEDTLS_ERR_GCM_BAD_INPUT, ctx)
      else
        let ctx = ctx\<lparr>gcm_y := replicate 16 0, gcm_buf := replicate 16 0, gcm_mode := mode, gcm_len := 0, gcm_add_len := 0\<rparr>;
            y = (if length iv = 12 then (iv @ drop 12 (gcm_y ctx))[15 := 1]
                 else
                   let work_buf = replicate 8 0 @ MBEDTLS_PUT_UINT64_BE (of_nat (length iv) * 8);
                       y = gcm_iv_loop cpuid ctx iv (gcm_y ctx) in
                   gcm_mult cpuid ctx (xor_into 0 work_buf y));
            ctx = ctx\<lparr>gcm_y := y\<rparr> in
        do {
          (ret, e) \<leftarrow> mbedtls_cipher_update cpuid (gcm_cipher ctx) (gcm_y ctx);
          if ret \<noteq> 0 then Some (ret, ctx) else Some (0, ctx\<lparr>base_ectr := e\<rparr>)
        })"

section \<open>Additional data\<close>

text \<open>The loop over whole blocks, and what is left after it.\<close>

function gcm_ad_loop :: "u32 \<Rightarrow> gcm_context \<Rightarrow> u8 list \<Rightarrow> gcm_context" where
  "gcm_ad_loop cpuid ctx p =
     (if 16 \<le> length p
      then gcm_ad_loop cpuid (ctx\<lparr>gcm_buf := gcm_mult cpuid ctx (xor_into 0 (take 16 p) (gcm_buf ctx))\<rparr>) (drop 16 p)
      else if 0 < length p then ctx\<lparr>gcm_buf := xor_into 0 p (gcm_buf ctx)\<rparr>
      else ctx)"
  by pat_completeness auto
termination
  by (relation "measure (\<lambda>(cpuid, ctx, p). length p)") auto

declare gcm_ad_loop.simps [simp del]

definition mbedtls_gcm_update_ad :: "u32 \<Rightarrow> u8 list \<Rightarrow> gcm_context \<Rightarrow> int \<times> gcm_context" where
  "mbedtls_gcm_update_ad cpuid add ctx =
     (if length add div 2 ^ 61 \<noteq> 0 then (MBEDTLS_ERR_GCM_BAD_INPUT, ctx)
      else
        let offset = unat (gcm_add_len ctx mod 16);
            use_len = (if offset \<noteq> 0 then min (16 - offset) (length add) else 0);
            b = (if offset \<noteq> 0 then xor_into offset (take use_len add) (gcm_buf ctx) else gcm_buf ctx);
            b = (if offset \<noteq> 0 \<and> offset + use_len = 16 then gcm_mult cpuid ctx b else b);
            ctx = ctx\<lparr>gcm_buf := b, gcm_add_len := gcm_add_len ctx + of_nat use_len\<rparr>;
            p = drop use_len add;
            ctx = ctx\<lparr>gcm_add_len := gcm_add_len ctx + of_nat (length p)\<rparr> in
        (0, gcm_ad_loop cpuid ctx p))"

section \<open>Data\<close>

text \<open>The loop from byte 15 down to byte 12; \<open>n\<close> counts the bytes left.\<close>

fun gcm_incr_loop :: "nat \<Rightarrow> u8 list \<Rightarrow> u8 list" where
  "gcm_incr_loop 0 y = y"
| "gcm_incr_loop (Suc n) y =
     (let i = 13 + n; y = y[i - 1 := y ! (i - 1) + 1] in
      if y ! (i - 1) \<noteq> 0 then y else gcm_incr_loop n y)"

definition gcm_incr :: "u8 list \<Rightarrow> u8 list" where
  "gcm_incr y = gcm_incr_loop 4 y"

fun gcm_mask_loop :: "int \<Rightarrow> u8 list \<Rightarrow> nat \<Rightarrow> u8 list \<Rightarrow> u8 list \<Rightarrow> u8 list \<times> u8 list" where
  "gcm_mask_loop mode ectr off [] b = ([], b)"
| "gcm_mask_loop mode ectr off (x # xs) b =
     (let b = (if mode = MBEDTLS_GCM_DECRYPT then b[off := b ! off XOR x] else b);
          out = ectr ! off XOR x;
          b = (if mode = MBEDTLS_GCM_ENCRYPT then b[off := b ! off XOR out] else b);
          (outs, b) = gcm_mask_loop mode ectr (Suc off) xs b in
      (out # outs, b))"

definition gcm_mask :: "u32 \<Rightarrow> nat \<Rightarrow> u8 list \<Rightarrow> gcm_context \<Rightarrow> (int \<times> u8 list \<times> gcm_context) option" where
  "gcm_mask cpuid offset inp ctx = do {
     (ret, ectr) \<leftarrow> mbedtls_cipher_update cpuid (gcm_cipher ctx) (gcm_y ctx);
     if ret \<noteq> 0 then Some (ret, [], ctx)
     else let (out, b) = gcm_mask_loop (gcm_mode ctx) ectr offset inp (gcm_buf ctx) in Some (0, out, ctx\<lparr>gcm_buf := b\<rparr>)
   }"

text \<open>The loop over whole blocks, and what is left after it.\<close>

function gcm_update_loop :: "u32 \<Rightarrow> u8 list \<Rightarrow> gcm_context \<Rightarrow> (int \<times> u8 list \<times> gcm_context) option" where
  "gcm_update_loop cpuid p ctx =
     (if 16 \<le> length p then do {
        (ret, out, ctx) \<leftarrow> gcm_mask cpuid 0 (take 16 p) (ctx\<lparr>gcm_y := gcm_incr (gcm_y ctx)\<rparr>);
        if ret \<noteq> 0 then Some (ret, out, ctx)
        else do {
          (ret, outs, ctx) \<leftarrow> gcm_update_loop cpuid (drop 16 p) (ctx\<lparr>gcm_buf := gcm_mult cpuid ctx (gcm_buf ctx)\<rparr>);
          Some (ret, out @ outs, ctx)
        }
      }
      else if 0 < length p then gcm_mask cpuid 0 p (ctx\<lparr>gcm_y := gcm_incr (gcm_y ctx)\<rparr>)
      else Some (0, [], ctx))"
  by pat_completeness auto
termination
  by (relation "measure (\<lambda>(cpuid, p, ctx). length p)") auto

declare gcm_update_loop.simps [simp del]

text \<open>The input that completes a block begun by an earlier call; the number of bytes used is part of the result.\<close>

definition gcm_update_fill :: "u32 \<Rightarrow> nat \<Rightarrow> u8 list \<Rightarrow> gcm_context \<Rightarrow> (int \<times> nat \<times> u8 list \<times> gcm_context) option" where
  "gcm_update_fill cpuid offset inp ctx =
     (if offset \<noteq> 0 then
        let use_len = min (16 - offset) (length inp) in do {
          (ret, out, ctx) \<leftarrow> gcm_mask cpuid offset (take use_len inp) ctx;
          if ret \<noteq> 0 then Some (ret, use_len, out, ctx)
          else
            let ctx = (if offset + use_len = 16 then ctx\<lparr>gcm_buf := gcm_mult cpuid ctx (gcm_buf ctx)\<rparr> else ctx) in
            Some (0, use_len, out, ctx\<lparr>gcm_len := gcm_len ctx + of_nat use_len\<rparr>)
        }
      else Some (0, 0, [], ctx))"

text \<open>The result is the status, the output length if it is written, the output and the context.\<close>

definition mbedtls_gcm_update ::
    "u32 \<Rightarrow> int \<Rightarrow> nat \<Rightarrow> u8 list \<Rightarrow> gcm_context \<Rightarrow> (int \<times> nat option \<times> u8 list \<times> gcm_context) option" where
  "mbedtls_gcm_update cpuid distance output_size inp ctx =
     (if output_size < length inp then Some (MBEDTLS_ERR_GCM_BUFFER_TOO_SMALL, None, [], ctx)
      else if length inp = 0 then Some (0, Some 0, [], ctx)
      else if 0 < distance \<and> distance < int (length inp) then Some (MBEDTLS_ERR_GCM_BAD_INPUT, Some (length inp), [], ctx)
      else if gcm_len ctx + of_nat (length inp) < gcm_len ctx \<or> gcm_len ctx + of_nat (length inp) > 0xFFFFFFFE0
      then Some (MBEDTLS_ERR_GCM_BAD_INPUT, Some (length inp), [], ctx)
      else
        let ctx = (if gcm_len ctx = 0 \<and> gcm_add_len ctx mod 16 \<noteq> 0
                   then ctx\<lparr>gcm_buf := gcm_mult cpuid ctx (gcm_buf ctx)\<rparr> else ctx);
            offset = unat (gcm_len ctx mod 16) in
        do {
          (ret, use_len, out, ctx) \<leftarrow> gcm_update_fill cpuid offset inp ctx;
          if ret \<noteq> 0 then Some (ret, Some (length inp), out, ctx)
          else
            let p = drop use_len inp; ctx = ctx\<lparr>gcm_len := gcm_len ctx + of_nat (length p)\<rparr> in
            do {
              (ret, outs, ctx) \<leftarrow> gcm_update_loop cpuid p ctx;
              Some (ret, Some (length inp), out @ outs, ctx)
            }
        })"

section \<open>The end of a message\<close>

definition mbedtls_gcm_finish :: "u32 \<Rightarrow> nat \<Rightarrow> gcm_context \<Rightarrow> int \<times> u8 list \<times> gcm_context" where
  "mbedtls_gcm_finish cpuid tag_len ctx =
     (let orig_len = gcm_len ctx * 8; orig_add_len = gcm_add_len ctx * 8;
          ctx = (if gcm_len ctx = 0 \<and> gcm_add_len ctx mod 16 \<noteq> 0
                 then ctx\<lparr>gcm_buf := gcm_mult cpuid ctx (gcm_buf ctx)\<rparr> else ctx) in
      if tag_len > 16 \<or> tag_len < 4 then (MBEDTLS_ERR_GCM_BAD_INPUT, [], ctx)
      else
        let ctx = (if gcm_len ctx mod 16 \<noteq> 0 then ctx\<lparr>gcm_buf := gcm_mult cpuid ctx (gcm_buf ctx)\<rparr> else ctx);
            tag = take tag_len (base_ectr ctx) in
        if orig_len \<noteq> 0 \<or> orig_add_len \<noteq> 0
        then let work_buf = put_half orig_add_len @ put_half orig_len;
                 ctx = ctx\<lparr>gcm_buf := gcm_mult cpuid ctx (xor_into 0 work_buf (gcm_buf ctx))\<rparr> in
             (0, xor_into 0 (take tag_len (gcm_buf ctx)) tag, ctx)
        else (0, tag, ctx))"

definition mbedtls_gcm_crypt_and_tag ::
    "u32 \<Rightarrow> int \<Rightarrow> int \<Rightarrow> u8 list \<Rightarrow> u8 list \<Rightarrow> u8 list \<Rightarrow> nat \<Rightarrow> gcm_context \<Rightarrow> (int \<times> u8 list \<times> u8 list \<times> gcm_context) option" where
  "mbedtls_gcm_crypt_and_tag cpuid mode distance iv add inp tag_len ctx = do {
     (ret, ctx) \<leftarrow> mbedtls_gcm_starts cpuid mode iv ctx;
     if ret \<noteq> 0 then Some (ret, [], [], ctx)
     else let (ret, ctx) = mbedtls_gcm_update_ad cpuid add ctx in
       if ret \<noteq> 0 then Some (ret, [], [], ctx)
       else do {
         (ret, olen, out, ctx) \<leftarrow> mbedtls_gcm_update cpuid distance (length inp) inp ctx;
         if ret \<noteq> 0 then Some (ret, out, [], ctx)
         else let (ret, tag, ctx) = mbedtls_gcm_finish cpuid tag_len ctx in Some (ret, out, tag, ctx)
       }
   }"

fun tag_diff :: "u8 list \<Rightarrow> u8 list \<Rightarrow> u8 \<Rightarrow> u8" where
  "tag_diff (t # tag) (c # check_tag) diff = tag_diff tag check_tag (diff OR (t XOR c))"
| "tag_diff _ _ diff = diff"

definition mbedtls_gcm_auth_decrypt ::
    "u32 \<Rightarrow> int \<Rightarrow> u8 list \<Rightarrow> u8 list \<Rightarrow> u8 list \<Rightarrow> u8 list \<Rightarrow> gcm_context \<Rightarrow> (int \<times> u8 list \<times> gcm_context) option" where
  "mbedtls_gcm_auth_decrypt cpuid distance iv add tag inp ctx = do {
     (ret, out, check_tag, ctx) \<leftarrow> mbedtls_gcm_crypt_and_tag cpuid MBEDTLS_GCM_DECRYPT distance iv add inp (length tag) ctx;
     if ret \<noteq> 0 then Some (ret, out, ctx)
     else if tag_diff tag check_tag 0 \<noteq> 0 then Some (MBEDTLS_ERR_GCM_AUTH_FAILED, replicate (length inp) 0, ctx)
     else Some (0, out, ctx)
   }"

end
