(* ===== verification/GCM_Spec.thy ===== *)
theory GCM_Spec
  imports GCM
begin

unbundle bit_operations_syntax

text \<open>
  What GCM computes (NIST SP 800-38D), over a block cipher and a multiplication with the hash key, and the
  byte by byte form of it that calls with parts of a message follow. The two operations are the parameters
  of a locale, which is interpreted on AES and on the field multiplication.
\<close>

section \<open>The standard\<close>

definition xor_blocks :: "u8 list \<Rightarrow> u8 list \<Rightarrow> u8 list" where
  "xor_blocks xs ys = map2 (XOR) xs ys"

definition pad16 :: "u8 list \<Rightarrow> u8 list" where
  "pad16 xs = xs @ replicate ((16 - length xs mod 16) mod 16) 0"

function ghash :: "(u8 list \<Rightarrow> u8 list) \<Rightarrow> u8 list \<Rightarrow> u8 list \<Rightarrow> u8 list" where
  "ghash mul y xs = (if length xs < 16 then y else ghash mul (mul (xor_blocks y (take 16 xs))) (drop 16 xs))"
  by pat_completeness auto
termination
  by (relation "measure (\<lambda>(mul, y, xs). length xs)") auto

declare ghash.simps [simp del]

definition inc32 :: "u8 list \<Rightarrow> u8 list" where
  "inc32 y = take 12 y @ MBEDTLS_PUT_UINT32_BE (MBEDTLS_GET_UINT32_BE y 12 + 1)"

function gctr :: "(u8 list \<Rightarrow> u8 list) \<Rightarrow> u8 list \<Rightarrow> u8 list \<Rightarrow> u8 list" where
  "gctr E cb xs = (if xs = [] then [] else xor_blocks (take 16 xs) (E cb) @ gctr E (inc32 cb) (drop 16 xs))"
  by pat_completeness auto
termination
  by (relation "measure (\<lambda>(E, cb, xs). length xs)") auto

declare gctr.simps [simp del]

abbreviation zero_block :: "u8 list" where
  "zero_block \<equiv> replicate 16 0"

definition bit_count :: "u8 list \<Rightarrow> u8 list" where
  "bit_count xs = put_half (of_nat (8 * length xs))"

definition nist_J0 :: "(u8 list \<Rightarrow> u8 list) \<Rightarrow> u8 list \<Rightarrow> u8 list" where
  "nist_J0 mul iv = (if length iv = 12 then iv @ [0, 0, 0, 1]
     else ghash mul zero_block (pad16 iv @ replicate 8 0 @ bit_count iv))"

definition nist_tag :: "(u8 list \<Rightarrow> u8 list) \<Rightarrow> (u8 list \<Rightarrow> u8 list) \<Rightarrow> u8 list \<Rightarrow> u8 list \<Rightarrow> u8 list \<Rightarrow> u8 list" where
  "nist_tag E mul j0 a c = xor_blocks (E j0) (ghash mul zero_block (pad16 a @ pad16 c @ bit_count a @ bit_count c))"

section \<open>Byte by byte\<close>

text \<open>The hash takes in byte number \<open>n\<close>; a partial block at the end is multiplied in as if it were padded.\<close>

definition absorb :: "(u8 list \<Rightarrow> u8 list) \<Rightarrow> nat \<Rightarrow> u8 \<Rightarrow> u8 list \<Rightarrow> u8 list" where
  "absorb mul n c b = (let b = b[n mod 16 := b ! (n mod 16) XOR c] in if n mod 16 = 15 then mul b else b)"

fun absorbs :: "(u8 list \<Rightarrow> u8 list) \<Rightarrow> nat \<Rightarrow> u8 list \<Rightarrow> u8 list \<Rightarrow> u8 list" where
  "absorbs mul n [] b = b"
| "absorbs mul n (c # cs) b = absorbs mul (Suc n) cs (absorb mul n c b)"

definition hash_flush :: "(u8 list \<Rightarrow> u8 list) \<Rightarrow> nat \<Rightarrow> u8 list \<Rightarrow> u8 list" where
  "hash_flush mul n b = (if n mod 16 \<noteq> 0 then mul b else b)"

text \<open>Encryption of byte number \<open>n\<close> and those after it, with the counter that is left.\<close>

fun keystream :: "(u8 list \<Rightarrow> u8 list) \<Rightarrow> nat \<Rightarrow> u8 list \<Rightarrow> u8 list \<Rightarrow> u8 list \<times> u8 list" where
  "keystream E n [] y = ([], y)"
| "keystream E n (x # xs) y =
     (let y = (if n mod 16 = 0 then gcm_incr y else y); (outs, y') = keystream E (Suc n) xs y in
      ((E y ! (n mod 16) XOR x) # outs, y'))"

lemma absorbs_append: "absorbs mul n (xs @ ys) b = absorbs mul (n + length xs) ys (absorbs mul n xs b)"
  by (induction xs arbitrary: n b) simp_all

lemma keystream_append:
  "keystream E n (xs @ ys) y = (let (o1, y) = keystream E n xs y; (o2, y) = keystream E (n + length xs) ys y in (o1 @ o2, y))"
  by (induction xs arbitrary: n y) (simp_all add: Let_def split_beta)

lemma mod_Suc_cong: "n mod k = m mod k \<Longrightarrow> Suc n mod k = Suc m mod (k :: nat)"
  by (simp add: mod_Suc)

lemma absorbs_mod: "n mod 16 = m mod 16 \<Longrightarrow> absorbs mul n xs b = absorbs mul m xs b"
proof (induction xs arbitrary: n m b)
  case (Cons x xs)
  from mod_Suc_cong [OF Cons.prems] have "Suc n mod 16 = Suc m mod 16" .
  from Cons.IH [OF this] show ?case using Cons.prems by (simp add: absorb_def)
qed simp

lemma keystream_mod: "n mod 16 = m mod 16 \<Longrightarrow> keystream E n xs y = keystream E m xs y"
proof (induction xs arbitrary: n m y)
  case (Cons x xs)
  from mod_Suc_cong [OF Cons.prems] have "Suc n mod 16 = Suc m mod 16" .
  from Cons.IH [OF this] show ?case using Cons.prems by simp
qed simp

lemma length_keystream [simp]: "length (fst (keystream E n xs y)) = length xs"
  by (induction xs arbitrary: n y) (simp_all add: Let_def split_beta)

lemma length_xor_into [simp]: "length (xor_into off ps b) = length b"
  by (induction ps arbitrary: off b) simp_all

lemma nth_xor_into: "xor_into off ps b ! i = (if off \<le> i \<and> i < off + length ps \<and> i < length b then b ! i XOR ps ! (i - off) else b ! i)"
proof (induction ps arbitrary: off b)
  case (Cons p ps)
  show ?case
  proof (cases "i = off")
    case True
    then show ?thesis using Cons [of "Suc off" "b[off := b ! off XOR p]"]
      by (cases "off < length b") (simp_all add: list_update_beyond)
  next
    case False
    then show ?thesis using Cons [of "Suc off" "b[off := b ! off XOR p]"] by (auto simp: nth_Cons' less_diff_conv2)
  qed
qed auto

lemma xor_into_blocks: "length ps \<le> length b \<Longrightarrow> xor_into 0 ps b = xor_blocks b (ps @ replicate (length b - length ps) 0)"
  by (rule nth_equalityI) (auto simp: nth_xor_into xor_blocks_def nth_append)

lemma le32_of_nat: "le32 a b c d = of_nat (unat a + 2 ^ 8 * unat b + 2 ^ 16 * unat c + 2 ^ 24 * unat d)"
proof -
  have w: "bit (x :: u8) n \<Longrightarrow> n < 8" for x n by (drule bit_imp_le_length) simp
  have "push_bit 16 (ucast c) + push_bit 24 (ucast d) = (push_bit 16 (ucast c) OR push_bit 24 (ucast d) :: u32)"
    by (rule disjunctive_add_eq_or) (rule bit_eqI, auto simp: bit_simps dest: w)
  moreover have "push_bit 8 (ucast b) + \<dots> = push_bit 8 (ucast b) OR \<dots>"
    by (rule disjunctive_add_eq_or) (rule bit_eqI, auto simp: bit_simps dest: w)
  moreover have "ucast a + \<dots> = ucast a OR \<dots>"
    by (rule disjunctive_add_eq_or) (rule bit_eqI, auto simp: bit_simps dest: w)
  ultimately have "le32 a b c d = ucast a + (push_bit 8 (ucast b) + (push_bit 16 (ucast c) + push_bit 24 (ucast d)))"
    by (simp add: le32_def)
  also have "\<dots> = of_nat (unat a + 2 ^ 8 * unat b + 2 ^ 16 * unat c + 2 ^ 24 * unat d)"
    by (simp add: push_bit_eq_mult mult.commute)
  finally show ?thesis .
qed

lemma be32_incr:
  "MBEDTLS_PUT_UINT32_BE (le32 d c b a + 1) =
     (if d + 1 \<noteq> 0 then [a, b, c, d + 1] else if c + 1 \<noteq> 0 then [a, b, c + 1, d + 1]
      else if b + 1 \<noteq> 0 then [a, b + 1, c + 1, d + 1] else [a + 1, b + 1, c + 1, d + 1])"
proof -
  have s: "x + 1 \<noteq> 0 \<Longrightarrow> unat (x + 1) = unat x + 1" "x + 1 = 0 \<Longrightarrow> unat x = 255" for x :: u8
  proof -
    have *: "unat (x + 1) = (unat x + 1) mod 256" "unat x < 256" "x + 1 = 0 \<longleftrightarrow> unat (x + 1) = 0"
      using unsigned_less [of x, where ?'a = nat] by (simp add: unat_word_ariths, simp, metis unat_eq_zero)
    show "x + 1 \<noteq> 0 \<Longrightarrow> unat (x + 1) = unat x + 1" "x + 1 = 0 \<Longrightarrow> unat x = 255"
      using * by (cases "unat x = 255"; simp)+
  qed
  have u: "x + 1 \<noteq> 0 \<Longrightarrow> (ucast (x + 1) :: u32) = ucast x + 1" "x + 1 = 0 \<Longrightarrow> (ucast x :: u32) = 255" for x :: u8
    using s [of x] by (metis of_nat_1 of_nat_add of_nat_unat, metis of_nat_numeral of_nat_unat)
  have "le32 d c b a + 1 = (if d + 1 \<noteq> 0 then le32 (d + 1) c b a else if c + 1 \<noteq> 0 then le32 (d + 1) (c + 1) b a
      else if b + 1 \<noteq> 0 then le32 (d + 1) (c + 1) (b + 1) a else le32 (d + 1) (c + 1) (b + 1) (a + 1))"
  proof (cases "a + 1 = 0 \<and> b + 1 = 0 \<and> c + 1 = 0 \<and> d + 1 = 0")
    case True
    moreover have "le32 d c b a = - 1" using True u by (simp add: le32_of_nat)
    moreover have "le32 0 0 0 0 = 0" by (simp add: le32_def)
    ultimately show ?thesis by simp
  next
    case False
    then show ?thesis using u [of d] u [of c] u [of b] u [of a] by (auto simp: le32_of_nat algebra_simps)
  qed
  then show ?thesis by (simp add: MBEDTLS_PUT_UINT32_BE_def)
qed

lemma inc32_incr: "length y = 16 \<Longrightarrow> gcm_incr y = inc32 y"
  by (rule list16 [of y]) (auto simp: gcm_incr_def numeral_2_eq_2 Let_def inc32_def GET_BE_le32 be32_incr eval_nat_numeral)

lemma length_gcm_incr [simp]: "length (gcm_incr y) = length y"
proof -
  have "length (gcm_incr_loop n y) = length y" for n by (induction n arbitrary: y) (simp_all add: Let_def)
  then show ?thesis by (simp add: gcm_incr_def)
qed

lemma length_keystream_counter [simp]: "length (snd (keystream E n xs y)) = length y"
  by (induction xs arbitrary: n y) (simp_all add: Let_def split_beta)

lemma length_xor_blocks [simp]: "length (xor_blocks xs ys) = min (length xs) (length ys)"
  by (simp add: xor_blocks_def)

section \<open>Blocks\<close>

locale gcm_primitives =
  fixes E mul :: "u8 list \<Rightarrow> u8 list"
  assumes length_E [simp]: "length (E x) = 16"
    and length_mul [simp]: "length (mul x) = 16"
    and mul_zero: "mul zero_block = zero_block"
begin

lemma length_absorb [simp]: "length b = 16 \<Longrightarrow> length (absorb mul n c b) = 16"
  by (simp add: absorb_def Let_def)

lemma length_absorbs [simp]: "length b = 16 \<Longrightarrow> length (absorbs mul n xs b) = 16"
  by (induction xs arbitrary: n b) simp_all

lemma length_flush [simp]: "length b = 16 \<Longrightarrow> length (hash_flush mul n b) = 16"
  by (simp add: hash_flush_def)

lemma absorbs_chunk:
  "n mod 16 + length cs \<le> 16 \<Longrightarrow> cs \<noteq> [] \<Longrightarrow> absorbs mul n cs b =
     (if n mod 16 + length cs = 16 then mul (xor_into (n mod 16) cs b) else xor_into (n mod 16) cs b)"
proof (induction cs arbitrary: n b)
  case (Cons c cs)
  show ?case
  proof (cases "cs = []")
    case True
    then show ?thesis by (auto simp: absorb_def Let_def)
  next
    case False
    then have n: "n mod 16 < 15" using Cons.prems by (cases cs) auto
    then have "Suc n mod 16 = Suc (n mod 16)" by (simp add: mod_Suc)
    then show ?thesis using Cons.IH [of "Suc n" "absorb mul n c b"] Cons.prems False n by (auto simp: absorb_def)
  qed
qed simp

lemma absorbs_block: "length cs = 16 \<Longrightarrow> absorbs mul 0 cs b = mul (xor_into 0 cs b)"
  using absorbs_chunk [of 0 cs b] by (cases "cs = []") simp_all

lemma absorbs_block_append: "length cs = 16 \<Longrightarrow> absorbs mul 0 (cs @ xs) y = absorbs mul 0 xs (mul (xor_into 0 cs y))"
  using absorbs_append [of mul 0 cs xs y] absorbs_block [of cs y] absorbs_mod [of 16 0 mul xs] by simp

lemma absorbs_step:
  assumes "16 \<le> length xs"
  shows "absorbs mul 0 xs y = absorbs mul 0 (drop 16 xs) (mul (xor_into 0 (take 16 xs) y))"
  using assms absorbs_block_append [of "take 16 xs" "drop 16 xs" y] by (simp add: min_absorb2)

lemma ghash_append: "16 dvd length xs \<Longrightarrow> ghash mul y (xs @ ys) = ghash mul (ghash mul y xs) ys"
proof (induction mul y xs rule: ghash.induct)
  case (1 mul y xs)
  show ?case
  proof (cases "length xs < 16")
    case True
    with 1 have "xs = []" by (auto elim: dvdE)
    then show ?thesis by (simp add: ghash.simps [of mul y "[]"])
  next
    case False
    moreover have "16 dvd length (drop 16 xs)" using 1(2) False by (simp add: dvd_diff_nat)
    ultimately have "ghash mul (mul (xor_blocks y (take 16 xs))) (drop 16 xs @ ys) =
        ghash mul (ghash mul (mul (xor_blocks y (take 16 xs))) (drop 16 xs)) ys" using 1(1) by simp
    then show ?thesis using False ghash.simps [of mul y xs] ghash.simps [of mul y "xs @ ys"] by simp
  qed
qed

lemma pad16_drop: "16 \<le> length xs \<Longrightarrow> pad16 xs = take 16 xs @ pad16 (drop 16 xs)"
  by (simp add: pad16_def le_mod_geq flip: append_assoc)

lemma dvd_pad16 [simp]: "16 dvd length (pad16 xs)"
proof -
  define r where "r = length xs mod 16"
  have r: "length xs = 16 * (length xs div 16) + r" "r < 16" by (simp_all add: r_def)
  have "16 dvd r + (16 - r) mod 16" using r(2) by (cases "r = 0") simp_all
  then have "16 dvd 16 * (length xs div 16) + (r + (16 - r) mod 16)" by simp
  then have "16 dvd length xs + (16 - r) mod 16" using r(1) by (metis add.assoc)
  then show ?thesis by (simp add: pad16_def flip: r_def)
qed

lemma ghash_step:
  assumes "16 \<le> length xs" and "length y = 16"
  shows "ghash mul y (pad16 xs) = ghash mul (mul (xor_into 0 (take 16 xs) y)) (pad16 (drop 16 xs))"
  using assms xor_into_blocks [of "take 16 xs" y]
  by (subst ghash.simps) (simp add: pad16_drop min_absorb2 xor_blocks_def)

lemma length_ghash [simp]: "length y = 16 \<Longrightarrow> length (ghash mul y xs) = 16"
proof (induction "length xs" arbitrary: xs y rule: less_induct)
  case less
  then show ?case using less.hyps [of "drop 16 xs" "mul (xor_blocks y (take 16 xs))"] by (subst ghash.simps) auto
qed

lemma ghash_one: "length y = 16 \<Longrightarrow> length w = 16 \<Longrightarrow> ghash mul y w = mul (xor_into 0 w y)"
  using xor_into_blocks [of w y] by (simp add: ghash.simps)

lemma ghash_absorbs: "length y = 16 \<Longrightarrow> hash_flush mul (length xs) (absorbs mul 0 xs y) = ghash mul y (pad16 xs)"
proof (induction "length xs" arbitrary: xs y rule: less_induct)
  case less
  consider "xs = []" | "xs \<noteq> []" "length xs < 16" | "16 \<le> length xs" by fastforce
  then show ?case
  proof cases
    case 1
    then show ?thesis by (simp add: hash_flush_def pad16_def ghash.simps)
  next
    case 2
    then have "length (pad16 xs) = 16" by (simp add: pad16_def)
    then have "ghash mul y (pad16 xs) = mul (xor_blocks y (pad16 xs))" by (simp add: ghash.simps)
    moreover have "xor_into 0 xs y = xor_blocks y (pad16 xs)"
      using 2 less.prems by (simp add: xor_into_blocks pad16_def)
    ultimately show ?thesis using 2 absorbs_chunk [of 0 xs y] by (simp add: hash_flush_def)
  next
    case 3
    let ?y = "mul (xor_into 0 (take 16 xs) y)"
    have "absorbs mul 0 xs y = absorbs mul 0 (drop 16 xs) ?y" by (rule absorbs_step [OF 3])
    moreover have "hash_flush mul (length xs) b = hash_flush mul (length (drop 16 xs)) b" for b
      using 3 by (simp add: hash_flush_def le_mod_geq)
    moreover have "ghash mul y (pad16 xs) = ghash mul ?y (pad16 (drop 16 xs))"
      using 3 less.prems by (rule ghash_step)
    ultimately show ?thesis using less.hyps [of "drop 16 xs" ?y] 3 by simp
  qed
qed

lemma keystream_chunk:
  "n mod 16 \<noteq> 0 \<Longrightarrow> n mod 16 + length xs \<le> 16 \<Longrightarrow> keystream E n xs y = (xor_blocks xs (drop (n mod 16) (E y)), y)"
proof (induction xs arbitrary: n)
  case (Cons x xs)
  have d: "drop (n mod 16) (E y) = E y ! (n mod 16) # drop (Suc (n mod 16)) (E y)" by (simp add: Cons_nth_drop_Suc)
  show ?case
  proof (cases "xs = []")
    case True
    then show ?thesis using Cons.prems d by (simp add: xor_blocks_def xor.commute)
  next
    case False
    then have n: "n mod 16 < 15" using Cons.prems by (cases xs) auto
    then have "Suc n mod 16 = Suc (n mod 16)" by (simp add: mod_Suc)
    then show ?thesis using Cons.IH [of "Suc n"] Cons.prems d by (simp add: xor_blocks_def xor.commute)
  qed
qed (simp add: xor_blocks_def)

lemma keystream_block:
  assumes "xs \<noteq> []" and "length xs \<le> 16"
  shows "keystream E 0 xs y = (xor_blocks xs (E (gcm_incr y)), gcm_incr y)"
proof -
  obtain x xs' where xs: "xs = x # xs'" using assms by (cases xs) auto
  moreover have "keystream E 1 xs' (gcm_incr y) = (xor_blocks xs' (drop 1 (E (gcm_incr y))), gcm_incr y)"
    using keystream_chunk [of 1 xs' "gcm_incr y"] assms xs by simp
  moreover have "E z = E z ! 0 # drop 1 (E z)" for z by (simp add: Cons_nth_drop_Suc)
  then have "xor_blocks xs (E z) = (x XOR E z ! 0) # xor_blocks xs' (drop 1 (E z))" for z
    unfolding xs xor_blocks_def by (metis (no_types, lifting) list.simps(9) prod.case zip_Cons_Cons)
  ultimately show ?thesis by (simp add: Let_def xor.commute)
qed

lemma keystream_step:
  assumes "16 \<le> length xs"
  shows "keystream E 0 xs y = (xor_blocks (take 16 xs) (E (gcm_incr y)) @ fst (keystream E 0 (drop 16 xs) (gcm_incr y)),
    snd (keystream E 0 (drop 16 xs) (gcm_incr y)))"
proof -
  have "keystream E 0 (take 16 xs) y = (xor_blocks (take 16 xs) (E (gcm_incr y)), gcm_incr y)"
    using assms by (intro keystream_block) auto
  then show ?thesis
    using assms keystream_append [of E 0 "take 16 xs" "drop 16 xs" y] keystream_mod [of 16 0 E "drop 16 xs" "gcm_incr y"]
    by (simp add: min_absorb2 split_beta)
qed

lemma keystream_gctr: "length y = 16 \<Longrightarrow> fst (keystream E 0 xs y) = gctr E (inc32 y) xs"
proof (induction "length xs" arbitrary: xs y rule: less_induct)
  case less
  have l: "length (inc32 y) = 16" using less.prems by (simp add: inc32_def MBEDTLS_PUT_UINT32_BE_def)
  consider "xs = []" | "xs \<noteq> []" "length xs < 16" | "16 \<le> length xs" by fastforce
  then show ?case
  proof cases
    case 1
    then show ?thesis by (simp add: gctr.simps)
  next
    case 2
    then show ?thesis using less.prems by (simp add: keystream_block inc32_incr gctr.simps)
  next
    case 3
    have "gctr E (inc32 y) xs = xor_blocks (take 16 xs) (E (inc32 y)) @ gctr E (inc32 (inc32 y)) (drop 16 xs)"
      using 3 by (subst gctr.simps) auto
    then show ?thesis using less.hyps [of "drop 16 xs" "inc32 y"] less.prems 3 l by (simp add: keystream_step inc32_incr)
  qed
qed

lemma length_gctr [simp]: "length y = 16 \<Longrightarrow> length (gctr E (inc32 y) xs) = length xs"
  using length_keystream [of E 0 xs y] by (simp only: keystream_gctr)

lemma gctr_gctr: "gctr E cb (gctr E cb xs) = xs"
proof (induction "length xs" arbitrary: xs cb rule: less_induct)
  case less
  show ?case
  proof (cases "xs = []")
    case False
    let ?x = "xor_blocks (take 16 xs) (E cb)"
    have g: "gctr E cb xs = ?x @ gctr E (inc32 cb) (drop 16 xs)" using False by (simp add: gctr.simps)
    have x: "xor_blocks ?x (E cb) = take 16 xs"
      by (rule nth_equalityI) (simp_all add: xor_blocks_def xor.assoc)
    have "E cb \<noteq> []" using length_E [of cb] by fastforce
    moreover have "drop 16 xs = [] \<or> length ?x = 16" by auto
    moreover have "gctr E c [] = []" for c by (simp add: gctr.simps)
    ultimately have "take 16 (gctr E cb xs) = ?x" "drop 16 (gctr E cb xs) = gctr E (inc32 cb) (drop 16 xs)" "gctr E cb xs \<noteq> []"
      using g False by (auto simp: xor_blocks_def)
    then show ?thesis
      using less [of "drop 16 xs" "inc32 cb"] False x by (subst gctr.simps) (simp add: append_take_drop_id)
  qed (simp add: gctr.simps)
qed

end

end
