(* ===== verification/GCM_Correct.thy ===== *)
theory GCM_Correct
  imports GCM_Spec
begin

unbundle bit_operations_syntax

text \<open>
  The calls of \<^verbatim>\<open>gcm.c\<close> compute GCM over AES. A context with a key (\<open>gcm_ready\<close>) multiplies with the hash key,
  by tables or by instructions; a context in the middle of a message (\<open>gcm_stream\<close>) stands for the data it
  has been given, however the calls divided it.
\<close>

section \<open>Keys\<close>

definition gcm_mul :: "u128 \<Rightarrow> u8 list \<Rightarrow> u8 list" where
  "gcm_mul h x = elem_block (gmul (block_elem x) h)"

definition gcm_H :: "aes_context \<Rightarrow> u128" where
  "gcm_H aes = block_elem (block_enc aes zero_block)"

lemma block_elem_zero: "block_elem zero_block = 0" "elem_block 0 = zero_block"
proof -
  show "block_elem zero_block = 0" by (rule bit_eqI) (auto simp: bit_block_elem)
  then show "elem_block 0 = zero_block" using elem_block_elem(2) [of zero_block] by simp
qed

interpretation gcm: gcm_primitives "block_enc aes" "gcm_mul h" for aes h
proof
  have "gmul 0 h = 0" using gmul_commute [of 0 h] by (simp add: gmul_def nist_mult_gmul)
  then show "gcm_mul h zero_block = zero_block" by (simp only: gcm_mul_def block_elem_zero)
qed (simp_all add: gcm_mul_def)

definition gcm_ready :: "u32 \<Rightarrow> gcm_context \<Rightarrow> aes_context \<Rightarrow> bool" where
  "gcm_ready cpuid ctx aes \<longleftrightarrow> cipher_keyed (gcm_cipher ctx) aes \<and> length (gcm_HH ctx) = 16 \<and> length (gcm_HL ctx) = 16 \<and>
     lanes (gcm_HH ctx ! 8) (gcm_HL ctx ! 8) = gcm_H aes \<and>
     (mbedtls_aesni_has_support cpuid MBEDTLS_AESNI_CLMUL \<or> tables_for (gcm_H aes) (gcm_HH ctx) (gcm_HL ctx))"

lemma gcm_mult_ready: "gcm_ready cpuid ctx aes \<Longrightarrow> length x = 16 \<Longrightarrow> gcm_mult cpuid ctx x = gcm_mul (gcm_H aes) x"
  by (auto simp: gcm_ready_def gcm_mult_def gcm_mul_def put_halves_block aesni_gcm_mult_correct mult_tables_correct)

lemma gen_table_ready:
  assumes "cipher_keyed (gcm_cipher ctx) aes" and "length (gcm_HH ctx) = 16" "length (gcm_HL ctx) = 16"
  obtains ctx' where "gcm_gen_table cpuid ctx = Some (0, ctx')" "gcm_ready cpuid ctx' aes"
proof -
  let ?h = "block_enc aes zero_block"
  let ?vh = "get_half ?h 0" and ?vl = "get_half ?h 8"
  let ?HH = "(gcm_HH ctx)[8 := ?vh]" and ?HL = "(gcm_HL ctx)[8 := ?vl]"
  have h: "lanes ?vh ?vl = gcm_H aes" by (simp add: halves_elem gcm_H_def)
  have "mbedtls_cipher_update cpuid (gcm_cipher ctx) zero_block = Some (0, ?h)" by (rule cipher_update_keyed [OF assms(1)]) simp
  moreover have "tables_for (gcm_H aes) (fst (gen_tables ?vh ?vl ?HH ?HL)) (snd (gen_tables ?vh ?vl ?HH ?HL))"
     "length (fst (gen_tables ?vh ?vl ?HH ?HL)) = 16" "length (snd (gen_tables ?vh ?vl ?HH ?HL)) = 16"
     "fst (gen_tables ?vh ?vl ?HH ?HL) ! 8 = ?vh" "snd (gen_tables ?vh ?vl ?HH ?HL) ! 8 = ?vl"
    using gen_tables_correct [of ?HH ?HL ?vh ?vl] assms(2,3) h by (simp_all add: split_beta)
  ultimately show ?thesis
    using that assms h by (cases "mbedtls_aesni_has_support cpuid MBEDTLS_AESNI_CLMUL")
      (simp_all add: gcm_gen_table_def gcm_ready_def Let_def split_beta)
qed

lemma gcm_setkey_ready:
  assumes "keybits \<in> {128, 192, 256}" and "keybits div 8 \<le> length key" and "length (gcm_HH ctx) = 16" "length (gcm_HL ctx) = 16"
  obtains ctx' aes where "mbedtls_gcm_setkey cpuid True key keybits ctx = Some (0, ctx')" "gcm_ready cpuid ctx' aes"
    "mbedtls_aes_setkey_enc cpuid key keybits mbedtls_aes_init = Some (0, aes)"
proof -
  obtain i where i: "mbedtls_cipher_info_from_values keybits = Some i" using assms(1) info_from_values(2) by blast
  obtain c where c: "mbedtls_cipher_setup True (Some i) (mbedtls_cipher_free (gcm_cipher ctx)) = (0, c)"
    by (simp add: mbedtls_cipher_setup_def aes_ctx_alloc_def)
  obtain c' aes where k: "mbedtls_cipher_setkey cpuid key keybits MBEDTLS_ENCRYPT c = Some (0, c')" "cipher_keyed c' aes"
    "mbedtls_aes_setkey_enc cpuid key keybits mbedtls_aes_init = Some (0, aes)"
    by (rule cipher_setkey_keyed [OF i assms(2) c])
  obtain ctx' where "gcm_gen_table cpuid (ctx\<lparr>gcm_cipher := c'\<rparr>) = Some (0, ctx')" "gcm_ready cpuid ctx' aes"
    by (rule gen_table_ready [of "ctx\<lparr>gcm_cipher := c'\<rparr>" aes cpuid]) (use k(2) assms(3,4) in simp_all)
  then show ?thesis
    using that k c i info_from_values(1) [OF i] by (simp add: mbedtls_gcm_setkey_def)
qed

lemma gcm_ready_fields [simp]:
  "gcm_ready cpuid (ctx\<lparr>gcm_y := y\<rparr>) aes = gcm_ready cpuid ctx aes"
  "gcm_ready cpuid (ctx\<lparr>gcm_buf := b\<rparr>) aes = gcm_ready cpuid ctx aes"
  "gcm_ready cpuid (ctx\<lparr>gcm_len := n\<rparr>) aes = gcm_ready cpuid ctx aes"
  "gcm_ready cpuid (ctx\<lparr>gcm_add_len := n\<rparr>) aes = gcm_ready cpuid ctx aes"
  "gcm_ready cpuid (ctx\<lparr>gcm_mode := m\<rparr>) aes = gcm_ready cpuid ctx aes"
  "gcm_ready cpuid (ctx\<lparr>base_ectr := b\<rparr>) aes = gcm_ready cpuid ctx aes"
  by (simp_all add: gcm_ready_def)

lemma ready_cipher: "gcm_ready cpuid ctx aes \<Longrightarrow> length x = 16 \<Longrightarrow> mbedtls_cipher_update cpuid (gcm_cipher ctx) x = Some (0, block_enc aes x)"
  by (simp add: gcm_ready_def cipher_update_keyed)

section \<open>A message in progress\<close>

text \<open>The bytes that are hashed: the ciphertext, which is the input when decrypting.\<close>

definition hashed :: "int \<Rightarrow> u8 list \<Rightarrow> u8 list \<Rightarrow> u8 list" where
  "hashed mode xs outs = (if mode = MBEDTLS_GCM_DECRYPT then xs else outs)"

definition gcm_hash :: "aes_context \<Rightarrow> int \<Rightarrow> u8 list \<Rightarrow> u8 list \<Rightarrow> u8 list \<Rightarrow> u8 list" where
  "gcm_hash aes mode j0 A P = (let mul = gcm_mul (gcm_H aes); a = absorbs mul 0 A zero_block in
     if P = [] then a else absorbs mul 0 (hashed mode P (fst (keystream (block_enc aes) 0 P j0))) (hash_flush mul (length A) a))"

definition gcm_stream :: "u32 \<Rightarrow> gcm_context \<Rightarrow> aes_context \<Rightarrow> int \<Rightarrow> u8 list \<Rightarrow> u8 list \<Rightarrow> u8 list \<Rightarrow> bool" where
  "gcm_stream cpuid ctx aes mode j0 A P \<longleftrightarrow> gcm_ready cpuid ctx aes \<and> gcm_mode ctx = mode \<and>
     mode \<in> {MBEDTLS_GCM_ENCRYPT, MBEDTLS_GCM_DECRYPT} \<and> length j0 = 16 \<and> base_ectr ctx = block_enc aes j0 \<and>
     gcm_add_len ctx = of_nat (length A) \<and> gcm_len ctx = of_nat (length P) \<and> length P \<le> 0xFFFFFFFE0 \<and>
     gcm_y ctx = snd (keystream (block_enc aes) 0 P j0) \<and> gcm_buf ctx = gcm_hash aes mode j0 A P"

lemma iv_loop_ghash:
  "gcm_ready cpuid ctx aes \<Longrightarrow> length y = 16 \<Longrightarrow> gcm_iv_loop cpuid ctx iv y = ghash (gcm_mul (gcm_H aes)) y (pad16 iv)"
proof (induction "length iv" arbitrary: iv y rule: less_induct)
  case less
  let ?mul = "gcm_mul (gcm_H aes)"
  consider "iv = []" | "iv \<noteq> []" "length iv < 16" | "16 \<le> length iv" by fastforce
  then show ?case
  proof cases
    case 1
    then show ?thesis by (simp add: gcm_iv_loop.simps pad16_def ghash.simps)
  next
    case 2
    then show ?thesis
      using less.prems gcm_mult_ready [OF less.prems(1), of "xor_into 0 iv y"] gcm.ghash_absorbs [of y "gcm_H aes" iv]
        gcm.absorbs_chunk [of 0 iv "gcm_H aes" y]
      by (simp add: gcm_iv_loop.simps [of _ _ iv] gcm_iv_loop.simps [of _ _ "[]"] hash_flush_def Let_def)
  next
    case 3
    let ?y = "?mul (xor_into 0 (take 16 iv) y)"
    have "gcm_iv_loop cpuid ctx iv y = gcm_iv_loop cpuid ctx (drop 16 iv) ?y"
      using 3 less.prems gcm_mult_ready [OF less.prems(1), of "xor_into 0 (take 16 iv) y"]
      by (subst gcm_iv_loop.simps) (auto simp: Let_def)
    moreover have "ghash ?mul y (pad16 iv) = ghash ?mul ?y (pad16 (drop 16 iv))"
      by (rule gcm.ghash_step [OF 3 less.prems(2)])
    ultimately show ?thesis using less.hyps [of "drop 16 iv" ?y] less.prems(1) 3 by simp
  qed
qed

lemma PUT_64_half: "MBEDTLS_PUT_UINT64_BE n = put_half n"
proof -
  have "(ucast (drop_bit k n) :: u8) = ucast (ucast (drop_bit k n) :: u32)" for k by (rule bit_eqI) (auto simp: bit_simps)
  then show ?thesis
    by (auto simp: MBEDTLS_PUT_UINT64_BE_def put_half_def MBEDTLS_PUT_UINT32_BE_def byte_ucast intro!: bit_eqI simp: bit_simps)
qed

lemma starts_stream:
  assumes "gcm_ready cpuid ctx aes" and "mode \<in> {MBEDTLS_GCM_ENCRYPT, MBEDTLS_GCM_DECRYPT}" and "iv \<noteq> []" "length iv < 2 ^ 61"
  obtains ctx' where "mbedtls_gcm_starts cpuid mode iv ctx = Some (0, ctx')"
    "gcm_stream cpuid ctx' aes mode (nist_J0 (gcm_mul (gcm_H aes)) iv) [] []"
proof -
  let ?mul = "gcm_mul (gcm_H aes)" and ?j0 = "nist_J0 (gcm_mul (gcm_H aes)) iv"
  let ?ctx = "ctx\<lparr>gcm_y := zero_block, gcm_buf := zero_block, gcm_mode := mode, gcm_len := 0, gcm_add_len := 0\<rparr>"
  let ?work = "replicate 8 0 @ MBEDTLS_PUT_UINT64_BE (of_nat (length iv) * 8)"
  have r: "gcm_ready cpuid ?ctx aes" using assms(1) by simp
  have "gcm_mult cpuid ?ctx (xor_into 0 ?work (gcm_iv_loop cpuid ?ctx iv zero_block)) = ghash ?mul zero_block (pad16 iv @ replicate 8 0 @ bit_count iv)"
  proof -
    have w: "?work = replicate 8 0 @ bit_count iv" "length ?work = 16" by (simp_all add: PUT_64_half bit_count_def mult.commute)
    have "gcm_iv_loop cpuid ?ctx iv zero_block = ghash ?mul zero_block (pad16 iv)" by (rule iv_loop_ghash [OF r]) simp
    then show ?thesis
      using gcm.ghash_append [of "pad16 iv" "gcm_H aes" zero_block ?work]
        gcm_mult_ready [OF r, of "xor_into 0 ?work (ghash ?mul zero_block (pad16 iv))"]
        gcm.ghash_one [of "ghash ?mul zero_block (pad16 iv)" ?work "gcm_H aes"] w by simp
  qed
  moreover have "length iv = 12 \<Longrightarrow> (iv @ drop 12 zero_block)[15 := 1] = iv @ [0, 0, 0, 1]"
    by (simp add: list_update_append eval_nat_numeral)
  ultimately have j: "(if length iv = 12 then (iv @ drop 12 zero_block)[15 := 1]
      else gcm_mult cpuid ?ctx (xor_into 0 ?work (gcm_iv_loop cpuid ?ctx iv zero_block))) = ?j0" by (simp add: nist_J0_def)
  have l: "length ?j0 = 16" by (simp add: nist_J0_def)
  have "mbedtls_gcm_starts cpuid mode iv ctx = Some (0, ?ctx\<lparr>gcm_y := ?j0, base_ectr := block_enc aes ?j0\<rparr>)"
    using ready_cipher [OF r l] j assms(3,4) by (cases "length iv = 12") (simp_all add: mbedtls_gcm_starts_def Let_def)
  moreover have "gcm_stream cpuid (?ctx\<lparr>gcm_y := ?j0, base_ectr := block_enc aes ?j0\<rparr>) aes mode ?j0 [] []"
    using assms(1,2) l by (simp add: gcm_stream_def gcm_hash_def)
  ultimately show ?thesis by (rule that)
qed

lemma unat_mod16: "unat ((of_nat n :: u64) mod 16) = n mod 16"
proof -
  have "unat ((of_nat n :: u64) mod 16) = n mod 2 ^ 64 mod 16" by (simp add: unat_mod unat_of_nat)
  also have "\<dots> = n mod 16" by (rule mod_mod_cancel) simp
  finally show ?thesis .
qed

lemma word_mod16_0: "(of_nat n :: u64) mod 16 = 0 \<longleftrightarrow> n mod 16 = 0"
  by (metis unat_mod16 unat_eq_zero)

lemma ad_loop_absorbs:
  "gcm_ready cpuid ctx aes \<Longrightarrow> length (gcm_buf ctx) = 16 \<Longrightarrow>
     gcm_ad_loop cpuid ctx p = ctx\<lparr>gcm_buf := absorbs (gcm_mul (gcm_H aes)) 0 p (gcm_buf ctx)\<rparr>"
proof (induction "length p" arbitrary: p ctx rule: less_induct)
  case less
  let ?mul = "gcm_mul (gcm_H aes)"
  consider "p = []" | "p \<noteq> []" "length p < 16" | "16 \<le> length p" by fastforce
  then show ?case
  proof cases
    case 1
    then show ?thesis by (simp add: gcm_ad_loop.simps)
  next
    case 2
    then show ?thesis using gcm.absorbs_chunk [of 0 p "gcm_H aes"] by (simp add: gcm_ad_loop.simps [of _ _ p])
  next
    case 3
    let ?b = "?mul (xor_into 0 (take 16 p) (gcm_buf ctx))"
    have "gcm_ad_loop cpuid ctx p = gcm_ad_loop cpuid (ctx\<lparr>gcm_buf := ?b\<rparr>) (drop 16 p)"
      using 3 less.prems gcm_mult_ready [OF less.prems(1)] by (subst gcm_ad_loop.simps) simp
    moreover have "absorbs ?mul 0 p (gcm_buf ctx) = absorbs ?mul 0 (drop 16 p) ?b" by (rule gcm.absorbs_step [OF 3])
    ultimately show ?thesis using less.hyps [of "drop 16 p" "ctx\<lparr>gcm_buf := ?b\<rparr>"] less.prems 3 by simp
  qed
qed

lemma length_gcm_hash [simp]: "length (gcm_hash aes mode j0 A P) = 16"
  by (simp add: gcm_hash_def Let_def)

text \<open>The part of the input that fills up a block that has been begun.\<close>

definition fill_len :: "nat \<Rightarrow> u8 list \<Rightarrow> nat" where
  "fill_len n xs = (if n mod 16 \<noteq> 0 then min (16 - n mod 16) (length xs) else 0)"

lemma fill_len:
  "fill_len n xs \<le> length xs" "n mod 16 + fill_len n xs \<le> 16" "n mod 16 = 0 \<Longrightarrow> fill_len n xs = 0"
  "n mod 16 \<noteq> 0 \<Longrightarrow> xs \<noteq> [] \<Longrightarrow> take (fill_len n xs) xs \<noteq> []"
  by (auto simp: fill_len_def)

lemma fill_rest: "drop (fill_len n xs) xs = [] \<or> (n + fill_len n xs) mod 16 = 0"
proof (cases "n mod 16 = 0 \<or> length xs \<le> 16 - n mod 16")
  case False
  then have "n + fill_len n xs = n - n mod 16 + 16" by (simp add: fill_len_def)
  then show ?thesis by (simp add: minus_mod_eq_mult_div)
qed (auto simp: fill_len_def)

lemma absorbs_fill:
  "absorbs mul n xs b = absorbs mul 0 (drop (fill_len n xs) xs) (absorbs mul n (take (fill_len n xs) xs) b)"
proof -
  let ?k = "fill_len n xs"
  have "absorbs mul n xs b = absorbs mul (n + ?k) (drop ?k xs) (absorbs mul n (take ?k xs) b)"
    using absorbs_append [of mul n "take ?k xs" "drop ?k xs" b] fill_len(1) [of n xs] by (simp add: min_absorb2)
  then show ?thesis using fill_rest [of n xs] absorbs_mod [of "n + ?k" 0 mul "drop ?k xs"] by auto
qed

lemma keystream_fill:
  "keystream E n xs y = (let (o1, y) = keystream E n (take (fill_len n xs) xs) y; (o2, y) = keystream E 0 (drop (fill_len n xs) xs) y
     in (o1 @ o2, y))"
proof -
  let ?k = "fill_len n xs"
  have "keystream E (n + ?k) (drop ?k xs) z = keystream E 0 (drop ?k xs) z" for z
    using fill_rest [of n xs] keystream_mod [of "n + ?k" 0 E "drop ?k xs" z] by auto
  then show ?thesis
    using keystream_append [of E n "take ?k xs" "drop ?k xs" y] fill_len(1) [of n xs] by (simp add: min_absorb2)
qed

lemma mult_chunk:
  assumes "gcm_ready cpuid ctx aes" and "length b = 16" and "n mod 16 + length cs \<le> 16" and "cs \<noteq> []"
  shows "(if n mod 16 + length cs = 16 then gcm_mult cpuid ctx (xor_into (n mod 16) cs b) else xor_into (n mod 16) cs b) =
    absorbs (gcm_mul (gcm_H aes)) n cs b"
  unfolding gcm.absorbs_chunk [OF assms(3,4)] using gcm_mult_ready [OF assms(1)] assms(2) by simp

lemma length_fill: "length (take (fill_len n xs) xs) = fill_len n xs"
  using fill_len(1) [of n xs] by (simp add: min_absorb2)

lemma update_ad_stream:
  assumes "gcm_stream cpuid ctx aes mode j0 A []" and "length add < 2 ^ 61"
  obtains ctx' where "mbedtls_gcm_update_ad cpuid add ctx = (0, ctx')" "gcm_stream cpuid ctx' aes mode j0 (A @ add) []"
proof -
  let ?mul = "gcm_mul (gcm_H aes)" and ?n = "length A mod 16" and ?k = "fill_len (length A) add"
  let ?b = "absorbs ?mul (length A) (take ?k add) (gcm_buf ctx)"
  have s: "gcm_ready cpuid ctx aes" "gcm_add_len ctx = of_nat (length A)" "gcm_buf ctx = absorbs ?mul 0 A zero_block"
    using assms(1) by (simp_all add: gcm_stream_def gcm_hash_def)
  then have l: "length (gcm_buf ctx) = 16" by simp
  have b: "(if ?n \<noteq> 0 \<and> ?n + ?k = 16 then gcm_mult cpuid ctx (if ?n \<noteq> 0 then xor_into ?n (take ?k add) (gcm_buf ctx) else gcm_buf ctx)
      else if ?n \<noteq> 0 then xor_into ?n (take ?k add) (gcm_buf ctx) else gcm_buf ctx) = ?b"
  proof (cases "?n = 0 \<or> add = []")
    case True
    then show ?thesis by (auto simp: fill_len_def)
  next
    case False
    then show ?thesis
      using mult_chunk [OF s(1) l, of "length A" "take ?k add", unfolded length_fill] fill_len(2,4) [of "length A" add] by auto
  qed
  have "mbedtls_gcm_update_ad cpuid add ctx = (0, gcm_ad_loop cpuid (ctx\<lparr>gcm_buf := ?b,
      gcm_add_len := of_nat (length A) + of_nat ?k + of_nat (length (drop ?k add))\<rparr>) (drop ?k add))"
    unfolding mbedtls_gcm_update_ad_def Let_def s(2) unat_mod16 fill_len_def [symmetric] b using assms(2) s(2) by simp
  also have "\<dots> = (0, ctx\<lparr>gcm_buf := absorbs ?mul 0 (A @ add) zero_block, gcm_add_len := of_nat (length (A @ add))\<rparr>)"
  proof -
    have "absorbs ?mul 0 (A @ add) zero_block = absorbs ?mul 0 (drop ?k add) ?b"
      using absorbs_append [of ?mul 0 A add zero_block] absorbs_fill [of ?mul "length A" add] s(3) by simp
    moreover have "of_nat (length A) + of_nat ?k + of_nat (length (drop ?k add)) = (of_nat (length (A @ add)) :: u64)"
      using fill_len(1) [of "length A" add] by (simp add: of_nat_diff)
    ultimately show ?thesis using s(1) l by (subst ad_loop_absorbs [where aes = aes]) simp_all
  qed
  finally show ?thesis
    using that assms(1) by (simp add: gcm_stream_def gcm_hash_def)
qed

lemma mask_loop_eq:
  "mode \<in> {MBEDTLS_GCM_ENCRYPT, MBEDTLS_GCM_DECRYPT} \<Longrightarrow> off + length xs \<le> length ectr \<Longrightarrow>
   gcm_mask_loop mode ectr off xs b =
     (xor_blocks xs (drop off ectr), xor_into off (hashed mode xs (xor_blocks xs (drop off ectr))) b)"
proof (induction xs arbitrary: off b)
  case (Cons x xs)
  have d: "drop off ectr = ectr ! off # drop (Suc off) ectr" using Cons.prems by (simp add: Cons_nth_drop_Suc)
  then show ?case
    using Cons by (auto simp: Let_def hashed_def xor_blocks_def xor.commute MBEDTLS_GCM_ENCRYPT_def MBEDTLS_GCM_DECRYPT_def)
qed (simp add: hashed_def xor_blocks_def)

lemma length_hashed [simp]: "length outs = length xs \<Longrightarrow> length (hashed mode xs outs) = length xs"
  by (simp add: hashed_def)

lemma hashed_append:
  "length o1 = length (take k xs) \<Longrightarrow> hashed mode xs (o1 @ o2) = hashed mode (take k xs) o1 @ hashed mode (drop k xs) o2"
  by (simp add: hashed_def)

lemma gcm_mask_ready:
  assumes "gcm_ready cpuid ctx aes" and "length (gcm_y ctx) = 16" and "gcm_mode ctx = mode" "mode \<in> {MBEDTLS_GCM_ENCRYPT, MBEDTLS_GCM_DECRYPT}"
    and "off + length xs \<le> 16"
  shows "gcm_mask cpuid off xs ctx = (let outs = xor_blocks xs (drop off (block_enc aes (gcm_y ctx))) in
    Some (0, outs, ctx\<lparr>gcm_buf := xor_into off (hashed mode xs outs) (gcm_buf ctx)\<rparr>))"
  using ready_cipher [OF assms(1,2)] mask_loop_eq [OF assms(4), of off xs "block_enc aes (gcm_y ctx)"] assms(3,5)
  by (simp add: gcm_mask_def Let_def)

lemma update_loop_ready:
  assumes "gcm_ready cpuid ctx aes" and "length (gcm_y ctx) = 16" "length (gcm_buf ctx) = 16"
    and "gcm_mode ctx = mode" "mode \<in> {MBEDTLS_GCM_ENCRYPT, MBEDTLS_GCM_DECRYPT}"
  shows "gcm_update_loop cpuid p ctx = (let (outs, y) = keystream (block_enc aes) 0 p (gcm_y ctx) in
    Some (0, outs, ctx\<lparr>gcm_y := y, gcm_buf := absorbs (gcm_mul (gcm_H aes)) 0 (hashed mode p outs) (gcm_buf ctx)\<rparr>))"
  using assms
proof (induction "length p" arbitrary: p ctx rule: less_induct)
  case less
  let ?mul = "gcm_mul (gcm_H aes)" and ?y = "gcm_incr (gcm_y ctx)" and ?ctx = "ctx\<lparr>gcm_y := gcm_incr (gcm_y ctx)\<rparr>"
  note mask = gcm_mask_ready [of cpuid ?ctx aes mode 0]
  consider "p = []" | "p \<noteq> []" "length p < 16" | "16 \<le> length p" by fastforce
  then show ?case
  proof cases
    case 1
    then show ?thesis by (simp add: gcm_update_loop.simps hashed_def)
  next
    case 2
    let ?o = "xor_blocks p (block_enc aes ?y)"
    have "gcm_update_loop cpuid p ctx = gcm_mask cpuid 0 p ?ctx" using 2 by (subst gcm_update_loop.simps) simp
    moreover have "absorbs ?mul 0 (hashed mode p ?o) (gcm_buf ctx) = xor_into 0 (hashed mode p ?o) (gcm_buf ctx)"
    proof -
      have l: "length (hashed mode p ?o) = length p" using 2 by simp
      then have "hashed mode p ?o \<noteq> []" using 2 by force
      from gcm.absorbs_chunk [OF _ this, of 0 "gcm_H aes" "gcm_buf ctx"] show ?thesis using l 2 by simp
    qed
    ultimately show ?thesis using 2 less.prems mask [of p] gcm.keystream_block [of p aes "gcm_y ctx"] by (simp add: Let_def)
  next
    case 3
    let ?o = "xor_blocks (take 16 p) (block_enc aes ?y)"
    let ?b = "?mul (xor_into 0 (hashed mode (take 16 p) ?o) (gcm_buf ctx))"
    let ?c = "?ctx\<lparr>gcm_buf := ?b\<rparr>"
    obtain os z where k: "keystream (block_enc aes) 0 (drop 16 p) ?y = (os, z)" by fastforce
    have "gcm_update_loop cpuid (drop 16 p) ?c = Some (0, os, ?c\<lparr>gcm_y := z, gcm_buf := absorbs ?mul 0 (hashed mode (drop 16 p) os) ?b\<rparr>)"
      using less.hyps [of "drop 16 p" ?c] less.prems 3 k by simp
    moreover have "gcm_mask cpuid 0 (take 16 p) ?ctx = Some (0, ?o, ?ctx\<lparr>gcm_buf := xor_into 0 (hashed mode (take 16 p) ?o) (gcm_buf ctx)\<rparr>)"
      using less.prems mask [of "take 16 p"] by (simp add: Let_def)
    ultimately have "gcm_update_loop cpuid p ctx = Some (0, ?o @ os, ?c\<lparr>gcm_y := z, gcm_buf := absorbs ?mul 0 (hashed mode (drop 16 p) os) ?b\<rparr>)"
      using 3 less.prems gcm_mult_ready [of cpuid _ aes "xor_into 0 (hashed mode (take 16 p) ?o) (gcm_buf ctx)"]
      by (subst gcm_update_loop.simps) simp
    moreover have "absorbs ?mul 0 (hashed mode p (?o @ os)) (gcm_buf ctx) = absorbs ?mul 0 (hashed mode (drop 16 p) os) ?b"
      using 3 by (subst hashed_append [of _ 16]) (simp_all add: gcm.absorbs_block_append)
    ultimately show ?thesis using 3 k by (simp add: gcm.keystream_step)
  qed
qed

lemma length_ok:
  assumes "a + b \<le> 0xFFFFFFFE0"
  shows "\<not> (of_nat a + of_nat b < (of_nat a :: u64))" "\<not> (of_nat a + of_nat b > (0xFFFFFFFE0 :: u64))"
proof -
  have "unat (of_nat a :: u64) = a" "unat (of_nat a + of_nat b :: u64) = a + b"
    using assms by (simp_all add: unat_of_nat flip: of_nat_add)
  then show "\<not> (of_nat a + of_nat b < (of_nat a :: u64))" "\<not> (of_nat a + of_nat b > (0xFFFFFFFE0 :: u64))"
    using assms by (simp_all add: word_less_nat_alt)
qed

lemma update_fill_ready:
  assumes "gcm_ready cpuid ctx aes" and "length (gcm_y ctx) = 16" "length (gcm_buf ctx) = 16"
    and "gcm_mode ctx = mode" "mode \<in> {MBEDTLS_GCM_ENCRYPT, MBEDTLS_GCM_DECRYPT}" and "inp \<noteq> []"
    and k: "keystream (block_enc aes) n (take (fill_len n inp) inp) (gcm_y ctx) = (outs, y)"
  shows "gcm_update_fill cpuid (n mod 16) inp ctx = Some (0, fill_len n inp, outs,
      ctx\<lparr>gcm_buf := absorbs (gcm_mul (gcm_H aes)) n (hashed mode (take (fill_len n inp) inp) outs) (gcm_buf ctx),
        gcm_len := gcm_len ctx + of_nat (fill_len n inp)\<rparr>) \<and> y = gcm_y ctx"
proof (cases "n mod 16 = 0")
  case True
  then show ?thesis using k by (auto simp: fill_len_def gcm_update_fill_def hashed_def)
next
  case False
  let ?k = "fill_len n inp" and ?c = "take (fill_len n inp) inp"
  have c: "length ?c = ?k" "n mod 16 + length ?c \<le> 16" "?c \<noteq> []"
    unfolding length_fill using fill_len [of n inp] False assms(6) by blast+
  have k': "?k = min (16 - n mod 16) (length inp)" using False by (simp add: fill_len_def)
  have outs: "outs = xor_blocks ?c (drop (n mod 16) (block_enc aes (gcm_y ctx)))" "y = gcm_y ctx"
    using gcm.keystream_chunk [OF False c(2), of aes "gcm_y ctx"] k by auto
  have "length outs = length ?c" using length_keystream [of "block_enc aes" n ?c "gcm_y ctx"] k by simp
  then have h: "length (hashed mode ?c outs) = ?k" "hashed mode ?c outs \<noteq> []" "n mod 16 + length (hashed mode ?c outs) \<le> 16"
    using c length_hashed [of outs ?c mode] by (auto simp flip: length_0_conv simp del: length_take)
  let ?b = "xor_into (n mod 16) (hashed mode ?c outs) (gcm_buf ctx)"
  have "gcm_mask cpuid (n mod 16) ?c ctx = Some (0, outs, ctx\<lparr>gcm_buf := ?b\<rparr>)"
    using gcm_mask_ready [OF assms(1,2,4,5) c(2)] outs by (simp add: Let_def)
  moreover have "(if n mod 16 + ?k = 16 then gcm_mult cpuid (ctx\<lparr>gcm_buf := ?b\<rparr>) ?b else ?b) =
      absorbs (gcm_mul (gcm_H aes)) n (hashed mode ?c outs) (gcm_buf ctx)"
    using mult_chunk [OF _ assms(3) h(3,2), of cpuid "ctx\<lparr>gcm_buf := ?b\<rparr>" aes] assms(1) h(1) by simp
  ultimately show ?thesis
    unfolding gcm_update_fill_def k' [symmetric] Let_def using False outs(2) by (auto split: if_splits)
qed

lemma hash_fill:
  assumes "length o1 = length (take (fill_len n xs) xs)" and "length o2 = length (drop (fill_len n xs) xs)"
  shows "absorbs mul n (hashed mode xs (o1 @ o2)) b =
    absorbs mul 0 (hashed mode (drop (fill_len n xs) xs) o2) (absorbs mul n (hashed mode (take (fill_len n xs) xs) o1) b)"
proof -
  let ?k = "fill_len n xs"
  have l: "length (hashed mode (take ?k xs) o1) = ?k" using length_hashed [OF assms(1)] length_fill by metis
  have "absorbs mul n (hashed mode xs (o1 @ o2)) b =
      absorbs mul (n + ?k) (hashed mode (drop ?k xs) o2) (absorbs mul n (hashed mode (take ?k xs) o1) b)"
    unfolding hashed_append [OF assms(1)] absorbs_append l ..
  moreover have "hashed mode (drop ?k xs) o2 = [] \<or> (n + ?k) mod 16 = 0 mod 16"
    using fill_rest [of n xs] assms(2) by (auto simp: hashed_def)
  ultimately show ?thesis using absorbs_mod [of "n + ?k" 0 mul "hashed mode (drop ?k xs) o2"] by auto
qed

text \<open>The hash of what a context has been given, with the additional data closed.\<close>

definition hash_closed :: "aes_context \<Rightarrow> int \<Rightarrow> u8 list \<Rightarrow> u8 list \<Rightarrow> u8 list \<Rightarrow> u8 list" where
  "hash_closed aes mode j0 A P = (let mul = gcm_mul (gcm_H aes) in
     absorbs mul 0 (hashed mode P (fst (keystream (block_enc aes) 0 P j0))) (hash_flush mul (length A) (absorbs mul 0 A zero_block)))"

lemma length_hash_closed [simp]: "length (hash_closed aes mode j0 A P) = 16"
  by (simp add: hash_closed_def Let_def)

lemma set_buf_same: "b = gcm_buf ctx \<Longrightarrow> ctx\<lparr>gcm_buf := b\<rparr> = ctx"
  by simp

lemma stream_len:
  assumes "gcm_stream cpuid ctx aes mode j0 A P"
  shows "unat (gcm_len ctx) = length P" "gcm_len ctx = 0 \<longleftrightarrow> P = []"
proof -
  show "unat (gcm_len ctx) = length P" using assms by (simp add: gcm_stream_def unat_of_nat)
  then show "gcm_len ctx = 0 \<longleftrightarrow> P = []" by (metis length_0_conv unat_eq_zero)
qed

lemma stream_close:
  assumes "gcm_stream cpuid ctx aes mode j0 A P"
  shows "(if gcm_len ctx = 0 \<and> gcm_add_len ctx mod 16 \<noteq> 0 then ctx\<lparr>gcm_buf := gcm_mult cpuid ctx (gcm_buf ctx)\<rparr> else ctx) =
    ctx\<lparr>gcm_buf := hash_closed aes mode j0 A P\<rparr>"
proof (cases "P = [] \<and> length A mod 16 \<noteq> 0")
  case True
  then have "gcm_buf ctx = absorbs (gcm_mul (gcm_H aes)) 0 A zero_block" "gcm_len ctx = 0" "gcm_add_len ctx mod 16 \<noteq> 0"
    using assms by (simp_all add: gcm_stream_def gcm_hash_def word_mod16_0)
  moreover have "gcm_ready cpuid ctx aes" using assms by (simp add: gcm_stream_def)
  ultimately show ?thesis
    using True gcm_mult_ready [of cpuid ctx aes "gcm_buf ctx"] by (simp add: hash_closed_def Let_def hash_flush_def hashed_def)
next
  case False
  have "gcm_buf ctx = gcm_hash aes mode j0 A P" "gcm_add_len ctx = of_nat (length A)" using assms by (simp_all add: gcm_stream_def)
  moreover have "gcm_hash aes mode j0 A P = hash_closed aes mode j0 A P"
    using False by (auto simp: hash_closed_def gcm_hash_def Let_def hash_flush_def hashed_def)
  ultimately show ?thesis using False stream_len(2) [OF assms] by (auto simp: word_mod16_0 set_buf_same)
qed

lemma update_stream:
  assumes st: "gcm_stream cpuid ctx aes mode j0 A P" and len: "length P + length inp \<le> 0xFFFFFFFE0" and "length inp \<le> output_size"
    and "\<not> (0 < distance \<and> distance < int (length inp))"
  obtains ctx' outs where "mbedtls_gcm_update cpuid distance output_size inp ctx = Some (0, Some (length inp), outs, ctx')"
    "gcm_stream cpuid ctx' aes mode j0 A (P @ inp)"
    "fst (keystream (block_enc aes) 0 (P @ inp) j0) = fst (keystream (block_enc aes) 0 P j0) @ outs"
proof (cases "inp = []")
  case True
  then show ?thesis using that [of "[]" ctx] st by (simp add: mbedtls_gcm_update_def)
next
  case ne: False
  let ?mul = "gcm_mul (gcm_H aes)" and ?E = "block_enc aes" and ?n = "length P"
  let ?k = "fill_len ?n inp"
  define ctx1 where "ctx1 = ctx\<lparr>gcm_buf := hash_closed aes mode j0 A P\<rparr>"
  obtain oP yP where kP: "keystream ?E 0 P j0 = (oP, yP)" by fastforce
  have s: "gcm_ready cpuid ctx1 aes" "gcm_mode ctx1 = mode" "mode \<in> {MBEDTLS_GCM_ENCRYPT, MBEDTLS_GCM_DECRYPT}"
    "gcm_len ctx1 = of_nat ?n" "gcm_y ctx1 = yP" "length yP = 16" "length (gcm_buf ctx1) = 16"
    using st kP length_keystream_counter [of ?E 0 P j0] by (simp_all add: gcm_stream_def ctx1_def)
  obtain o1 y1 where k1: "keystream ?E ?n (take ?k inp) yP = (o1, y1)" by fastforce
  obtain o2 y2 where k2: "keystream ?E 0 (drop ?k inp) y1 = (o2, y2)" by fastforce
  let ?b1 = "absorbs ?mul ?n (hashed mode (take ?k inp) o1) (gcm_buf ctx1)"
  have "keystream ?E ?n (take ?k inp) (gcm_y ctx1) = (o1, y1)" using k1 s(5) by simp
  from update_fill_ready [OF s(1) _ s(7,2,3) ne this] s(4-6)
  have f: "gcm_update_fill cpuid (?n mod 16) inp ctx1 = Some (0, ?k, o1, ctx1\<lparr>gcm_buf := ?b1, gcm_len := of_nat ?n + of_nat ?k\<rparr>)"
    "y1 = yP" by simp_all
  let ?ctx = "ctx1\<lparr>gcm_buf := absorbs ?mul 0 (hashed mode (drop ?k inp) o2) ?b1,
    gcm_len := of_nat ?n + of_nat ?k + of_nat (length (drop ?k inp)), gcm_y := y2\<rparr>"
  have "gcm_update_loop cpuid (drop ?k inp) (ctx1\<lparr>gcm_buf := ?b1, gcm_len := of_nat ?n + of_nat ?k + of_nat (length (drop ?k inp))\<rparr>) =
      Some (0, o2, ?ctx)"
    using update_loop_ready [of cpuid "ctx1\<lparr>gcm_buf := ?b1, gcm_len := of_nat ?n + of_nat ?k + of_nat (length (drop ?k inp))\<rparr>" aes mode "drop ?k inp"]
      s k2 f(2) by simp
  moreover have d: "(0 < distance \<and> distance < int (length inp)) = False" using assms(4) by blast
  moreover have "gcm_len ctx = of_nat ?n" using st by (simp add: gcm_stream_def)
  ultimately have "mbedtls_gcm_update cpuid distance output_size inp ctx = Some (0, Some (length inp), o1 @ o2, ?ctx)"
    unfolding mbedtls_gcm_update_def Let_def stream_close [OF st] ctx1_def [symmetric] s(4) unat_mod16 d if_False
    using f(1) length_ok [OF len] assms(3) ne by simp
  moreover have ks: "keystream ?E 0 (P @ inp) j0 = (oP @ o1 @ o2, y2)"
    using keystream_append [of ?E 0 P inp j0] keystream_fill [of ?E ?n inp yP] kP k1 k2 by simp
  moreover have "gcm_stream cpuid ?ctx aes mode j0 A (P @ inp)"
  proof -
    let ?F = "hash_flush ?mul (length A) (absorbs ?mul 0 A zero_block)"
    have l: "length oP = length P" "length o1 = length (take ?k inp)" "length o2 = length (drop ?k inp)"
      using length_keystream [of ?E 0 P j0] length_keystream [of ?E ?n "take ?k inp" yP] length_keystream [of ?E 0 "drop ?k inp" y1] kP k1 k2
      by simp_all
    have "absorbs ?mul 0 (hashed mode (P @ inp) (oP @ o1 @ o2)) ?F = absorbs ?mul ?n (hashed mode inp (o1 @ o2)) (gcm_buf ctx1)"
      using hashed_append [of oP ?n "P @ inp" mode "o1 @ o2"] absorbs_append [of ?mul 0 "hashed mode P oP"] l(1) kP
      by (simp add: ctx1_def hash_closed_def Let_def)
    then have "gcm_hash aes mode j0 A (P @ inp) = absorbs ?mul 0 (hashed mode (drop ?k inp) o2) ?b1"
      using hash_fill [OF l(2,3)] ks ne by (simp add: gcm_hash_def Let_def)
    moreover have "of_nat ?n + of_nat ?k + of_nat (length (drop ?k inp)) = (of_nat (length (P @ inp)) :: u64)"
      using fill_len(1) [of ?n inp] by (simp add: of_nat_diff)
    ultimately show ?thesis using st len ks s(1) by (simp add: gcm_stream_def ctx1_def)
  qed
  ultimately show ?thesis using that kP by simp
qed

lemma xor_block_comm: "xor_blocks xs ys = xor_blocks ys xs"
  by (rule nth_equalityI) (simp_all add: xor_blocks_def xor.commute)

lemma xor_into_take: "length xs = length e \<Longrightarrow> xor_into 0 (take t xs) (take t e) = take t (xor_blocks e xs)"
  by (rule nth_equalityI) (auto simp: nth_xor_into xor_blocks_def)

lemma len_bits_zero: "n < 2 ^ 61 \<Longrightarrow> (of_nat n * 8 :: u64) = 0 \<longleftrightarrow> n = 0"
proof -
  assume n: "n < 2 ^ 61"
  have "unat (of_nat n * 8 :: u64) = unat (of_nat (n * 8) :: u64)" by simp
  also have "\<dots> = n * 8" using n by (simp only: unat_of_nat) simp
  finally show ?thesis by (metis mult_is_0 unat_eq_zero zero_neq_numeral)
qed

lemma zero_counts: "bit_count [] @ bit_count [] = zero_block" "xor_into 0 zero_block zero_block = zero_block"
  "length e = 16 \<Longrightarrow> xor_blocks e zero_block = e"
proof -
  show "bit_count [] @ bit_count [] = zero_block" by (simp add: bit_count_def put_halves_block block_elem_zero)
  show "xor_into 0 zero_block zero_block = zero_block" by (rule nth_equalityI) (auto simp: nth_xor_into)
  show "length e = 16 \<Longrightarrow> xor_blocks e zero_block = e" by (rule nth_equalityI) (auto simp: xor_blocks_def)
qed

lemma flush_closed:
  "hash_flush (gcm_mul (gcm_H aes)) (length P) (hash_closed aes mode j0 A P) =
     ghash (gcm_mul (gcm_H aes)) zero_block (pad16 A @ pad16 (hashed mode P (fst (keystream (block_enc aes) 0 P j0))))"
proof -
  let ?C = "hashed mode P (fst (keystream (block_enc aes) 0 P j0))"
  have "length ?C = length P" by simp
  then show ?thesis
    using gcm.ghash_absorbs [of _ "gcm_H aes" ?C] gcm.ghash_absorbs [of zero_block "gcm_H aes" A]
      gcm.ghash_append [of "pad16 A" "gcm_H aes" zero_block "pad16 ?C"] by (simp add: hash_closed_def Let_def)
qed

lemma nist_tag_hash:
  "nist_tag E (gcm_mul h) j0 A C =
     xor_blocks (E j0) (gcm_mul h (xor_into 0 (bit_count A @ bit_count C) (ghash (gcm_mul h) zero_block (pad16 A @ pad16 C))))"
proof -
  have "length (bit_count A @ bit_count C) = 16" by (simp add: bit_count_def)
  then show ?thesis
    using gcm.ghash_append [of "pad16 A @ pad16 C" h zero_block "bit_count A @ bit_count C"]
      gcm.ghash_one [of "ghash (gcm_mul h) zero_block (pad16 A @ pad16 C)" "bit_count A @ bit_count C" h]
    by (simp add: nist_tag_def)
qed

lemma finish_stream:
  assumes st: "gcm_stream cpuid ctx aes mode j0 A P" and "4 \<le> tag_len" "tag_len \<le> 16" and "length A < 2 ^ 61"
  obtains ctx' where "mbedtls_gcm_finish cpuid tag_len ctx = (0, take tag_len (nist_tag (block_enc aes) (gcm_mul (gcm_H aes)) j0 A
    (hashed mode P (fst (keystream (block_enc aes) 0 P j0)))), ctx')" "gcm_ready cpuid ctx' aes"
proof -
  let ?mul = "gcm_mul (gcm_H aes)" and ?C = "hashed mode P (fst (keystream (block_enc aes) 0 P j0))"
  let ?g = "ghash ?mul zero_block (pad16 A @ pad16 ?C)"
  have r: "gcm_ready cpuid ctx aes" using st by (simp add: gcm_stream_def)
  have l: "length ?C = length P" by simp
  note g = flush_closed [of aes P mode j0 A]
  have g16: "length ?g = 16" by simp
  let ?w = "bit_count A @ bit_count ?C"
  have w: "put_half (gcm_add_len ctx * 8) @ put_half (gcm_len ctx * 8) = ?w" "length ?w = 16"
    using st l by (simp_all add: gcm_stream_def bit_count_def mult.commute)
  note tag = nist_tag_hash [of "block_enc aes" "gcm_H aes" j0 A ?C]
  let ?c1 = "ctx\<lparr>gcm_buf := hash_closed aes mode j0 A P\<rparr>"
  have c2: "(if gcm_len ?c1 mod 16 \<noteq> 0 then ?c1\<lparr>gcm_buf := gcm_mult cpuid ?c1 (gcm_buf ?c1)\<rparr> else ?c1) = ctx\<lparr>gcm_buf := ?g\<rparr>"
    using g gcm_mult_ready [of cpuid ?c1 aes "hash_closed aes mode j0 A P"] r st
    by (auto simp: hash_flush_def gcm_stream_def word_mod16_0)
  show ?thesis
  proof (cases "gcm_len ctx * 8 \<noteq> 0 \<or> gcm_add_len ctx * 8 \<noteq> 0")
    case True
    let ?c = "ctx\<lparr>gcm_buf := ?mul (xor_into 0 ?w ?g)\<rparr>"
    have "gcm_mult cpuid (ctx\<lparr>gcm_buf := ?g\<rparr>) (xor_into 0 ?w ?g) = ?mul (xor_into 0 ?w ?g)"
      using gcm_mult_ready [of cpuid "ctx\<lparr>gcm_buf := ?g\<rparr>" aes] r g16 by simp
    moreover have "xor_into 0 (take tag_len (?mul (xor_into 0 ?w ?g))) (take tag_len (block_enc aes j0)) = take tag_len (nist_tag (block_enc aes) ?mul j0 A ?C)"
      unfolding tag by (rule xor_into_take) simp
    ultimately have "mbedtls_gcm_finish cpuid tag_len ctx = (0, take tag_len (nist_tag (block_enc aes) ?mul j0 A ?C), ?c)"
      unfolding mbedtls_gcm_finish_def Let_def stream_close [OF st] c2 w(1) using True assms(2,3) st by (simp add: gcm_stream_def)
    then show ?thesis by (rule that) (simp add: r)
  next
    case False
    then have e: "A = []" "P = []"
      using len_bits_zero [of "length A"] len_bits_zero [of "length P"] assms(4) st by (auto simp: gcm_stream_def)
    then have "?g = zero_block" by (simp add: pad16_def ghash.simps hashed_def)
    then have "nist_tag (block_enc aes) ?mul j0 A ?C = block_enc aes j0"
      unfolding tag using e by (simp add: hashed_def zero_counts gcm.mul_zero)
    then have "mbedtls_gcm_finish cpuid tag_len ctx = (0, take tag_len (nist_tag (block_enc aes) ?mul j0 A ?C), ctx\<lparr>gcm_buf := ?g\<rparr>)"
      unfolding mbedtls_gcm_finish_def Let_def stream_close [OF st] c2 w(1) using False assms(2,3) st by (simp add: gcm_stream_def)
    then show ?thesis by (rule that) (simp add: r)
  qed
qed

end
