(* ===== verification/GCM_Props.thy ===== *)
theory GCM_Props
  imports GCM_Correct
begin

unbundle bit_operations_syntax

text \<open>What the calls of \<^verbatim>\<open>gcm.c\<close> promise, from a key to a tag: statements over the code's own functions and the standard.\<close>

section \<open>Whole messages\<close>

text \<open>The ciphertext and the tag of the standard.\<close>

definition nist_gcm :: "aes_context \<Rightarrow> u8 list \<Rightarrow> u8 list \<Rightarrow> u8 list \<Rightarrow> u8 list \<times> u8 list" where
  "nist_gcm aes iv A P = (let mul = gcm_mul (gcm_H aes); j0 = nist_J0 mul iv; C = gctr (block_enc aes) (inc32 j0) P in
     (C, nist_tag (block_enc aes) mul j0 A C))"

text \<open>The lengths that the functions accept.\<close>

definition gcm_lengths :: "u8 list \<Rightarrow> u8 list \<Rightarrow> u8 list \<Rightarrow> nat \<Rightarrow> bool" where
  "gcm_lengths iv A P tag_len \<longleftrightarrow> 0 < length iv \<and> length iv < 2 ^ 61 \<and> length A < 2 ^ 61 \<and> length P \<le> 0xFFFFFFFE0 \<and>
     4 \<le> tag_len \<and> tag_len \<le> 16"

abbreviation bad_overlap :: "int \<Rightarrow> u8 list \<Rightarrow> bool" where
  "bad_overlap distance inp \<equiv> 0 < distance \<and> distance < int (length inp)"

lemma length_J0: "length (nist_J0 (gcm_mul h) iv) = 16"
  by (simp add: nist_J0_def)

text \<open>Everything but the last call.\<close>

lemma crypt_and_tag_upto:
  assumes r: "gcm_ready cpuid ctx aes" and m: "mode \<in> {MBEDTLS_GCM_ENCRYPT, MBEDTLS_GCM_DECRYPT}" and l: "gcm_lengths iv A P 16"
    and d: "\<not> bad_overlap distance P"
  defines "j0 \<equiv> nist_J0 (gcm_mul (gcm_H aes)) iv"
  obtains c where "gcm_stream cpuid c aes mode j0 A P"
    "fst (keystream (block_enc aes) 0 P j0) = gctr (block_enc aes) (inc32 j0) P"
    "\<forall>tag_len. mbedtls_gcm_crypt_and_tag cpuid mode distance iv A P tag_len ctx =
      (let (ret, tag, c) = mbedtls_gcm_finish cpuid tag_len c in Some (ret, gctr (block_enc aes) (inc32 j0) P, tag, c))"
proof -
  note l = l [unfolded gcm_lengths_def]
  have iv: "iv \<noteq> []" "length iv < 2 ^ 61" using l by auto
  obtain c1 where c1: "mbedtls_gcm_starts cpuid mode iv ctx = Some (0, c1)" "gcm_stream cpuid c1 aes mode j0 [] []"
    using starts_stream [OF r m iv] unfolding j0_def by blast
  obtain c2 where c2: "mbedtls_gcm_update_ad cpuid A c1 = (0, c2)" "gcm_stream cpuid c2 aes mode j0 A []"
    using update_ad_stream [OF c1(2), of A] l by simp blast
  obtain c3 os where c3: "mbedtls_gcm_update cpuid distance (length P) P c2 = Some (0, Some (length P), os, c3)"
    "gcm_stream cpuid c3 aes mode j0 A P" "fst (keystream (block_enc aes) 0 P j0) = os"
    using update_stream [OF c2(2), of P "length P" distance] l d by simp blast
  have os: "os = gctr (block_enc aes) (inc32 j0) P"
    using c3(3) gcm.keystream_gctr [of j0 aes P] length_J0 by (simp add: j0_def)
  show ?thesis
    by (rule that [OF c3(2)]) (use c1(1) c2(1) c3(1,3) os in \<open>simp_all add: mbedtls_gcm_crypt_and_tag_def\<close>)
qed

lemma crypt_and_tag_ready:
  assumes r: "gcm_ready cpuid ctx aes" and m: "mode \<in> {MBEDTLS_GCM_ENCRYPT, MBEDTLS_GCM_DECRYPT}" and l: "gcm_lengths iv A P tag_len"
    and d: "\<not> bad_overlap distance P"
  defines "j0 \<equiv> nist_J0 (gcm_mul (gcm_H aes)) iv"
  defines "outs \<equiv> gctr (block_enc aes) (inc32 j0) P"
  obtains ctx' where "mbedtls_gcm_crypt_and_tag cpuid mode distance iv A P tag_len ctx =
      Some (0, outs, take tag_len (nist_tag (block_enc aes) (gcm_mul (gcm_H aes)) j0 A (hashed mode P outs)), ctx')"
    "gcm_ready cpuid ctx' aes"
proof -
  have l16: "gcm_lengths iv A P 16" using l by (simp add: gcm_lengths_def)
  obtain c where c: "gcm_stream cpuid c aes mode j0 A P" "fst (keystream (block_enc aes) 0 P j0) = outs"
    "\<forall>t. mbedtls_gcm_crypt_and_tag cpuid mode distance iv A P t ctx =
      (let (ret, tag, c) = mbedtls_gcm_finish cpuid t c in Some (ret, outs, tag, c))"
    by (rule crypt_and_tag_upto [OF r m l16 d, folded j0_def, folded outs_def])
  have "4 \<le> tag_len" "tag_len \<le> 16" "length A < 2 ^ 61" using l by (simp_all add: gcm_lengths_def)
  from finish_stream [OF c(1) this] obtain ctx' where "mbedtls_gcm_finish cpuid tag_len c =
      (0, take tag_len (nist_tag (block_enc aes) (gcm_mul (gcm_H aes)) j0 A (hashed mode P outs)), ctx')" "gcm_ready cpuid ctx' aes"
    unfolding c(2) by blast
  then show ?thesis using that c(3) by simp
qed

lemma tag_diff_zero: "length tag = length check \<Longrightarrow> tag_diff tag check d = 0 \<longleftrightarrow> d = 0 \<and> tag = check"
proof (induction tag check arbitrary: d rule: list_induct2)
  case (Cons t tag c check)
  have "d OR (t XOR c) = 0 \<longleftrightarrow> d = 0 \<and> t = c" by (metis or_eq_0_iff xor.assoc xor.left_neutral xor.right_neutral xor_self_eq)
  then show ?case using Cons by auto
qed simp

section \<open>A key that was accepted\<close>

definition table_space :: "gcm_context \<Rightarrow> bool" where
  "table_space ctx \<longleftrightarrow> length (gcm_HH ctx) = 16 \<and> length (gcm_HL ctx) = 16"

lemma table_space_init: "table_space mbedtls_gcm_init"
  by (simp add: table_space_def mbedtls_gcm_init_def)

lemma gcm_setkey_accepted:
  assumes "mbedtls_gcm_setkey cpuid ok key keybits ctx0 = Some (0, ctx)" and "table_space ctx0"
  obtains aes where "gcm_ready cpuid ctx aes" "mbedtls_aes_setkey_enc cpuid key keybits mbedtls_aes_init = Some (0, aes)"
proof -
  have k: "keybits \<in> {128, 192, 256}"
    using assms(1) info_from_values(2) [of keybits] by (auto simp: mbedtls_gcm_setkey_def MBEDTLS_ERR_GCM_BAD_INPUT_def split: option.splits)
  then obtain i where i: "mbedtls_cipher_info_from_values keybits = Some i" using info_from_values(2) by blast
  have ok: "ok"
    using assms(1) i info_from_values(1) [OF i]
    by (cases ok) (auto simp: mbedtls_gcm_setkey_def mbedtls_cipher_setup_def aes_ctx_alloc_def MBEDTLS_ERR_CIPHER_ALLOC_FAILED_def)
  have "keybits div 8 \<le> length key"
  proof (rule ccontr)
    assume "\<not> keybits div 8 \<le> length key"
    then have "mbedtls_aes_setkey_enc cpuid key keybits mbedtls_aes_init = None"
      using k by (auto simp: mbedtls_aes_setkey_enc_def rounds_of_def)
    then show False
      using assms(1) ok i info_from_values(1) [OF i]
      by (simp add: mbedtls_gcm_setkey_def mbedtls_cipher_setup_def aes_ctx_alloc_def mbedtls_cipher_setkey_def aes_setkey_enc_wrap_def)
  qed
  from gcm_setkey_ready [OF k this, of ctx0 cpuid] show ?thesis
    using that assms ok by (auto simp: table_space_def)
qed

text \<open>Decryption on a context with a key.\<close>

lemma auth_decrypt_ready:
  assumes "gcm_ready cpuid ctx aes" and "gcm_lengths iv A C (length tag)" and "\<not> bad_overlap distance C"
  shows "\<exists>ctx'. mbedtls_gcm_auth_decrypt cpuid distance iv A tag C ctx =
      (let mul = gcm_mul (gcm_H aes); j0 = nist_J0 mul iv in
       if tag = take (length tag) (nist_tag (block_enc aes) mul j0 A C)
       then Some (0, gctr (block_enc aes) (inc32 j0) C, ctx')
       else Some (MBEDTLS_ERR_GCM_AUTH_FAILED, replicate (length C) 0, ctx'))"
proof -
  let ?j0 = "nist_J0 (gcm_mul (gcm_H aes)) iv"
  let ?tag = "nist_tag (block_enc aes) (gcm_mul (gcm_H aes)) ?j0 A C"
  obtain ctx' where c: "mbedtls_gcm_crypt_and_tag cpuid MBEDTLS_GCM_DECRYPT distance iv A C (length tag) ctx =
      Some (0, gctr (block_enc aes) (inc32 ?j0) C, take (length tag) ?tag, ctx')"
    using crypt_and_tag_ready [OF assms(1) _ assms(2,3), of MBEDTLS_GCM_DECRYPT] by (auto simp: hashed_def)
  have "length tag = length (take (length tag) ?tag)" using assms(2) by (simp add: gcm_lengths_def nist_tag_hash)
  from tag_diff_zero [OF this, of 0] c show ?thesis by (auto simp: mbedtls_gcm_auth_decrypt_def Let_def)
qed

text \<open>Both directions under one key.\<close>

lemma crypt_decrypt_ready:
  assumes "gcm_ready c1 e a" and "gcm_ready c2 d a" and l: "gcm_lengths iv A P tag_len" and "\<not> bad_overlap dist1 P" and "\<not> bad_overlap dist2 P"
    and "length T' = tag_len"
  shows "\<exists>C T e' d'. mbedtls_gcm_crypt_and_tag c1 MBEDTLS_GCM_ENCRYPT dist1 iv A P tag_len e = Some (0, C, T, e') \<and>
    length C = length P \<and> length T = tag_len \<and> mbedtls_gcm_auth_decrypt c2 dist2 iv A T' C d =
      (if T' = T then Some (0, P, d') else Some (MBEDTLS_ERR_GCM_AUTH_FAILED, replicate (length P) 0, d'))"
proof -
  let ?E = "block_enc a" and ?mul = "gcm_mul (gcm_H a)"
  let ?j0 = "nist_J0 ?mul iv"
  let ?C = "gctr ?E (inc32 ?j0) P"
  let ?T = "take tag_len (nist_tag ?E ?mul ?j0 A ?C)"
  have C: "length ?C = length P" using gcm.length_gctr [OF length_J0] by simp
  have T: "length ?T = tag_len" using l by (simp add: gcm_lengths_def nist_tag_hash)
  obtain e' where e: "mbedtls_gcm_crypt_and_tag c1 MBEDTLS_GCM_ENCRYPT dist1 iv A P tag_len e = Some (0, ?C, ?T, e')"
    using crypt_and_tag_ready [OF assms(1) _ l assms(4), of MBEDTLS_GCM_ENCRYPT]
    by (auto simp: hashed_def MBEDTLS_GCM_ENCRYPT_def MBEDTLS_GCM_DECRYPT_def)
  have "gcm_lengths iv A ?C (length T')" "\<not> bad_overlap dist2 ?C" using l assms(5,6) C by (simp_all add: gcm_lengths_def)
  from auth_decrypt_ready [OF assms(2) this] obtain d' where "mbedtls_gcm_auth_decrypt c2 dist2 iv A T' ?C d =
      (if T' = ?T then Some (0, P, d') else Some (MBEDTLS_ERR_GCM_AUTH_FAILED, replicate (length P) 0, d'))"
    using gcm.gctr_gctr [of a "inc32 ?j0" P] C assms(6) by (auto simp: Let_def)
  with e C T show ?thesis by blast
qed

lemma demo_gcm: "\<exists>ctx. mbedtls_gcm_setkey cpuid True demo_key 128 mbedtls_gcm_init = Some (0, ctx)"
  using gcm_setkey_ready [of 128 demo_key mbedtls_gcm_init cpuid] table_space_init by (auto simp: table_space_def)

section \<open>Properties\<close>

text \<open>C10: multiplication with the hash key: after a key has been accepted, \<^verbatim>\<open>gcm_mult\<close> multiplies a block with the
  encryption of the zero block as the standard defines it, bit by bit, whether it uses the tables that
  the key set-up computed or the carry-less multiplication of the processor.\<close>
theorem gcm_mult_correct:
  assumes "mbedtls_gcm_setkey cpuid ok key keybits ctx0 = Some (0, ctx)" and "table_space ctx0" and "length x = 16"
  shows "\<exists>aes. mbedtls_aes_setkey_enc cpuid key keybits mbedtls_aes_init = Some (0, aes) \<and>
    gcm_mult cpuid ctx x = elem_block (nist_mult (block_bits x) 0 (block_elem (block_enc aes zero_block)))"
proof -
  obtain aes where "gcm_ready cpuid ctx aes" "mbedtls_aes_setkey_enc cpuid key keybits mbedtls_aes_init = Some (0, aes)"
    by (rule gcm_setkey_accepted [OF assms(1,2)])
  then show ?thesis
    using gcm_mult_ready [of cpuid ctx aes x] assms(3) by (simp add: gcm_mul_def gmul_def gcm_H_def block_bits_elem)
qed

theorem gcm_mult_correct_witness:
  "\<exists>ctx aes. mbedtls_gcm_setkey 2 True demo_key 128 mbedtls_gcm_init = Some (0, ctx) \<and> table_space mbedtls_gcm_init \<and>
    gcm_mult 2 ctx (replicate 16 3) = elem_block (nist_mult (block_bits (replicate 16 3)) 0 (block_elem (block_enc aes zero_block)))"
proof -
  obtain ctx where ctx: "mbedtls_gcm_setkey 2 True demo_key 128 mbedtls_gcm_init = Some (0, ctx)" using demo_gcm by blast
  from gcm_mult_correct [OF this table_space_init, of "replicate 16 3"] ctx table_space_init show ?thesis by auto
qed

text \<open>C9: authenticated encryption computes GCM as NIST SP 800-38D defines it: for accepted lengths and buffers,
  \<^verbatim>\<open>mbedtls_gcm_crypt_and_tag\<close> returns 0 with the standard's ciphertext and its tag cut to the length asked
  for; the context can be used for the next message.\<close>
theorem gcm_encrypt_nist:
  assumes "mbedtls_gcm_setkey cpuid ok key keybits ctx0 = Some (0, ctx)" and "table_space ctx0"
    and "gcm_lengths iv A P tag_len" and "\<not> bad_overlap distance P"
  shows "\<exists>aes ctx'. mbedtls_aes_setkey_enc cpuid key keybits mbedtls_aes_init = Some (0, aes) \<and>
    mbedtls_gcm_crypt_and_tag cpuid MBEDTLS_GCM_ENCRYPT distance iv A P tag_len ctx =
      Some (0, fst (nist_gcm aes iv A P), take tag_len (snd (nist_gcm aes iv A P)), ctx') \<and> gcm_ready cpuid ctx' aes"
proof -
  obtain aes where aes: "gcm_ready cpuid ctx aes" "mbedtls_aes_setkey_enc cpuid key keybits mbedtls_aes_init = Some (0, aes)"
    by (rule gcm_setkey_accepted [OF assms(1,2)])
  then show ?thesis
    using crypt_and_tag_ready [OF aes(1) _ assms(3,4), of MBEDTLS_GCM_ENCRYPT]
    by (auto simp: nist_gcm_def Let_def hashed_def MBEDTLS_GCM_ENCRYPT_def MBEDTLS_GCM_DECRYPT_def)
qed

definition demo_iv :: "u8 list" where
  "demo_iv = replicate 12 5"

theorem gcm_encrypt_nist_witness:
  "\<exists>ctx aes ctx'. mbedtls_gcm_setkey 0 True demo_key 128 mbedtls_gcm_init = Some (0, ctx) \<and>
    mbedtls_gcm_crypt_and_tag 0 MBEDTLS_GCM_ENCRYPT 0 demo_iv [1, 2] [3, 4, 5] 16 ctx =
      Some (0, fst (nist_gcm aes demo_iv [1, 2] [3, 4, 5]), take 16 (snd (nist_gcm aes demo_iv [1, 2] [3, 4, 5])), ctx')"
proof -
  obtain ctx where ctx: "mbedtls_gcm_setkey 0 True demo_key 128 mbedtls_gcm_init = Some (0, ctx)" using demo_gcm by blast
  have "gcm_lengths demo_iv [1, 2] [3, 4, 5] 16" "\<not> bad_overlap 0 [3 :: u8, 4, 5]" by (simp_all add: gcm_lengths_def demo_iv_def)
  from gcm_encrypt_nist [OF ctx table_space_init this] ctx show ?thesis by auto
qed

text \<open>C11: decryption accepts exactly the right tag: on a tag of 4 to 16 bytes, \<^verbatim>\<open>mbedtls_gcm_auth_decrypt\<close> returns 0
  with the decrypted text if the tag is the standard's for this iv, additional data and ciphertext; for
  any other tag it returns \<^verbatim>\<open>MBEDTLS_ERR_GCM_AUTH_FAILED\<close> and an output of zeros.\<close>
theorem gcm_decrypt_authentic:
  assumes "mbedtls_gcm_setkey cpuid ok key keybits ctx0 = Some (0, ctx)" and "table_space ctx0"
    and "gcm_lengths iv A C (length tag)" and "\<not> bad_overlap distance C"
  shows "\<exists>aes ctx'. mbedtls_aes_setkey_enc cpuid key keybits mbedtls_aes_init = Some (0, aes) \<and>
    mbedtls_gcm_auth_decrypt cpuid distance iv A tag C ctx =
      (let mul = gcm_mul (gcm_H aes); j0 = nist_J0 mul iv in
       if tag = take (length tag) (nist_tag (block_enc aes) mul j0 A C)
       then Some (0, gctr (block_enc aes) (inc32 j0) C, ctx')
       else Some (MBEDTLS_ERR_GCM_AUTH_FAILED, replicate (length C) 0, ctx'))"
  using gcm_setkey_accepted [OF assms(1,2)] auth_decrypt_ready [OF _ assms(3,4)] by metis

theorem gcm_decrypt_authentic_witness:
  "\<exists>ctx aes ctx'. mbedtls_gcm_setkey 2 True demo_key 128 mbedtls_gcm_init = Some (0, ctx) \<and>
    mbedtls_gcm_auth_decrypt 2 0 demo_iv [] (replicate 4 9) [7] ctx =
      (let mul = gcm_mul (gcm_H aes); j0 = nist_J0 mul demo_iv in
       if replicate 4 9 = take (length (replicate 4 (9 :: u8))) (nist_tag (block_enc aes) mul j0 [] [7])
       then Some (0, gctr (block_enc aes) (inc32 j0) [7], ctx')
       else Some (MBEDTLS_ERR_GCM_AUTH_FAILED, replicate (length [7 :: u8]) 0, ctx'))"
proof -
  obtain ctx where ctx: "mbedtls_gcm_setkey 2 True demo_key 128 mbedtls_gcm_init = Some (0, ctx)" using demo_gcm by blast
  have "gcm_lengths demo_iv [] [7] (length (replicate 4 (9 :: u8)))" "\<not> bad_overlap 0 [7 :: u8]"
    by (simp_all add: gcm_lengths_def demo_iv_def)
  from gcm_decrypt_authentic [OF ctx table_space_init this] ctx show ?thesis by blast
qed

lemma setkey_enc_cpuid: "mbedtls_aes_setkey_enc c1 key keybits mbedtls_aes_init = Some (0, e) \<Longrightarrow>
    mbedtls_aes_setkey_enc c2 key keybits mbedtls_aes_init = Some (0, d) \<Longrightarrow> e = d"
proof -
  assume *: "mbedtls_aes_setkey_enc c1 key keybits mbedtls_aes_init = Some (0, e)"
    "mbedtls_aes_setkey_enc c2 key keybits mbedtls_aes_init = Some (0, d)"
  then obtain n where "rounds_of keybits = Some n" "keybits div 8 \<le> length key"
    by (auto simp: mbedtls_aes_setkey_enc_def MBEDTLS_ERR_AES_INVALID_KEY_LENGTH_def split: option.splits if_splits)
  then show "e = d"
    using setkey_enc_eval [of keybits n key mbedtls_aes_init c1] setkey_enc_eval [of keybits n key mbedtls_aes_init c2] *
    by (simp add: mbedtls_aes_init_def)
qed

text \<open>What was encrypted is decrypted: decryption with the tag that encryption made, under the same key, iv and
  additional data, returns 0 and the plaintext, also when one side has the instructions and the other
  has not.\<close>
theorem gcm_roundtrip:
  assumes "mbedtls_gcm_setkey c1 ok1 key keybits ctx1 = Some (0, e)" and "table_space ctx1"
    and "mbedtls_gcm_setkey c2 ok2 key keybits ctx2 = Some (0, d)" and "table_space ctx2"
    and l: "gcm_lengths iv A P tag_len" and "\<not> bad_overlap dist1 P" and "\<not> bad_overlap dist2 P"
  shows "\<exists>C T e' d'. mbedtls_gcm_crypt_and_tag c1 MBEDTLS_GCM_ENCRYPT dist1 iv A P tag_len e = Some (0, C, T, e') \<and>
    length C = length P \<and> mbedtls_gcm_auth_decrypt c2 dist2 iv A T C d = Some (0, P, d')"
proof -
  obtain a1 where a1: "gcm_ready c1 e a1" "mbedtls_aes_setkey_enc c1 key keybits mbedtls_aes_init = Some (0, a1)"
    by (rule gcm_setkey_accepted [OF assms(1,2)])
  obtain a2 where a2: "gcm_ready c2 d a2" "mbedtls_aes_setkey_enc c2 key keybits mbedtls_aes_init = Some (0, a2)"
    by (rule gcm_setkey_accepted [OF assms(3,4)])
  have "a2 = a1" by (rule setkey_enc_cpuid [OF a2(2) a1(2)])
  with a2(1) have r: "gcm_ready c2 d a1" by simp
  have "length (replicate tag_len (0 :: u8)) = tag_len" by simp
  from crypt_decrypt_ready [OF a1(1) r l assms(6,7) this] obtain C T e'
    where e: "mbedtls_gcm_crypt_and_tag c1 MBEDTLS_GCM_ENCRYPT dist1 iv A P tag_len e = Some (0, C, T, e')" "length T = tag_len" by blast
  from crypt_decrypt_ready [OF a1(1) r l assms(6,7) this(2)] e show ?thesis by auto
qed

theorem gcm_roundtrip_witness:
  "\<exists>e d C T e' d'. mbedtls_gcm_setkey 0 True demo_key 128 mbedtls_gcm_init = Some (0, e) \<and>
    mbedtls_gcm_setkey 2 True demo_key 128 mbedtls_gcm_init = Some (0, d) \<and>
    mbedtls_gcm_crypt_and_tag 0 MBEDTLS_GCM_ENCRYPT 0 demo_iv [1] (replicate 20 7) 12 e = Some (0, C, T, e') \<and>
    mbedtls_gcm_auth_decrypt 2 0 demo_iv [1] T C d = Some (0, replicate 20 7, d')"
proof -
  obtain e d where ed: "mbedtls_gcm_setkey 0 True demo_key 128 mbedtls_gcm_init = Some (0, e)"
    "mbedtls_gcm_setkey 2 True demo_key 128 mbedtls_gcm_init = Some (0, d)" using demo_gcm by blast
  have "gcm_lengths demo_iv [1] (replicate 20 7) 12" "\<not> bad_overlap 0 (replicate 20 (7 :: u8))"
    by (simp_all add: gcm_lengths_def demo_iv_def)
  from gcm_roundtrip [OF ed(1) table_space_init ed(2) table_space_init this(1,2,2)] ed show ?thesis by blast
qed

section \<open>Messages in parts\<close>

text \<open>Calls one after the other, with the output in its own buffer; \<open>None\<close> when one of them fails.\<close>

fun gcm_ad_calls :: "u32 \<Rightarrow> u8 list list \<Rightarrow> gcm_context \<Rightarrow> gcm_context option" where
  "gcm_ad_calls cpuid [] ctx = Some ctx"
| "gcm_ad_calls cpuid (a # as) ctx = (let (ret, ctx) = mbedtls_gcm_update_ad cpuid a ctx in
     if ret \<noteq> 0 then None else gcm_ad_calls cpuid as ctx)"

fun gcm_update_calls :: "u32 \<Rightarrow> u8 list list \<Rightarrow> gcm_context \<Rightarrow> (u8 list \<times> gcm_context) option" where
  "gcm_update_calls cpuid [] ctx = Some ([], ctx)"
| "gcm_update_calls cpuid (p # ps) ctx = do {
     (ret, olen, out, ctx) \<leftarrow> mbedtls_gcm_update cpuid 0 (length p) p ctx;
     if ret \<noteq> 0 then None
     else do { (outs, ctx) \<leftarrow> gcm_update_calls cpuid ps ctx; Some (out @ outs, ctx) }
   }"

lemma ad_calls_stream:
  "gcm_stream cpuid ctx aes mode j0 A [] \<Longrightarrow> length (concat as) < 2 ^ 61 \<Longrightarrow>
     \<exists>ctx'. gcm_ad_calls cpuid as ctx = Some ctx' \<and> gcm_stream cpuid ctx' aes mode j0 (A @ concat as) []"
proof (induction as arbitrary: A ctx)
  case (Cons a as)
  have "length a + length (concat as) < 2 ^ 61" using Cons.prems(2) by simp
  then have a: "length a < 2 ^ 61" by linarith
  obtain c where "mbedtls_gcm_update_ad cpuid a ctx = (0, c)" "gcm_stream cpuid c aes mode j0 (A @ a) []"
    by (rule update_ad_stream [OF Cons.prems(1) a])
  then show ?case using Cons.IH [of c "A @ a"] Cons.prems(2) by simp
qed simp

lemma update_calls_stream:
  "gcm_stream cpuid ctx aes mode j0 A P \<Longrightarrow> length (P @ concat ps) \<le> 0xFFFFFFFE0 \<Longrightarrow>
     \<exists>outs ctx'. gcm_update_calls cpuid ps ctx = Some (outs, ctx') \<and> gcm_stream cpuid ctx' aes mode j0 A (P @ concat ps) \<and>
       fst (keystream (block_enc aes) 0 (P @ concat ps) j0) = fst (keystream (block_enc aes) 0 P j0) @ outs"
proof (induction ps arbitrary: P ctx)
  case (Cons p ps)
  obtain c out where c: "mbedtls_gcm_update cpuid 0 (length p) p ctx = Some (0, Some (length p), out, c)"
    "gcm_stream cpuid c aes mode j0 A (P @ p)"
    "fst (keystream (block_enc aes) 0 (P @ p) j0) = fst (keystream (block_enc aes) 0 P j0) @ out"
    by (rule update_stream [OF Cons.prems(1), of p "length p" 0]) (use Cons.prems(2) in simp_all)
  obtain outs c' where "gcm_update_calls cpuid ps c = Some (outs, c')" "gcm_stream cpuid c' aes mode j0 A ((P @ p) @ concat ps)"
    "fst (keystream (block_enc aes) 0 ((P @ p) @ concat ps) j0) = fst (keystream (block_enc aes) 0 (P @ p) j0) @ outs"
    using Cons.IH [OF c(2)] Cons.prems(2) by auto
  then show ?case using c by simp
qed simp

text \<open>C12: a message may be passed in parts: whatever the division of the additional data and of the input into calls
  of \<^verbatim>\<open>mbedtls_gcm_update_ad\<close> and \<^verbatim>\<open>mbedtls_gcm_update\<close>, empty parts and parts that end inside a block included, the
  outputs and the tag are those of the one call on the whole message.\<close>
theorem gcm_parts_whole:
  assumes "mbedtls_gcm_setkey cpuid ok key keybits ctx0 = Some (0, ctx)" and "table_space ctx0"
    and "mode \<in> {MBEDTLS_GCM_ENCRYPT, MBEDTLS_GCM_DECRYPT}" and l: "gcm_lengths iv (concat as) (concat ps) tag_len"
  shows "\<exists>c1 c2 c3 c4 c5 outs tag. mbedtls_gcm_starts cpuid mode iv ctx = Some (0, c1) \<and> gcm_ad_calls cpuid as c1 = Some c2 \<and>
    gcm_update_calls cpuid ps c2 = Some (outs, c3) \<and> mbedtls_gcm_finish cpuid tag_len c3 = (0, tag, c4) \<and>
    mbedtls_gcm_crypt_and_tag cpuid mode 0 iv (concat as) (concat ps) tag_len ctx = Some (0, outs, tag, c5)"
proof -
  obtain aes where r: "gcm_ready cpuid ctx aes" by (rule gcm_setkey_accepted [OF assms(1,2)])
  let ?j0 = "nist_J0 (gcm_mul (gcm_H aes)) iv"
  note l' = l [unfolded gcm_lengths_def]
  have iv: "iv \<noteq> []" "length iv < 2 ^ 61" using l' by auto
  obtain c1 where c1: "mbedtls_gcm_starts cpuid mode iv ctx = Some (0, c1)" "gcm_stream cpuid c1 aes mode ?j0 [] []"
    using starts_stream [OF r assms(3) iv] by blast
  obtain c2 where c2: "gcm_ad_calls cpuid as c1 = Some c2" "gcm_stream cpuid c2 aes mode ?j0 (concat as) []"
    using ad_calls_stream [OF c1(2), of as] l' by auto
  obtain outs c3 where c3: "gcm_update_calls cpuid ps c2 = Some (outs, c3)" "gcm_stream cpuid c3 aes mode ?j0 (concat as) (concat ps)"
    "fst (keystream (block_enc aes) 0 (concat ps) ?j0) = outs"
    using update_calls_stream [OF c2(2), of ps] l' by auto
  have outs: "gctr (block_enc aes) (inc32 ?j0) (concat ps) = outs" using c3(3) gcm.keystream_gctr [OF length_J0, of aes] by simp
  have "4 \<le> tag_len" "tag_len \<le> 16" "length (concat as) < 2 ^ 61" using l' by simp_all
  from finish_stream [OF c3(2) this] obtain c4 where "mbedtls_gcm_finish cpuid tag_len c3 =
      (0, take tag_len (nist_tag (block_enc aes) (gcm_mul (gcm_H aes)) ?j0 (concat as) (hashed mode (concat ps) outs)), c4)"
    unfolding c3(3) by blast
  moreover obtain c5 where "mbedtls_gcm_crypt_and_tag cpuid mode 0 iv (concat as) (concat ps) tag_len ctx =
      Some (0, outs, take tag_len (nist_tag (block_enc aes) (gcm_mul (gcm_H aes)) ?j0 (concat as) (hashed mode (concat ps) outs)), c5)"
    using crypt_and_tag_ready [OF r assms(3) l, of 0] unfolding outs by auto
  ultimately show ?thesis using c1(1) c2(1) c3(1) by blast
qed

theorem gcm_parts_whole_witness:
  "\<exists>ctx c1 c2 c3 c4 c5 outs tag. mbedtls_gcm_starts 0 MBEDTLS_GCM_DECRYPT demo_iv ctx = Some (0, c1) \<and>
    gcm_ad_calls 0 [[1, 2], [], [3]] c1 = Some c2 \<and>
    gcm_update_calls 0 [replicate 7 4, replicate 30 5] c2 = Some (outs, c3) \<and> mbedtls_gcm_finish 0 16 c3 = (0, tag, c4) \<and>
    mbedtls_gcm_crypt_and_tag 0 MBEDTLS_GCM_DECRYPT 0 demo_iv (concat [[1, 2], [], [3]]) (concat [replicate 7 4, replicate 30 5]) 16 ctx =
      Some (0, outs, tag, c5)"
proof -
  obtain ctx where ctx: "mbedtls_gcm_setkey 0 True demo_key 128 mbedtls_gcm_init = Some (0, ctx)" using demo_gcm by blast
  have "MBEDTLS_GCM_DECRYPT \<in> {MBEDTLS_GCM_ENCRYPT, MBEDTLS_GCM_DECRYPT}"
    "gcm_lengths demo_iv (concat [[1, 2], [], [3]]) (concat [replicate 7 4, replicate 30 5]) 16"
    by (simp_all add: gcm_lengths_def demo_iv_def)
  from gcm_parts_whole [OF ctx table_space_init this] show ?thesis by blast
qed

section \<open>Refusals\<close>

text \<open>C20: the limit on the data: in the middle of a message, an update into a large enough buffer that does not
  overlap the input badly is accepted exactly while the message stays within \<open>2\<^sup>36 - 32\<close> bytes; otherwise, also
  where the sum of the lengths wraps around, it is refused, with no output and the context as it was.\<close>
theorem gcm_length_limit:
  assumes st: "gcm_stream cpuid ctx aes mode j0 A P" and inp: "inp \<noteq> []" "length inp < 2 ^ 64" "length inp \<le> output_size"
    and d: "\<not> bad_overlap distance inp"
  shows "(if length P + length inp \<le> 2 ^ 36 - 32
    then \<exists>outs ctx'. mbedtls_gcm_update cpuid distance output_size inp ctx = Some (0, Some (length inp), outs, ctx') \<and>
      length outs = length inp \<and> gcm_stream cpuid ctx' aes mode j0 A (P @ inp)
    else mbedtls_gcm_update cpuid distance output_size inp ctx = Some (MBEDTLS_ERR_GCM_BAD_INPUT, Some (length inp), [], ctx))"
proof (cases "length P + length inp \<le> 0xFFFFFFFE0")
  case True
  from update_stream [OF st True inp(3) d] obtain ctx' outs where u:
    "mbedtls_gcm_update cpuid distance output_size inp ctx = Some (0, Some (length inp), outs, ctx')"
    "gcm_stream cpuid ctx' aes mode j0 A (P @ inp)"
    "fst (keystream (block_enc aes) 0 (P @ inp) j0) = fst (keystream (block_enc aes) 0 P j0) @ outs" by blast
  from arg_cong [OF u(3), of length] have "length outs = length inp" by simp
  with u True show ?thesis by simp
next
  case False
  let ?n = "length P" and ?m = "length inp"
  have n: "gcm_len ctx = of_nat ?n" "?n \<le> 0xFFFFFFFE0" using st by (simp_all add: gcm_stream_def)
  have "unat (of_nat ?n + of_nat ?m :: u64) = (?n + ?m) mod 2 ^ 64" "unat (of_nat ?n :: u64) = ?n"
    using n(2) by (simp_all add: unat_of_nat flip: of_nat_add)
  moreover have "?n + ?m < 2 ^ 64 \<or> (?n + ?m) mod 2 ^ 64 < ?n"
  proof (cases "?n + ?m < 2 ^ 64")
    case False
    then have "(?n + ?m) mod 2 ^ 64 = ?n + ?m - 2 ^ 64" using n(2) inp(2) by (simp add: le_mod_geq)
    then show ?thesis using inp(2) False by linarith
  qed simp
  ultimately have "gcm_len ctx + of_nat ?m < gcm_len ctx \<or> gcm_len ctx + of_nat ?m > 0xFFFFFFFE0"
    using False n(1) by (auto simp: word_less_nat_alt)
  then show ?thesis using False inp d by (auto simp: mbedtls_gcm_update_def)
qed

text \<open>C21: a tag length outside 4 to 16 is refused late: \<^verbatim>\<open>mbedtls_gcm_auth_decrypt\<close> returns
  \<^verbatim>\<open>MBEDTLS_ERR_GCM_BAD_INPUT\<close>, and the output holds the text it decrypted, which no tag has vouched for and
  which is not wiped.\<close>
theorem gcm_bad_tag_length:
  assumes "mbedtls_gcm_setkey cpuid ok key keybits ctx0 = Some (0, ctx)" and "table_space ctx0"
    and "gcm_lengths iv A C 16" and "\<not> bad_overlap distance C" and "length tag < 4 \<or> 16 < length tag"
  shows "\<exists>aes ctx'. mbedtls_aes_setkey_enc cpuid key keybits mbedtls_aes_init = Some (0, aes) \<and>
    mbedtls_gcm_auth_decrypt cpuid distance iv A tag C ctx =
      Some (MBEDTLS_ERR_GCM_BAD_INPUT, gctr (block_enc aes) (inc32 (nist_J0 (gcm_mul (gcm_H aes)) iv)) C, ctx')"
proof -
  obtain aes where aes: "gcm_ready cpuid ctx aes" "mbedtls_aes_setkey_enc cpuid key keybits mbedtls_aes_init = Some (0, aes)"
    by (rule gcm_setkey_accepted [OF assms(1,2)])
  have "fst (mbedtls_gcm_finish cpuid (length tag) c) = MBEDTLS_ERR_GCM_BAD_INPUT" for c
    using assms(5) by (auto simp: mbedtls_gcm_finish_def Let_def)
  moreover have "MBEDTLS_ERR_GCM_BAD_INPUT \<noteq> 0" by (simp add: MBEDTLS_ERR_GCM_BAD_INPUT_def)
  moreover obtain c where "\<forall>t. mbedtls_gcm_crypt_and_tag cpuid MBEDTLS_GCM_DECRYPT distance iv A C t ctx =
      (let (ret, tag, c) = mbedtls_gcm_finish cpuid t c in
       Some (ret, gctr (block_enc aes) (inc32 (nist_J0 (gcm_mul (gcm_H aes)) iv)) C, tag, c))"
    by (rule crypt_and_tag_upto [OF aes(1) _ assms(3,4), of MBEDTLS_GCM_DECRYPT]) (simp, blast)
  ultimately show ?thesis using aes(2) by (simp add: mbedtls_gcm_auth_decrypt_def split_beta)
qed

theorem gcm_bad_tag_length_witness:
  "\<exists>ctx aes ctx'. mbedtls_gcm_setkey 0 True demo_key 128 mbedtls_gcm_init = Some (0, ctx) \<and>
    mbedtls_gcm_auth_decrypt 0 0 demo_iv [] [1, 2, 3] [7, 8] ctx =
      Some (MBEDTLS_ERR_GCM_BAD_INPUT, gctr (block_enc aes) (inc32 (nist_J0 (gcm_mul (gcm_H aes)) demo_iv)) [7, 8], ctx')"
proof -
  obtain ctx where ctx: "mbedtls_gcm_setkey 0 True demo_key 128 mbedtls_gcm_init = Some (0, ctx)" using demo_gcm by blast
  have "gcm_lengths demo_iv [] [7, 8] 16" "\<not> bad_overlap 0 [7 :: u8, 8]" "length [1 :: u8, 2, 3] < 4 \<or> 16 < length [1 :: u8, 2, 3]"
    by (simp_all add: gcm_lengths_def demo_iv_def)
  from gcm_bad_tag_length [OF ctx table_space_init this] ctx show ?thesis by blast
qed

theorem gcm_length_limit_witness:
  "\<exists>ctx aes j0. gcm_stream 0 ctx aes MBEDTLS_GCM_ENCRYPT j0 [] [] \<and>
    (\<exists>outs ctx'. mbedtls_gcm_update 0 0 4 [1, 2, 3] ctx = Some (0, Some 3, outs, ctx') \<and> length outs = 3)"
proof -
  obtain c where c: "mbedtls_gcm_setkey 0 True demo_key 128 mbedtls_gcm_init = Some (0, c)" using demo_gcm by blast
  obtain aes where "gcm_ready 0 c aes" by (rule gcm_setkey_accepted [OF c table_space_init])
  then obtain ctx j0 where ctx: "gcm_stream 0 ctx aes MBEDTLS_GCM_ENCRYPT j0 [] []"
    by (rule starts_stream [of 0 c aes MBEDTLS_GCM_ENCRYPT demo_iv]) (simp_all add: demo_iv_def)
  from gcm_length_limit [OF this, of "[1, 2, 3]" 4 0] ctx show ?thesis by (auto simp: numeral_3_eq_3)
qed

end
