(* ===== verification/Padding.thy ===== *)
theory Padding
  imports Prelude
begin

unbundle bit_operations_syntax

text \<open>
  The padding schemes of \<^verbatim>\<open>src/mbedtls-3.1.0/library/cipher.c\<close>: for each scheme the function that completes a
  buffer and the one that finds out, without branching on the bytes, where the data ends. Lengths are \<open>size_t\<close>
  values: a difference wraps, and the loop counters that the code declares as \<open>unsigned char\<close> are 8-bit words, so
  that a loop over a longer padding never ends. \<open>None\<close> is an access outside the buffer or such a loop. The null
  checks of the readers are left out: a buffer is a list.
\<close>

definition MBEDTLS_ERR_CIPHER_INVALID_PADDING :: int where "MBEDTLS_ERR_CIPHER_INVALID_PADDING = - 0x6200"

text \<open>Subtraction of \<open>size_t\<close> values.\<close>

definition size_minus :: "nat \<Rightarrow> nat \<Rightarrow> nat" where
  "size_minus a b = (a + 2 ^ 64 - b) mod 2 ^ 64"

definition store_byte :: "u8 list \<Rightarrow> nat \<Rightarrow> u8 \<Rightarrow> u8 list option" where
  "store_byte out i v = (if i < length out then Some (out[i := v]) else None)"

section \<open>The schemes\<close>

subsection \<open>PKCS7\<close>

partial_function (option) pkcs_loop :: "nat \<Rightarrow> nat \<Rightarrow> u8 \<Rightarrow> u8 list \<Rightarrow> u8 list option" where
  [code]: "pkcs_loop padding_len data_len i out =
     (if unat i < padding_len then do {
        out \<leftarrow> store_byte out (data_len + unat i) (of_nat padding_len);
        pkcs_loop padding_len data_len (i + 1) out
      }
      else Some out)"

definition add_pkcs_padding :: "u8 list \<Rightarrow> nat \<Rightarrow> nat \<Rightarrow> u8 list option" where
  "add_pkcs_padding out output_len data_len = pkcs_loop (size_minus output_len data_len) data_len 0 out"

text \<open>A reader returns its status and the length of the data.\<close>

definition get_pkcs_padding :: "u8 list \<Rightarrow> nat \<Rightarrow> (int \<times> nat) option" where
  "get_pkcs_padding inp input_len =
     (if input_len = 0 \<or> length inp < input_len then None
      else
        let padding_len = inp ! (input_len - 1);
            data_len = size_minus input_len (unat padding_len);
            bad = 0 OR of_bool (unat padding_len > input_len);
            bad = bad OR of_bool (padding_len = 0);
            pad_idx = size_minus input_len (unat padding_len);
            bad = foldl (\<lambda>bad i. bad OR (inp ! i XOR padding_len) * of_bool (i \<ge> pad_idx)) bad [0..<input_len] in
        Some (MBEDTLS_ERR_CIPHER_INVALID_PADDING * of_bool (bad \<noteq> 0), data_len))"

subsection \<open>One and zeros\<close>

partial_function (option) zeros_loop :: "nat \<Rightarrow> nat \<Rightarrow> u8 \<Rightarrow> u8 list \<Rightarrow> u8 list option" where
  [code]: "zeros_loop padding_len off i out =
     (if unat i < padding_len then do {
        out \<leftarrow> store_byte out (off + unat i - 1) 0;
        zeros_loop padding_len off (i + 1) out
      }
      else Some out)"

text \<open>The loops of this scheme and of the next differ in the offset by one.\<close>

definition add_one_and_zeros_padding :: "u8 list \<Rightarrow> nat \<Rightarrow> nat \<Rightarrow> u8 list option" where
  "add_one_and_zeros_padding out output_len data_len = do {
     let padding_len = size_minus output_len data_len;
     out \<leftarrow> store_byte out data_len 0x80;
     zeros_loop padding_len (data_len + 1) 1 out
   }"

fun one_and_zeros_loop :: "u8 list \<Rightarrow> nat \<Rightarrow> u8 \<Rightarrow> nat \<Rightarrow> u8 \<Rightarrow> nat \<times> u8" where
  "one_and_zeros_loop inp 0 fin data_len bad = (data_len, bad)"
| "one_and_zeros_loop inp (Suc i) fin data_len bad =
     (let prev_done = fin;
          fin = fin OR of_bool (inp ! i \<noteq> 0);
          data_len = data_len OR i * of_bool (fin \<noteq> prev_done);
          bad = bad XOR inp ! i * of_bool (fin \<noteq> prev_done) in
      one_and_zeros_loop inp i fin data_len bad)"

definition get_one_and_zeros_padding :: "u8 list \<Rightarrow> nat \<Rightarrow> (int \<times> nat) option" where
  "get_one_and_zeros_padding inp input_len =
     (if length inp < input_len then None
      else let (data_len, bad) = one_and_zeros_loop inp input_len 0 0 0x80 in
        Some (MBEDTLS_ERR_CIPHER_INVALID_PADDING * of_bool (bad \<noteq> 0), data_len))"

subsection \<open>Zeros and length\<close>

definition add_zeros_and_len_padding :: "u8 list \<Rightarrow> nat \<Rightarrow> nat \<Rightarrow> u8 list option" where
  "add_zeros_and_len_padding out output_len data_len = do {
     let padding_len = size_minus output_len data_len;
     out \<leftarrow> zeros_loop padding_len data_len 1 out;
     store_byte out (size_minus output_len 1) (of_nat padding_len)
   }"

definition get_zeros_and_len_padding :: "u8 list \<Rightarrow> nat \<Rightarrow> (int \<times> nat) option" where
  "get_zeros_and_len_padding inp input_len =
     (if input_len = 0 \<or> length inp < input_len then None
      else
        let padding_len = inp ! (input_len - 1);
            data_len = size_minus input_len (unat padding_len);
            bad = 0 OR of_bool (unat padding_len > input_len);
            bad = bad OR of_bool (padding_len = 0);
            pad_idx = size_minus input_len (unat padding_len);
            bad = foldl (\<lambda>bad i. bad OR inp ! i * of_bool (i \<ge> pad_idx)) bad [0..<input_len - 1] in
        Some (MBEDTLS_ERR_CIPHER_INVALID_PADDING * of_bool (bad \<noteq> 0), data_len))"

subsection \<open>Zeros\<close>

function clear_loop :: "nat \<Rightarrow> nat \<Rightarrow> u8 list \<Rightarrow> u8 list option" where
  "clear_loop output_len i out =
     (if i < output_len then do { out \<leftarrow> store_byte out i 0; clear_loop output_len (i + 1) out } else Some out)"
  by pat_completeness auto
termination
  by (relation "measure (\<lambda>(output_len, i, out). output_len - i)") auto

declare clear_loop.simps [simp del]

definition add_zeros_padding :: "u8 list \<Rightarrow> nat \<Rightarrow> nat \<Rightarrow> u8 list option" where
  "add_zeros_padding out output_len data_len = clear_loop output_len data_len out"

fun last_nonzero_loop :: "u8 list \<Rightarrow> nat \<Rightarrow> u8 \<Rightarrow> nat \<Rightarrow> nat" where
  "last_nonzero_loop inp 0 fin data_len = data_len"
| "last_nonzero_loop inp (Suc i) fin data_len =
     (let prev_done = fin; fin = fin OR of_bool (inp ! i \<noteq> 0) in
      last_nonzero_loop inp i fin (data_len OR Suc i * of_bool (fin \<noteq> prev_done)))"

definition get_zeros_padding :: "u8 list \<Rightarrow> nat \<Rightarrow> (int \<times> nat) option" where
  "get_zeros_padding inp input_len =
     (if length inp < input_len then None else Some (0, last_nonzero_loop inp input_len 0 0))"

subsection \<open>No padding\<close>

definition get_no_padding :: "u8 list \<Rightarrow> nat \<Rightarrow> (int \<times> nat) option" where
  "get_no_padding inp input_len = Some (0, input_len)"

section \<open>The writers\<close>

lemma size_minus_le: "b \<le> a \<Longrightarrow> a < 2 ^ 64 \<Longrightarrow> size_minus a b = a - b"
  by (simp add: size_minus_def flip: add_diff_assoc2)

lemma size_minus_gt: "a < b \<Longrightarrow> b \<le> 2 ^ 64 \<Longrightarrow> size_minus a b = a + 2 ^ 64 - b"
  by (simp add: size_minus_def)

text \<open>Storing one value over a range that starts at \<open>i\<close>.\<close>

lemma update_range_step:
  assumes "i < n" and "off + n \<le> length out"
  shows "take (off + Suc i) (out[off + i := v]) @ replicate (n - Suc i) v @ drop (off + n) (out[off + i := v]) =
    take (off + i) out @ replicate (n - i) v @ drop (off + n) out"
proof -
  have "replicate (n - i) v = v # replicate (n - Suc i) v" using assms(1) by (simp add: Suc_diff_Suc flip: replicate_Suc)
  then show ?thesis using assms by (simp add: take_Suc_conv_app_nth)
qed

lemma u8_Suc: "unat i < 255 \<Longrightarrow> unat (i + 1 :: u8) = Suc (unat i)"
  by (simp add: unat_word_ariths)

lemma pkcs_loop_eq:
  assumes "n < 256" and "d + n \<le> length out" and "unat i \<le> n"
  shows "pkcs_loop n d i out = Some (take (d + unat i) out @ replicate (n - unat i) (of_nat n) @ drop (d + n) out)"
  using assms
proof (induction "n - unat i" arbitrary: i out)
  case 0
  then show ?case by (simp add: pkcs_loop.simps)
next
  case (Suc k)
  then have i: "unat i < n" "unat (i + 1) = Suc (unat i)" by (simp_all add: u8_Suc)
  have "pkcs_loop n d (i + 1) (out[d + unat i := of_nat n]) = Some (take (d + unat i) out @ replicate (n - unat i) (of_nat n) @ drop (d + n) out)"
    using Suc i update_range_step [OF i(1) Suc.prems(2), of "of_nat n"] by simp
  with i Suc.prems show ?case by (simp add: pkcs_loop.simps [of n d i] store_byte_def)
qed

lemma zeros_loop_eq:
  assumes "n < 256" and "d + n \<le> Suc (length out)" and "unat i \<le> n" and "0 < i"
  shows "zeros_loop n d i out = Some (take (d + unat i - 1) out @ replicate (n - unat i) 0 @ drop (d + n - 1) out)"
  using assms
proof (induction "n - unat i" arbitrary: i out)
  case 0
  then show ?case by (simp add: zeros_loop.simps)
next
  case (Suc k)
  then have i: "unat i < n" "unat (i + 1) = Suc (unat i)" by (simp_all add: u8_Suc)
  then have pos: "0 < i + 1" using unat_gt_0 [of "i + 1"] by (simp add: word_greater_zero_iff)
  obtain j where j: "unat i = Suc j" using Suc.prems(4) by (metis not0_implies_Suc unat_eq_zero word_greater_zero_iff)
  obtain m where m: "n = Suc m" using i by (cases n) auto
  have jm: "j < m" "d + m \<le> length out" using i j m Suc.prems by simp_all
  have "zeros_loop n d (i + 1) (out[d + j := 0]) = Some (take (d + unat i - 1) out @ replicate (n - unat i) 0 @ drop (d + n - 1) out)"
    using Suc i pos update_range_step [OF jm, of 0] by (simp add: j m)
  with i j Suc.prems show ?case by (simp add: zeros_loop.simps [of n d i] store_byte_def)
qed

lemma clear_loop_eq: "i \<le> n \<Longrightarrow> n \<le> length out \<Longrightarrow> clear_loop n i out = Some (take i out @ replicate (n - i) 0 @ drop n out)"
proof (induction n i out rule: clear_loop.induct)
  case (1 n i out)
  then show ?case
    using update_range_step [of i n 0 out 0] by (simp add: clear_loop.simps [of n i] store_byte_def)
qed

text \<open>A counter of eight bits never reaches a longer padding.\<close>

lemma pkcs_loop_ends: "pkcs_loop n d i out = Some r \<Longrightarrow> n < 256"
proof (rule pkcs_loop.raw_induct [where P = "\<lambda>n d i out r. n < 256"])
  fix loop :: "nat \<Rightarrow> nat \<Rightarrow> u8 \<Rightarrow> u8 list \<Rightarrow> u8 list option" and n d i out r
  assume "\<And>n d i out r. loop n d i out = Some r \<Longrightarrow> n < 256"
    and "(if unat i < n then store_byte out (d + unat i) (word_of_nat n) \<bind> loop n d (i + 1) else Some out) = Some r"
  moreover have "unat i < 256" using unsigned_less [of i] by simp
  ultimately show "n < 256" by (auto simp: store_byte_def split: if_splits)
qed

section \<open>The readers\<close>

lemma foldl_or_zero:
  fixes f :: "nat \<Rightarrow> u8"
  shows "foldl (\<lambda>bad i. bad OR f i) b xs = 0 \<longleftrightarrow> b = 0 \<and> (\<forall>i\<in>set xs. f i = 0)"
  by (induction xs arbitrary: b) (auto simp: or_eq_0_iff)

lemma xor_zero_iff: "(x :: u8) XOR y = 0 \<longleftrightarrow> x = y"
  by (metis xor.right_neutral xor.left_commute xor_self_eq)

lemma invalid_padding_nonzero [simp]: "MBEDTLS_ERR_CIPHER_INVALID_PADDING \<noteq> 0"
  by (simp add: MBEDTLS_ERR_CIPHER_INVALID_PADDING_def)

text \<open>What a list looks like when its end is a given tail.\<close>

lemma append_tail_iff:
  assumes "length t = n - d" and "length inp = n" and "d \<le> n"
  shows "take d inp @ t = inp \<longleftrightarrow> (\<forall>i. d \<le> i \<and> i < n \<longrightarrow> inp ! i = t ! (i - d))"
proof -
  have "take d inp @ t = inp \<longleftrightarrow> t = drop d inp" by (metis append_take_drop_id same_append_eq)
  also have "\<dots> \<longleftrightarrow> (\<forall>j<n - d. t ! j = inp ! (d + j))" using assms by (auto simp: list_eq_iff_nth_eq)
  also have "\<dots> \<longleftrightarrow> (\<forall>i. d \<le> i \<and> i < n \<longrightarrow> inp ! i = t ! (i - d))"
    by (auto dest: spec [of _ "_ - d"])
  finally show ?thesis .
qed

text \<open>The positions that the two readers with a length byte check.\<close>

lemma length_byte_status:
  fixes f :: "nat \<Rightarrow> u8" and p :: u8
  assumes "0 < n" and "n < 2 ^ 64" and "\<And>i. i < m \<Longrightarrow> i < n"
  shows "foldl (\<lambda>bad i. bad OR f i * of_bool (i \<ge> size_minus n (unat p))) (0 OR of_bool (unat p > n) OR of_bool (p = 0)) [0..<m] = 0 \<longleftrightarrow>
    0 < unat p \<and> unat p \<le> n \<and> (\<forall>i. n - unat p \<le> i \<and> i < m \<longrightarrow> f i = 0)"
  using assms(2) by (cases "unat p \<le> n") (auto simp: foldl_or_zero size_minus_le unat_gt_0)

lemma one_and_zeros_loop_done: "one_and_zeros_loop inp i 1 d b = (d, b)"
  by (induction i arbitrary: d b) simp_all

lemma last_nonzero_loop_done: "last_nonzero_loop inp i 1 d = d"
  by (induction i arbitrary: d) simp_all

text \<open>The position after the last byte that is not zero, among the first \<open>n\<close>.\<close>

fun data_end :: "u8 list \<Rightarrow> nat \<Rightarrow> nat" where
  "data_end inp 0 = 0"
| "data_end inp (Suc i) = (if inp ! i \<noteq> 0 then Suc i else data_end inp i)"

lemma data_end_le: "data_end inp n \<le> n"
  by (induction n) auto

lemma data_end_zero: "data_end inp n \<le> i \<Longrightarrow> i < n \<Longrightarrow> inp ! i = 0"
  by (induction n) (auto simp: less_Suc_eq split: if_splits)

lemma data_end_nonzero: "0 < data_end inp n \<Longrightarrow> inp ! (data_end inp n - 1) \<noteq> 0"
  by (induction n) auto

lemma data_end_eq:
  assumes "d \<le> n" and "d = 0 \<or> inp ! (d - 1) \<noteq> 0" and "\<And>i. d \<le> i \<Longrightarrow> i < n \<Longrightarrow> inp ! i = 0"
  shows "data_end inp n = d"
proof (rule antisym)
  show "data_end inp n \<le> d"
    using assms(3) [of "data_end inp n - 1"] data_end_nonzero [of inp n] data_end_le [of inp n] by (cases "data_end inp n") force+
  show "d \<le> data_end inp n"
    using assms(1,2) data_end_zero [of inp n "d - 1"] by (cases d) force+
qed

lemma one_and_zeros_loop_eq:
  "one_and_zeros_loop inp n 0 0 b = (if data_end inp n = 0 then (0, b) else (data_end inp n - 1, b XOR inp ! (data_end inp n - 1)))"
  by (induction n) (simp_all add: one_and_zeros_loop_done)

lemma last_nonzero_loop_eq: "last_nonzero_loop inp n 0 0 = data_end inp n"
  by (induction n) (simp_all add: last_nonzero_loop_done)

section \<open>What a scheme promises\<close>

text \<open>
  A scheme overwrites the end of a block with a tail that depends on the two lengths only, and finds the data
  again when the data satisfies \<open>data_ok\<close>. An exact scheme needs no condition on the data: it accepts precisely the blocks that
  padding at the length it reports would not change.
\<close>

locale padding_scheme =
  fixes add :: "u8 list \<Rightarrow> nat \<Rightarrow> nat \<Rightarrow> u8 list option"
    and get :: "u8 list \<Rightarrow> nat \<Rightarrow> (int \<times> nat) option"
    and tail :: "nat \<Rightarrow> nat \<Rightarrow> u8 list"
    and data_ok :: "u8 list \<Rightarrow> bool"
  assumes length_tail: "d < n \<Longrightarrow> n < 256 \<Longrightarrow> length (tail n d) = n - d"
    and add_tail: "length out = n \<Longrightarrow> d < n \<Longrightarrow> n < 256 \<Longrightarrow> add out n d = Some (take d out @ tail n d)"
    and get_tail: "length xs < n \<Longrightarrow> n < 256 \<Longrightarrow> data_ok xs \<Longrightarrow> get (xs @ tail n (length xs)) n = Some (0, length xs)"
begin

lemma add_get:
  assumes "length out = n" and "d < n" and "n < 256" and "data_ok (take d out)"
  shows "\<exists>p. add out n d = Some p \<and> length p = n \<and> take d p = take d out \<and> get p n = Some (0, d)"
  using assms add_tail [OF assms(1-3)] length_tail [OF assms(2,3)] get_tail [of "take d out" n] by simp

end

locale exact_padding =
  fixes add :: "u8 list \<Rightarrow> nat \<Rightarrow> nat \<Rightarrow> u8 list option"
    and get :: "u8 list \<Rightarrow> nat \<Rightarrow> (int \<times> nat) option"
    and tail :: "nat \<Rightarrow> nat \<Rightarrow> u8 list"
  assumes tail_length: "d < n \<Longrightarrow> n < 256 \<Longrightarrow> length (tail n d) = n - d"
    and add_writes: "length out = n \<Longrightarrow> d < n \<Longrightarrow> n < 256 \<Longrightarrow> add out n d = Some (take d out @ tail n d)"
    and get_iff: "length inp = n \<Longrightarrow> 0 < n \<Longrightarrow> n < 256 \<Longrightarrow> get inp n = Some (0, d) \<longleftrightarrow> d < n \<and> add inp n d = Some inp"
    and get_status: "length inp = n \<Longrightarrow> 0 < n \<Longrightarrow> n < 256 \<Longrightarrow>
      \<exists>r d. get inp n = Some (r, d) \<and> r \<in> {0, MBEDTLS_ERR_CIPHER_INVALID_PADDING}"

sublocale exact_padding < padding_scheme add get tail "\<lambda>_. True"
proof
  fix xs :: "u8 list" and n
  assume n: "length xs < n" "n < 256"
  let ?p = "xs @ tail n (length xs)"
  have "length ?p = n" using n by (simp add: tail_length)
  with n show "get ?p n = Some (0, length xs)" using get_iff [of ?p n "length xs"] add_writes [of ?p n "length xs"] by simp
qed (simp_all add: tail_length add_writes)

text \<open>The tails of the four schemes.\<close>

definition pkcs_tail :: "nat \<Rightarrow> nat \<Rightarrow> u8 list" where
  "pkcs_tail n d = replicate (n - d) (of_nat (n - d))"

definition one_tail :: "nat \<Rightarrow> nat \<Rightarrow> u8 list" where
  "one_tail n d = 0x80 # replicate (n - d - 1) 0"

definition len_tail :: "nat \<Rightarrow> nat \<Rightarrow> u8 list" where
  "len_tail n d = replicate (n - d - 1) 0 @ [of_nat (n - d)]"

definition zero_tail :: "nat \<Rightarrow> nat \<Rightarrow> u8 list" where
  "zero_tail n d = replicate (n - d) 0"

lemma add_pkcs_eq: "length out = n \<Longrightarrow> d < n \<Longrightarrow> n < 256 \<Longrightarrow> add_pkcs_padding out n d = Some (take d out @ pkcs_tail n d)"
  by (simp add: add_pkcs_padding_def pkcs_tail_def size_minus_le pkcs_loop_eq)

lemma add_one_and_zeros_eq:
  "length out = n \<Longrightarrow> d < n \<Longrightarrow> n < 256 \<Longrightarrow> add_one_and_zeros_padding out n d = Some (take d out @ one_tail n d)"
  by (simp add: add_one_and_zeros_padding_def one_tail_def size_minus_le zeros_loop_eq store_byte_def take_Suc_conv_app_nth)

lemma drop_last_update: "0 < length out \<Longrightarrow> (drop (length out - Suc 0) out)[0 := v] = [v]"
  by (cases out rule: rev_cases) simp_all

lemma add_zeros_and_len_eq:
  "length out = n \<Longrightarrow> d < n \<Longrightarrow> n < 256 \<Longrightarrow> add_zeros_and_len_padding out n d = Some (take d out @ len_tail n d)"
  using drop_last_update [of out "of_nat (n - d)"]
  by (auto simp: add_zeros_and_len_padding_def len_tail_def size_minus_le zeros_loop_eq store_byte_def list_update_append)

lemma add_zeros_eq: "length out = n \<Longrightarrow> d \<le> n \<Longrightarrow> add_zeros_padding out n d = Some (take d out @ zero_tail n d)"
  by (simp add: add_zeros_padding_def zero_tail_def clear_loop_eq)

lemma length_tails: "d < n \<Longrightarrow> length (pkcs_tail n d) = n - d" "d < n \<Longrightarrow> length (one_tail n d) = n - d"
  "d < n \<Longrightarrow> length (len_tail n d) = n - d" "length (zero_tail n d) = n - d"
  by (simp_all add: pkcs_tail_def one_tail_def len_tail_def zero_tail_def)

lemma nth_len_tail: "d \<le> i \<Longrightarrow> i < n \<Longrightarrow> len_tail n d ! (i - d) = (if i = n - 1 then of_nat (n - d) else 0)"
  by (auto simp: len_tail_def nth_append not_less le_diff_conv)

lemma unat_pad: "n < 256 \<Longrightarrow> unat (of_nat (n - d) :: u8) = n - d"
  by (simp add: unsigned_of_nat take_bit_nat_eq_self_iff del: of_nat_diff)

lemma pad_start:
  fixes p :: u8
  shows "unat p \<le> n \<Longrightarrow> n < 256 \<Longrightarrow> size_minus n (unat p) = n - unat p \<and> n - (n - unat p) = unat p \<and> (of_nat (unat p) :: u8) = p"
  by (simp add: size_minus_le)

text \<open>The length byte decides where the padding starts.\<close>

lemma length_byte_iff:
  fixes p :: u8
  assumes "0 < n" "n < 256" and "\<And>d. d < n \<Longrightarrow> Q d \<Longrightarrow> p = of_nat (n - d)"
  shows "(0 < unat p \<and> unat p \<le> n \<and> Q (n - unat p)) \<and> d = n - unat p \<longleftrightarrow> d < n \<and> Q d"
proof
  assume "d < n \<and> Q d"
  moreover from this have "unat p = n - d" using assms(2,3) unat_pad by blast
  ultimately show "(0 < unat p \<and> unat p \<le> n \<and> Q (n - unat p)) \<and> d = n - unat p" by simp
qed (use assms(1) in auto)

lemma get_pkcs_iff:
  assumes "length inp = n" "0 < n" "n < 256"
  shows "get_pkcs_padding inp n = Some (0, d) \<longleftrightarrow> d < n \<and> add_pkcs_padding inp n d = Some inp"
proof -
  let ?p = "inp ! (n - 1)" and ?Q = "\<lambda>d. (\<forall>i. d \<le> i \<and> i < n \<longrightarrow> inp ! i = of_nat (n - d))"
  have "get_pkcs_padding inp n = Some (0, d) \<longleftrightarrow>
      0 < unat ?p \<and> unat ?p \<le> n \<and> (\<forall>i. n - unat ?p \<le> i \<and> i < n \<longrightarrow> inp ! i XOR ?p = 0) \<and> d = size_minus n (unat ?p)"
    using assms length_byte_status [of n n "\<lambda>i. inp ! i XOR ?p" ?p] by (auto simp: get_pkcs_padding_def Let_def)
  also have "\<dots> \<longleftrightarrow> (0 < unat ?p \<and> unat ?p \<le> n \<and> ?Q (n - unat ?p)) \<and> d = n - unat ?p"
    using assms(2,3) pad_start [of ?p n] by (simp only: xor_zero_iff cong: conj_cong) simp
  also have "\<dots> \<longleftrightarrow> d < n \<and> ?Q d"
  proof (rule length_byte_iff [OF assms(2,3)])
    show "?p = of_nat (n - e)" if "e < n" "?Q e" for e using that assms(2) by (simp del: of_nat_diff)
  qed
  also have "\<dots> \<longleftrightarrow> d < n \<and> add_pkcs_padding inp n d = Some inp"
    using assms append_tail_iff [of "pkcs_tail n d" n d inp] by (auto simp: add_pkcs_eq length_tails) (auto simp: pkcs_tail_def)
  finally show ?thesis .
qed

lemma get_zeros_and_len_iff:
  assumes "length inp = n" "0 < n" "n < 256"
  shows "get_zeros_and_len_padding inp n = Some (0, d) \<longleftrightarrow> d < n \<and> add_zeros_and_len_padding inp n d = Some inp"
proof -
  let ?p = "inp ! (n - 1)" and ?Q = "\<lambda>d. inp ! (n - 1) = of_nat (n - d) \<and> (\<forall>i. d \<le> i \<and> i < n - 1 \<longrightarrow> inp ! i = 0)"
  have "get_zeros_and_len_padding inp n = Some (0, d) \<longleftrightarrow>
      0 < unat ?p \<and> unat ?p \<le> n \<and> (\<forall>i. n - unat ?p \<le> i \<and> i < n - 1 \<longrightarrow> inp ! i = 0) \<and> d = size_minus n (unat ?p)"
    using assms length_byte_status [of n "n - 1" "\<lambda>i. inp ! i" ?p] by (auto simp: get_zeros_and_len_padding_def Let_def)
  also have "\<dots> \<longleftrightarrow> (0 < unat ?p \<and> unat ?p \<le> n \<and> ?Q (n - unat ?p)) \<and> d = n - unat ?p"
    using assms(2,3) pad_start [of ?p n] by (simp only: cong: conj_cong) simp
  also have "\<dots> \<longleftrightarrow> d < n \<and> ?Q d"
    by (rule length_byte_iff [OF assms(2,3)]) blast
  also have "\<dots> \<longleftrightarrow> d < n \<and> add_zeros_and_len_padding inp n d = Some inp"
    using assms append_tail_iff [of "len_tail n d" n d inp]
    by (auto simp: add_zeros_and_len_eq length_tails nth_len_tail simp del: of_nat_diff)
  finally show ?thesis .
qed

lemma get_one_and_zeros_iff:
  assumes "length inp = n" "0 < n" "n < 256"
  shows "get_one_and_zeros_padding inp n = Some (0, d) \<longleftrightarrow> d < n \<and> add_one_and_zeros_padding inp n d = Some inp"
proof -
  let ?Q = "d < n \<and> inp ! d = 0x80 \<and> (\<forall>i. d < i \<and> i < n \<longrightarrow> inp ! i = 0)"
  have "get_one_and_zeros_padding inp n = Some (0, d) \<longleftrightarrow> data_end inp n = Suc d \<and> inp ! d = 0x80"
    using assms by (auto simp: get_one_and_zeros_padding_def one_and_zeros_loop_eq xor_zero_iff)
  also have "\<dots> \<longleftrightarrow> ?Q"
    using data_end_le [of inp n] data_end_zero [of inp n] data_end_eq [of "Suc d" n inp] by (auto simp: Suc_le_eq)
  also have "\<dots> \<longleftrightarrow> d < n \<and> add_one_and_zeros_padding inp n d = Some inp"
    using assms append_tail_iff [of "one_tail n d" n d inp]
    by (auto simp: add_one_and_zeros_eq length_tails) (auto simp: one_tail_def nth_Cons')
  finally show ?thesis .
qed

lemma get_zeros_eq: "length inp = n \<Longrightarrow> get_zeros_padding inp n = Some (0, data_end inp n)"
  by (simp add: get_zeros_padding_def last_nonzero_loop_eq)

lemma reader_status:
  assumes "length inp = n" "0 < n"
  shows "\<exists>r d. get_pkcs_padding inp n = Some (r, d) \<and> r \<in> {0, MBEDTLS_ERR_CIPHER_INVALID_PADDING}"
    and "\<exists>r d. get_one_and_zeros_padding inp n = Some (r, d) \<and> r \<in> {0, MBEDTLS_ERR_CIPHER_INVALID_PADDING}"
    and "\<exists>r d. get_zeros_and_len_padding inp n = Some (r, d) \<and> r \<in> {0, MBEDTLS_ERR_CIPHER_INVALID_PADDING}"
  using assms by (simp_all add: get_pkcs_padding_def get_one_and_zeros_padding_def get_zeros_and_len_padding_def Let_def split_beta)

interpretation pkcs: exact_padding add_pkcs_padding get_pkcs_padding pkcs_tail
  by unfold_locales (blast intro: length_tails add_pkcs_eq reader_status | simp add: get_pkcs_iff)+

interpretation one_and_zeros: exact_padding add_one_and_zeros_padding get_one_and_zeros_padding one_tail
  by unfold_locales (blast intro: length_tails add_one_and_zeros_eq reader_status | simp add: get_one_and_zeros_iff)+

interpretation zeros_and_len: exact_padding add_zeros_and_len_padding get_zeros_and_len_padding len_tail
  by unfold_locales (blast intro: length_tails add_zeros_and_len_eq reader_status | simp add: get_zeros_and_len_iff)+

text \<open>Zeros alone do not say where the data ends when the data itself ends with a zero.\<close>

definition no_zero_end :: "u8 list \<Rightarrow> bool" where
  "no_zero_end xs \<longleftrightarrow> xs = [] \<or> last xs \<noteq> 0"

interpretation zeros: padding_scheme add_zeros_padding get_zeros_padding zero_tail no_zero_end
proof
  fix xs :: "u8 list" and n
  assume xs: "length xs < n" "no_zero_end xs"
  let ?p = "xs @ zero_tail n (length xs)"
  have "data_end ?p n = length xs"
  proof (rule data_end_eq)
    show "length xs = 0 \<or> ?p ! (length xs - 1) \<noteq> 0"
      using xs by (cases "xs = []") (simp_all add: no_zero_end_def nth_append last_conv_nth)
  qed (use xs in \<open>simp_all add: nth_append zero_tail_def\<close>)
  with xs show "get_zeros_padding ?p n = Some (0, length xs)" by (simp add: get_zeros_eq length_tails)
qed (simp_all add: length_tails add_zeros_eq)

section \<open>Properties\<close>

text \<open>C18: the three schemes that mark the end of the data accept exactly the padded blocks: a reader succeeds with data
  length \<open>d\<close> iff writing the padding at \<open>d\<close> would not change the block.\<close>
theorem padding_accepts_exactly:
  assumes "length inp = n" and "0 < n" and "n < 256"
  shows "(get_pkcs_padding inp n = Some (0, d) \<longleftrightarrow> d < n \<and> add_pkcs_padding inp n d = Some inp) \<and>
    (get_one_and_zeros_padding inp n = Some (0, d) \<longleftrightarrow> d < n \<and> add_one_and_zeros_padding inp n d = Some inp) \<and>
    (get_zeros_and_len_padding inp n = Some (0, d) \<longleftrightarrow> d < n \<and> add_zeros_and_len_padding inp n d = Some inp)"
  using pkcs.get_iff [OF assms] one_and_zeros.get_iff [OF assms] zeros_and_len.get_iff [OF assms] by simp

theorem padding_accepts_exactly_witness:
  "(get_pkcs_padding [7, 3, 3, 3] 4 = Some (0, 1) \<longleftrightarrow> 1 < (4 :: nat) \<and> add_pkcs_padding [7, 3, 3, 3] 4 1 = Some [7, 3, 3, 3]) \<and>
   (get_one_and_zeros_padding [7, 3, 3, 3] 4 = Some (0, 1) \<longleftrightarrow> 1 < (4 :: nat) \<and> add_one_and_zeros_padding [7, 3, 3, 3] 4 1 = Some [7, 3, 3, 3]) \<and>
   (get_zeros_and_len_padding [7, 3, 3, 3] 4 = Some (0, 1) \<longleftrightarrow> 1 < (4 :: nat) \<and> add_zeros_and_len_padding [7, 3, 3, 3] 4 1 = Some [7, 3, 3, 3])"
  by (rule padding_accepts_exactly) simp_all

text \<open>Writing PKCS7 padding of more than 255 bytes never ends.\<close>
theorem pkcs_padding_long:
  assumes "d \<le> n" and "n < 2 ^ 64" and "256 \<le> n - d"
  shows "add_pkcs_padding out n d = None"
  using assms pkcs_loop_ends [of "n - d" d 0 out] by (cases "add_pkcs_padding out n d") (auto simp: add_pkcs_padding_def size_minus_le)

theorem pkcs_padding_long_witness: "add_pkcs_padding (replicate 300 0) 300 4 = None"
  by (rule pkcs_padding_long) simp_all

end
