(* ===== verification/Cipher_Table.thy ===== *)
theory Cipher_Table
  imports Cipher GCM Padding AES_Modes
begin

unbundle bit_operations_syntax

text \<open>
  The table of AES ciphers behind the generic cipher layer, from \<^verbatim>\<open>src/mbedtls-3.1.0/library/cipher_wrap.c\<close>
  and the types of \<^verbatim>\<open>cipher.h\<close> and \<^verbatim>\<open>cipher_wrap.h\<close>: the functions that adapt the AES and GCM code to one interface, the
  structures of pointers to them, in which \<open>None\<close> is the null pointer, and the rows of the list of ciphers for
  AES in the modes ECB, CBC, CFB, OFB, CTR, XTS and GCM. A context of unknown type, \<^verbatim>\<open>void *\<close>, is a value of a sum; an adapter that
  gets the wrong kind of context has no result. The theory \<open>Cipher\<close> below GCM holds the part of the same layer for single
  blocks, which GCM is built on; a context here may hold a GCM context.
\<close>

section \<open>Types\<close>

datatype cipher_id_t = ID_NONE | ID_NULL | ID_AES | ID_DES | ID_3DES | ID_CAMELLIA | ID_ARIA | ID_CHACHA20

text \<open>The types of the rows below.\<close>

datatype cipher_type_t = AES_128_ECB | AES_192_ECB | AES_256_ECB | AES_128_CBC | AES_192_CBC | AES_256_CBC
  | AES_128_CFB128 | AES_192_CFB128 | AES_256_CFB128 | AES_128_OFB | AES_192_OFB | AES_256_OFB
  | AES_128_CTR | AES_192_CTR | AES_256_CTR | AES_128_XTS | AES_256_XTS | AES_128_GCM
  | AES_192_GCM | AES_256_GCM

datatype cipher_mode_t = MODE_NONE | MODE_ECB | MODE_CBC | MODE_CFB | MODE_OFB | MODE_CTR | MODE_GCM | MODE_STREAM | MODE_CCM
  | MODE_CCM_STAR_NO_TAG | MODE_XTS | MODE_CHACHAPOLY | MODE_KW | MODE_KWP

datatype cipher_padding_t = PADDING_PKCS7 | PADDING_ONE_AND_ZEROS | PADDING_ZEROS_AND_LEN | PADDING_ZEROS | PADDING_NONE

datatype alg_context = AES_ctx aes_context | XTS_ctx aes_xts_context | GCM_ctx gcm_context

type_synonym setkey_fn = "u32 \<Rightarrow> bool \<Rightarrow> u8 list \<Rightarrow> nat \<Rightarrow> alg_context \<Rightarrow> (int \<times> alg_context) option"

text \<open>The first argument of the functions stands for the processor, the second one of a key set-up for the success of an allocation.\<close>

record cipher_base_t =
  base_cipher :: cipher_id_t
  ecb_func :: "(u32 \<Rightarrow> alg_context \<Rightarrow> int \<Rightarrow> u8 list \<Rightarrow> (int \<times> u8 list) option) option"
  cbc_func :: "(u32 \<Rightarrow> alg_context \<Rightarrow> int \<Rightarrow> nat \<Rightarrow> u8 list \<Rightarrow> u8 list \<Rightarrow> (int \<times> u8 list \<times> u8 list) option) option"
  cfb_func :: "(u32 \<Rightarrow> alg_context \<Rightarrow> int \<Rightarrow> nat \<Rightarrow> nat \<Rightarrow> u8 list \<Rightarrow> u8 list \<Rightarrow> (int \<times> nat \<times> u8 list \<times> u8 list) option) option"
  ofb_func :: "(u32 \<Rightarrow> alg_context \<Rightarrow> nat \<Rightarrow> nat \<Rightarrow> u8 list \<Rightarrow> u8 list \<Rightarrow> (int \<times> nat \<times> u8 list \<times> u8 list) option) option"
  ctr_func :: "(u32 \<Rightarrow> alg_context \<Rightarrow> nat \<Rightarrow> nat \<Rightarrow> u8 list \<Rightarrow> u8 list \<Rightarrow> u8 list \<Rightarrow> (int \<times> nat \<times> u8 list \<times> u8 list \<times> u8 list) option) option"
  xts_func :: "(u32 \<Rightarrow> alg_context \<Rightarrow> int \<Rightarrow> nat \<Rightarrow> u8 list \<Rightarrow> u8 list \<Rightarrow> (int \<times> u8 list) option) option"
  setkey_enc_func :: setkey_fn
  setkey_dec_func :: setkey_fn
  ctx_alloc_func :: "bool \<Rightarrow> alg_context option"

record info_row =
  row_type :: cipher_type_t
  row_mode :: cipher_mode_t
  row_key_bitlen :: nat
  row_name :: string
  row_iv_size :: nat
  row_flags :: nat
  row_block_size :: nat
  row_base :: cipher_base_t

definition MBEDTLS_CIPHER_VARIABLE_IV_LEN :: nat where "MBEDTLS_CIPHER_VARIABLE_IV_LEN = 0x01"

section \<open>The adapters\<close>

fun gcm_ctx_alloc :: "bool \<Rightarrow> alg_context option" where
  "gcm_ctx_alloc ok = (if ok then Some (GCM_ctx mbedtls_gcm_init) else None)"

fun ecb_wrap :: "u32 \<Rightarrow> alg_context \<Rightarrow> int \<Rightarrow> u8 list \<Rightarrow> (int \<times> u8 list) option" where
  "ecb_wrap cpuid (AES_ctx aes) op inp = aes_crypt_ecb_wrap cpuid aes op inp"
| "ecb_wrap _ _ _ _ = None"

fun aes_crypt_cbc_wrap :: "u32 \<Rightarrow> alg_context \<Rightarrow> int \<Rightarrow> nat \<Rightarrow> u8 list \<Rightarrow> u8 list \<Rightarrow> (int \<times> u8 list \<times> u8 list) option" where
  "aes_crypt_cbc_wrap cpuid (AES_ctx aes) op len iv inp = mbedtls_aes_crypt_cbc cpuid aes op len iv inp"
| "aes_crypt_cbc_wrap _ _ _ _ _ _ = None"

fun aes_crypt_cfb128_wrap :: "u32 \<Rightarrow> alg_context \<Rightarrow> int \<Rightarrow> nat \<Rightarrow> nat \<Rightarrow> u8 list \<Rightarrow> u8 list \<Rightarrow> (int \<times> nat \<times> u8 list \<times> u8 list) option" where
  "aes_crypt_cfb128_wrap cpuid (AES_ctx aes) op len off iv inp = mbedtls_aes_crypt_cfb128 cpuid aes op len off iv inp"
| "aes_crypt_cfb128_wrap _ _ _ _ _ _ _ = None"

fun aes_crypt_ofb_wrap :: "u32 \<Rightarrow> alg_context \<Rightarrow> nat \<Rightarrow> nat \<Rightarrow> u8 list \<Rightarrow> u8 list \<Rightarrow> (int \<times> nat \<times> u8 list \<times> u8 list) option" where
  "aes_crypt_ofb_wrap cpuid (AES_ctx aes) len off iv inp = mbedtls_aes_crypt_ofb cpuid aes len off iv inp"
| "aes_crypt_ofb_wrap _ _ _ _ _ _ = None"

fun aes_crypt_ctr_wrap ::
    "u32 \<Rightarrow> alg_context \<Rightarrow> nat \<Rightarrow> nat \<Rightarrow> u8 list \<Rightarrow> u8 list \<Rightarrow> u8 list \<Rightarrow> (int \<times> nat \<times> u8 list \<times> u8 list \<times> u8 list) option" where
  "aes_crypt_ctr_wrap cpuid (AES_ctx aes) len off nonce_counter stream_block inp = mbedtls_aes_crypt_ctr cpuid aes len off nonce_counter stream_block inp"
| "aes_crypt_ctr_wrap _ _ _ _ _ _ _ = None"

fun aes_crypt_xts_wrap :: "u32 \<Rightarrow> alg_context \<Rightarrow> int \<Rightarrow> nat \<Rightarrow> u8 list \<Rightarrow> u8 list \<Rightarrow> (int \<times> u8 list) option" where
  "aes_crypt_xts_wrap cpuid (XTS_ctx xts) op len data_unit inp =
     (if op = MBEDTLS_ENCRYPT then mbedtls_aes_crypt_xts cpuid xts MBEDTLS_AES_ENCRYPT len data_unit inp
      else if op = MBEDTLS_DECRYPT then mbedtls_aes_crypt_xts cpuid xts MBEDTLS_AES_DECRYPT len data_unit inp
      else Some (MBEDTLS_ERR_CIPHER_BAD_INPUT_DATA, []))"
| "aes_crypt_xts_wrap _ _ _ _ _ _ = None"

fun setkey_enc_wrap :: setkey_fn where
  "setkey_enc_wrap cpuid ok key bits (AES_ctx aes) = map_option (apsnd AES_ctx) (aes_setkey_enc_wrap cpuid key bits aes)"
| "setkey_enc_wrap _ _ _ _ _ = None"

fun setkey_dec_wrap :: setkey_fn where
  "setkey_dec_wrap cpuid ok key bits (AES_ctx aes) = map_option (apsnd AES_ctx) (aes_setkey_dec_wrap cpuid key bits aes)"
| "setkey_dec_wrap _ _ _ _ _ = None"

fun ctx_alloc_wrap :: "bool \<Rightarrow> alg_context option" where
  "ctx_alloc_wrap ok = map_option AES_ctx (aes_ctx_alloc ok)"

definition aes_info :: cipher_base_t where
  "aes_info = \<lparr>base_cipher = ID_AES, ecb_func = Some ecb_wrap, cbc_func = Some aes_crypt_cbc_wrap, cfb_func = Some aes_crypt_cfb128_wrap,
     ofb_func = Some aes_crypt_ofb_wrap, ctr_func = Some aes_crypt_ctr_wrap, xts_func = None,
     setkey_enc_func = setkey_enc_wrap, setkey_dec_func = setkey_dec_wrap, ctx_alloc_func = ctx_alloc_wrap\<rparr>"

fun xts_aes_setkey_enc_wrap :: setkey_fn where
  "xts_aes_setkey_enc_wrap cpuid ok key bits (XTS_ctx xts) = map_option (apsnd XTS_ctx) (mbedtls_aes_xts_setkey_enc cpuid key bits xts)"
| "xts_aes_setkey_enc_wrap _ _ _ _ _ = None"

fun xts_aes_setkey_dec_wrap :: setkey_fn where
  "xts_aes_setkey_dec_wrap cpuid ok key bits (XTS_ctx xts) = map_option (apsnd XTS_ctx) (mbedtls_aes_xts_setkey_dec cpuid key bits xts)"
| "xts_aes_setkey_dec_wrap _ _ _ _ _ = None"

fun xts_aes_ctx_alloc :: "bool \<Rightarrow> alg_context option" where
  "xts_aes_ctx_alloc ok = (if ok then Some (XTS_ctx mbedtls_aes_xts_init) else None)"

definition xts_aes_info :: cipher_base_t where
  "xts_aes_info = \<lparr>base_cipher = ID_AES, ecb_func = None, cbc_func = None, cfb_func = None, ofb_func = None, ctr_func = None,
     xts_func = Some aes_crypt_xts_wrap, setkey_enc_func = xts_aes_setkey_enc_wrap, setkey_dec_func = xts_aes_setkey_dec_wrap,
     ctx_alloc_func = xts_aes_ctx_alloc\<rparr>"

fun gcm_aes_setkey_wrap :: setkey_fn where
  "gcm_aes_setkey_wrap cpuid ok key bits (GCM_ctx g) = map_option (apsnd GCM_ctx) (mbedtls_gcm_setkey cpuid ok key bits g)"
| "gcm_aes_setkey_wrap _ _ _ _ _ = None"

definition gcm_aes_info :: cipher_base_t where
  "gcm_aes_info = \<lparr>base_cipher = ID_AES, ecb_func = None, cbc_func = None, cfb_func = None, ofb_func = None, ctr_func = None, xts_func = None,
     setkey_enc_func = gcm_aes_setkey_wrap, setkey_dec_func = gcm_aes_setkey_wrap, ctx_alloc_func = gcm_ctx_alloc\<rparr>"

section \<open>The list of ciphers\<close>

definition aes_128_ecb_row :: info_row where
  "aes_128_ecb_row = \<lparr>row_type = AES_128_ECB, row_mode = MODE_ECB, row_key_bitlen = 128, row_name = ''AES-128-ECB'', row_iv_size = 0,
     row_flags = 0, row_block_size = 16, row_base = aes_info\<rparr>"

definition aes_192_ecb_row :: info_row where
  "aes_192_ecb_row = \<lparr>row_type = AES_192_ECB, row_mode = MODE_ECB, row_key_bitlen = 192, row_name = ''AES-192-ECB'', row_iv_size = 0,
     row_flags = 0, row_block_size = 16, row_base = aes_info\<rparr>"

definition aes_256_ecb_row :: info_row where
  "aes_256_ecb_row = \<lparr>row_type = AES_256_ECB, row_mode = MODE_ECB, row_key_bitlen = 256, row_name = ''AES-256-ECB'', row_iv_size = 0,
     row_flags = 0, row_block_size = 16, row_base = aes_info\<rparr>"

definition aes_128_cbc_info :: info_row where
  "aes_128_cbc_info = \<lparr>row_type = AES_128_CBC, row_mode = MODE_CBC, row_key_bitlen = 128, row_name = ''AES-128-CBC'', row_iv_size = 16,
     row_flags = 0, row_block_size = 16, row_base = aes_info\<rparr>"

definition aes_192_cbc_info :: info_row where
  "aes_192_cbc_info = \<lparr>row_type = AES_192_CBC, row_mode = MODE_CBC, row_key_bitlen = 192, row_name = ''AES-192-CBC'', row_iv_size = 16,
     row_flags = 0, row_block_size = 16, row_base = aes_info\<rparr>"

definition aes_256_cbc_info :: info_row where
  "aes_256_cbc_info = \<lparr>row_type = AES_256_CBC, row_mode = MODE_CBC, row_key_bitlen = 256, row_name = ''AES-256-CBC'', row_iv_size = 16,
     row_flags = 0, row_block_size = 16, row_base = aes_info\<rparr>"

definition aes_128_cfb128_info :: info_row where
  "aes_128_cfb128_info = \<lparr>row_type = AES_128_CFB128, row_mode = MODE_CFB, row_key_bitlen = 128, row_name = ''AES-128-CFB128'', row_iv_size = 16,
     row_flags = 0, row_block_size = 16, row_base = aes_info\<rparr>"

definition aes_192_cfb128_info :: info_row where
  "aes_192_cfb128_info = \<lparr>row_type = AES_192_CFB128, row_mode = MODE_CFB, row_key_bitlen = 192, row_name = ''AES-192-CFB128'', row_iv_size = 16,
     row_flags = 0, row_block_size = 16, row_base = aes_info\<rparr>"

definition aes_256_cfb128_info :: info_row where
  "aes_256_cfb128_info = \<lparr>row_type = AES_256_CFB128, row_mode = MODE_CFB, row_key_bitlen = 256, row_name = ''AES-256-CFB128'', row_iv_size = 16,
     row_flags = 0, row_block_size = 16, row_base = aes_info\<rparr>"

definition aes_128_ofb_info :: info_row where
  "aes_128_ofb_info = \<lparr>row_type = AES_128_OFB, row_mode = MODE_OFB, row_key_bitlen = 128, row_name = ''AES-128-OFB'', row_iv_size = 16,
     row_flags = 0, row_block_size = 16, row_base = aes_info\<rparr>"

definition aes_192_ofb_info :: info_row where
  "aes_192_ofb_info = \<lparr>row_type = AES_192_OFB, row_mode = MODE_OFB, row_key_bitlen = 192, row_name = ''AES-192-OFB'', row_iv_size = 16,
     row_flags = 0, row_block_size = 16, row_base = aes_info\<rparr>"

definition aes_256_ofb_info :: info_row where
  "aes_256_ofb_info = \<lparr>row_type = AES_256_OFB, row_mode = MODE_OFB, row_key_bitlen = 256, row_name = ''AES-256-OFB'', row_iv_size = 16,
     row_flags = 0, row_block_size = 16, row_base = aes_info\<rparr>"

definition aes_128_ctr_info :: info_row where
  "aes_128_ctr_info = \<lparr>row_type = AES_128_CTR, row_mode = MODE_CTR, row_key_bitlen = 128, row_name = ''AES-128-CTR'', row_iv_size = 16,
     row_flags = 0, row_block_size = 16, row_base = aes_info\<rparr>"

definition aes_192_ctr_info :: info_row where
  "aes_192_ctr_info = \<lparr>row_type = AES_192_CTR, row_mode = MODE_CTR, row_key_bitlen = 192, row_name = ''AES-192-CTR'', row_iv_size = 16,
     row_flags = 0, row_block_size = 16, row_base = aes_info\<rparr>"

definition aes_256_ctr_info :: info_row where
  "aes_256_ctr_info = \<lparr>row_type = AES_256_CTR, row_mode = MODE_CTR, row_key_bitlen = 256, row_name = ''AES-256-CTR'', row_iv_size = 16,
     row_flags = 0, row_block_size = 16, row_base = aes_info\<rparr>"

definition aes_128_xts_info :: info_row where
  "aes_128_xts_info = \<lparr>row_type = AES_128_XTS, row_mode = MODE_XTS, row_key_bitlen = 256, row_name = ''AES-128-XTS'', row_iv_size = 16,
     row_flags = 0, row_block_size = 16, row_base = xts_aes_info\<rparr>"

definition aes_256_xts_info :: info_row where
  "aes_256_xts_info = \<lparr>row_type = AES_256_XTS, row_mode = MODE_XTS, row_key_bitlen = 512, row_name = ''AES-256-XTS'', row_iv_size = 16,
     row_flags = 0, row_block_size = 16, row_base = xts_aes_info\<rparr>"

definition aes_128_gcm_info :: info_row where
  "aes_128_gcm_info = \<lparr>row_type = AES_128_GCM, row_mode = MODE_GCM, row_key_bitlen = 128, row_name = ''AES-128-GCM'', row_iv_size = 12,
     row_flags = MBEDTLS_CIPHER_VARIABLE_IV_LEN, row_block_size = 16, row_base = gcm_aes_info\<rparr>"

definition aes_192_gcm_info :: info_row where
  "aes_192_gcm_info = \<lparr>row_type = AES_192_GCM, row_mode = MODE_GCM, row_key_bitlen = 192, row_name = ''AES-192-GCM'', row_iv_size = 12,
     row_flags = MBEDTLS_CIPHER_VARIABLE_IV_LEN, row_block_size = 16, row_base = gcm_aes_info\<rparr>"

definition aes_256_gcm_info :: info_row where
  "aes_256_gcm_info = \<lparr>row_type = AES_256_GCM, row_mode = MODE_GCM, row_key_bitlen = 256, row_name = ''AES-256-GCM'', row_iv_size = 12,
     row_flags = MBEDTLS_CIPHER_VARIABLE_IV_LEN, row_block_size = 16, row_base = gcm_aes_info\<rparr>"

definition cipher_definitions :: "(cipher_type_t \<times> info_row) list" where
  "cipher_definitions =
    [(AES_128_ECB, aes_128_ecb_row), (AES_192_ECB, aes_192_ecb_row), (AES_256_ECB, aes_256_ecb_row),
     (AES_128_CBC, aes_128_cbc_info), (AES_192_CBC, aes_192_cbc_info), (AES_256_CBC, aes_256_cbc_info),
     (AES_128_CFB128, aes_128_cfb128_info), (AES_192_CFB128, aes_192_cfb128_info), (AES_256_CFB128, aes_256_cfb128_info),
     (AES_128_OFB, aes_128_ofb_info), (AES_192_OFB, aes_192_ofb_info), (AES_256_OFB, aes_256_ofb_info),
     (AES_128_CTR, aes_128_ctr_info), (AES_192_CTR, aes_192_ctr_info), (AES_256_CTR, aes_256_ctr_info),
     (AES_128_XTS, aes_128_xts_info), (AES_256_XTS, aes_256_xts_info), (AES_128_GCM, aes_128_gcm_info),
     (AES_192_GCM, aes_192_gcm_info), (AES_256_GCM, aes_256_gcm_info)]"

definition mbedtls_cipher_info_from_type :: "cipher_type_t \<Rightarrow> info_row option" where
  "mbedtls_cipher_info_from_type ty = map_option snd (find (\<lambda>(t, info). t = ty) cipher_definitions)"

definition mbedtls_cipher_info_from_string :: "string \<Rightarrow> info_row option" where
  "mbedtls_cipher_info_from_string nm = map_option snd (find (\<lambda>(t, info). row_name info = nm) cipher_definitions)"

definition row_from_values :: "cipher_id_t \<Rightarrow> nat \<Rightarrow> cipher_mode_t \<Rightarrow> info_row option" where
  "row_from_values cid bits mode =
     map_option snd (find (\<lambda>(t, info). base_cipher (row_base info) = cid \<and> row_key_bitlen info = bits \<and> row_mode info = mode) cipher_definitions)"

end
