(* ===== verification/Cipher_Modes.thy ===== *)
theory Cipher_Modes
  imports Cipher_Table
begin

unbundle bit_operations_syntax

text \<open>
  The operations of the generic cipher layer, \<^verbatim>\<open>src/mbedtls-3.1.0/library/cipher.c\<close>, over the rows of \<open>Cipher_Table\<close>. The
  suffix \<open>_gen\<close> marks the functions whose part for single blocks is in \<open>Cipher\<close>. The branches of the ciphers
  without a row (CCM, ChaCha20, key wrapping) are left out, as are those of the PSA configuration, which is off.
  Buffers are lists of bytes. \<open>distance\<close> is the distance of the output from the input, so that 0 is work in place; other overlaps of the
  two are not modelled. A function pointer for padding is the scheme whose function it points to, and \<open>None\<close> if it
  is null. \<open>None\<close> as a result is a fault: a null pointer, or an access outside a buffer.
\<close>

record cipher_context_gen =
  g_info :: "info_row option"
  g_key_bitlen :: nat
  g_operation :: int
  add_padding :: "cipher_padding_t option"
  get_padding :: "cipher_padding_t option"
  unprocessed_data :: "u8 list"
  unprocessed_len :: nat
  g_iv :: "u8 list"
  g_iv_size :: nat
  g_ctx :: "alg_context option"

definition MBEDTLS_MAX_IV_LENGTH :: nat where "MBEDTLS_MAX_IV_LENGTH = 16"
definition MBEDTLS_MAX_BLOCK_LENGTH :: nat where "MBEDTLS_MAX_BLOCK_LENGTH = 16"
definition MBEDTLS_ERR_CIPHER_FEATURE_UNAVAILABLE :: int where "MBEDTLS_ERR_CIPHER_FEATURE_UNAVAILABLE = - 0x6080"
definition MBEDTLS_ERR_CIPHER_AUTH_FAILED :: int where "MBEDTLS_ERR_CIPHER_AUTH_FAILED = - 0x6300"

text \<open>All fields are zeroed; 0 is also the number of the operation that decrypts.\<close>

definition mbedtls_cipher_init_gen :: cipher_context_gen where
  "mbedtls_cipher_init_gen = \<lparr>g_info = None, g_key_bitlen = 0, g_operation = MBEDTLS_DECRYPT, add_padding = None, get_padding = None,
     unprocessed_data = replicate MBEDTLS_MAX_BLOCK_LENGTH 0, unprocessed_len = 0,
     g_iv = replicate MBEDTLS_MAX_IV_LENGTH 0, g_iv_size = 0, g_ctx = None\<rparr>"

text \<open>The context of the algorithm is given back and the cipher context is wiped.\<close>

definition mbedtls_cipher_free_gen :: "cipher_context_gen \<Rightarrow> cipher_context_gen" where
  "mbedtls_cipher_free_gen ctx = mbedtls_cipher_init_gen"

section \<open>Set-up\<close>

definition mbedtls_cipher_set_padding_mode :: "cipher_padding_t \<Rightarrow> cipher_context_gen \<Rightarrow> int \<times> cipher_context_gen" where
  "mbedtls_cipher_set_padding_mode mode ctx =
     (case g_info ctx of
        None \<Rightarrow> (MBEDTLS_ERR_CIPHER_BAD_INPUT_DATA, ctx)
      | Some i \<Rightarrow>
          if row_mode i \<noteq> MODE_CBC then (MBEDTLS_ERR_CIPHER_BAD_INPUT_DATA, ctx)
          else (0, case mode of
              PADDING_PKCS7 \<Rightarrow> ctx\<lparr>add_padding := Some PADDING_PKCS7, get_padding := Some PADDING_PKCS7\<rparr>
            | PADDING_ONE_AND_ZEROS \<Rightarrow> ctx\<lparr>add_padding := Some PADDING_ONE_AND_ZEROS, get_padding := Some PADDING_ONE_AND_ZEROS\<rparr>
            | PADDING_ZEROS_AND_LEN \<Rightarrow> ctx\<lparr>add_padding := Some PADDING_ZEROS_AND_LEN, get_padding := Some PADDING_ZEROS_AND_LEN\<rparr>
            | PADDING_ZEROS \<Rightarrow> ctx\<lparr>add_padding := Some PADDING_ZEROS, get_padding := Some PADDING_ZEROS\<rparr>
            | PADDING_NONE \<Rightarrow> ctx\<lparr>add_padding := None, get_padding := Some PADDING_NONE\<rparr>))"

text \<open>Calls through the two pointers.\<close>

fun call_add_padding :: "cipher_padding_t \<Rightarrow> u8 list \<Rightarrow> nat \<Rightarrow> nat \<Rightarrow> u8 list option" where
  "call_add_padding PADDING_PKCS7 = add_pkcs_padding"
| "call_add_padding PADDING_ONE_AND_ZEROS = add_one_and_zeros_padding"
| "call_add_padding PADDING_ZEROS_AND_LEN = add_zeros_and_len_padding"
| "call_add_padding PADDING_ZEROS = add_zeros_padding"
| "call_add_padding PADDING_NONE = (\<lambda>_ _ _. None)"

fun call_get_padding :: "cipher_padding_t \<Rightarrow> u8 list \<Rightarrow> nat \<Rightarrow> (int \<times> nat) option" where
  "call_get_padding PADDING_PKCS7 = get_pkcs_padding"
| "call_get_padding PADDING_ONE_AND_ZEROS = get_one_and_zeros_padding"
| "call_get_padding PADDING_ZEROS_AND_LEN = get_zeros_and_len_padding"
| "call_get_padding PADDING_ZEROS = get_zeros_padding"
| "call_get_padding PADDING_NONE = get_no_padding"

text \<open>\<open>ok\<close> tells whether the allocation succeeds; the status of the padding mode is ignored.\<close>

definition mbedtls_cipher_setup_gen :: "bool \<Rightarrow> info_row option \<Rightarrow> cipher_context_gen \<Rightarrow> int \<times> cipher_context_gen" where
  "mbedtls_cipher_setup_gen ok info ctx =
     (case info of
        None \<Rightarrow> (MBEDTLS_ERR_CIPHER_BAD_INPUT_DATA, ctx)
      | Some i \<Rightarrow>
          (case ctx_alloc_func (row_base i) ok of
             None \<Rightarrow> (MBEDTLS_ERR_CIPHER_ALLOC_FAILED, mbedtls_cipher_init_gen)
           | Some alg \<Rightarrow>
               (0, snd (mbedtls_cipher_set_padding_mode PADDING_PKCS7 (mbedtls_cipher_init_gen\<lparr>g_ctx := Some alg, g_info := Some i\<rparr>)))))"

definition mbedtls_cipher_setkey_gen ::
    "u32 \<Rightarrow> bool \<Rightarrow> u8 list \<Rightarrow> nat \<Rightarrow> int \<Rightarrow> cipher_context_gen \<Rightarrow> (int \<times> cipher_context_gen) option" where
  "mbedtls_cipher_setkey_gen cpuid ok key bits op ctx =
     (case g_info ctx of
        None \<Rightarrow> Some (MBEDTLS_ERR_CIPHER_BAD_INPUT_DATA, ctx)
      | Some i \<Rightarrow>
          if row_flags i AND MBEDTLS_CIPHER_VARIABLE_KEY_LEN = 0 \<and> row_key_bitlen i \<noteq> bits
          then Some (MBEDTLS_ERR_CIPHER_BAD_INPUT_DATA, ctx)
          else let ctx = ctx\<lparr>g_key_bitlen := bits, g_operation := op\<rparr> in
            if op = MBEDTLS_ENCRYPT \<or> row_mode i = MODE_CFB \<or> row_mode i = MODE_OFB \<or> row_mode i = MODE_CTR then do {
              alg \<leftarrow> g_ctx ctx;
              (ret, alg) \<leftarrow> setkey_enc_func (row_base i) cpuid ok key bits alg;
              Some (ret, ctx\<lparr>g_ctx := Some alg\<rparr>)
            }
            else if op = MBEDTLS_DECRYPT then do {
              alg \<leftarrow> g_ctx ctx;
              (ret, alg) \<leftarrow> setkey_dec_func (row_base i) cpuid ok key bits alg;
              Some (ret, ctx\<lparr>g_ctx := Some alg\<rparr>)
            }
            else Some (MBEDTLS_ERR_CIPHER_BAD_INPUT_DATA, ctx))"

definition get_block_size :: "cipher_context_gen \<Rightarrow> nat" where
  "get_block_size ctx = (case g_info ctx of None \<Rightarrow> 0 | Some i \<Rightarrow> row_block_size i)"

definition mbedtls_cipher_get_iv_size :: "cipher_context_gen \<Rightarrow> nat" where
  "mbedtls_cipher_get_iv_size ctx =
     (case g_info ctx of None \<Rightarrow> 0 | Some i \<Rightarrow> if g_iv_size ctx \<noteq> 0 then g_iv_size ctx else row_iv_size i)"

text \<open>The GCM context that a context of that mode holds.\<close>

fun gcm_of :: "cipher_context_gen \<Rightarrow> gcm_context option" where
  "gcm_of ctx = (case g_ctx ctx of Some (GCM_ctx g) \<Rightarrow> Some g | _ \<Rightarrow> None)"

definition mbedtls_cipher_set_iv :: "u32 \<Rightarrow> u8 list \<Rightarrow> cipher_context_gen \<Rightarrow> (int \<times> cipher_context_gen) option" where
  "mbedtls_cipher_set_iv cpuid iv ctx =
     (case g_info ctx of
        None \<Rightarrow> Some (MBEDTLS_ERR_CIPHER_BAD_INPUT_DATA, ctx)
      | Some i \<Rightarrow>
          let iv_len = length iv;
              variable = row_flags i AND MBEDTLS_CIPHER_VARIABLE_IV_LEN \<noteq> 0;
              actual_iv_size = (if variable then iv_len else row_iv_size i) in
          if iv_len > MBEDTLS_MAX_IV_LENGTH then Some (MBEDTLS_ERR_CIPHER_FEATURE_UNAVAILABLE, ctx)
          else if \<not> variable \<and> actual_iv_size > iv_len then Some (MBEDTLS_ERR_CIPHER_BAD_INPUT_DATA, ctx)
          else if row_mode i = MODE_GCM then do {
            g \<leftarrow> gcm_of ctx;
            (ret, g) \<leftarrow> mbedtls_gcm_starts cpuid (g_operation ctx) iv g;
            Some (ret, ctx\<lparr>g_ctx := Some (GCM_ctx g)\<rparr>)
          }
          else if actual_iv_size \<noteq> 0
          then Some (0, ctx\<lparr>g_iv := take actual_iv_size iv @ drop actual_iv_size (g_iv ctx), g_iv_size := actual_iv_size\<rparr>)
          else Some (0, ctx))"

definition mbedtls_cipher_reset :: "cipher_context_gen \<Rightarrow> int \<times> cipher_context_gen" where
  "mbedtls_cipher_reset ctx =
     (case g_info ctx of None \<Rightarrow> (MBEDTLS_ERR_CIPHER_BAD_INPUT_DATA, ctx) | Some i \<Rightarrow> (0, ctx\<lparr>unprocessed_len := 0\<rparr>))"

definition mbedtls_cipher_update_ad :: "u32 \<Rightarrow> u8 list \<Rightarrow> cipher_context_gen \<Rightarrow> (int \<times> cipher_context_gen) option" where
  "mbedtls_cipher_update_ad cpuid ad ctx =
     (case g_info ctx of
        None \<Rightarrow> Some (MBEDTLS_ERR_CIPHER_BAD_INPUT_DATA, ctx)
      | Some i \<Rightarrow>
          if row_mode i = MODE_GCM then do {
            g \<leftarrow> gcm_of ctx;
            let (ret, g) = mbedtls_gcm_update_ad cpuid ad g;
            Some (ret, ctx\<lparr>g_ctx := Some (GCM_ctx g)\<rparr>)
          }
          else Some (0, ctx))"

section \<open>Data\<close>

text \<open>\<^verbatim>\<open>memcpy\<close> into a buffer at an offset.\<close>

definition copy_at :: "u8 list \<Rightarrow> nat \<Rightarrow> u8 list \<Rightarrow> u8 list option" where
  "copy_at dst off src = (if off + length src \<le> length dst then Some (take off dst @ src @ drop (off + length src) dst) else None)"

text \<open>The call of the CBC function: the iv of the context is updated.\<close>

definition call_cbc :: "u32 \<Rightarrow> u8 list \<Rightarrow> cipher_context_gen \<Rightarrow> (int \<times> u8 list \<times> cipher_context_gen) option" where
  "call_cbc cpuid inp ctx = do {
     i \<leftarrow> g_info ctx;
     f \<leftarrow> cbc_func (row_base i);
     alg \<leftarrow> g_ctx ctx;
     (ret, iv, out) \<leftarrow> f cpuid alg (g_operation ctx) (length inp) (g_iv ctx) inp;
     Some (ret, out, ctx\<lparr>g_iv := iv\<rparr>)
   }"

text \<open>Whether the input only goes to the buffer.\<close>

definition cbc_caches :: "nat \<Rightarrow> nat \<Rightarrow> cipher_context_gen \<Rightarrow> bool" where
  "cbc_caches block_size ilen ctx \<longleftrightarrow>
     g_operation ctx = MBEDTLS_DECRYPT \<and> add_padding ctx \<noteq> None \<and> ilen \<le> size_minus block_size (unprocessed_len ctx) \<or>
     g_operation ctx = MBEDTLS_DECRYPT \<and> add_padding ctx = None \<and> ilen < size_minus block_size (unprocessed_len ctx) \<or>
     g_operation ctx = MBEDTLS_ENCRYPT \<and> ilen < size_minus block_size (unprocessed_len ctx)"

text \<open>The bytes in the buffer are completed to a block and processed first. The rest of the input is part of the result.\<close>

definition cbc_cached_block :: "u32 \<Rightarrow> nat \<Rightarrow> u8 list \<Rightarrow> cipher_context_gen \<Rightarrow> (int \<times> nat \<times> u8 list \<times> u8 list \<times> cipher_context_gen) option" where
  "cbc_cached_block cpuid block_size inp ctx =
     (if unprocessed_len ctx \<noteq> 0 then
        let copy_len = size_minus block_size (unprocessed_len ctx) in
        if length inp < copy_len then None
        else do {
          ud \<leftarrow> copy_at (unprocessed_data ctx) (unprocessed_len ctx) (take copy_len inp);
          let ctx = ctx\<lparr>unprocessed_data := ud\<rparr>;
          (ret, out, ctx) \<leftarrow> call_cbc cpuid (take block_size ud) ctx;
          if ret \<noteq> 0 then Some (ret, 0, out, inp, ctx)
          else Some (0, block_size, out, drop copy_len inp, ctx\<lparr>unprocessed_len := 0\<rparr>)
        }
      else Some (0, 0, [], inp, ctx))"

text \<open>The end of the input goes to the buffer: a part of a block or, when padding is to be removed, at least one block.\<close>

definition cbc_keep_end :: "nat \<Rightarrow> u8 list \<Rightarrow> cipher_context_gen \<Rightarrow> (u8 list \<times> cipher_context_gen) option" where
  "cbc_keep_end block_size inp ctx =
     (if length inp \<noteq> 0 then
        let copy_len = length inp mod block_size;
            copy_len = (if copy_len = 0 \<and> g_operation ctx = MBEDTLS_DECRYPT \<and> add_padding ctx \<noteq> None then block_size else copy_len) in
        do {
          ud \<leftarrow> copy_at (unprocessed_data ctx) 0 (drop (length inp - copy_len) inp);
          Some (take (length inp - copy_len) inp, ctx\<lparr>unprocessed_data := ud, unprocessed_len := unprocessed_len ctx + copy_len\<rparr>)
        }
      else Some (inp, ctx))"

definition cbc_update :: "u32 \<Rightarrow> nat \<Rightarrow> u8 list \<Rightarrow> cipher_context_gen \<Rightarrow> (int \<times> nat option \<times> u8 list \<times> cipher_context_gen) option" where
  "cbc_update cpuid block_size inp ctx =
     (if cbc_caches block_size (length inp) ctx then do {
        ud \<leftarrow> copy_at (unprocessed_data ctx) (unprocessed_len ctx) inp;
        Some (0, Some 0, [], ctx\<lparr>unprocessed_data := ud, unprocessed_len := unprocessed_len ctx + length inp\<rparr>)
      }
      else do {
        (ret, olen, out, inp, ctx) \<leftarrow> cbc_cached_block cpuid block_size inp ctx;
        if ret \<noteq> 0 then Some (ret, Some olen, out, ctx)
        else do {
          (inp, ctx) \<leftarrow> cbc_keep_end block_size inp ctx;
          if length inp \<noteq> 0 then do {
            (ret, outs, ctx) \<leftarrow> call_cbc cpuid inp ctx;
            if ret \<noteq> 0 then Some (ret, Some olen, out @ outs, ctx)
            else Some (0, Some (olen + length inp), out @ outs, ctx)
          }
          else Some (0, Some olen, out, ctx)
        }
      })"

text \<open>
  The result is the status, the output length if it is written, the bytes written to the output and the context.
  The mode of the row decides; the functions of the modes are called through the table.
\<close>

definition mbedtls_cipher_update_gen ::
    "u32 \<Rightarrow> int \<Rightarrow> u8 list \<Rightarrow> cipher_context_gen \<Rightarrow> (int \<times> nat option \<times> u8 list \<times> cipher_context_gen) option" where
  "mbedtls_cipher_update_gen cpuid distance inp ctx =
     (case g_info ctx of
        None \<Rightarrow> Some (MBEDTLS_ERR_CIPHER_BAD_INPUT_DATA, None, [], ctx)
      | Some i \<Rightarrow>
          let block_size = get_block_size ctx; ilen = length inp in
          if block_size = 0 then Some (MBEDTLS_ERR_CIPHER_INVALID_CONTEXT, Some 0, [], ctx)
          else if row_mode i = MODE_ECB then
            if ilen \<noteq> block_size then Some (MBEDTLS_ERR_CIPHER_FULL_BLOCK_EXPECTED, Some 0, [], ctx)
            else do {
              f \<leftarrow> ecb_func (row_base i);
              alg \<leftarrow> g_ctx ctx;
              (ret, out) \<leftarrow> f cpuid alg (g_operation ctx) inp;
              if ret \<noteq> 0 then Some (ret, Some ilen, [], ctx) else Some (0, Some ilen, out, ctx)
            }
          else if row_mode i = MODE_GCM then do {
            g \<leftarrow> gcm_of ctx;
            (ret, olen, out, g) \<leftarrow> mbedtls_gcm_update cpuid distance ilen inp g;
            Some (ret, Some (case olen of None \<Rightarrow> 0 | Some n \<Rightarrow> n), out, ctx\<lparr>g_ctx := Some (GCM_ctx g)\<rparr>)
          }
          else if distance = 0 \<and> (unprocessed_len ctx \<noteq> 0 \<or> ilen mod block_size \<noteq> 0)
          then Some (MBEDTLS_ERR_CIPHER_BAD_INPUT_DATA, Some 0, [], ctx)
          else if row_mode i = MODE_CBC then cbc_update cpuid block_size inp ctx
          else if row_mode i = MODE_CFB then do {
            f \<leftarrow> cfb_func (row_base i);
            alg \<leftarrow> g_ctx ctx;
            (ret, off, iv, out) \<leftarrow> f cpuid alg (g_operation ctx) ilen (unprocessed_len ctx) (g_iv ctx) inp;
            Some (ret, Some (if ret \<noteq> 0 then 0 else ilen), out, ctx\<lparr>unprocessed_len := off, g_iv := iv\<rparr>)
          }
          else if row_mode i = MODE_OFB then do {
            f \<leftarrow> ofb_func (row_base i);
            alg \<leftarrow> g_ctx ctx;
            (ret, off, iv, out) \<leftarrow> f cpuid alg ilen (unprocessed_len ctx) (g_iv ctx) inp;
            Some (ret, Some (if ret \<noteq> 0 then 0 else ilen), out, ctx\<lparr>unprocessed_len := off, g_iv := iv\<rparr>)
          }
          else if row_mode i = MODE_CTR then do {
            f \<leftarrow> ctr_func (row_base i);
            alg \<leftarrow> g_ctx ctx;
            (ret, off, iv, sb, out) \<leftarrow> f cpuid alg ilen (unprocessed_len ctx) (g_iv ctx) (unprocessed_data ctx) inp;
            Some (ret, Some (if ret \<noteq> 0 then 0 else ilen), out, ctx\<lparr>unprocessed_len := off, g_iv := iv, unprocessed_data := sb\<rparr>)
          }
          else if row_mode i = MODE_XTS then
            if unprocessed_len ctx > 0 then Some (MBEDTLS_ERR_CIPHER_FEATURE_UNAVAILABLE, Some 0, [], ctx)
            else do {
              f \<leftarrow> xts_func (row_base i);
              alg \<leftarrow> g_ctx ctx;
              (ret, out) \<leftarrow> f cpuid alg (g_operation ctx) ilen (g_iv ctx) inp;
              Some (ret, Some (if ret \<noteq> 0 then 0 else ilen), out, ctx)
            }
          else Some (MBEDTLS_ERR_CIPHER_FEATURE_UNAVAILABLE, Some 0, [], ctx))"

section \<open>The end of a message\<close>

text \<open>The last block of a CBC message; all of a decrypted block is written, and the output length says how much of it is data.\<close>

definition cbc_last_block :: "u32 \<Rightarrow> cipher_context_gen \<Rightarrow> (int \<times> nat option \<times> u8 list \<times> cipher_context_gen) option" where
  "cbc_last_block cpuid ctx = do {
     (ret, out, ctx) \<leftarrow> call_cbc cpuid (take (get_block_size ctx) (unprocessed_data ctx)) ctx;
     if ret \<noteq> 0 then Some (ret, Some 0, out, ctx)
     else if g_operation ctx = MBEDTLS_DECRYPT then do {
       g \<leftarrow> get_padding ctx;
       (ret, olen) \<leftarrow> call_get_padding g out (get_block_size ctx);
       Some (ret, Some olen, out, ctx)
     }
     else Some (0, Some (get_block_size ctx), out, ctx)
   }"

definition mbedtls_cipher_finish :: "u32 \<Rightarrow> cipher_context_gen \<Rightarrow> (int \<times> nat option \<times> u8 list \<times> cipher_context_gen) option" where
  "mbedtls_cipher_finish cpuid ctx =
     (case g_info ctx of
        None \<Rightarrow> Some (MBEDTLS_ERR_CIPHER_BAD_INPUT_DATA, None, [], ctx)
      | Some i \<Rightarrow>
          if row_mode i \<in> {MODE_CFB, MODE_OFB, MODE_CTR, MODE_GCM, MODE_CCM_STAR_NO_TAG, MODE_XTS, MODE_STREAM} then Some (0, Some 0, [], ctx)
          else if row_mode i = MODE_ECB
          then Some (if unprocessed_len ctx \<noteq> 0 then MBEDTLS_ERR_CIPHER_FULL_BLOCK_EXPECTED else 0, Some 0, [], ctx)
          else if row_mode i = MODE_CBC then
            if g_operation ctx = MBEDTLS_ENCRYPT then
              (case add_padding ctx of
                 None \<Rightarrow> Some (if unprocessed_len ctx \<noteq> 0 then MBEDTLS_ERR_CIPHER_FULL_BLOCK_EXPECTED else 0, Some 0, [], ctx)
               | Some a \<Rightarrow> do {
                   ud \<leftarrow> call_add_padding a (unprocessed_data ctx) (mbedtls_cipher_get_iv_size ctx) (unprocessed_len ctx);
                   cbc_last_block cpuid (ctx\<lparr>unprocessed_data := ud\<rparr>)
                 })
            else if get_block_size ctx \<noteq> unprocessed_len ctx
            then Some (if add_padding ctx = None \<and> unprocessed_len ctx = 0 then 0 else MBEDTLS_ERR_CIPHER_FULL_BLOCK_EXPECTED, Some 0, [], ctx)
            else cbc_last_block cpuid ctx
          else Some (MBEDTLS_ERR_CIPHER_FEATURE_UNAVAILABLE, Some 0, [], ctx))"

definition mbedtls_cipher_write_tag :: "u32 \<Rightarrow> nat \<Rightarrow> cipher_context_gen \<Rightarrow> (int \<times> u8 list \<times> cipher_context_gen) option" where
  "mbedtls_cipher_write_tag cpuid tag_len ctx =
     (case g_info ctx of
        None \<Rightarrow> Some (MBEDTLS_ERR_CIPHER_BAD_INPUT_DATA, [], ctx)
      | Some i \<Rightarrow>
          if g_operation ctx \<noteq> MBEDTLS_ENCRYPT then Some (MBEDTLS_ERR_CIPHER_BAD_INPUT_DATA, [], ctx)
          else if row_mode i = MODE_GCM then do {
            g \<leftarrow> gcm_of ctx;
            let (ret, tag, g) = mbedtls_gcm_finish cpuid tag_len g;
            Some (ret, tag, ctx\<lparr>g_ctx := Some (GCM_ctx g)\<rparr>)
          }
          else Some (0, [], ctx))"

definition mbedtls_ct_memcmp :: "u8 list \<Rightarrow> u8 list \<Rightarrow> nat \<Rightarrow> int" where
  "mbedtls_ct_memcmp a b n = uint (foldl (\<lambda>diff i. diff OR (a ! i XOR b ! i)) 0 [0..<n])"

definition mbedtls_cipher_check_tag :: "u32 \<Rightarrow> u8 list \<Rightarrow> cipher_context_gen \<Rightarrow> (int \<times> cipher_context_gen) option" where
  "mbedtls_cipher_check_tag cpuid tag ctx =
     (case g_info ctx of
        None \<Rightarrow> Some (MBEDTLS_ERR_CIPHER_BAD_INPUT_DATA, ctx)
      | Some i \<Rightarrow>
          if g_operation ctx \<noteq> MBEDTLS_DECRYPT then Some (MBEDTLS_ERR_CIPHER_BAD_INPUT_DATA, ctx)
          else if row_mode i = MODE_GCM then
            if length tag > 16 then Some (MBEDTLS_ERR_CIPHER_BAD_INPUT_DATA, ctx)
            else do {
              g \<leftarrow> gcm_of ctx;
              let (ret, check_tag, g) = mbedtls_gcm_finish cpuid (length tag) g;
              let ctx = ctx\<lparr>g_ctx := Some (GCM_ctx g)\<rparr>;
              if ret \<noteq> 0 then Some (ret, ctx)
              else if mbedtls_ct_memcmp tag check_tag (length tag) \<noteq> 0 then Some (MBEDTLS_ERR_CIPHER_AUTH_FAILED, ctx)
              else Some (0, ctx)
            }
          else Some (0, ctx))"

section \<open>Whole messages\<close>

text \<open>
  The output of the two calls is returned with the length the caller is told. The last call may write more bytes than it
  reports: \<open>take\<close> is what the caller reads.
\<close>

definition mbedtls_cipher_crypt ::
    "u32 \<Rightarrow> int \<Rightarrow> u8 list \<Rightarrow> u8 list \<Rightarrow> cipher_context_gen \<Rightarrow> (int \<times> nat option \<times> u8 list \<times> cipher_context_gen) option" where
  "mbedtls_cipher_crypt cpuid distance iv inp ctx = do {
     (ret, ctx) \<leftarrow> mbedtls_cipher_set_iv cpuid iv ctx;
     if ret \<noteq> 0 then Some (ret, None, [], ctx)
     else
       let (ret, ctx) = mbedtls_cipher_reset ctx in
       if ret \<noteq> 0 then Some (ret, None, [], ctx)
       else do {
         (ret, olen, out, ctx) \<leftarrow> mbedtls_cipher_update_gen cpuid distance inp ctx;
         if ret \<noteq> 0 then Some (ret, olen, out, ctx)
         else do {
           n \<leftarrow> olen;
           (ret, finish_olen, last, ctx) \<leftarrow> mbedtls_cipher_finish cpuid ctx;
           if ret \<noteq> 0 then Some (ret, olen, take n out @ last, ctx)
           else do {
             m \<leftarrow> finish_olen;
             Some (0, Some (n + m), take n out @ last, ctx)
           }
         }
       }
   }"

text \<open>
  The two static functions for authenticated modes take the output length the caller's variable holds, since they do
  not set it when the mode is not available. Ciphertext and tag are two parts of the result.
\<close>

definition mbedtls_cipher_aead_encrypt ::
    "u32 \<Rightarrow> int \<Rightarrow> u8 list \<Rightarrow> u8 list \<Rightarrow> u8 list \<Rightarrow> nat \<Rightarrow> nat \<Rightarrow> cipher_context_gen \<Rightarrow>
     (int \<times> nat \<times> u8 list \<times> u8 list \<times> cipher_context_gen) option" where
  "mbedtls_cipher_aead_encrypt cpuid distance iv ad inp olen tag_len ctx = do {
     i \<leftarrow> g_info ctx;
     if row_mode i = MODE_GCM then do {
       g \<leftarrow> gcm_of ctx;
       (ret, out, tag, g) \<leftarrow> mbedtls_gcm_crypt_and_tag cpuid MBEDTLS_GCM_ENCRYPT distance iv ad inp tag_len g;
       Some (ret, length inp, out, tag, ctx\<lparr>g_ctx := Some (GCM_ctx g)\<rparr>)
     }
     else Some (MBEDTLS_ERR_CIPHER_FEATURE_UNAVAILABLE, olen, [], [], ctx)
   }"

definition mbedtls_cipher_aead_decrypt ::
    "u32 \<Rightarrow> int \<Rightarrow> u8 list \<Rightarrow> u8 list \<Rightarrow> u8 list \<Rightarrow> nat \<Rightarrow> u8 list \<Rightarrow> cipher_context_gen \<Rightarrow> (int \<times> nat \<times> u8 list \<times> cipher_context_gen) option" where
  "mbedtls_cipher_aead_decrypt cpuid distance iv ad inp olen tag ctx = do {
     i \<leftarrow> g_info ctx;
     if row_mode i = MODE_GCM then do {
       g \<leftarrow> gcm_of ctx;
       (ret, out, g) \<leftarrow> mbedtls_gcm_auth_decrypt cpuid distance iv ad tag inp g;
       Some (if ret = MBEDTLS_ERR_GCM_AUTH_FAILED then MBEDTLS_ERR_CIPHER_AUTH_FAILED else ret, length inp, out, ctx\<lparr>g_ctx := Some (GCM_ctx g)\<rparr>)
     }
     else Some (MBEDTLS_ERR_CIPHER_FEATURE_UNAVAILABLE, olen, [], ctx)
   }"

text \<open>The sum of the lengths wraps like \<open>size_t\<close>. The rows for key wrapping are not modelled, so their branch is left out.\<close>

definition mbedtls_cipher_auth_encrypt_ext ::
    "u32 \<Rightarrow> int \<Rightarrow> u8 list \<Rightarrow> u8 list \<Rightarrow> u8 list \<Rightarrow> nat \<Rightarrow> nat \<Rightarrow> nat \<Rightarrow> cipher_context_gen \<Rightarrow>
     (int \<times> nat \<times> u8 list \<times> u8 list \<times> cipher_context_gen) option" where
  "mbedtls_cipher_auth_encrypt_ext cpuid distance iv ad inp output_len olen tag_len ctx =
     (if output_len < (length inp + tag_len) mod 2 ^ 64 then Some (MBEDTLS_ERR_CIPHER_BAD_INPUT_DATA, olen, [], [], ctx)
      else do {
        (ret, olen, out, tag, ctx) \<leftarrow> mbedtls_cipher_aead_encrypt cpuid distance iv ad inp olen tag_len ctx;
        Some (ret, (olen + tag_len) mod 2 ^ 64, out, tag, ctx)
      })"

definition mbedtls_cipher_auth_decrypt_ext ::
    "u32 \<Rightarrow> int \<Rightarrow> u8 list \<Rightarrow> u8 list \<Rightarrow> u8 list \<Rightarrow> nat \<Rightarrow> nat \<Rightarrow> nat \<Rightarrow> cipher_context_gen \<Rightarrow> (int \<times> nat \<times> u8 list \<times> cipher_context_gen) option" where
  "mbedtls_cipher_auth_decrypt_ext cpuid distance iv ad inp output_len olen tag_len ctx =
     (if length inp < tag_len \<or> output_len < length inp - tag_len then Some (MBEDTLS_ERR_CIPHER_BAD_INPUT_DATA, olen, [], ctx)
      else
        let n = length inp - tag_len in
        mbedtls_cipher_aead_decrypt cpuid distance iv ad (take n inp) olen (drop n inp) ctx)"

end
