(* ===== verification/Cipher_CBC.thy ===== *)
theory Cipher_CBC
  imports Cipher_Modes AES_Modes_Correct
begin

unbundle bit_operations_syntax

text \<open>
  CBC through the generic cipher layer. The specification \<open>chain_in\<close> takes input in pieces of any length: it keeps the bytes
  that do not fill a block, and with padding to be removed at least one block, and chains the rest through a function on whole blocks.
  The locale \<open>chain\<close> states what it needs of that function, and is interpreted on CBC encryption and decryption
  with AES. The update of the code refines \<open>chain_in\<close>; whole messages and their padding follow.
\<close>

section \<open>Input in pieces\<close>

text \<open>The number of blocks to process out of \<open>n\<close> bytes.\<close>

definition taken :: "bool \<Rightarrow> nat \<Rightarrow> nat" where
  "taken hold n = (if hold then (n - 1) div 16 else n div 16)"

definition chain_in :: "(u8 list \<Rightarrow> u8 list \<Rightarrow> u8 list \<times> u8 list) \<Rightarrow> bool \<Rightarrow> u8 list \<Rightarrow> u8 list \<Rightarrow> u8 list \<times> u8 list \<times> u8 list" where
  "chain_in blk hold iv w = (let n = 16 * taken hold (length w); (iv, out) = blk iv (take n w) in (iv, out, drop n w))"

lemma taken_le: "16 * taken hold n \<le> n"
  by (auto simp: taken_def)

lemma taken_mono: "n \<le> m \<Longrightarrow> taken hold n \<le> taken hold m"
  by (simp add: taken_def div_le_mono)

lemma div16_split: "k \<le> m div 16 \<Longrightarrow> m div 16 = k + (m - 16 * k) div (16 :: nat)"
proof -
  assume "k \<le> m div 16"
  then have "16 * k \<le> m" by (simp add: less_eq_div_iff_mult_less_eq mult.commute)
  then obtain r where "m = 16 * k + r" using le_Suc_ex by blast
  then show ?thesis by simp
qed

lemma taken_split: "k \<le> taken hold n \<Longrightarrow> taken hold n = k + taken hold (n - 16 * k)"
  using div16_split [of k "n - 1"] div16_split [of k n] by (cases hold) (simp_all add: taken_def diff_right_commute)

lemma chain_in_iff:
  "chain_in blk hold iv w = (iv1, out, rest) \<longleftrightarrow>
    blk iv (take (16 * taken hold (length w)) w) = (iv1, out) \<and> rest = drop (16 * taken hold (length w)) w"
  by (auto simp: chain_in_def Let_def split: prod.splits)

locale chain =
  fixes blk :: "u8 list \<Rightarrow> u8 list \<Rightarrow> u8 list \<times> u8 list"
  assumes blk_nil: "blk iv [] = (iv, [])"
    and blk_append: "length iv = 16 \<Longrightarrow> 16 dvd length xs \<Longrightarrow> 16 dvd length ys \<Longrightarrow> blk iv xs = (iv1, out1) \<Longrightarrow>
      blk iv1 ys = (iv2, out2) \<Longrightarrow> blk iv (xs @ ys) = (iv2, out1 @ out2)"
    and length_blk: "length iv = 16 \<Longrightarrow> 16 dvd length xs \<Longrightarrow> blk iv xs = (iv1, out) \<Longrightarrow> length iv1 = 16 \<and> length out = length xs"
begin

text \<open>Blocks may be processed ahead of the rest.\<close>

lemma chain_in_ahead:
  assumes "length iv = 16" and "k \<le> taken hold (length w)"
    and "blk iv (take (16 * k) w) = (iv1, out1)" and "chain_in blk hold iv1 (drop (16 * k) w) = (iv2, out2, rest)"
  shows "chain_in blk hold iv w = (iv2, out1 @ out2, rest)"
proof -
  let ?t = "taken hold (length w - 16 * k)"
  have t: "16 * taken hold (length w) = 16 * k + 16 * ?t" using taken_split [OF assms(2)] by simp
  have le: "16 * taken hold (length w) \<le> length w" by (rule taken_le)
  have d: "16 dvd length (take (16 * k) w)" "16 dvd length (take (16 * ?t) (drop (16 * k) w))" using le t by simp_all
  have 2: "blk iv1 (take (16 * ?t) (drop (16 * k) w)) = (iv2, out2)" "rest = drop (16 * ?t) (drop (16 * k) w)"
    using assms(4) by (simp_all add: chain_in_iff)
  show ?thesis
    using blk_append [OF assms(1) d assms(3) 2(1)] 2(2) unfolding chain_in_iff t take_add by (simp add: add.commute)
qed

text \<open>One piece after the other is the two together.\<close>

lemma chain_in_absorb:
  assumes "length iv = 16" and "chain_in blk hold iv w = (iv1, out1, w1)" and "chain_in blk hold iv1 (w1 @ q) = (iv2, out2, w2)"
  shows "chain_in blk hold iv (w @ q) = (iv2, out1 @ out2, w2)"
proof (rule chain_in_ahead [OF assms(1)])
  let ?n = "16 * taken hold (length w)"
  have w: "take ?n (w @ q) = take ?n w" "drop ?n (w @ q) = drop ?n w @ q" using taken_le [of hold "length w"] by simp_all
  show "taken hold (length w) \<le> taken hold (length (w @ q))" by (rule taken_mono) simp
  show "blk iv (take ?n (w @ q)) = (iv1, out1)" using assms(2) unfolding chain_in_iff w by (rule conjunct1)
  show "chain_in blk hold iv1 (drop ?n (w @ q)) = (iv2, out2, w2)" using assms(2,3) unfolding chain_in_iff [of _ _ _ w] w by (elim conjE) (simp only:)
qed

lemma length_chain_in:
  assumes "length iv = 16" and "chain_in blk hold iv w = (iv1, out, rest)"
  shows "length iv1 = 16" and "length out = 16 * taken hold (length w)"
proof -
  let ?n = "16 * taken hold (length w)"
  have l: "length (take ?n w) = ?n" using taken_le [of hold "length w"] by (simp only: length_take min.absorb2)
  have "blk iv (take ?n w) = (iv1, out)" using assms(2) unfolding chain_in_iff by (rule conjunct1)
  from length_blk [OF assms(1) _ this] l show "length iv1 = 16" "length out = ?n" by simp_all
qed

end

section \<open>CBC over AES\<close>

definition cbc_enc_chain :: "aes_context \<Rightarrow> u8 list \<Rightarrow> u8 list \<Rightarrow> u8 list \<times> u8 list" where
  "cbc_enc_chain aes iv xs = (let r = cbc_blocks (block_enc aes) (length xs div 16) iv xs in (last_block iv r, r))"

definition cbc_dec_chain :: "aes_context \<Rightarrow> u8 list \<Rightarrow> u8 list \<Rightarrow> u8 list \<times> u8 list" where
  "cbc_dec_chain aes iv xs = (last_block iv xs, cbc_unblocks (block_dec aes) (length xs div 16) iv xs)"

lemma last_block_last: "16 dvd length ys \<Longrightarrow> last_block iv (xs @ ys) = last_block (last_block iv xs) ys"
  by (cases "ys = []") (auto simp: last_block_def dest: dvd_imp_le)

lemma length_last_block: "length iv = 16 \<Longrightarrow> 16 dvd length xs \<Longrightarrow> length (last_block iv xs) = 16"
  by (auto simp: last_block_def dest: dvd_imp_le)

lemma cbc_blocks_append:
  "length xs = 16 * j \<Longrightarrow> cbc_blocks (block_enc aes) (j + k) iv (xs @ ys) =
    cbc_blocks (block_enc aes) j iv xs @ cbc_blocks (block_enc aes) k (last_block iv (cbc_blocks (block_enc aes) j iv xs)) ys"
proof (induction j arbitrary: iv xs)
  case 0
  then show ?case by (simp add: last_block_def)
next
  case (Suc j)
  then show ?case
    using Suc.IH [of "drop 16 xs"] by (simp add: Let_def last_block_append [OF _ length_cbc_blocks])
qed

lemma cbc_unblocks_append:
  "length xs = 16 * j \<Longrightarrow> cbc_unblocks D (j + k) iv (xs @ ys) = cbc_unblocks D j iv xs @ cbc_unblocks D k (last_block iv xs) ys"
proof (induction j arbitrary: iv xs)
  case 0
  then show ?case by (simp add: last_block_def)
next
  case (Suc j)
  then have "last_block iv xs = last_block (take 16 xs) (drop 16 xs)"
    using last_block_append [of "take 16 xs" "drop 16 xs" j iv] by simp
  with Suc show ?case by simp
qed

lemma length_cbc_unblocks: "length iv = 16 \<Longrightarrow> 16 * k \<le> length xs \<Longrightarrow> length (cbc_unblocks (block_dec aes) k iv xs) = 16 * k"
  by (induction k arbitrary: iv xs) simp_all

interpretation enc: chain "cbc_enc_chain aes" for aes
proof
  fix iv xs ys iv1 out1 iv2 out2 :: "u8 list"
  assume d: "16 dvd length xs" "16 dvd length ys" and b: "cbc_enc_chain aes iv xs = (iv1, out1)" "cbc_enc_chain aes iv1 ys = (iv2, out2)"
  from d obtain j k where jk: "length xs = 16 * j" "length ys = 16 * k" by (auto elim!: dvdE)
  then show "cbc_enc_chain aes iv (xs @ ys) = (iv2, out1 @ out2)"
    using b cbc_blocks_append [OF jk(1), of aes k iv ys] by (auto simp: cbc_enc_chain_def Let_def last_block_last length_cbc_blocks)
qed (auto simp: cbc_enc_chain_def Let_def length_cbc_blocks length_last_block last_block_def [of _ "[]"])

interpretation dec: chain "cbc_dec_chain aes" for aes
proof
  fix iv xs ys iv1 out1 iv2 out2 :: "u8 list"
  assume d: "16 dvd length xs" "16 dvd length ys" and b: "cbc_dec_chain aes iv xs = (iv1, out1)" "cbc_dec_chain aes iv1 ys = (iv2, out2)"
  from d obtain j k where jk: "length xs = 16 * j" "length ys = 16 * k" by (auto elim!: dvdE)
  then show "cbc_dec_chain aes iv (xs @ ys) = (iv2, out1 @ out2)"
    using b cbc_unblocks_append [OF jk(1), of "block_dec aes" k iv ys] by (auto simp: cbc_dec_chain_def last_block_last)
qed (auto simp: cbc_dec_chain_def length_cbc_unblocks length_last_block last_block_def [of _ "[]"])

text \<open>Decrypting undoes encrypting.\<close>

lemma dec_enc_chain:
  assumes "key_pair e d" and "length iv = 16" and "16 dvd length xs"
  shows "snd (cbc_dec_chain d iv (snd (cbc_enc_chain e iv xs))) = xs"
proof -
  from assms(3) obtain k where k: "length xs = 16 * k" by (auto elim!: dvdE)
  then show ?thesis
    using block_cipher.cbc_round [OF aes_block_cipher [OF assms(1)] k assms(2)] by (simp add: cbc_dec_chain_def cbc_enc_chain_def Let_def length_cbc_blocks)
qed

text \<open>The chain of an operation.\<close>

definition cbc_chain :: "int \<Rightarrow> aes_context \<Rightarrow> u8 list \<Rightarrow> u8 list \<Rightarrow> u8 list \<times> u8 list" where
  "cbc_chain op aes = (if op = MBEDTLS_ENCRYPT then cbc_enc_chain aes else cbc_dec_chain aes)"

interpretation cbc: chain "cbc_chain op aes" for op aes
  by (simp add: cbc_chain_def enc.chain_axioms dec.chain_axioms)

section \<open>The update of a CBC context\<close>

text \<open>A context with a CBC row, a key and a padding mode; \<open>b\<close> is the input that waits in its buffer.\<close>

definition cbc_row :: "info_row \<Rightarrow> bool" where
  "cbc_row i \<longleftrightarrow> row_mode i = MODE_CBC \<and> row_block_size i = 16 \<and> row_iv_size i = 16 \<and> row_flags i = 0 \<and> row_base i = aes_info"

definition cbc_ready :: "int \<Rightarrow> aes_context \<Rightarrow> cipher_padding_t \<Rightarrow> cipher_context_gen \<Rightarrow> bool" where
  "cbc_ready op aes pad ctx \<longleftrightarrow> (\<exists>i. g_info ctx = Some i \<and> cbc_row i) \<and> g_ctx ctx = Some (AES_ctx aes) \<and> keyed aes \<and>
     g_operation ctx = op \<and> op \<in> {MBEDTLS_ENCRYPT, MBEDTLS_DECRYPT} \<and> length (unprocessed_data ctx) = 16 \<and> length (g_iv ctx) = 16 \<and>
     g_iv_size ctx \<in> {0, 16} \<and> get_padding ctx = Some pad \<and> add_padding ctx = (if pad = PADDING_NONE then None else Some pad)"

definition cbc_state :: "int \<Rightarrow> aes_context \<Rightarrow> cipher_padding_t \<Rightarrow> u8 list \<Rightarrow> u8 list \<Rightarrow> cipher_context_gen \<Rightarrow> bool" where
  "cbc_state op aes pad iv b ctx \<longleftrightarrow> cbc_ready op aes pad ctx \<and> g_iv ctx = iv \<and> unprocessed_len ctx = length b \<and>
     take (length b) (unprocessed_data ctx) = b"

definition holds :: "int \<Rightarrow> cipher_padding_t \<Rightarrow> bool" where
  "holds op pad \<longleftrightarrow> op = MBEDTLS_DECRYPT \<and> pad \<noteq> PADDING_NONE"

text \<open>What the buffer may hold between two calls.\<close>

definition fits :: "bool \<Rightarrow> nat \<Rightarrow> bool" where
  "fits hold n \<longleftrightarrow> (if hold then n \<le> 16 else n < 16)"

lemma fits_taken: "fits hold n \<longleftrightarrow> taken hold n = 0"
  by (auto simp: fits_def taken_def)

lemma fits_nil: "fits hold (length [])"
  by (simp add: fits_def)

lemma fits_le: "fits hold n \<Longrightarrow> n \<le> 16"
  by (auto simp: fits_def split: if_splits)

lemma chain_in_fits: "chain_in blk hold iv w = (iv1, out, rest) \<Longrightarrow> fits hold (length rest)"
  using taken_split [of "taken hold (length w)" hold "length w"] by (simp add: chain_in_iff fits_taken)

lemma op_distinct [simp]: "MBEDTLS_ENCRYPT \<noteq> MBEDTLS_DECRYPT" "MBEDTLS_DECRYPT \<noteq> MBEDTLS_ENCRYPT"
  by (simp_all add: MBEDTLS_ENCRYPT_def MBEDTLS_DECRYPT_def)

lemma op_aes: "MBEDTLS_ENCRYPT = MBEDTLS_AES_ENCRYPT" "MBEDTLS_DECRYPT = MBEDTLS_AES_DECRYPT"
  by (simp_all add: MBEDTLS_ENCRYPT_def MBEDTLS_DECRYPT_def MBEDTLS_AES_ENCRYPT_def MBEDTLS_AES_DECRYPT_def)

lemma call_cbc_ready:
  assumes "cbc_ready op aes pad ctx" and "16 dvd length inp" and "cbc_chain op aes (g_iv ctx) inp = (iv, out)"
  shows "call_cbc cpuid inp ctx = Some (0, out, ctx\<lparr>g_iv := iv\<rparr>)"
proof -
  from assms(2) obtain k where k: "length inp = 16 * k" by (auto elim!: dvdE)
  have c: "keyed aes" "length (g_iv ctx) = 16" "op = MBEDTLS_ENCRYPT \<or> op = MBEDTLS_DECRYPT" using assms(1) by (auto simp: cbc_ready_def)
  have "mbedtls_aes_crypt_cbc cpuid aes op (length inp) (g_iv ctx) inp = Some (0, iv, out)"
    using c(3) assms(3) cbc_encrypt_eval [OF c(1) k c(2), of cpuid] cbc_decrypt_eval [OF c(1) k c(2), of cpuid] k
    by (auto simp: cbc_chain_def cbc_enc_chain_def cbc_dec_chain_def Let_def op_aes [symmetric])
  with assms(1) show ?thesis by (auto simp: cbc_ready_def cbc_row_def call_cbc_def aes_info_def)
qed

lemma cbc_ready_fields:
  "cbc_ready op aes pad ctx \<Longrightarrow> length iv = 16 \<Longrightarrow> cbc_ready op aes pad (ctx\<lparr>g_iv := iv\<rparr>)"
  "cbc_ready op aes pad ctx \<Longrightarrow> cbc_ready op aes pad (ctx\<lparr>unprocessed_len := n\<rparr>)"
  "cbc_ready op aes pad ctx \<Longrightarrow> length ud = 16 \<Longrightarrow> cbc_ready op aes pad (ctx\<lparr>unprocessed_data := ud\<rparr>)"
  by (simp_all add: cbc_ready_def)

lemma cbc_caches_fits:
  assumes "cbc_state op aes pad iv b ctx" and "length b \<le> 16"
  shows "cbc_caches 16 n ctx \<longleftrightarrow> fits (holds op pad) (length b + n)"
proof -
  have "size_minus 16 (unprocessed_len ctx) = 16 - length b" using assms by (simp add: cbc_state_def size_minus_le)
  with assms show ?thesis by (auto simp: cbc_caches_def cbc_state_def cbc_ready_def holds_def fits_def)
qed

lemma copy_at_state:
  assumes "cbc_state op aes pad iv b ctx" and "length b + length p \<le> 16"
  obtains ud where "copy_at (unprocessed_data ctx) (unprocessed_len ctx) p = Some ud" "length ud = 16" "take (length b + length p) ud = b @ p"
  using that assms by (simp add: copy_at_def cbc_state_def cbc_ready_def)

text \<open>The end of the input is kept, and the blocks in front of it are left to be processed.\<close>

lemma keep_end_len:
  assumes "n \<noteq> 0"
  shows "n - (if n mod 16 = 0 \<and> hold then 16 else n mod 16) = 16 * taken hold n" and "(if n mod 16 = 0 \<and> hold then 16 else n mod 16) \<le> n"
proof -
  obtain q r where n: "n = 16 * q + r" "r < 16" by (rule that [of "n div 16" "n mod 16"]) simp_all
  have "taken hold n = (if r = 0 \<and> hold then q - 1 else q)"
  proof (cases r)
    case 0
    then obtain m where "q = Suc m" using n assms by (cases q) auto
    with 0 have "n - 1 = 15 + 16 * m" using n by simp
    then have "(n - 1) div 16 = m" by simp
    with 0 n \<open>q = Suc m\<close> show ?thesis by (simp add: taken_def)
  next
    case (Suc r')
    then have "n - 1 = r' + 16 * q" using n by simp
    then have "(n - 1) div 16 = q" using n Suc by simp
    moreover have "n div 16 = q" using n by simp
    ultimately show ?thesis using Suc by (simp add: taken_def)
  qed
  moreover have "r = 0 \<Longrightarrow> 16 \<le> 16 * q" using n assms by (cases q) auto
  ultimately show "n - (if n mod 16 = 0 \<and> hold then 16 else n mod 16) = 16 * taken hold n" "(if n mod 16 = 0 \<and> hold then 16 else n mod 16) \<le> n"
    using n by (auto simp: diff_mult_distrib2)
qed

lemma keep_end_state:
  fixes p :: "u8 list"
  assumes "cbc_state op aes pad iv [] ctx"
  defines "n \<equiv> 16 * taken (holds op pad) (length p)"
  obtains ctx' where "cbc_keep_end 16 p ctx = Some (take n p, ctx')" "cbc_state op aes pad iv (drop n p) ctx'"
proof (cases "p = []")
  case True
  then show ?thesis using that assms(1) by (simp add: cbc_keep_end_def)
next
  case False
  let ?h = "holds op pad"
  let ?c = "if length p mod 16 = 0 \<and> ?h then 16 else length p mod 16"
  have len: "length p - ?c = n" "?c \<le> length p" "?c \<le> 16" using keep_end_len [of "length p" ?h] False by (auto simp: n_def)
  have c: "g_operation ctx = MBEDTLS_DECRYPT \<and> add_padding ctx \<noteq> None \<longleftrightarrow> ?h" "unprocessed_len ctx = 0" "length (unprocessed_data ctx) = 16"
    using assms(1) by (auto simp: cbc_state_def cbc_ready_def holds_def)
  let ?ctx = "ctx\<lparr>unprocessed_data := drop n p @ drop ?c (unprocessed_data ctx), unprocessed_len := ?c\<rparr>"
  have ld: "length (drop n p) = ?c" using len by auto
  have "cbc_keep_end 16 p ctx = Some (take n p, ?ctx)"
    using False ld len c(3) unfolding cbc_keep_end_def c(1) Let_def len(1) copy_at_def by (simp add: c(2))
  moreover have "cbc_state op aes pad iv (drop n p) ?ctx"
    using assms(1) ld len c(3) by (auto simp: cbc_state_def intro!: cbc_ready_fields)
  ultimately show ?thesis by (rule that)
qed

lemma cbc_rest_state:
  assumes "cbc_state op aes pad iv [] ctx" and "length iv = 16" and "chain_in (cbc_chain op aes) (holds op pad) iv p = (iv1, out1, rest)"
  obtains q ctx1 ctx2 where "cbc_keep_end 16 p ctx = Some (q, ctx1)" "length q = length out1" "q = [] \<longleftrightarrow> out1 = []" "out1 = [] \<Longrightarrow> ctx1 = ctx2"
    "out1 \<noteq> [] \<Longrightarrow> call_cbc cpuid q ctx1 = Some (0, out1, ctx2)" "cbc_state op aes pad iv1 rest ctx2"
proof -
  let ?n = "16 * taken (holds op pad) (length p)"
  obtain ctx1 where keep: "cbc_keep_end 16 p ctx = Some (take ?n p, ctx1)" and s1: "cbc_state op aes pad iv (drop ?n p) ctx1"
    using keep_end_state [OF assms(1)] by blast
  have len: "length (take ?n p) = ?n" using taken_le [of "holds op pad" "length p"] by (simp only: length_take min.absorb2)
  have b: "cbc_chain op aes iv (take ?n p) = (iv1, out1)" "rest = drop ?n p" using assms(3) by (simp_all add: chain_in_iff)
  note l = cbc.length_chain_in [OF assms(2,3)]
  have r: "cbc_ready op aes pad ctx1" "g_iv ctx1 = iv" using s1 by (simp_all add: cbc_state_def)
  have call: "call_cbc cpuid (take ?n p) ctx1 = Some (0, out1, ctx1\<lparr>g_iv := iv1\<rparr>)"
    by (rule call_cbc_ready [OF r(1)]) (use len b(1) r(2) in simp_all)
  have s2: "cbc_state op aes pad iv1 rest (ctx1\<lparr>g_iv := iv1\<rparr>)"
    using s1 b(2) l(1) by (simp add: cbc_state_def cbc_ready_fields(1))
  have same: "ctx1 = ctx1\<lparr>g_iv := iv1\<rparr>" if "out1 = []"
  proof -
    from that l(2) have "take ?n p = []" by simp
    with b(1) cbc.blk_nil [of op aes iv] have "iv1 = iv" by simp
    with r(2) show ?thesis by simp
  qed
  have "length (take ?n p) = length out1" by (simp only: len l(2))
  moreover from this have "take ?n p = [] \<longleftrightarrow> out1 = []" by (metis length_0_conv)
  ultimately show ?thesis by (rule that [OF keep _ _ same call s2])
qed

lemma cached_block_state:
  assumes "cbc_state op aes pad iv b ctx" and "length iv = 16" and "length b \<le> 16" and "b \<noteq> []" and "16 \<le> length b + length p"
    and "cbc_chain op aes iv (take 16 (b @ p)) = (iv1, out1)"
  obtains ctx' where "cbc_cached_block cpuid 16 p ctx = Some (0, 16, out1, drop (16 - length b) p, ctx')"
    "cbc_state op aes pad iv1 [] ctx'"
proof -
  let ?c = "16 - length b"
  have c: "size_minus 16 (unprocessed_len ctx) = ?c" "unprocessed_len ctx \<noteq> 0"
    using assms by (simp_all add: cbc_state_def size_minus_le)
  have tc: "length (take ?c p) = ?c" using assms(3,5) by simp
  obtain ud where ud: "copy_at (unprocessed_data ctx) (unprocessed_len ctx) (take ?c p) = Some ud" "length ud = 16" "take 16 ud = b @ take ?c p"
    using copy_at_state [OF assms(1), of "take ?c p"] tc assms(3) by (metis add_diff_inverse_nat le_eq_less_or_eq linorder_not_less)
  have w: "take 16 ud = take 16 (b @ p)" using ud(3) assms(3) by simp
  have r: "cbc_ready op aes pad (ctx\<lparr>unprocessed_data := ud\<rparr>)" using assms(1) ud(2) by (simp add: cbc_state_def cbc_ready_fields(3))
  have call: "call_cbc cpuid (take 16 ud) (ctx\<lparr>unprocessed_data := ud\<rparr>) = Some (0, out1, ctx\<lparr>unprocessed_data := ud, g_iv := iv1\<rparr>)"
  proof (rule call_cbc_ready [OF r, THEN trans])
    show "16 dvd length (take 16 ud)" using ud(2) by simp
    show "cbc_chain op aes (g_iv (ctx\<lparr>unprocessed_data := ud\<rparr>)) (take 16 ud) = (iv1, out1)"
      unfolding w using assms(1,6) by (simp add: cbc_state_def)
  qed simp
  have l: "length iv1 = 16" by (rule cbc.length_blk [OF assms(2) _ assms(6), THEN conjunct1]) (use assms(3,5) in simp)
  have "cbc_state op aes pad iv1 [] (ctx\<lparr>unprocessed_data := ud, g_iv := iv1, unprocessed_len := 0\<rparr>)"
    using cbc_ready_fields(1) [OF r l] by (simp add: cbc_state_def cbc_ready_fields(2))
  moreover have "cbc_cached_block cpuid 16 p ctx = Some (0, 16, out1, drop ?c p, ctx\<lparr>unprocessed_data := ud, g_iv := iv1, unprocessed_len := 0\<rparr>)"
    using assms(3,5) c(2) by (simp add: cbc_cached_block_def Let_def c(1) ud(1) call not_less)
  ultimately show ?thesis using that by blast
qed

text \<open>The update of the code refines the specification.\<close>

lemma cbc_update_state:
  assumes "cbc_state op aes pad iv b ctx" and "length iv = 16" and "fits (holds op pad) (length b)"
    and "chain_in (cbc_chain op aes) (holds op pad) iv (b @ p) = (iv1, out, rest)"
  shows "\<exists>ctx'. cbc_update cpuid 16 p ctx = Some (0, Some (length out), out, ctx') \<and> cbc_state op aes pad iv1 rest ctx'"
proof (cases "fits (holds op pad) (length b + length p)")
  case True
  then have c: "cbc_caches 16 (length p) ctx" "length b + length p \<le> 16" using cbc_caches_fits [OF assms(1) fits_le [OF assms(3)]] fits_le by blast+
  obtain ud where ud: "copy_at (unprocessed_data ctx) (unprocessed_len ctx) p = Some ud" "length ud = 16" "take (length b + length p) ud = b @ p"
    using copy_at_state [OF assms(1) c(2)] by blast
  have "iv1 = iv" "out = []" "rest = b @ p" using assms(4) True by (auto simp: chain_in_iff fits_taken cbc.blk_nil)
  moreover have "cbc_state op aes pad iv (b @ p) (ctx\<lparr>unprocessed_data := ud, unprocessed_len := unprocessed_len ctx + length p\<rparr>)"
    using assms(1) ud by (simp add: cbc_state_def cbc_ready_fields)
  ultimately show ?thesis using c(1) ud(1) by (simp add: cbc_update_def)
next
  case False
  let ?h = "holds op pad"
  have c: "\<not> cbc_caches 16 (length p) ctx" using False cbc_caches_fits [OF assms(1) fits_le [OF assms(3)]] by blast
  have long: "16 \<le> length b + length p" using False by (auto simp: fits_def split: if_splits)
  show ?thesis
  proof (cases "b = []")
    case True
    with assms(1,4) have s: "cbc_state op aes pad iv [] ctx" and a: "chain_in (cbc_chain op aes) ?h iv p = (iv1, out, rest)" by simp_all
    have "cbc_cached_block cpuid 16 p ctx = Some (0, 0, [], p, ctx)" using s by (simp add: cbc_cached_block_def cbc_state_def)
    moreover obtain q ctx1 ctx2 where "cbc_keep_end 16 p ctx = Some (q, ctx1)" "length q = length out" "q = [] \<longleftrightarrow> out = []" "out = [] \<Longrightarrow> ctx1 = ctx2"
      "out \<noteq> [] \<Longrightarrow> call_cbc cpuid q ctx1 = Some (0, out, ctx2)" "cbc_state op aes pad iv1 rest ctx2"
      using cbc_rest_state [OF s assms(2) a, of cpuid] by blast
    ultimately show ?thesis using c by (cases "out = []") (simp_all add: cbc_update_def)
  next
    case ne: False
    obtain iv2 out2 where 1: "cbc_chain op aes iv (take 16 (b @ p)) = (iv2, out2)" by fastforce
    obtain ctx2 where 2: "cbc_cached_block cpuid 16 p ctx = Some (0, 16, out2, drop (16 - length b) p, ctx2)"
      and s: "cbc_state op aes pad iv2 [] ctx2"
      using cached_block_state [OF assms(1,2) fits_le [OF assms(3)] ne long 1] by blast
    have l2: "length iv2 = 16" "length out2 = 16" using cbc.length_blk [OF assms(2) _ 1] long fits_le [OF assms(3)] by simp_all
    obtain iv3 out3 rest3 where 3: "chain_in (cbc_chain op aes) ?h iv2 (drop (16 - length b) p) = (iv3, out3, rest3)" by (metis prod_cases3)
    have "chain_in (cbc_chain op aes) ?h iv (b @ p) = (iv3, out2 @ out3, rest3)"
    proof (rule cbc.chain_in_ahead [OF assms(2)])
      show "1 \<le> taken ?h (length (b @ p))" using False by (simp add: fits_taken)
      show "cbc_chain op aes iv (take (16 * 1) (b @ p)) = (iv2, out2)" using 1 by (simp only: mult_1_right)
      show "chain_in (cbc_chain op aes) ?h iv2 (drop (16 * 1) (b @ p)) = (iv3, out3, rest3)" using 3 fits_le [OF assms(3)] by simp
    qed
    with assms(4) have "iv1 = iv3" "out = out2 @ out3" "rest = rest3" by simp_all
    moreover obtain q ctx1 ctx3 where "cbc_keep_end 16 (drop (16 - length b) p) ctx2 = Some (q, ctx1)" "length q = length out3" "q = [] \<longleftrightarrow> out3 = []"
      "out3 = [] \<Longrightarrow> ctx1 = ctx3" "out3 \<noteq> [] \<Longrightarrow> call_cbc cpuid q ctx1 = Some (0, out3, ctx3)" "cbc_state op aes pad iv3 rest3 ctx3"
      using cbc_rest_state [OF s l2(1) 3, of cpuid] by blast
    ultimately show ?thesis using c 2 l2(2) by (cases "out3 = []") (simp_all add: cbc_update_def)
  qed
qed

section \<open>Messages in parts\<close>

lemma update_gen_cbc:
  "cbc_state op aes pad iv b ctx \<Longrightarrow> distance \<noteq> 0 \<Longrightarrow> mbedtls_cipher_update_gen cpuid distance p ctx = cbc_update cpuid 16 p ctx"
  by (auto simp: mbedtls_cipher_update_gen_def cbc_state_def cbc_ready_def cbc_row_def get_block_size_def)

text \<open>A caller that hands over a message piece by piece, and stops at the first error.\<close>

fun update_all :: "u32 \<Rightarrow> int \<Rightarrow> u8 list list \<Rightarrow> cipher_context_gen \<Rightarrow> (u8 list \<times> cipher_context_gen) option" where
  "update_all cpuid distance [] ctx = Some ([], ctx)"
| "update_all cpuid distance (p # ps) ctx = do {
     (ret, olen, out, ctx) \<leftarrow> mbedtls_cipher_update_gen cpuid distance p ctx;
     if ret \<noteq> 0 then None
     else do {
       (outs, ctx) \<leftarrow> update_all cpuid distance ps ctx;
       Some (out @ outs, ctx)
     }
   }"

lemma update_all_state:
  assumes "distance \<noteq> 0"
  shows "cbc_state op aes pad iv b ctx \<Longrightarrow> length iv = 16 \<Longrightarrow> fits (holds op pad) (length b) \<Longrightarrow>
    chain_in (cbc_chain op aes) (holds op pad) iv (b @ concat ps) = (iv1, out, rest) \<Longrightarrow>
    \<exists>ctx'. update_all cpuid distance ps ctx = Some (out, ctx') \<and> cbc_state op aes pad iv1 rest ctx'"
proof (induction ps arbitrary: iv b ctx out)
  case Nil
  then show ?case by (auto simp: chain_in_iff fits_taken cbc.blk_nil)
next
  case (Cons p ps)
  obtain iv2 out2 b2 where 1: "chain_in (cbc_chain op aes) (holds op pad) iv (b @ p) = (iv2, out2, b2)" by (metis prod_cases3)
  obtain iv3 out3 b3 where 2: "chain_in (cbc_chain op aes) (holds op pad) iv2 (b2 @ concat ps) = (iv3, out3, b3)" by (metis prod_cases3)
  have "chain_in (cbc_chain op aes) (holds op pad) iv ((b @ p) @ concat ps) = (iv3, out2 @ out3, b3)"
    by (rule cbc.chain_in_absorb [OF Cons.prems(2) 1 2])
  with Cons.prems(4) have r: "iv1 = iv3" "out = out2 @ out3" "rest = b3" by simp_all
  have l: "length iv2 = 16" by (rule cbc.length_chain_in(1) [OF Cons.prems(2) 1])
  have f: "fits (holds op pad) (length b2)"
    by (rule chain_in_fits [OF 1])
  obtain ctx2 where u: "cbc_update cpuid 16 p ctx = Some (0, Some (length out2), out2, ctx2)" and s: "cbc_state op aes pad iv2 b2 ctx2"
    using cbc_update_state [OF Cons.prems(1,2,3) 1] by blast
  from Cons.IH [OF s l f] 2 r show ?case using u by (auto simp: update_gen_cbc [OF Cons.prems(1) assms])
qed

section \<open>The last block\<close>

fun pad_tail :: "cipher_padding_t \<Rightarrow> nat \<Rightarrow> nat \<Rightarrow> u8 list" where
  "pad_tail PADDING_PKCS7 = pkcs_tail"
| "pad_tail PADDING_ONE_AND_ZEROS = one_tail"
| "pad_tail PADDING_ZEROS_AND_LEN = len_tail"
| "pad_tail PADDING_ZEROS = zero_tail"
| "pad_tail PADDING_NONE = (\<lambda>_ _. [])"

definition pad_ok :: "cipher_padding_t \<Rightarrow> u8 list \<Rightarrow> bool" where
  "pad_ok pad xs \<longleftrightarrow> pad = PADDING_ZEROS \<longrightarrow> no_zero_end xs"

lemma pad_scheme: "pad \<noteq> PADDING_NONE \<Longrightarrow> padding_scheme (call_add_padding pad) (call_get_padding pad) (pad_tail pad) (pad_ok pad)"
  using pkcs.padding_scheme_axioms one_and_zeros.padding_scheme_axioms zeros_and_len.padding_scheme_axioms zeros.padding_scheme_axioms
  by (cases pad) (simp_all add: pad_ok_def [abs_def])

lemma get_padding_le:
  assumes "call_get_padding pad out 16 = Some (0, n)" and "length out = 16"
  shows "n \<le> 16"
proof (cases pad)
  case PADDING_ZEROS
  then show ?thesis using assms data_end_le [of out 16] by (simp add: get_zeros_eq)
qed (use assms pkcs.get_iff [OF assms(2), of n] one_and_zeros.get_iff [OF assms(2), of n] zeros_and_len.get_iff [OF assms(2), of n] in
    \<open>simp_all add: get_no_padding_def\<close>)

lemma last_block_state:
  assumes "cbc_ready op aes pad ctx" and "length iv = 16" and "g_iv ctx = iv" and "cbc_chain op aes iv (unprocessed_data ctx) = (iv1, out)"
  shows "cbc_last_block cpuid ctx = (if op = MBEDTLS_ENCRYPT then Some (0, Some 16, out, ctx\<lparr>g_iv := iv1\<rparr>)
      else map_option (\<lambda>(ret, olen). (ret, Some olen, out, ctx\<lparr>g_iv := iv1\<rparr>)) (call_get_padding pad out 16))"
proof -
  have c: "length (unprocessed_data ctx) = 16" "get_block_size ctx = 16" "get_padding ctx = Some pad" "g_operation ctx = op"
    "op \<in> {MBEDTLS_ENCRYPT, MBEDTLS_DECRYPT}"
    using assms(1) by (auto simp: cbc_ready_def cbc_row_def get_block_size_def)
  have "call_cbc cpuid (take (get_block_size ctx) (unprocessed_data ctx)) ctx = Some (0, out, ctx\<lparr>g_iv := iv1\<rparr>)"
    by (rule call_cbc_ready [OF assms(1)]) (use c(1,2) assms(3,4) in simp_all)
  then show ?thesis using c
    by (cases "call_get_padding pad out 16") (auto simp: cbc_last_block_def get_block_size_def)
qed

lemma finish_encrypt:
  assumes "cbc_state MBEDTLS_ENCRYPT aes pad iv b ctx" and "length iv = 16" and "length b < 16" and "pad \<noteq> PADDING_NONE"
    and "cbc_chain MBEDTLS_ENCRYPT aes iv (b @ pad_tail pad 16 (length b)) = (iv1, out)"
  shows "\<exists>ctx'. mbedtls_cipher_finish cpuid ctx = Some (0, Some 16, out, ctx')"
proof -
  have c: "length (unprocessed_data ctx) = 16" "take (length b) (unprocessed_data ctx) = b" "unprocessed_len ctx = length b"
    "mbedtls_cipher_get_iv_size ctx = 16" "cbc_ready MBEDTLS_ENCRYPT aes pad ctx" "g_iv ctx = iv"
    using assms(1) by (auto simp: cbc_state_def cbc_ready_def cbc_row_def mbedtls_cipher_get_iv_size_def)
  let ?ud = "b @ pad_tail pad 16 (length b)"
  have ud: "call_add_padding pad (unprocessed_data ctx) 16 (length b) = Some ?ud"
    using padding_scheme.add_tail [OF pad_scheme [OF assms(4)] c(1) assms(3)] c(2) by simp
  have "length ?ud = 16" using padding_scheme.length_tail [OF pad_scheme [OF assms(4)] assms(3)] assms(3) by simp
  from cbc_ready_fields(3) [OF c(5) this] have r: "cbc_ready MBEDTLS_ENCRYPT aes pad (ctx\<lparr>unprocessed_data := ?ud\<rparr>)" .
  have "cbc_last_block cpuid (ctx\<lparr>unprocessed_data := ?ud\<rparr>) = Some (0, Some 16, out, ctx\<lparr>unprocessed_data := ?ud, g_iv := iv1\<rparr>)"
    using last_block_state [OF r assms(2), of iv1 out cpuid] c(6) assms(5) by simp
  then show ?thesis
    using c ud assms(4) by (auto simp: mbedtls_cipher_finish_def cbc_ready_def cbc_row_def)
qed

lemma finish_decrypt:
  assumes "cbc_state MBEDTLS_DECRYPT aes pad iv b ctx" and "length iv = 16" and "length b = 16"
    and "cbc_chain MBEDTLS_DECRYPT aes iv b = (iv1, out)" and "call_get_padding pad out 16 = Some (ret, n)"
  shows "\<exists>ctx'. mbedtls_cipher_finish cpuid ctx = Some (ret, Some n, out, ctx')"
proof -
  have c: "unprocessed_data ctx = b" "cbc_ready MBEDTLS_DECRYPT aes pad ctx" "g_iv ctx = iv"
    using assms(1,3) by (auto simp: cbc_state_def cbc_ready_def)
  have "cbc_last_block cpuid ctx = Some (ret, Some n, out, ctx\<lparr>g_iv := iv1\<rparr>)"
    using last_block_state [OF c(2) assms(2) c(3), of iv1 out cpuid] c(1) assms(4,5) by simp
  then show ?thesis
    using assms(1,3) by (auto simp: mbedtls_cipher_finish_def cbc_state_def cbc_ready_def cbc_row_def get_block_size_def)
qed

lemma finish_empty:
  "cbc_state op aes PADDING_NONE iv [] ctx \<Longrightarrow> mbedtls_cipher_finish cpuid ctx = Some (0, Some 0, [], ctx)"
  by (auto simp: mbedtls_cipher_finish_def cbc_state_def cbc_ready_def cbc_row_def get_block_size_def)

section \<open>Opening a context\<close>

text \<open>The calls that prepare a context for one message.\<close>

definition cbc_open :: "u32 \<Rightarrow> cipher_padding_t \<Rightarrow> u8 list \<Rightarrow> nat \<Rightarrow> int \<Rightarrow> u8 list \<Rightarrow> cipher_context_gen option" where
  "cbc_open cpuid pad key bits op iv = do {
     let (r1, ctx) = mbedtls_cipher_setup_gen True (row_from_values ID_AES bits MODE_CBC) mbedtls_cipher_init_gen;
     let (r2, ctx) = mbedtls_cipher_set_padding_mode pad ctx;
     (r3, ctx) \<leftarrow> mbedtls_cipher_setkey_gen cpuid True key bits op ctx;
     (r4, ctx) \<leftarrow> mbedtls_cipher_set_iv cpuid iv ctx;
     let (r5, ctx) = mbedtls_cipher_reset ctx;
     if r1 = 0 \<and> r2 = 0 \<and> r3 = 0 \<and> r4 = 0 \<and> r5 = 0 then Some ctx else None
   }"

text \<open>Then the pieces of the message. The output of the last call is cut to the length it reports; a caller told of success with a length
  beyond what was written has no result.\<close>

definition cbc_message :: "u32 \<Rightarrow> int \<Rightarrow> u8 list list \<Rightarrow> cipher_context_gen \<Rightarrow> (int \<times> u8 list) option" where
  "cbc_message cpuid distance ps ctx = do {
     (out, ctx) \<leftarrow> update_all cpuid distance ps ctx;
     (ret, olen, last, ctx) \<leftarrow> mbedtls_cipher_finish cpuid ctx;
     n \<leftarrow> olen;
     if ret = 0 \<and> length last < n then None else Some (ret, out @ take n last)
   }"

lemma cbc_rows: "row_from_values ID_AES 128 MODE_CBC = Some aes_128_cbc_info" "row_from_values ID_AES 192 MODE_CBC = Some aes_192_cbc_info"
  "row_from_values ID_AES 256 MODE_CBC = Some aes_256_cbc_info"
  by (simp_all add: row_from_values_def cipher_definitions_def aes_128_ecb_row_def aes_192_ecb_row_def aes_256_ecb_row_def
      aes_128_cbc_info_def aes_192_cbc_info_def aes_256_cbc_info_def aes_info_def)

lemma cbc_row_found:
  assumes "bits \<in> {128, 192, 256}"
  shows "\<exists>i. row_from_values ID_AES bits MODE_CBC = Some i \<and> cbc_row i \<and> row_key_bitlen i = bits"
  using assms by (elim insertE emptyE) (simp_all add: cbc_rows cbc_row_def aes_128_cbc_info_def aes_192_cbc_info_def aes_256_cbc_info_def)

text \<open>A context just set up, with a padding mode.\<close>

lemma setup_padding:
  assumes "cbc_row i"
  shows "\<exists>ctx. mbedtls_cipher_setup_gen True (Some i) mbedtls_cipher_init_gen = (0, ctx) \<and>
    mbedtls_cipher_set_padding_mode pad ctx = (0, mbedtls_cipher_init_gen\<lparr>g_ctx := Some (AES_ctx mbedtls_aes_init), g_info := Some i,
      add_padding := (if pad = PADDING_NONE then None else Some pad), get_padding := Some pad\<rparr>)"
  using assms by (cases pad) (simp_all add: mbedtls_cipher_setup_gen_def mbedtls_cipher_set_padding_mode_def cbc_row_def aes_info_def aes_ctx_alloc_def)

text \<open>Key, iv and reset on such a context.\<close>

lemma open_rest:
  assumes "cbc_row i" and "row_key_bitlen i = bits" and "length iv = 16" and "g_info ctx = Some i" and "g_ctx ctx = Some (AES_ctx aes0)"
    and "length (unprocessed_data ctx) = 16" and "length (g_iv ctx) = 16"
    and "get_padding ctx = Some pad" and "add_padding ctx = (if pad = PADDING_NONE then None else Some pad)"
    and "op = MBEDTLS_ENCRYPT \<and> mbedtls_aes_setkey_enc cpuid key bits aes0 = Some (0, aes) \<or>
      op = MBEDTLS_DECRYPT \<and> mbedtls_aes_setkey_dec cpuid key bits aes0 = Some (0, aes)" and "keyed aes"
  shows "\<exists>ctx1 ctx2 ctx3. mbedtls_cipher_setkey_gen cpuid True key bits op ctx = Some (0, ctx1) \<and>
    mbedtls_cipher_set_iv cpuid iv ctx1 = Some (0, ctx2) \<and> mbedtls_cipher_reset ctx2 = (0, ctx3) \<and> cbc_state op aes pad iv [] ctx3"
proof -
  let ?ctx1 = "ctx\<lparr>g_key_bitlen := bits, g_operation := op, g_ctx := Some (AES_ctx aes)\<rparr>"
  let ?ctx2 = "?ctx1\<lparr>g_iv := iv, g_iv_size := 16\<rparr>"
  have i: "row_mode i = MODE_CBC" "row_iv_size i = 16" "row_flags i = 0" "setkey_enc_func (row_base i) = setkey_enc_wrap"
    "setkey_dec_func (row_base i) = setkey_dec_wrap" using assms(1) by (simp_all add: cbc_row_def aes_info_def)
  have "mbedtls_cipher_setkey_gen cpuid True key bits op ctx = Some (0, ?ctx1)"
    using assms(2,4,5,10) i by (auto simp: mbedtls_cipher_setkey_gen_def aes_setkey_enc_wrap_def aes_setkey_dec_wrap_def)
  moreover have "mbedtls_cipher_set_iv cpuid iv ?ctx1 = Some (0, ?ctx2)"
    using assms(3,4,7) i by (simp add: mbedtls_cipher_set_iv_def MBEDTLS_MAX_IV_LENGTH_def)
  moreover have "mbedtls_cipher_reset ?ctx2 = (0, ?ctx2\<lparr>unprocessed_len := 0\<rparr>)" using assms(4) by (simp add: mbedtls_cipher_reset_def)
  moreover have "cbc_state op aes pad iv [] (?ctx2\<lparr>unprocessed_len := 0\<rparr>)"
    using assms by (auto simp: cbc_state_def cbc_ready_def)
  ultimately show ?thesis by blast
qed

lemma cbc_open_state:
  assumes "bits \<in> {128, 192, 256}" and "bits div 8 \<le> length key" and "length iv = 16"
  obtains e d where "key_pair e d" "mbedtls_aes_setkey_enc c1 key bits mbedtls_aes_init = Some (0, e)"
    "mbedtls_aes_setkey_dec c2 key bits mbedtls_aes_init = Some (0, d)"
    "\<exists>ctx. cbc_open c1 pad key bits MBEDTLS_ENCRYPT iv = Some ctx \<and> cbc_state MBEDTLS_ENCRYPT e pad iv [] ctx"
    "\<exists>ctx. cbc_open c2 pad key bits MBEDTLS_DECRYPT iv = Some ctx \<and> cbc_state MBEDTLS_DECRYPT d pad iv [] ctx"
proof -
  obtain i where i: "row_from_values ID_AES bits MODE_CBC = Some i" "cbc_row i" "row_key_bitlen i = bits" using cbc_row_found [OF assms(1)] by blast
  obtain n where n: "rounds_of bits = Some n" using assms(1) by (auto simp: rounds_of_def)
  have l: "length (buf mbedtls_aes_init) = 68" by (simp add: mbedtls_aes_init_def)
  obtain e d where ed: "mbedtls_aes_setkey_enc c1 key bits mbedtls_aes_init = Some (0, e)"
    "mbedtls_aes_setkey_dec c2 key bits mbedtls_aes_init = Some (0, d)" "key_pair e d"
    using setkey_pair [OF n assms(2) l l, of c1 c2] by metis
  then have k: "keyed e" "keyed d" by (simp_all add: key_pair_def)
  define c where "c = mbedtls_cipher_init_gen\<lparr>g_ctx := Some (AES_ctx mbedtls_aes_init), g_info := Some i,
      add_padding := (if pad = PADDING_NONE then None else Some pad), get_padding := Some pad\<rparr>"
  have c: "g_info c = Some i" "g_ctx c = Some (AES_ctx mbedtls_aes_init)" "length (unprocessed_data c) = 16" "length (g_iv c) = 16"
    "get_padding c = Some pad" "add_padding c = (if pad = PADDING_NONE then None else Some pad)"
    by (simp_all add: c_def mbedtls_cipher_init_gen_def MBEDTLS_MAX_IV_LENGTH_def MBEDTLS_MAX_BLOCK_LENGTH_def)
  obtain c0 where c0: "mbedtls_cipher_setup_gen True (Some i) mbedtls_cipher_init_gen = (0, c0)" "mbedtls_cipher_set_padding_mode pad c0 = (0, c)"
    using setup_padding [OF i(2), of pad] unfolding c_def by blast
  have "\<exists>ctx. cbc_open c1 pad key bits MBEDTLS_ENCRYPT iv = Some ctx \<and> cbc_state MBEDTLS_ENCRYPT e pad iv [] ctx"
    using open_rest [OF i(2,3) assms(3) c disjI1 [OF conjI [OF refl ed(1)]] k(1)] c0 by (auto simp: cbc_open_def i(1))
  moreover have "\<exists>ctx. cbc_open c2 pad key bits MBEDTLS_DECRYPT iv = Some ctx \<and> cbc_state MBEDTLS_DECRYPT d pad iv [] ctx"
    using open_rest [OF i(2,3) assms(3) c disjI2 [OF conjI [OF refl ed(2)]] k(2)] c0 by (auto simp: cbc_open_def i(1))
  ultimately show ?thesis by (rule that [OF ed(3,1,2)])
qed

section \<open>Whole messages\<close>

text \<open>The message that is encrypted.\<close>

definition padded :: "cipher_padding_t \<Rightarrow> u8 list \<Rightarrow> u8 list" where
  "padded pad msg = msg @ pad_tail pad 16 (length msg mod 16)"

text \<open>Messages that a padding mode can give back: whole blocks without padding; with zeros, an end that is not a zero or whole blocks.\<close>

definition paddable :: "cipher_padding_t \<Rightarrow> u8 list \<Rightarrow> bool" where
  "paddable pad msg \<longleftrightarrow> (pad = PADDING_NONE \<longrightarrow> 16 dvd length msg) \<and> (pad = PADDING_ZEROS \<longrightarrow> 16 dvd length msg \<or> last msg \<noteq> 0)"

lemma length_padded:
  assumes "pad \<noteq> PADDING_NONE"
  shows "length (padded pad msg) = 16 * (length msg div 16) + 16"
proof -
  have "length (padded pad msg) = length msg + (16 - length msg mod 16)"
    using padding_scheme.length_tail [OF pad_scheme [OF assms], of "length msg mod 16" 16] by (simp add: padded_def)
  also have "\<dots> = 16 * (length msg div 16) + 16"
    using mult_div_mod_eq [of 16 "length msg"] mod_less_divisor [of 16 "length msg"] by linarith
  finally show ?thesis .
qed

lemma paddable_whole: "paddable pad msg \<Longrightarrow> pad = PADDING_NONE \<longrightarrow> 16 dvd length msg"
  by (simp add: paddable_def)

lemma dvd_padded: "pad = PADDING_NONE \<longrightarrow> 16 dvd length msg \<Longrightarrow> 16 dvd length (padded pad msg)"
  by (cases "pad = PADDING_NONE") (simp_all add: length_padded, simp add: padded_def)

lemma padded_end:
  fixes msg :: "u8 list"
  assumes "pad \<noteq> PADDING_NONE"
  defines "w \<equiv> drop (16 * (length msg div 16)) msg"
  shows "padded pad msg = take (16 * (length msg div 16)) msg @ w @ pad_tail pad 16 (length w)"
    and "paddable pad msg \<Longrightarrow> call_get_padding pad (w @ pad_tail pad 16 (length w)) 16 = Some (0, length w)" and "length w < 16"
proof -
  have lw: "length w = length msg mod 16" by (simp add: w_def minus_mult_div_eq_mod)
  then show "padded pad msg = take (16 * (length msg div 16)) msg @ w @ pad_tail pad 16 (length w)" by (simp add: padded_def w_def)
  show "length w < 16" by (simp add: lw)
  moreover assume p: "paddable pad msg"
  have "no_zero_end w" if "pad = PADDING_ZEROS"
    using p that lw by (cases "w = []") (auto simp: paddable_def no_zero_end_def w_def mod_eq_0_iff_dvd)
  then have "pad_ok pad w" by (simp add: pad_ok_def)
  ultimately show "call_get_padding pad (w @ pad_tail pad 16 (length w)) 16 = Some (0, length w)"
    using padding_scheme.get_tail [OF pad_scheme [OF assms(1)]] by simp
qed

lemma message_encrypt:
  assumes "cbc_state MBEDTLS_ENCRYPT e pad iv [] ctx" and "length iv = 16" and "distance \<noteq> 0"
    and "pad = PADDING_NONE \<longrightarrow> 16 dvd length (concat ps)"
  shows "cbc_message cpuid distance ps ctx = Some (0, snd (cbc_enc_chain e iv (padded pad (concat ps))))"
proof -
  let ?msg = "concat ps" and ?chain = "cbc_chain MBEDTLS_ENCRYPT e"
  let ?n = "16 * (length ?msg div 16)"
  have chain: "?chain = cbc_enc_chain e" by (simp add: cbc_chain_def)
  obtain iv1 out where 1: "?chain iv (take ?n ?msg) = (iv1, out)" by fastforce
  have "chain_in ?chain (holds MBEDTLS_ENCRYPT pad) iv ([] @ ?msg) = (iv1, out, drop ?n ?msg)"
    using 1 by (simp add: chain_in_iff holds_def taken_def)
  from update_all_state [OF assms(3,1,2) fits_nil this, of cpuid] obtain ctx1
    where u: "update_all cpuid distance ps ctx = Some (out, ctx1)" and s: "cbc_state MBEDTLS_ENCRYPT e pad iv1 (drop ?n ?msg) ctx1"
    by blast
  have d: "16 dvd length (take ?n ?msg)" by simp
  have l: "length iv1 = 16" using cbc.length_blk [OF assms(2) d 1] by simp
  show ?thesis
  proof (cases "pad = PADDING_NONE")
    case True
    then have "?n = length ?msg" using assms(4) by simp
    with True u s 1 chain show ?thesis by (simp add: cbc_message_def finish_empty padded_def)
  next
    case False
    let ?w = "drop ?n ?msg"
    let ?p = "?w @ pad_tail pad 16 (length ?w)"
    note p = padded_end(1,3) [OF False, of ?msg]
    obtain iv2 out2 where 2: "?chain iv1 ?p = (iv2, out2)" by fastforce
    have lp: "length ?p = 16" using padding_scheme.length_tail [OF pad_scheme [OF False] p(2)] p(2) by simp
    have "?chain iv (padded pad ?msg) = (iv2, out @ out2)"
      unfolding p(1) by (rule cbc.blk_append [OF assms(2) d _ 1 2]) (simp only: lp dvd_refl)
    moreover have "length out2 = 16" using cbc.length_blk [OF l _ 2] lp by (simp only: dvd_refl)
    ultimately show ?thesis
      using finish_encrypt [OF s l p(2) False 2, of cpuid] u chain by (auto simp: cbc_message_def)
  qed
qed

text \<open>What a decryption with padding does on whole blocks: the last block is cut at the length its padding tells.\<close>

lemma message_decrypt_eval:
  assumes "cbc_state MBEDTLS_DECRYPT d pad iv [] ctx" and "length iv = 16" and "distance \<noteq> 0" and "pad \<noteq> PADDING_NONE"
    and "length (concat qs) = 16 * m + 16" and "snd (cbc_dec_chain d iv (concat qs)) = front @ block" and "length block = 16"
    and "call_get_padding pad block 16 = Some (ret, n)"
  shows "cbc_message cpuid distance qs ctx = Some (ret, front @ take n block)"
proof -
  let ?ct = "concat qs" and ?chain = "cbc_chain MBEDTLS_DECRYPT d"
  have chain: "?chain = cbc_dec_chain d" by (simp add: cbc_chain_def)
  have t: "taken (holds MBEDTLS_DECRYPT pad) (length ?ct) = m" using assms(4) unfolding assms(5) by (simp add: taken_def holds_def)
  obtain iv1 out where 1: "?chain iv (take (16 * m) ?ct) = (iv1, out)" by fastforce
  have "chain_in ?chain (holds MBEDTLS_DECRYPT pad) iv ([] @ ?ct) = (iv1, out, drop (16 * m) ?ct)"
    using 1 by (simp add: chain_in_iff t del: length_concat)
  from update_all_state [OF assms(3,1,2) fits_nil this, of cpuid] obtain ctx1
    where u: "update_all cpuid distance qs ctx = Some (out, ctx1)" and s: "cbc_state MBEDTLS_DECRYPT d pad iv1 (drop (16 * m) ?ct) ctx1"
    by blast
  have lt: "length (take (16 * m) ?ct) = 16 * m" "length (drop (16 * m) ?ct) = 16" using assms(5) by (simp_all del: length_concat)
  have l: "length iv1 = 16" "length out = 16 * m" using cbc.length_blk [OF assms(2) _ 1] lt(1) by simp_all
  obtain iv2 out2 where 2: "?chain iv1 (drop (16 * m) ?ct) = (iv2, out2)" by fastforce
  have "?chain iv (take (16 * m) ?ct @ drop (16 * m) ?ct) = (iv2, out @ out2)"
    by (rule cbc.blk_append [OF assms(2) _ _ 1 2]) (simp_all only: lt dvd_refl dvd_triv_left)
  then have "out @ out2 = front @ block" using assms(6) chain by (simp add: append_take_drop_id)
  moreover have "length out2 = length block" using cbc.length_blk [OF l(1) _ 2] lt(2) assms(7) by simp
  ultimately have o: "out = front" "out2 = block" by (simp_all add: append_eq_append_conv)
  have "ret = 0 \<Longrightarrow> n \<le> length block" using get_padding_le [of pad block n] assms(7,8) by simp
  with finish_decrypt [OF s l(1) lt(2) 2, of ret n cpuid] assms(8) o u show ?thesis by (auto simp: cbc_message_def)
qed

lemma message_decrypt:
  assumes "cbc_state MBEDTLS_DECRYPT d pad iv [] ctx" and "length iv = 16" and "distance \<noteq> 0" and "paddable pad msg" and "key_pair e d"
    and "concat qs = snd (cbc_enc_chain e iv (padded pad msg))"
  shows "cbc_message cpuid distance qs ctx = Some (0, msg)"
proof -
  let ?ct = "concat qs" and ?m = "length msg div 16"
  have lp: "length (padded pad msg) = (if pad = PADDING_NONE then 16 * ?m else 16 * ?m + 16)"
    using length_padded [of pad msg] assms(4) by (auto simp: padded_def paddable_def)
  then have dp: "16 dvd length (padded pad msg)" by (simp split: if_splits)
  have lc: "length ?ct = length (padded pad msg)"
    unfolding assms(6) by (rule enc.length_blk [OF assms(2) dp, THEN conjunct2]) (rule prod.collapse [symmetric])
  have dec: "snd (cbc_dec_chain d iv ?ct) = padded pad msg" unfolding assms(6) by (rule dec_enc_chain [OF assms(5,2) dp])
  show ?thesis
  proof (cases "pad = PADDING_NONE")
    case True
    have t: "16 * taken (holds MBEDTLS_DECRYPT pad) (length ?ct) = length ?ct"
      using True unfolding lc lp by (simp add: taken_def holds_def)
    obtain iv1 where "cbc_chain MBEDTLS_DECRYPT d iv ?ct = (iv1, msg)"
      using dec True by (cases "cbc_dec_chain d iv ?ct") (simp add: cbc_chain_def padded_def)
    then have "chain_in (cbc_chain MBEDTLS_DECRYPT d) (holds MBEDTLS_DECRYPT pad) iv ([] @ ?ct) = (iv1, msg, [])"
      by (simp add: chain_in_iff t del: length_concat)
    from update_all_state [OF assms(3,1,2) fits_nil this, of cpuid] True show ?thesis by (auto simp: cbc_message_def finish_empty)
  next
    case False
    let ?w = "drop (16 * ?m) msg"
    let ?b = "?w @ pad_tail pad 16 (length ?w)"
    note p = padded_end(1) [OF False, of msg] padded_end(2) [OF False, OF assms(4)] padded_end(3) [OF False, of msg]
    have lb: "length ?b = 16" using padding_scheme.length_tail [OF pad_scheme [OF False] p(3)] p(3) by simp
    have lq: "length ?ct = 16 * ?m + 16" unfolding lc lp using False by simp
    from message_decrypt_eval [OF assms(1,2,3) False lq dec [unfolded p(1)] lb p(2), of cpuid] show ?thesis by simp
  qed
qed

end
