(* ===== verification/Cipher_Props.thy ===== *)
theory Cipher_Props
  imports Cipher_CBC GCM_Props
begin

unbundle bit_operations_syntax

text \<open>What the generic cipher layer promises: CBC messages in pieces and at once, with their padding, authenticated messages, and
  the agreement of the layer with its part for single blocks below GCM.\<close>

section \<open>CBC\<close>

text \<open>Input that does not end with a block is refused at the end: without padding in both directions, and in every decryption, in which with
  padding also an empty input is refused.\<close>
theorem cbc_incomplete_refused:
  assumes "bits \<in> {128, 192, 256}" and "bits div 8 \<le> length key" and "length iv = 16" and "distance \<noteq> 0"
    and "op \<in> {MBEDTLS_ENCRYPT, MBEDTLS_DECRYPT}" and "pad = PADDING_NONE \<or> op = MBEDTLS_DECRYPT"
    and "\<not> 16 dvd length (concat ps) \<or> pad \<noteq> PADDING_NONE \<and> concat ps = []"
  shows "\<exists>ctx out. cbc_open cpuid pad key bits op iv = Some ctx \<and>
    cbc_message cpuid distance ps ctx = Some (MBEDTLS_ERR_CIPHER_FULL_BLOCK_EXPECTED, out)"
proof -
  obtain aes ctx where o: "cbc_open cpuid pad key bits op iv = Some ctx" "cbc_state op aes pad iv [] ctx"
    using cbc_open_state [OF assms(1-3), of cpuid cpuid pad] assms(5) by (elim insertE emptyE) metis+
  let ?h = "holds op pad"
  obtain iv1 out rest where a: "chain_in (cbc_chain op aes) ?h iv ([] @ concat ps) = (iv1, out, rest)" by (metis prod_cases3)
  obtain ctx1 where u: "update_all cpuid distance ps ctx = Some (out, ctx1)" and s: "cbc_state op aes pad iv1 rest ctx1"
    using update_all_state [OF assms(4) o(2) assms(3) fits_nil a, of cpuid] by blast
  define n where "n = length (concat ps)"
  have "length rest = n - 16 * taken ?h n" using a by (simp add: chain_in_iff n_def del: length_concat)
  moreover have "\<not> 16 dvd n \<or> pad \<noteq> PADDING_NONE \<and> n = 0" using assms(7) by (metis list.size(3) n_def)
  ultimately have r: "length rest \<noteq> 16" "pad = PADDING_NONE \<Longrightarrow> rest \<noteq> []"
    using taken_le [of ?h n] dvd_diffD [of 16 n "16 * taken ?h n"] by auto
  have "mbedtls_cipher_finish cpuid ctx1 = Some (MBEDTLS_ERR_CIPHER_FULL_BLOCK_EXPECTED, Some 0, [], ctx1)"
    using s r assms(6) by (auto simp: cbc_state_def cbc_ready_def cbc_row_def mbedtls_cipher_finish_def get_block_size_def)
  with u o(1) show ?thesis by (simp add: cbc_message_def)
qed

theorem cbc_incomplete_refused_witness:
  "\<exists>ctx out. cbc_open 0 PADDING_PKCS7 demo_key 128 MBEDTLS_DECRYPT (replicate 16 1) = Some ctx \<and>
    cbc_message 0 64 [[1, 2], replicate 20 3] ctx = Some (MBEDTLS_ERR_CIPHER_FULL_BLOCK_EXPECTED, out)"
  by (rule cbc_incomplete_refused) simp_all

text \<open>C13: with an AES key of 128, 192 or 256 bits, an iv of 16 bytes and an output that is not the input, encrypting a message in
  pieces of any lengths through the cipher layer and finishing it gives, for each of the
  padding modes that pad and every message, the ciphertext that one call of \<^verbatim>\<open>mbedtls_aes_crypt_cbc\<close> makes of the
  padded message; without padding it does so for a message of whole blocks, and for any other message finishing
  returns \<^verbatim>\<open>MBEDTLS_ERR_CIPHER_FULL_BLOCK_EXPECTED\<close>.\<close>
theorem cbc_parts_whole:
  assumes "bits \<in> {128, 192, 256}" and "bits div 8 \<le> length key" and "length iv = 16" and "distance \<noteq> 0"
  shows "\<exists>ctx aes iv' ct. cbc_open cpuid pad key bits MBEDTLS_ENCRYPT iv = Some ctx \<and>
    mbedtls_aes_setkey_enc cpuid key bits mbedtls_aes_init = Some (0, aes) \<and>
    (if pad = PADDING_NONE \<and> \<not> 16 dvd length (concat ps)
     then cbc_message cpuid distance ps ctx = Some (MBEDTLS_ERR_CIPHER_FULL_BLOCK_EXPECTED, ct)
     else cbc_message cpuid distance ps ctx = Some (0, ct) \<and>
       mbedtls_aes_crypt_cbc cpuid aes MBEDTLS_AES_ENCRYPT (length (padded pad (concat ps))) iv (padded pad (concat ps)) = Some (0, iv', ct))"
proof -
  obtain e d ctx where o: "key_pair e d" "mbedtls_aes_setkey_enc cpuid key bits mbedtls_aes_init = Some (0, e)"
    "cbc_open cpuid pad key bits MBEDTLS_ENCRYPT iv = Some ctx" "cbc_state MBEDTLS_ENCRYPT e pad iv [] ctx"
    using cbc_open_state [OF assms(1-3), of cpuid cpuid pad] by metis
  show ?thesis
  proof (cases "pad = PADDING_NONE \<and> \<not> 16 dvd length (concat ps)")
    case True
    then show ?thesis
      using cbc_incomplete_refused [OF assms, of MBEDTLS_ENCRYPT pad ps cpuid] o(2,3) by (auto simp del: length_concat)
  next
    case False
    then have whole: "pad = PADDING_NONE \<longrightarrow> 16 dvd length (concat ps)" by blast
    have "keyed e" using o(1) by (simp add: key_pair_def)
    moreover obtain k where k: "length (padded pad (concat ps)) = 16 * k" using dvd_padded [OF whole] by (auto elim!: dvdE)
    ultimately have "\<exists>iv' ct. cbc_message cpuid distance ps ctx = Some (0, ct) \<and>
        mbedtls_aes_crypt_cbc cpuid e MBEDTLS_AES_ENCRYPT (length (padded pad (concat ps))) iv (padded pad (concat ps)) = Some (0, iv', ct)"
      using message_encrypt [OF o(4) assms(3,4) whole, of cpuid] cbc_encrypt_eval [OF _ k assms(3), of e cpuid]
      by (auto simp: cbc_enc_chain_def Let_def k)
    with False o(2,3) show ?thesis by auto
  qed
qed

theorem cbc_parts_whole_witness:
  "\<exists>ctx aes iv' ct. cbc_open 0 PADDING_ZEROS demo_key 128 MBEDTLS_ENCRYPT (replicate 16 1) = Some ctx \<and>
    mbedtls_aes_setkey_enc 0 demo_key 128 mbedtls_aes_init = Some (0, aes) \<and>
    cbc_message 0 64 [[1, 2, 3], [], replicate 20 0] ctx = Some (0, ct) \<and>
    mbedtls_aes_crypt_cbc 0 aes MBEDTLS_AES_ENCRYPT (length (padded PADDING_ZEROS (concat [[1, 2, 3], [], replicate 20 0]))) (replicate 16 1)
      (padded PADDING_ZEROS (concat [[1, 2, 3], [], replicate 20 0])) = Some (0, iv', ct)"
  using cbc_parts_whole [of 128 demo_key "replicate 16 1" 64 0 PADDING_ZEROS "[[1, 2, 3], [], replicate 20 0]"] by simp

text \<open>C14: what was encrypted through the cipher layer, in pieces of any lengths, is decrypted to the message, in pieces of any
  other lengths, with every padding mode that can mark the end of the message.\<close>
theorem cbc_parts_roundtrip:
  assumes "bits \<in> {128, 192, 256}" and "bits div 8 \<le> length key" and "length iv = 16" and "dist1 \<noteq> 0" and "dist2 \<noteq> 0"
    and "paddable pad (concat ps)"
  shows "\<exists>e d ct. cbc_open c1 pad key bits MBEDTLS_ENCRYPT iv = Some e \<and> cbc_open c2 pad key bits MBEDTLS_DECRYPT iv = Some d \<and>
    cbc_message c1 dist1 ps e = Some (0, ct) \<and> length ct = length (padded pad (concat ps)) \<and>
    (\<forall>qs. concat qs = ct \<longrightarrow> cbc_message c2 dist2 qs d = Some (0, concat ps))"
proof -
  obtain e d ec dc where o: "key_pair e d"
    "cbc_open c1 pad key bits MBEDTLS_ENCRYPT iv = Some ec" "cbc_state MBEDTLS_ENCRYPT e pad iv [] ec"
    "cbc_open c2 pad key bits MBEDTLS_DECRYPT iv = Some dc" "cbc_state MBEDTLS_DECRYPT d pad iv [] dc"
    using cbc_open_state [OF assms(1-3), of c1 c2 pad] by metis
  let ?p = "padded pad (concat ps)"
  from enc.length_blk [OF assms(3) dvd_padded [OF paddable_whole [OF assms(6)]]] have "length (snd (cbc_enc_chain e iv ?p)) = length ?p" by (metis prod.collapse)
  then show ?thesis
    using o message_encrypt [OF o(3) assms(3,4) paddable_whole [OF assms(6)], of c1] message_decrypt [OF o(5) assms(3,5,6) o(1), of _ c2] by blast
qed

theorem cbc_parts_roundtrip_witness:
  "\<exists>e d ct. cbc_open 0 PADDING_ONE_AND_ZEROS demo_key 256 MBEDTLS_ENCRYPT (replicate 16 1) = Some e \<and>
    cbc_open 0 PADDING_ONE_AND_ZEROS demo_key 256 MBEDTLS_DECRYPT (replicate 16 1) = Some d \<and>
    cbc_message 0 64 [[1, 2, 3], replicate 20 0] e = Some (0, ct) \<and> length ct = length (padded PADDING_ONE_AND_ZEROS (concat [[1, 2, 3], replicate 20 0])) \<and>
    (\<forall>qs. concat qs = ct \<longrightarrow> cbc_message 0 64 qs d = Some (0, concat [[1, 2, 3], replicate 20 0]))"
  by (rule cbc_parts_roundtrip) (simp_all add: paddable_def)

text \<open>The three schemes that mark the end of the data.\<close>

lemma pad_exact: "pad \<in> {PADDING_PKCS7, PADDING_ONE_AND_ZEROS, PADDING_ZEROS_AND_LEN} \<Longrightarrow>
    exact_padding (call_add_padding pad) (call_get_padding pad) (pad_tail pad)"
  using pkcs.exact_padding_axioms one_and_zeros.exact_padding_axioms zeros_and_len.exact_padding_axioms by auto

lemma exact_padded_iff:
  assumes "pad \<in> {PADDING_PKCS7, PADDING_ONE_AND_ZEROS, PADDING_ZEROS_AND_LEN}" and "length block = 16" and "length front = 16 * m"
  shows "\<exists>ret n. call_get_padding pad block 16 = Some (ret, n) \<and> ret \<in> {0, MBEDTLS_ERR_CIPHER_INVALID_PADDING} \<and>
    (\<forall>msg. ret = 0 \<and> front @ take n block = msg \<longleftrightarrow> front @ block = padded pad msg)"
proof -
  have none: "pad \<noteq> PADDING_NONE" "pad \<noteq> PADDING_ZEROS" using assms(1) by auto
  note x = pad_exact [OF assms(1)]
  obtain ret n where g: "call_get_padding pad block 16 = Some (ret, n)" "ret \<in> {0, MBEDTLS_ERR_CIPHER_INVALID_PADDING}"
    using exact_padding.get_status [OF x assms(2)] by fastforce
  have "ret = 0 \<and> front @ take n block = msg \<longleftrightarrow> front @ block = padded pad msg" for msg
  proof
    assume r: "ret = 0 \<and> front @ take n block = msg"
    then have n: "n < 16" "call_add_padding pad block 16 n = Some block" using exact_padding.get_iff [OF x assms(2), of n] g(1) by simp_all
    then have "take n block @ pad_tail pad 16 n = block" using exact_padding.add_writes [OF x assms(2), of n] by simp
    then have "front @ block = (front @ take n block) @ pad_tail pad 16 n" by simp
    moreover have "length msg mod 16 = n" using r n(1) assms(2,3) by auto
    ultimately show "front @ block = padded pad msg" using r by (simp add: padded_def)
  next
    assume p: "front @ block = padded pad msg"
    have m: "length msg div 16 = m" using length_padded [OF none(1), of msg] assms(2,3) unfolding p [symmetric] by simp
    note e = padded_end [OF none(1), of msg, unfolded m]
    have pd: "paddable pad msg" using none by (simp add: paddable_def)
    have "length (take (16 * m) msg) = length front" using assms(3) m by auto
    with p e(1) have f: "front = take (16 * m) msg" "block = drop (16 * m) msg @ pad_tail pad 16 (length (drop (16 * m) msg))"
      by (simp_all add: append_eq_append_conv)
    then have "ret = 0" "n = length (drop (16 * m) msg)" using e(2) [OF pd] g(1) unfolding f(2) by (simp_all only: option.inject prod.inject)
    with f show "ret = 0 \<and> front @ take n block = msg" by simp
  qed
  with g show ?thesis by blast
qed

text \<open>The data of a block that was padded with zeros: the block without the zeros at its end.\<close>

definition strip_zeros :: "u8 list \<Rightarrow> u8 list" where
  "strip_zeros xs = rev (dropWhile (\<lambda>b. b = 0) (rev xs))"

lemma data_end_append: "i \<le> length xs \<Longrightarrow> data_end (xs @ ys) i = data_end xs i"
  by (induction i) (simp_all add: nth_append)

lemma take_data_end: "take (data_end xs (length xs)) xs = strip_zeros xs"
proof (induction xs rule: rev_induct)
  case (snoc x xs)
  then show ?case using data_end_append [of "length xs" xs "[x]"] data_end_le [of xs "length xs"] by (cases "x = 0") (simp_all add: strip_zeros_def)
qed (simp add: strip_zeros_def)

text \<open>C15: decryption of at least one whole block through the cipher layer, in pieces of any lengths, with an AES key of 128, 192 or
  256 bits, an iv of 16 bytes, an output that is not the input, and one of the padding modes that pad. PKCS7, one-and-zeros and zeros-and-length padding is checked: the layer returns 0 with a message
  exactly when the decrypted text is that message padded, and \<^verbatim>\<open>MBEDTLS_ERR_CIPHER_INVALID_PADDING\<close> when the text is
  no padded message. Padding with zeros is never refused: the layer returns 0 and the text without the zeros at
  the end of its last block.\<close>
theorem cbc_padding_checked:
  assumes "bits \<in> {128, 192, 256}" and "bits div 8 \<le> length key" and "length iv = 16" and "distance \<noteq> 0"
    and "pad \<noteq> PADDING_NONE" and "length (concat qs) = 16 * m + 16"
  shows "\<exists>d ctx iv' plain ret out. cbc_open cpuid pad key bits MBEDTLS_DECRYPT iv = Some ctx \<and>
    mbedtls_aes_setkey_dec cpuid key bits mbedtls_aes_init = Some (0, d) \<and>
    mbedtls_aes_crypt_cbc cpuid d MBEDTLS_AES_DECRYPT (length (concat qs)) iv (concat qs) = Some (0, iv', plain) \<and>
    cbc_message cpuid distance qs ctx = Some (ret, out) \<and>
    (if pad = PADDING_ZEROS then ret = 0 \<and> out = take (16 * m) plain @ strip_zeros (drop (16 * m) plain)
     else if plain \<in> range (padded pad) then ret = 0 \<and> plain = padded pad out
     else ret = MBEDTLS_ERR_CIPHER_INVALID_PADDING)"
proof -
  obtain e d ctx where o: "key_pair e d" "mbedtls_aes_setkey_dec cpuid key bits mbedtls_aes_init = Some (0, d)"
    "cbc_open cpuid pad key bits MBEDTLS_DECRYPT iv = Some ctx" "cbc_state MBEDTLS_DECRYPT d pad iv [] ctx"
    using cbc_open_state [OF assms(1-3), of cpuid cpuid pad] by metis
  have k: "keyed d" using o(1) by (simp add: key_pair_def)
  have q: "length (concat qs) = 16 * (m + 1)" unfolding assms(6) by simp
  define plain where "plain = cbc_unblocks (block_dec d) (m + 1) iv (concat qs)"
  have lp: "length plain = 16 * (m + 1)" unfolding plain_def by (rule length_cbc_unblocks [OF assms(3)]) (simp only: q)
  have c: "mbedtls_aes_crypt_cbc cpuid d MBEDTLS_AES_DECRYPT (length (concat qs)) iv (concat qs) = Some (0, last_block iv (concat qs), plain)"
    unfolding plain_def by (rule cbc_decrypt_eval [OF k q assms(3)])
  let ?f = "take (16 * m) plain" and ?b = "drop (16 * m) plain"
  have len: "length ?b = 16" "length ?f = 16 * m" using lp by simp_all
  have dec: "snd (cbc_dec_chain d iv (concat qs)) = ?f @ ?b"
    unfolding cbc_dec_chain_def snd_conv q append_take_drop_id plain_def by (rule arg_cong [where f = "\<lambda>k. cbc_unblocks _ k _ _"]) simp
  note run = message_decrypt_eval [OF o(4) assms(3-6) dec len(1)]
  have "\<exists>ret n. call_get_padding pad ?b 16 = Some (ret, n) \<and>
    (if pad = PADDING_ZEROS then ret = 0 \<and> ?f @ take n ?b = ?f @ strip_zeros ?b
     else if plain \<in> range (padded pad) then ret = 0 \<and> plain = padded pad (?f @ take n ?b) else ret = MBEDTLS_ERR_CIPHER_INVALID_PADDING)"
  proof (cases "pad = PADDING_ZEROS")
    case True
    then show ?thesis using get_zeros_eq [OF len(1)] take_data_end [of ?b] len(1) by simp
  next
    case False
    then have "pad \<in> {PADDING_PKCS7, PADDING_ONE_AND_ZEROS, PADDING_ZEROS_AND_LEN}" using assms(5) by (cases pad) auto
    from exact_padded_iff [OF this len] False show ?thesis unfolding append_take_drop_id by auto
  qed
  with run o(2,3) c show ?thesis by blast
qed

theorem cbc_padding_checked_witness:
  "\<exists>d ctx iv' plain ret out. cbc_open 0 PADDING_PKCS7 demo_key 128 MBEDTLS_DECRYPT (replicate 16 1) = Some ctx \<and>
    mbedtls_aes_setkey_dec 0 demo_key 128 mbedtls_aes_init = Some (0, d) \<and>
    mbedtls_aes_crypt_cbc 0 d MBEDTLS_AES_DECRYPT (length (concat [[1 :: u8], replicate 31 4])) (replicate 16 1) (concat [[1], replicate 31 4]) = Some (0, iv', plain) \<and>
    cbc_message 0 64 [[1], replicate 31 4] ctx = Some (ret, out) \<and>
    (if plain \<in> range (padded PADDING_PKCS7) then ret = 0 \<and> plain = padded PADDING_PKCS7 out else ret = MBEDTLS_ERR_CIPHER_INVALID_PADDING)"
  using cbc_padding_checked [of 128 demo_key "replicate 16 1" 64 PADDING_PKCS7 "[[1], replicate 31 4]" 1 0] by simp




section \<open>Authenticated messages\<close>

text \<open>The calls that prepare a context for authenticated messages.\<close>

definition aead_open :: "u32 \<Rightarrow> u8 list \<Rightarrow> nat \<Rightarrow> int \<Rightarrow> cipher_context_gen option" where
  "aead_open cpuid key bits op = do {
     let (r1, ctx) = mbedtls_cipher_setup_gen True (row_from_values ID_AES bits MODE_GCM) mbedtls_cipher_init_gen;
     (r2, ctx) \<leftarrow> mbedtls_cipher_setkey_gen cpuid True key bits op ctx;
     if r1 = 0 \<and> r2 = 0 then Some ctx else None
   }"

definition gcm_row :: "info_row \<Rightarrow> bool" where
  "gcm_row i \<longleftrightarrow> row_mode i = MODE_GCM \<and> row_block_size i = 16 \<and> row_base i = gcm_aes_info \<and> row_flags i = MBEDTLS_CIPHER_VARIABLE_IV_LEN"

lemma gcm_rows: "row_from_values ID_AES 128 MODE_GCM = Some aes_128_gcm_info" "row_from_values ID_AES 192 MODE_GCM = Some aes_192_gcm_info"
  "row_from_values ID_AES 256 MODE_GCM = Some aes_256_gcm_info"
  by (simp_all add: row_from_values_def cipher_definitions_def aes_128_ecb_row_def aes_192_ecb_row_def aes_256_ecb_row_def
      aes_128_cbc_info_def aes_192_cbc_info_def aes_256_cbc_info_def aes_128_cfb128_info_def aes_192_cfb128_info_def aes_256_cfb128_info_def
      aes_128_ofb_info_def aes_192_ofb_info_def aes_256_ofb_info_def aes_128_ctr_info_def aes_192_ctr_info_def aes_256_ctr_info_def
      aes_128_xts_info_def aes_256_xts_info_def aes_128_gcm_info_def aes_192_gcm_info_def aes_256_gcm_info_def gcm_aes_info_def)

lemma gcm_row_found:
  assumes "bits \<in> {128, 192, 256}"
  shows "\<exists>i. row_from_values ID_AES bits MODE_GCM = Some i \<and> gcm_row i \<and> row_key_bitlen i = bits"
  using assms by (elim insertE emptyE) (simp_all add: gcm_rows gcm_row_def aes_128_gcm_info_def aes_192_gcm_info_def aes_256_gcm_info_def)

lemma aead_open_ready:
  assumes "bits \<in> {128, 192, 256}" and "bits div 8 \<le> length key" and "op \<in> {MBEDTLS_ENCRYPT, MBEDTLS_DECRYPT}"
  shows "\<exists>ctx i g aes. aead_open cpuid key bits op = Some ctx \<and> g_info ctx = Some i \<and> gcm_row i \<and> g_operation ctx = op \<and>
    g_ctx ctx = Some (GCM_ctx g) \<and> gcm_ready cpuid g aes \<and> mbedtls_aes_setkey_enc cpuid key bits mbedtls_aes_init = Some (0, aes)"
proof -
  obtain i where i: "row_from_values ID_AES bits MODE_GCM = Some i" "gcm_row i" "row_key_bitlen i = bits" using gcm_row_found [OF assms(1)] by blast
  obtain g aes where g: "mbedtls_gcm_setkey cpuid True key bits mbedtls_gcm_init = Some (0, g)" "gcm_ready cpuid g aes"
    "mbedtls_aes_setkey_enc cpuid key bits mbedtls_aes_init = Some (0, aes)"
    using gcm_setkey_ready [OF assms(1,2), of mbedtls_gcm_init cpuid] table_space_init by (metis table_space_def)
  define c where "c = mbedtls_cipher_init_gen\<lparr>g_ctx := Some (GCM_ctx mbedtls_gcm_init), g_info := Some i\<rparr>"
  have "mbedtls_cipher_setup_gen True (Some i) mbedtls_cipher_init_gen = (0, c)"
    using i(2) by (simp add: c_def mbedtls_cipher_setup_gen_def mbedtls_cipher_set_padding_mode_def gcm_row_def gcm_aes_info_def)
  moreover have "mbedtls_cipher_setkey_gen cpuid True key bits op c = Some (0, c\<lparr>g_key_bitlen := bits, g_operation := op, g_ctx := Some (GCM_ctx g)\<rparr>)"
    using i(2,3) g(1) assms(3) by (auto simp: c_def mbedtls_cipher_setkey_gen_def gcm_row_def gcm_aes_info_def)
  ultimately show ?thesis using i g(2,3) by (simp add: aead_open_def c_def)
qed

text \<open>C16: authenticated messages through the cipher layer: what \<^verbatim>\<open>mbedtls_cipher_auth_encrypt_ext\<close> writes, ciphertext and then tag, is accepted by
  \<^verbatim>\<open>mbedtls_cipher_auth_decrypt_ext\<close> and gives the message back; with any other tag in its place the result is
  \<^verbatim>\<open>MBEDTLS_ERR_CIPHER_AUTH_FAILED\<close> and an output of zeros.\<close>
theorem aead_ext_authentic:
  assumes "bits \<in> {128, 192, 256}" and "bits div 8 \<le> length key" and "gcm_lengths iv A P tag_len"
    and "\<not> bad_overlap dist1 P" and "\<not> bad_overlap dist2 P" and "length P + tag_len \<le> room1" and "length P \<le> room2" and "length T' = tag_len"
  shows "\<exists>e d e' d' C T. aead_open c1 key bits MBEDTLS_ENCRYPT = Some e \<and> aead_open c2 key bits MBEDTLS_DECRYPT = Some d \<and>
    mbedtls_cipher_auth_encrypt_ext c1 dist1 iv A P room1 olen1 tag_len e = Some (0, length (C @ T), C, T, e') \<and>
    length C = length P \<and> length T = tag_len \<and>
    mbedtls_cipher_auth_decrypt_ext c2 dist2 iv A (C @ T') room2 olen2 tag_len d =
      (if T' = T then Some (0, length P, P, d') else Some (MBEDTLS_ERR_CIPHER_AUTH_FAILED, length P, replicate (length P) 0, d'))"
proof -
  obtain e ei eg a where e: "aead_open c1 key bits MBEDTLS_ENCRYPT = Some e" "g_info e = Some ei" "gcm_row ei"
    "g_ctx e = Some (GCM_ctx eg)" "gcm_ready c1 eg a" "mbedtls_aes_setkey_enc c1 key bits mbedtls_aes_init = Some (0, a)"
    using aead_open_ready [OF assms(1,2), of MBEDTLS_ENCRYPT c1] by blast
  obtain d di dg a2 where d: "aead_open c2 key bits MBEDTLS_DECRYPT = Some d" "g_info d = Some di" "gcm_row di"
    "g_ctx d = Some (GCM_ctx dg)" "gcm_ready c2 dg a2" "mbedtls_aes_setkey_enc c2 key bits mbedtls_aes_init = Some (0, a2)"
    using aead_open_ready [OF assms(1,2), of MBEDTLS_DECRYPT c2] by blast
  have "a2 = a" by (rule setkey_enc_cpuid [OF d(6) e(6)])
  with d(5) have "gcm_ready c2 dg a" by simp
  from crypt_decrypt_ready [OF e(5) this assms(3,4,5,8)] obtain C T eg' dg'
    where g: "mbedtls_gcm_crypt_and_tag c1 MBEDTLS_GCM_ENCRYPT dist1 iv A P tag_len eg = Some (0, C, T, eg')" "length C = length P" "length T = tag_len"
      "mbedtls_gcm_auth_decrypt c2 dist2 iv A T' C dg = (if T' = T then Some (0, P, dg') else Some (MBEDTLS_ERR_GCM_AUTH_FAILED, replicate (length P) 0, dg'))"
    by blast
  have small: "length P + tag_len < 2 ^ 64" using assms(3) by (simp add: gcm_lengths_def)
  have "mbedtls_cipher_auth_encrypt_ext c1 dist1 iv A P room1 olen1 tag_len e = Some (0, length (C @ T), C, T, e\<lparr>g_ctx := Some (GCM_ctx eg')\<rparr>)"
    using e(2-4) g(1-3) assms(6) small by (simp add: mbedtls_cipher_auth_encrypt_ext_def mbedtls_cipher_aead_encrypt_def gcm_row_def)
  moreover have "mbedtls_cipher_auth_decrypt_ext c2 dist2 iv A (C @ T') room2 olen2 tag_len d =
      (if T' = T then Some (0, length P, P, d\<lparr>g_ctx := Some (GCM_ctx dg')\<rparr>)
       else Some (MBEDTLS_ERR_CIPHER_AUTH_FAILED, length P, replicate (length P) 0, d\<lparr>g_ctx := Some (GCM_ctx dg')\<rparr>))"
    using d(2-4) g(2-4) assms(7,8)
    by (simp add: mbedtls_cipher_auth_decrypt_ext_def mbedtls_cipher_aead_decrypt_def MBEDTLS_ERR_GCM_AUTH_FAILED_def Let_def gcm_row_def)
  ultimately show ?thesis using e(1) d(1) g(2,3) by blast
qed

theorem aead_ext_authentic_witness:
  "\<exists>e d e' d' C T. aead_open 0 demo_key 128 MBEDTLS_ENCRYPT = Some e \<and> aead_open 2 demo_key 128 MBEDTLS_DECRYPT = Some d \<and>
    mbedtls_cipher_auth_encrypt_ext 0 0 demo_iv [1] [2, 3] 18 0 16 e = Some (0, length (C @ T), C, T, e') \<and>
    length C = length [2, 3 :: u8] \<and> length T = 16 \<and>
    mbedtls_cipher_auth_decrypt_ext 2 0 demo_iv [1] (C @ replicate 16 0) 2 0 16 d =
      (if replicate 16 0 = T then Some (0, length [2, 3 :: u8], [2, 3], d')
       else Some (MBEDTLS_ERR_CIPHER_AUTH_FAILED, length [2, 3 :: u8], replicate (length [2, 3 :: u8]) 0, d'))"
  by (rule aead_ext_authentic) (simp_all add: gcm_lengths_def demo_iv_def)

text \<open>A message given to the layer call by call; the calls up to the tag.\<close>

lemma gcm_calls:
  assumes "g_info ctx = Some i" "gcm_row i" "g_operation ctx = op" "op \<in> {MBEDTLS_ENCRYPT, MBEDTLS_DECRYPT}" "g_ctx ctx = Some (GCM_ctx g)"
    "gcm_ready cpuid g aes" and l: "gcm_lengths iv A P tag_len" and "length iv \<le> 16" and "\<not> bad_overlap distance P"
  defines "j0 \<equiv> nist_J0 (gcm_mul (gcm_H aes)) iv"
  shows "\<exists>c1 c2 c3 g3. mbedtls_cipher_set_iv cpuid iv ctx = Some (0, c1) \<and> mbedtls_cipher_update_ad cpuid A c1 = Some (0, c2) \<and>
    mbedtls_cipher_update_gen cpuid distance P c2 = Some (0, Some (length P), gctr (block_enc aes) (inc32 j0) P, c3) \<and>
    c3 = ctx\<lparr>g_ctx := Some (GCM_ctx g3)\<rparr> \<and> gcm_stream cpuid g3 aes op j0 A P"
proof -
  note l = l [unfolded gcm_lengths_def]
  have op: "op \<in> {MBEDTLS_GCM_ENCRYPT, MBEDTLS_GCM_DECRYPT}"
    using assms(4) by (simp add: MBEDTLS_ENCRYPT_def MBEDTLS_DECRYPT_def MBEDTLS_GCM_ENCRYPT_def MBEDTLS_GCM_DECRYPT_def)
  have iv: "iv \<noteq> []" "length iv < 2 ^ 61" using l by auto
  obtain g1 where g1: "mbedtls_gcm_starts cpuid op iv g = Some (0, g1)" "gcm_stream cpuid g1 aes op j0 [] []"
    using starts_stream [OF assms(6) op iv] unfolding j0_def by blast
  obtain g2 where g2: "mbedtls_gcm_update_ad cpuid A g1 = (0, g2)" "gcm_stream cpuid g2 aes op j0 A []"
    using update_ad_stream [OF g1(2), of A] l by simp blast
  obtain g3 os where g3: "mbedtls_gcm_update cpuid distance (length P) P g2 = Some (0, Some (length P), os, g3)"
    "gcm_stream cpuid g3 aes op j0 A P" "fst (keystream (block_enc aes) 0 P j0) = os"
    using update_stream [OF g2(2), of P "length P" distance] l assms(9) by simp blast
  have os: "os = gctr (block_enc aes) (inc32 j0) P"
    using g3(3) gcm.keystream_gctr [of j0 aes P] length_J0 by (simp add: j0_def)
  have i: "row_mode i = MODE_GCM" "row_flags i AND MBEDTLS_CIPHER_VARIABLE_IV_LEN \<noteq> 0" "row_block_size i = 16"
    using assms(2) by (simp_all add: gcm_row_def MBEDTLS_CIPHER_VARIABLE_IV_LEN_def)
  have "mbedtls_cipher_set_iv cpuid iv ctx = Some (0, ctx\<lparr>g_ctx := Some (GCM_ctx g1)\<rparr>)"
    using assms(1,3,5,8) i g1(1) by (simp add: mbedtls_cipher_set_iv_def MBEDTLS_MAX_IV_LENGTH_def)
  moreover have "mbedtls_cipher_update_ad cpuid A (ctx\<lparr>g_ctx := Some (GCM_ctx g1)\<rparr>) = Some (0, ctx\<lparr>g_ctx := Some (GCM_ctx g2)\<rparr>)"
    using assms(1) i g2(1) by (simp add: mbedtls_cipher_update_ad_def)
  moreover have "mbedtls_cipher_update_gen cpuid distance P (ctx\<lparr>g_ctx := Some (GCM_ctx g2)\<rparr>) =
      Some (0, Some (length P), gctr (block_enc aes) (inc32 j0) P, ctx\<lparr>g_ctx := Some (GCM_ctx g3)\<rparr>)"
    using assms(1) i g3(1) os by (simp add: mbedtls_cipher_update_gen_def get_block_size_def)
  ultimately show ?thesis using g3(2) by blast
qed

lemma ct_memcmp_zero: "length a = length b \<Longrightarrow> mbedtls_ct_memcmp a b (length a) = 0 \<longleftrightarrow> a = b"
  unfolding mbedtls_ct_memcmp_def uint_0_iff foldl_or_zero xor_zero_iff by (auto intro: nth_equalityI)

text \<open>The tag that the layer writes after those calls, and its comparison with a given one.\<close>

lemma tag_calls:
  assumes "g_info ctx = Some i" "gcm_row i" "g_operation ctx = op" "gcm_stream cpuid g aes op j0 A P" "g_ctx ctx = Some (GCM_ctx g)"
    and "4 \<le> tag_len" "tag_len \<le> 16" and "length A < 2 ^ 61"
  defines "T \<equiv> take tag_len (nist_tag (block_enc aes) (gcm_mul (gcm_H aes)) j0 A (hashed op P (gctr (block_enc aes) (inc32 j0) P)))"
  shows "op = MBEDTLS_ENCRYPT \<Longrightarrow> \<exists>ctx'. mbedtls_cipher_write_tag cpuid tag_len ctx = Some (0, T, ctx')"
    and "op = MBEDTLS_DECRYPT \<Longrightarrow> length T' = tag_len \<Longrightarrow>
      \<exists>ctx'. mbedtls_cipher_check_tag cpuid T' ctx = Some (if T' = T then 0 else MBEDTLS_ERR_CIPHER_AUTH_FAILED, ctx')"
proof -
  have "length j0 = 16" using assms(4) by (simp add: gcm_stream_def)
  then have k: "fst (keystream (block_enc aes) 0 P j0) = gctr (block_enc aes) (inc32 j0) P" by (rule gcm.keystream_gctr)
  obtain g' where g: "mbedtls_gcm_finish cpuid tag_len g = (0, T, g')"
    using finish_stream [OF assms(4,6,7,8)] unfolding k T_def by blast
  have m: "row_mode i = MODE_GCM" using assms(2) by (simp add: gcm_row_def)
  show "op = MBEDTLS_ENCRYPT \<Longrightarrow> \<exists>ctx'. mbedtls_cipher_write_tag cpuid tag_len ctx = Some (0, T, ctx')"
    using assms(1,3,5) m g by (simp add: mbedtls_cipher_write_tag_def)
  assume d: "op = MBEDTLS_DECRYPT" and T': "length T' = tag_len"
  have "length T = tag_len" using assms(7) by (simp add: T_def nist_tag_hash)
  with T' have "mbedtls_ct_memcmp T' T tag_len = 0 \<longleftrightarrow> T' = T" using ct_memcmp_zero [of T' T] by simp
  then show "\<exists>ctx'. mbedtls_cipher_check_tag cpuid T' ctx = Some (if T' = T then 0 else MBEDTLS_ERR_CIPHER_AUTH_FAILED, ctx')"
    using assms(1,3,5,7) m g d T' by (simp add: mbedtls_cipher_check_tag_def)
qed

text \<open>C17: an authenticated message given to the cipher layer call by call: iv, additional data, data, and the tag written at the end of
  encryption and checked at the end of decryption; the check succeeds exactly for the written tag, and the data is decrypted in either case.\<close>
theorem cipher_tag_roundtrip:
  assumes "bits \<in> {128, 192, 256}" and "bits div 8 \<le> length key" and l: "gcm_lengths iv A P tag_len" and "length iv \<le> 16"
    and "\<not> bad_overlap dist1 P" and "\<not> bad_overlap dist2 P" and "length T' = tag_len"
  shows "\<exists>e e1 e2 e3 e4 d d1 d2 d3 d4 C T. aead_open c1 key bits MBEDTLS_ENCRYPT = Some e \<and> mbedtls_cipher_set_iv c1 iv e = Some (0, e1) \<and>
    mbedtls_cipher_update_ad c1 A e1 = Some (0, e2) \<and> mbedtls_cipher_update_gen c1 dist1 P e2 = Some (0, Some (length P), C, e3) \<and>
    mbedtls_cipher_write_tag c1 tag_len e3 = Some (0, T, e4) \<and>
    aead_open c2 key bits MBEDTLS_DECRYPT = Some d \<and> mbedtls_cipher_set_iv c2 iv d = Some (0, d1) \<and>
    mbedtls_cipher_update_ad c2 A d1 = Some (0, d2) \<and> mbedtls_cipher_update_gen c2 dist2 C d2 = Some (0, Some (length P), P, d3) \<and>
    mbedtls_cipher_check_tag c2 T' d3 = Some (if T' = T then 0 else MBEDTLS_ERR_CIPHER_AUTH_FAILED, d4)"
proof -
  obtain e i g a where e: "aead_open c1 key bits MBEDTLS_ENCRYPT = Some e" "g_info e = Some i" "gcm_row i" "g_operation e = MBEDTLS_ENCRYPT"
    "g_ctx e = Some (GCM_ctx g)" "gcm_ready c1 g a" "mbedtls_aes_setkey_enc c1 key bits mbedtls_aes_init = Some (0, a)"
    using aead_open_ready [OF assms(1,2), of MBEDTLS_ENCRYPT c1] by blast
  obtain d j h a2 where d: "aead_open c2 key bits MBEDTLS_DECRYPT = Some d" "g_info d = Some j" "gcm_row j" "g_operation d = MBEDTLS_DECRYPT"
    "g_ctx d = Some (GCM_ctx h)" "gcm_ready c2 h a2" "mbedtls_aes_setkey_enc c2 key bits mbedtls_aes_init = Some (0, a2)"
    using aead_open_ready [OF assms(1,2), of MBEDTLS_DECRYPT c2] by blast
  have a: "a2 = a" by (rule setkey_enc_cpuid [OF d(7) e(7)])
  let ?j0 = "nist_J0 (gcm_mul (gcm_H a)) iv"
  let ?C = "gctr (block_enc a) (inc32 ?j0) P"
  have C: "length ?C = length P" using gcm.length_gctr [OF length_J0] by simp
  have l': "gcm_lengths iv A ?C tag_len" "\<not> bad_overlap dist2 ?C" using l assms(6) C by (simp_all add: gcm_lengths_def)
  have t: "4 \<le> tag_len" "tag_len \<le> 16" "length A < 2 ^ 61" using l by (simp_all add: gcm_lengths_def)
  obtain e1 e2 e3 g3 where E: "mbedtls_cipher_set_iv c1 iv e = Some (0, e1)" "mbedtls_cipher_update_ad c1 A e1 = Some (0, e2)"
    "mbedtls_cipher_update_gen c1 dist1 P e2 = Some (0, Some (length P), ?C, e3)"
    "e3 = e\<lparr>g_ctx := Some (GCM_ctx g3)\<rparr>" "gcm_stream c1 g3 a MBEDTLS_ENCRYPT ?j0 A P"
    using gcm_calls [OF e(2-4) insertI1 e(5,6) l assms(4,5)] by blast
  obtain d1 d2 d3 h3 where D: "mbedtls_cipher_set_iv c2 iv d = Some (0, d1)" "mbedtls_cipher_update_ad c2 A d1 = Some (0, d2)"
    "mbedtls_cipher_update_gen c2 dist2 ?C d2 = Some (0, Some (length P), P, d3)"
    "d3 = d\<lparr>g_ctx := Some (GCM_ctx h3)\<rparr>" "gcm_stream c2 h3 a MBEDTLS_DECRYPT ?j0 A ?C"
    using gcm_calls [OF d(2-4) _ d(5) d(6) [unfolded a] l'(1) assms(4) l'(2)] C gcm.gctr_gctr [of a "inc32 ?j0" P] by auto
  have "g_info e3 = Some i" "g_operation e3 = MBEDTLS_ENCRYPT" "g_ctx e3 = Some (GCM_ctx g3)" using e(2,4) E(4) by simp_all
  note w = tag_calls(1) [OF this(1) e(3) this(2) E(5) this(3) t refl]
  have "g_info d3 = Some j" "g_operation d3 = MBEDTLS_DECRYPT" "g_ctx d3 = Some (GCM_ctx h3)" using d(2,4) D(4) by simp_all
  note c = tag_calls(2) [OF this(1) d(3) this(2) D(5) this(3) t refl assms(7)]
  have "hashed MBEDTLS_ENCRYPT P ?C = ?C" "hashed MBEDTLS_DECRYPT ?C (gctr (block_enc a) (inc32 ?j0) ?C) = ?C"
    by (simp_all add: hashed_def MBEDTLS_ENCRYPT_def MBEDTLS_DECRYPT_def MBEDTLS_GCM_DECRYPT_def)
  with w c E(1-3) D(1-3) e(1) d(1) show ?thesis by metis
qed

theorem cipher_tag_roundtrip_witness:
  "\<exists>e e1 e2 e3 e4 d d1 d2 d3 d4 C T. aead_open 0 demo_key 128 MBEDTLS_ENCRYPT = Some e \<and> mbedtls_cipher_set_iv 0 demo_iv e = Some (0, e1) \<and>
    mbedtls_cipher_update_ad 0 [1] e1 = Some (0, e2) \<and> mbedtls_cipher_update_gen 0 0 [2, 3] e2 = Some (0, Some (length [2, 3 :: u8]), C, e3) \<and>
    mbedtls_cipher_write_tag 0 16 e3 = Some (0, T, e4) \<and>
    aead_open 2 demo_key 128 MBEDTLS_DECRYPT = Some d \<and> mbedtls_cipher_set_iv 2 demo_iv d = Some (0, d1) \<and>
    mbedtls_cipher_update_ad 2 [1] d1 = Some (0, d2) \<and> mbedtls_cipher_update_gen 2 0 C d2 = Some (0, Some (length [2, 3 :: u8]), [2, 3], d3) \<and>
    mbedtls_cipher_check_tag 2 (replicate 16 0) d3 = Some (if replicate 16 0 = T then 0 else MBEDTLS_ERR_CIPHER_AUTH_FAILED, d4)"
  by (rule cipher_tag_roundtrip) (simp_all add: gcm_lengths_def demo_iv_def)

section \<open>Single blocks\<close>

text \<open>What the part of the layer below GCM sees of a row and of a context.\<close>

definition row_view :: "info_row \<Rightarrow> cipher_info_t" where
  "row_view i = \<lparr>info_key_bitlen = row_key_bitlen i, info_name = row_name i, info_iv_size = row_iv_size i, info_flags = row_flags i,
     info_block_size = row_block_size i\<rparr>"

definition ecb_view :: "cipher_context_gen \<Rightarrow> cipher_context_t" where
  "ecb_view ctx = \<lparr>cipher_info = map_option row_view (g_info ctx), key_bitlen = g_key_bitlen ctx, operation = g_operation ctx,
     cipher_ctx = (case g_ctx ctx of Some (AES_ctx aes) \<Rightarrow> Some aes | _ \<Rightarrow> None)\<rparr>"

lemma ecb_rows: "map_option row_view (row_from_values ID_AES bits MODE_ECB) = mbedtls_cipher_info_from_values bits"
  by (simp add: row_from_values_def cipher_definitions_def mbedtls_cipher_info_from_values_def aes_ecb_definitions_def
      aes_128_ecb_row_def aes_192_ecb_row_def aes_256_ecb_row_def aes_128_ecb_info_def aes_192_ecb_info_def aes_256_ecb_info_def
      aes_128_cbc_info_def aes_192_cbc_info_def aes_256_cbc_info_def aes_128_cfb128_info_def aes_192_cfb128_info_def aes_256_cfb128_info_def
      aes_128_ofb_info_def aes_192_ofb_info_def aes_256_ofb_info_def aes_128_ctr_info_def aes_192_ctr_info_def aes_256_ctr_info_def
      aes_128_xts_info_def aes_256_xts_info_def aes_128_gcm_info_def aes_192_gcm_info_def aes_256_gcm_info_def aes_info_def row_view_def)

lemma ecb_row_found: "row_from_values ID_AES bits MODE_ECB = Some i \<Longrightarrow> row_mode i = MODE_ECB \<and> row_base i = aes_info"
  by (auto simp: row_from_values_def find_Some_iff cipher_definitions_def nth_Cons' aes_128_ecb_row_def aes_192_ecb_row_def aes_256_ecb_row_def
      aes_128_cbc_info_def aes_192_cbc_info_def aes_256_cbc_info_def aes_128_cfb128_info_def aes_192_cfb128_info_def aes_256_cfb128_info_def
      aes_128_ofb_info_def aes_192_ofb_info_def aes_256_ofb_info_def aes_128_ctr_info_def aes_192_ctr_info_def aes_256_ctr_info_def
      aes_128_xts_info_def aes_256_xts_info_def aes_128_gcm_info_def aes_192_gcm_info_def aes_256_gcm_info_def split: if_splits)

text \<open>GCM is built on a smaller model of the layer, for single blocks of AES. It is the part of this one that GCM uses: the same row is
  found, and set-up, key set-up and update have the same status, output and context, seen through its fields.\<close>

lemma ecb_layer_agrees:
  assumes "row_from_values ID_AES bits MODE_ECB = Some i" and "g_info ctx = Some i"
  shows "mbedtls_cipher_info_from_values bits = Some (row_view i) \<and>
    mbedtls_cipher_setup ok (Some (row_view i)) (ecb_view ctx) = apsnd ecb_view (mbedtls_cipher_setup_gen ok (Some i) ctx) \<and>
    mbedtls_cipher_setkey cpuid key keybits op (ecb_view ctx) = map_option (apsnd ecb_view) (mbedtls_cipher_setkey_gen cpuid ok key keybits op ctx) \<and>
    mbedtls_cipher_update cpuid (ecb_view ctx) inp =
      map_option (\<lambda>(ret, olen, out, ctx'). (ret, out)) (mbedtls_cipher_update_gen cpuid distance inp ctx)"
proof (intro conjI)
  note i = ecb_row_found [OF assms(1)]
  show "mbedtls_cipher_info_from_values bits = Some (row_view i)" using ecb_rows [of bits] assms(1) by simp
  show "mbedtls_cipher_setup ok (Some (row_view i)) (ecb_view ctx) = apsnd ecb_view (mbedtls_cipher_setup_gen ok (Some i) ctx)"
    using i by (simp add: mbedtls_cipher_setup_def mbedtls_cipher_setup_gen_def mbedtls_cipher_set_padding_mode_def aes_info_def aes_ctx_alloc_def
        ecb_view_def mbedtls_cipher_init_gen_def mbedtls_cipher_init_def MBEDTLS_DECRYPT_def)
  show "mbedtls_cipher_setkey cpuid key keybits op (ecb_view ctx) = map_option (apsnd ecb_view) (mbedtls_cipher_setkey_gen cpuid ok key keybits op ctx)"
    using i assms(2)
    by (auto simp: mbedtls_cipher_setkey_def mbedtls_cipher_setkey_gen_def aes_info_def ecb_view_def row_view_def Let_def
        split: option.splits alg_context.splits bind_splits)
  show "mbedtls_cipher_update cpuid (ecb_view ctx) inp =
      map_option (\<lambda>(ret, olen, out, ctx'). (ret, out)) (mbedtls_cipher_update_gen cpuid distance inp ctx)"
    using i assms(2)
    by (auto simp: mbedtls_cipher_update_def mbedtls_cipher_update_gen_def aes_info_def ecb_view_def row_view_def Let_def
        mbedtls_cipher_get_block_size_def get_block_size_def split: option.splits alg_context.splits bind_splits)
qed

end
