(* ===== verification/Spec2Isabelle.thy ===== *)
theory Spec2Isabelle
  imports Prelude Jenkins_Hash Slabs Cache Cache_Store Cache_Refine Cache_Runs Cache_Dump
    Tlbcache Trace AES_Tables AES AES_Correct AES_Gen AES_NI AES_Modes AES_Modes_Correct Cache_Wrapper Workload Memtrace Simulator
    GCM_Field GCM_Clmul Cipher GCM GCM_Spec GCM_Correct GCM_Props
    Padding Cipher_Table Cipher_Modes Cipher_CBC Cipher_Props
begin

text \<open>
  \<^bold>\<open>A verification of the compartmentalised cache and of its cache and TLB simulator\<close>

  The program has two halves. The first (\<^verbatim>\<open>src/src\<close>) is a small memcached: a hash table of items
  that live in chunks of a slab allocator, behind a front end that decrypts requests and encrypts
  replies with AES from mbedtls. The second (\<^verbatim>\<open>src/memtrace/pintool\<close>, \<^verbatim>\<open>src/tracing\<close>) measures the first: a
  tool records the memory accesses of a run as text, and a simulator reads the text and counts the
  misses in caches and TLBs.

  \<^bold>\<open>Theories and the code they model\<close>

  \<^item> \<open>Prelude\<close>: the machine types (\<open>u8\<close> to \<open>u64\<close>, addresses), caller buffers (\<open>cbuf\<close>: an address, a length
    and contents), and generic lemmas on words, lists and options.
  \<^item> \<open>Jenkins_Hash\<close>: \<^verbatim>\<open>jenkins_hash.c\<close>, with its three cases by alignment, the variant for memory
    checkers and the big-endian version. One locale, \<open>content_hash\<close>: what a client may assume of a hash
    is that it depends on the key's bytes only.
  \<^item> \<open>Slabs\<close>: \<^verbatim>\<open>slabs.c\<close>. The heap maps addresses to items; the state is the table of size classes.
    \<^verbatim>\<open>mmap\<close>, \<^verbatim>\<open>realloc\<close> and \<^verbatim>\<open>calloc\<close> are fields of an argument (\<open>os\<close>) with the documented behaviour as the
    hypotheses \<open>mmap_ok\<close>, \<open>realloc_ok\<close> and \<open>calloc_ok\<close>. The locale \<open>allocator\<close> states the ownership laws of
    alloc and free; the relation \<open>slab_run\<close> holds for the states that a client's allocations, releases and
    writes reach, with the chunks in use.
  \<^item> \<open>Cache\<close>, \<open>Cache_Store\<close>, \<open>Cache_Refine\<close>, \<open>Cache_Runs\<close>, \<open>Cache_Dump\<close>: \<^verbatim>\<open>cache.c\<close>. \<open>Cache\<close> holds the operations on the
    chained table, \<open>Cache_Store\<close> the representation invariant, \<open>Cache_Refine\<close> the abstract store
    (\<open>kv\<close>: a map and the number of free chunks per class) and the refinement of the operations to it,
    \<open>Cache_Runs\<close> sequences of requests through the locale \<open>kv_store\<close>, the reachable states and the
    properties, \<open>Cache_Dump\<close> the text that \<^verbatim>\<open>dump_cache\<close> prints.
  \<^item> \<open>AES_Tables\<close>, \<open>AES_Gen\<close>, \<open>AES\<close>, \<open>AES_Correct\<close>: the tables of \<^verbatim>\<open>aes.c\<close>, their generation at run time, the key
    schedules and rounds by tables, and FIPS-197 as the reference they are proved against.
  \<^item> \<open>AES_NI\<close>: the assembly of \<^verbatim>\<open>aesni.c\<close> over a model of the instructions it uses, the choice between
    tables and instructions in \<^verbatim>\<open>aes.c\<close>, and the correctness of both. What the processor supports is an
    argument, the feature word of \<^verbatim>\<open>cpuid\<close>; without the AES instructions the block function of the
    assembly is \<open>None\<close>.
  \<^item> \<open>AES_Modes\<close>, \<open>AES_Modes_Correct\<close>: CBC, XTS, CFB128, CFB8, OFB and CTR of \<^verbatim>\<open>aes.c\<close>, with the locales
    \<open>block_cipher\<close> (a pair of inverse block functions) and \<open>stream_mode\<close> (a byte-wise mode).
  \<^item> \<open>GCM_Field\<close>, \<open>GCM_Clmul\<close>: multiplication in the field of GCM, by the tables of \<^verbatim>\<open>gcm.c\<close> and by the carry-less
    products of \<^verbatim>\<open>aesni.c\<close>, both against the bit by bit multiplication of NIST SP 800-38D.
  \<^item> \<open>Cipher\<close>: the part of \<^verbatim>\<open>cipher.c\<close> and \<^verbatim>\<open>cipher_wrap.c\<close> that GCM calls: contexts of AES in ECB mode.
  \<^item> \<open>GCM\<close>, \<open>GCM_Spec\<close>, \<open>GCM_Correct\<close>, \<open>GCM_Props\<close>: \<^verbatim>\<open>gcm.c\<close>. \<open>GCM\<close> holds the functions, \<open>GCM_Spec\<close> the standard, its
    byte by byte form and the locale \<open>gcm_primitives\<close> (a block cipher and a multiplication), \<open>GCM_Correct\<close>
    the interpretation on AES and the relation \<open>gcm_stream\<close> between a context and the data it has been
    given, which every call keeps, and \<open>GCM_Props\<close> the properties.
  \<^item> \<open>Padding\<close>: the padding schemes of \<^verbatim>\<open>cipher.c\<close>, with the locales \<open>padding_scheme\<close> (what is padded is found again) and
    \<open>exact_padding\<close> (nothing else is accepted), a sublocale of the first; four interpretations.
  \<^item> \<open>Cipher_Table\<close>, \<open>Cipher_Modes\<close>: the whole of the cipher layer for AES. \<open>Cipher_Table\<close> holds the adapters and rows of
    \<^verbatim>\<open>cipher_wrap.c\<close>, with the structures of function pointers as records of functions, \<open>Cipher_Modes\<close> the operations of
    \<^verbatim>\<open>cipher.c\<close> on contexts in seven modes. They lie above GCM, since a context may hold a GCM context.
  \<^item> \<open>Cipher_CBC\<close>, \<open>Cipher_Props\<close>: CBC through the layer. The specification \<open>chain_in\<close> takes input in pieces over a function
    on blocks (locale \<open>chain\<close>, interpreted on CBC encryption and decryption), the update of the code refines it, and
    \<open>Cipher_Props\<close> has the properties of messages with their padding, of authenticated messages, and the
    agreement of the layer with \<open>Cipher\<close>.
  \<^item> \<open>Cache_Wrapper\<close>: \<^verbatim>\<open>cache_wrapper.c\<close>, on top of the store and of AES. The code runs the AES instructions without asking
    for them, so that its results need \<open>has_aesni\<close> of the feature word.
  \<^item> \<open>Workload\<close>: \<^verbatim>\<open>main.c\<close> of the store: the keys, their encryption, and the loops of main.
  \<^item> \<open>Tlbcache\<close>: \<^verbatim>\<open>tlbcache.c\<close>, \<^verbatim>\<open>util.h\<close> and \<^verbatim>\<open>config.h\<close> of the simulator. Its reference is \<open>two_level\<close>, two levels of
    least-recently-used replacement over maps from set numbers to lists of tags, run on the pages or lines that
    the bytes of an access lie in (\<open>touched\<close>).
  \<^item> \<open>Trace\<close>: \<^verbatim>\<open>main.c\<close> of the simulator and the lines that \<^verbatim>\<open>memtrace.cpp\<close> prints.
  \<^item> \<open>Memtrace\<close>: the rest of \<^verbatim>\<open>memtrace.cpp\<close>: what it inserts, what runs in the traced program, and its log.
  \<^item> \<open>Simulator\<close>: the simulator as a process: arguments, timer, the file it reads and the text it prints.

  \<^bold>\<open>Conventions\<close>

  Integers have the width and the wrap-around of the C types; signed values are words read with \<open>sint\<close>.
  An operation that can fault returns an option: \<open>None\<close> is an access outside an object, a signed
  overflow, a failed assertion, a use of a null pointer or an illegal instruction. Loops over linked chains, and those whose
  counter may wrap, are \<^verbatim>\<open>partial_function (option)\<close>, where not returning is \<open>None\<close> too; every property
  about a result therefore also says that the operation returns. Other loops are total functions over the
  counter; no fuel is used anywhere.

  \<^bold>\<open>What the lemmas show\<close>

  The store: every operation keeps the invariant of table, chains and allocator, refines the abstract
  store, and the abstract store gives set/get round trips, the capacity of 524288 pairs of up to 30
  bytes, and the exact behaviour when the pool is exhausted or a pair is too large. The hash is a
  function of the key's bytes. Over every history of calls the allocator hands out chunks that are not in use,
  as long as there are any, and its accounting is exact. AES
  by tables and by instructions is the cipher of the standard, the modes are inverse to themselves,
  GCM computes the ciphertext and the tag of the standard however a message is divided into calls and
  accepts no other tag. Through the cipher layer, CBC messages may be passed in pieces of any lengths, padding is
  written, found and checked exactly, and tags are checked. On a processor with the AES
  instructions the front end answers encrypted requests of up to 112 bytes with what the store holds, up to 124
  bytes of it, and the driver of the workload succeeds for up to 524288 items and finds each of them again. The simulator
  replaces least recently used entries and counts exactly the misses of the pages and lines that an access touches, and reading a printed trace has the
  effect of the events; the tracing tool loses none of them as long as their lines are short, and the printed report gives the counters. Several theorems record faults: requests that no size class holds, a failed
  mapping, a processor without the AES instructions, requests of more than 112 bytes, forged lengths, the loss of the old value by a set that
  fails, and plaintext that is left behind when a tag length is refused.

  \<^bold>\<open>Not modelled\<close>

  The signals of the simulator's timer (their handler is empty), the Pin
  framework itself (the order in which it calls the inserted functions is an argument), the Padlock branches of \<^verbatim>\<open>aes.c\<close> (switched off on
  64-bit x86), the self tests of mbedtls, the other ciphers of its cipher layer with CCM and key wrapping (their
  branches call code of their own), the layer's list of supported ciphers and its PSA configuration (off), overlapping buffers other
  than equal ones, the rest of mbedtls, which the program does not call, and the
  Python script that starts the programs.
\<close>

end
